(* ===== verification/Prelude.thy ===== *)
theory Prelude
  imports Main "HOL-Library.Word" "HOL-Library.Monad_Syntax"
begin

text \<open>
  Shared vocabulary of the development.

  The program is C, so the model computes in the option monad: \<open>None\<close> is the outcome of a
  run that leaves defined behaviour (a NULL or dangling pointer is dereferenced, an
  indeterminate value is read, an array is overrun) or that calls \<open>abort()\<close>. State is
  passed explicitly. Pointers are natural numbers, \<open>NULL\<close> is \<open>0\<close>; machine integers keep
  their width as words.
\<close>

unbundle bit_operations_syntax

type_synonym byte = "8 word"
type_synonym u16 = "16 word"
type_synonym u32 = "32 word"
type_synonym u64 = "64 word"
type_synonym ptr = nat

abbreviation (input) NULL :: ptr where "NULL \<equiv> 0"

named_theorems heap_simps \<open>reading a heap cell after an update\<close>
named_theorems frame \<open>what an operation leaves unchanged\<close>

section \<open>Options and partial maps\<close>

text \<open>\<open>head_ptr\<close> is the pointer to the first element of a linked list of cells.\<close>

fun head_ptr :: "ptr list \<Rightarrow> ptr" where
  "head_ptr [] = NULL"
| "head_ptr (x # xs) = x"

text \<open>Apply a function to the cell a pointer designates; a bad pointer has no cell.\<close>

definition upd_cell :: "ptr \<Rightarrow> ('c \<Rightarrow> 'c) \<Rightarrow> (ptr \<rightharpoonup> 'c) \<Rightarrow> (ptr \<rightharpoonup> 'c) option" where
  "upd_cell p f h = (case h p of None \<Rightarrow> None | Some c \<Rightarrow> Some (h(p \<mapsto> f c)))"

lemma upd_cell_Some [heap_simps]: "h p = Some c \<Longrightarrow> upd_cell p f h = Some (h(p \<mapsto> f c))"
  by (simp add: upd_cell_def)

lemma upd_cell_None [heap_simps]: "h p = None \<Longrightarrow> upd_cell p f h = None"
  by (simp add: upd_cell_def)

lemma upd_cell_eq_Some_iff:
  "upd_cell p f h = Some h' \<longleftrightarrow> (\<exists>c. h p = Some c \<and> h' = h(p \<mapsto> f c))"
  by (auto simp: upd_cell_def split: option.splits)

text \<open>Taking apart a \<open>do\<close> block that returned.\<close>

lemma bind_SomeE: "Option.bind m f = Some y \<Longrightarrow> (\<And>x. m = Some x \<Longrightarrow> f x = Some y \<Longrightarrow> P) \<Longrightarrow> P"
  by (cases m) auto

lemma case_prod_eqE: "(case p of (x, y) \<Rightarrow> f x y) = r \<Longrightarrow> (\<And>x y. p = (x, y) \<Longrightarrow> f x y = r \<Longrightarrow> P) \<Longrightarrow> P"
  by (cases p) auto

section \<open>Lists\<close>

lemma head_ptr_eq_hd: "xs \<noteq> [] \<Longrightarrow> head_ptr xs = hd xs"
  by (cases xs) auto

lemma head_ptr_append: "head_ptr (xs @ ys) = (if xs = [] then head_ptr ys else head_ptr xs)"
  by (cases xs) auto

lemma head_ptr_NULL_iff: "0 \<notin> set xs \<Longrightarrow> head_ptr xs = NULL \<longleftrightarrow> xs = []"
  by (cases xs) auto

lemma head_ptr_in_set: "xs \<noteq> [] \<Longrightarrow> head_ptr xs \<in> set xs"
  by (cases xs) auto

end
