(* ===== verification/Talloc.thy ===== *)
theory Talloc
  imports Prelude
begin

text \<open>
  The hierarchical allocator of \<^verbatim>\<open>talloc.c\<close>: every block carries a header (a chunk) that
  links it to its siblings, its first child and, for the first child only, its parent. A
  block and its header are at a constant distance, so one address names both
  (\<open>TC_PTR_FROM_CHUNK\<close> and its inverse are the identity here).

  The model is of a process that never calls \<open>talloc_add_external\<close> (this program does
  not): \<open>tc_lock\<close> is NULL, \<open>lock\<close> and \<open>unlock\<close> do nothing, and no chunk has
  \<open>TALLOC_FLAG_EXT_ALLOC\<close> (\<open>Talloc_External\<close> is about the processes that do). \<open>malloc\<close> hands out addresses that were never used before,
  and may fail: \<open>malloc_ok\<close> says which requests succeed.
\<close>

section \<open>Chunks and the allocator's state\<close>

datatype destructor = D_null | D_minus1 | D_reference | D_client nat

text \<open>
  A name is NULL, the address 1 that marks a reference handle, a string constant, or the address of
  a block whose text is the name (\<open>talloc_strdup\<close> gives a string itself as its name).
\<close>

datatype chunk_name = NoName | MagicReference | Name string | NameAt ptr

record talloc_chunk =
  tc_next :: ptr
  tc_prev :: ptr
  tc_parent :: ptr
  tc_child :: ptr
  tc_refs :: ptr
  tc_destructor :: destructor
  tc_name :: chunk_name
  tc_size :: u64
  tc_flags :: u32

record talloc_reference_handle =
  h_next :: ptr
  h_prev :: ptr
  h_ptr :: ptr

record talloc_heap =
  chunks :: "ptr \<rightharpoonup> talloc_chunk"
  handles :: "ptr \<rightharpoonup> talloc_reference_handle"
  null_context :: ptr
  malloc_ok :: "ptr \<Rightarrow> bool"
  brk :: ptr

definition MAX_TALLOC_SIZE :: u64 where "MAX_TALLOC_SIZE = 0x7FFFFFFF"
definition TALLOC_MAGIC :: u32 where "TALLOC_MAGIC = 0xe814ec70"
definition TALLOC_FLAG_FREE :: u32 where "TALLOC_FLAG_FREE = 0x01"
definition TALLOC_FLAG_LOOP :: u32 where "TALLOC_FLAG_LOOP = 0x02"

definition magic_ok :: "u32 \<Rightarrow> bool" where
  "magic_ok flags \<longleftrightarrow> flags AND (TALLOC_FLAG_FREE OR NOT 0xF) = TALLOC_MAGIC"

text \<open>A bad magic value aborts; so does, in the model, a pointer to no chunk at all.\<close>

definition talloc_chunk_from_ptr :: "ptr \<Rightarrow> 'a talloc_heap_scheme \<Rightarrow> talloc_chunk option" where
  "talloc_chunk_from_ptr p s = do {
     tc \<leftarrow> chunks s p;
     if magic_ok (tc_flags tc) then Some tc else None }"

definition upd_chunk ::
  "ptr \<Rightarrow> (talloc_chunk \<Rightarrow> talloc_chunk) \<Rightarrow> 'a talloc_heap_scheme \<Rightarrow> 'a talloc_heap_scheme option" where
  "upd_chunk p f s = do {
     h \<leftarrow> upd_cell p f (chunks s);
     Some (s\<lparr>chunks := h\<rparr>) }"

definition upd_handle ::
  "ptr \<Rightarrow> (talloc_reference_handle \<Rightarrow> talloc_reference_handle) \<Rightarrow>
   'a talloc_heap_scheme \<Rightarrow> 'a talloc_heap_scheme option" where
  "upd_handle p f s = do {
     h \<leftarrow> upd_cell p f (handles s);
     Some (s\<lparr>handles := h\<rparr>) }"

section \<open>The list macros\<close>

text \<open>\<open>_TLIST_ADD(par->child, p)\<close>\<close>

definition tlist_add_child :: "ptr \<Rightarrow> ptr \<Rightarrow> 'a talloc_heap_scheme \<Rightarrow> 'a talloc_heap_scheme option" where
  "tlist_add_child par p s = do {
     pc \<leftarrow> chunks s par;
     if tc_child pc = NULL then do {
       s \<leftarrow> upd_chunk par (\<lambda>c. c\<lparr>tc_child := p\<rparr>) s;
       upd_chunk p (\<lambda>c. c\<lparr>tc_next := NULL, tc_prev := NULL\<rparr>) s
     } else do {
       s \<leftarrow> upd_chunk (tc_child pc) (\<lambda>c. c\<lparr>tc_prev := p\<rparr>) s;
       s \<leftarrow> upd_chunk p (\<lambda>c. c\<lparr>tc_next := tc_child pc\<rparr>) s;
       s \<leftarrow> upd_chunk p (\<lambda>c. c\<lparr>tc_prev := NULL\<rparr>) s;
       upd_chunk par (\<lambda>c. c\<lparr>tc_child := p\<rparr>) s
     } }"

text \<open>\<open>_TLIST_REMOVE(par->child, p)\<close>\<close>

definition tlist_remove_child :: "ptr \<Rightarrow> ptr \<Rightarrow> 'a talloc_heap_scheme \<Rightarrow> 'a talloc_heap_scheme option" where
  "tlist_remove_child par p s = do {
     pc \<leftarrow> chunks s par;
     c \<leftarrow> chunks s p;
     s \<leftarrow> (if p = tc_child pc then do {
         s \<leftarrow> upd_chunk par (\<lambda>x. x\<lparr>tc_child := tc_next c\<rparr>) s;
         if tc_next c \<noteq> NULL then upd_chunk (tc_next c) (\<lambda>x. x\<lparr>tc_prev := NULL\<rparr>) s else Some s
       } else do {
         s \<leftarrow> (if tc_prev c \<noteq> NULL then upd_chunk (tc_prev c) (\<lambda>x. x\<lparr>tc_next := tc_next c\<rparr>) s else Some s);
         c \<leftarrow> chunks s p;
         if tc_next c \<noteq> NULL then upd_chunk (tc_next c) (\<lambda>x. x\<lparr>tc_prev := tc_prev c\<rparr>) s else Some s
       });
     pc \<leftarrow> chunks s par;
     if p \<noteq> NULL \<and> p \<noteq> tc_child pc then upd_chunk p (\<lambda>x. x\<lparr>tc_next := NULL, tc_prev := NULL\<rparr>) s
     else Some s }"

text \<open>\<open>_TLIST_ADD(tc->refs, handle)\<close>\<close>

definition tlist_add_ref :: "ptr \<Rightarrow> ptr \<Rightarrow> 'a talloc_heap_scheme \<Rightarrow> 'a talloc_heap_scheme option" where
  "tlist_add_ref tc h s = do {
     c \<leftarrow> chunks s tc;
     if tc_refs c = NULL then do {
       s \<leftarrow> upd_chunk tc (\<lambda>x. x\<lparr>tc_refs := h\<rparr>) s;
       upd_handle h (\<lambda>x. x\<lparr>h_next := NULL, h_prev := NULL\<rparr>) s
     } else do {
       s \<leftarrow> upd_handle (tc_refs c) (\<lambda>x. x\<lparr>h_prev := h\<rparr>) s;
       s \<leftarrow> upd_handle h (\<lambda>x. x\<lparr>h_next := tc_refs c\<rparr>) s;
       s \<leftarrow> upd_handle h (\<lambda>x. x\<lparr>h_prev := NULL\<rparr>) s;
       upd_chunk tc (\<lambda>x. x\<lparr>tc_refs := h\<rparr>) s
     } }"

text \<open>\<open>_TLIST_REMOVE(ptr_tc->refs, handle)\<close>\<close>

definition tlist_remove_ref :: "ptr \<Rightarrow> ptr \<Rightarrow> 'a talloc_heap_scheme \<Rightarrow> 'a talloc_heap_scheme option" where
  "tlist_remove_ref tc h s = do {
     c \<leftarrow> chunks s tc;
     x \<leftarrow> handles s h;
     s \<leftarrow> (if h = tc_refs c then do {
         s \<leftarrow> upd_chunk tc (\<lambda>y. y\<lparr>tc_refs := h_next x\<rparr>) s;
         if h_next x \<noteq> NULL then upd_handle (h_next x) (\<lambda>y. y\<lparr>h_prev := NULL\<rparr>) s else Some s
       } else do {
         s \<leftarrow> (if h_prev x \<noteq> NULL then upd_handle (h_prev x) (\<lambda>y. y\<lparr>h_next := h_next x\<rparr>) s else Some s);
         x \<leftarrow> handles s h;
         if h_next x \<noteq> NULL then upd_handle (h_next x) (\<lambda>y. y\<lparr>h_prev := h_prev x\<rparr>) s else Some s
       });
     c \<leftarrow> chunks s tc;
     if h \<noteq> NULL \<and> h \<noteq> tc_refs c then upd_handle h (\<lambda>y. y\<lparr>h_next := NULL, h_prev := NULL\<rparr>) s
     else Some s }"

section \<open>Parents\<close>

text \<open>\<open>while (tc->prev) tc = tc->prev;\<close>\<close>

partial_function (option) first_sibling :: "ptr \<Rightarrow> 'a talloc_heap_scheme \<Rightarrow> ptr option" where
  "first_sibling tc s = do {
     c \<leftarrow> chunks s tc;
     if tc_prev c \<noteq> NULL then first_sibling (tc_prev c) s else Some tc }"

definition talloc_parent_chunk :: "ptr \<Rightarrow> 'a talloc_heap_scheme \<Rightarrow> ptr option" where
  "talloc_parent_chunk p s =
     (if p = NULL then Some NULL
      else do {
        tc \<leftarrow> talloc_chunk_from_ptr p s;
        f \<leftarrow> first_sibling p s;
        c \<leftarrow> chunks s f;
        Some (tc_parent c) })"

definition talloc_parent :: "ptr \<Rightarrow> 'a talloc_heap_scheme \<Rightarrow> ptr option" where
  "talloc_parent p s = talloc_parent_chunk p s"

definition talloc_parent_name :: "ptr \<Rightarrow> 'a talloc_heap_scheme \<Rightarrow> chunk_name option" where
  "talloc_parent_name p s = do {
     tc \<leftarrow> talloc_parent_chunk p s;
     if tc \<noteq> NULL then do { c \<leftarrow> chunks s tc; Some (tc_name c) } else Some NoName }"

text \<open>The loop of \<open>_talloc_is_parent\<close>: up through the parents, from the chunk itself.\<close>

partial_function (option) is_parent_loop :: "ptr \<Rightarrow> ptr \<Rightarrow> 'a talloc_heap_scheme \<Rightarrow> bool option" where
  "is_parent_loop tc p s =
     (if tc = NULL then Some False
      else if tc = p then Some True
      else do {
        f \<leftarrow> first_sibling tc s;
        c \<leftarrow> chunks s f;
        is_parent_loop (tc_parent c) p s })"

definition talloc_is_parent :: "ptr \<Rightarrow> ptr \<Rightarrow> 'a talloc_heap_scheme \<Rightarrow> bool option" where
  "talloc_is_parent context p s =
     (if context = NULL then Some False
      else do {
        tc \<leftarrow> talloc_chunk_from_ptr context s;
        is_parent_loop context p s })"

text \<open>
  \<open>text\<close> reads the string at an address; it has no result where there is none. \<open>name_is\<close> is
  \<open>tc->name && strcmp(tc->name, name) == 0\<close>, which reads the address 1 for a reference handle.
\<close>

definition name_is :: "(ptr \<Rightarrow> string option) \<Rightarrow> string \<Rightarrow> chunk_name \<Rightarrow> bool option" where
  "name_is text name nm = (case nm of
      NoName \<Rightarrow> Some False
    | MagicReference \<Rightarrow> None
    | Name n \<Rightarrow> Some (n = name)
    | NameAt q \<Rightarrow> map_option (\<lambda>n. n = name) (text q))"

partial_function (option) find_parent_loop ::
  "(ptr \<Rightarrow> string option) \<Rightarrow> ptr \<Rightarrow> string \<Rightarrow> 'a talloc_heap_scheme \<Rightarrow> ptr option" where
  "find_parent_loop text tc name s =
     (if tc = NULL then Some NULL
      else do {
        c \<leftarrow> chunks s tc;
        found \<leftarrow> name_is text name (tc_name c);
        if found then Some tc
        else do {
          f \<leftarrow> first_sibling tc s;
          fc \<leftarrow> chunks s f;
          find_parent_loop text (tc_parent fc) name s } })"

definition talloc_find_parent_byname ::
  "(ptr \<Rightarrow> string option) \<Rightarrow> ptr \<Rightarrow> string \<Rightarrow> 'a talloc_heap_scheme \<Rightarrow> ptr option" where
  "talloc_find_parent_byname text context name s =
     (if context = NULL then Some NULL
      else do {
        _ \<leftarrow> talloc_chunk_from_ptr context s;
        find_parent_loop text context name s })"

section \<open>Allocation\<close>

text \<open>\<open>tc_malloc\<close>: a fresh address, or NULL. The contents are indeterminate.\<close>

definition tc_malloc :: "'a talloc_heap_scheme \<Rightarrow> ptr \<times> 'a talloc_heap_scheme" where
  "tc_malloc s =
     (if malloc_ok s (brk s) then (brk s, s\<lparr>brk := Suc (brk s)\<rparr>)
      else (NULL, s\<lparr>brk := Suc (brk s)\<rparr>))"

definition init_talloc ::
  "ptr \<Rightarrow> ptr \<Rightarrow> u64 \<Rightarrow> 'a talloc_heap_scheme \<Rightarrow> (ptr \<times> 'a talloc_heap_scheme) option" where
  "init_talloc parent tc sz s =
     (if tc = NULL then Some (NULL, s)
      else do {
        let s = s\<lparr>chunks := (chunks s)(tc \<mapsto>
          \<lparr>tc_next = NULL, tc_prev = NULL, tc_parent = NULL, tc_child = NULL, tc_refs = NULL,
           tc_destructor = D_null, tc_name = NoName, tc_size = sz, tc_flags = TALLOC_MAGIC\<rparr>)\<rparr>;
        s \<leftarrow> (if parent \<noteq> NULL then do {
            pc \<leftarrow> chunks s parent;
            s \<leftarrow> (if tc_child pc \<noteq> NULL then do {
                s \<leftarrow> upd_chunk (tc_child pc) (\<lambda>c. c\<lparr>tc_parent := NULL\<rparr>) s;
                s \<leftarrow> upd_chunk tc (\<lambda>c. c\<lparr>tc_next := tc_child pc\<rparr>) s;
                upd_chunk (tc_child pc) (\<lambda>c. c\<lparr>tc_prev := tc\<rparr>) s
              } else upd_chunk tc (\<lambda>c. c\<lparr>tc_next := NULL\<rparr>) s);
            s \<leftarrow> upd_chunk tc (\<lambda>c. c\<lparr>tc_parent := parent\<rparr>) s;
            s \<leftarrow> upd_chunk tc (\<lambda>c. c\<lparr>tc_prev := NULL\<rparr>) s;
            upd_chunk parent (\<lambda>c. c\<lparr>tc_child := tc\<rparr>) s
          } else upd_chunk tc (\<lambda>c. c\<lparr>tc_next := NULL, tc_prev := NULL, tc_parent := NULL\<rparr>) s);
        Some (tc, s) })"

text \<open>\<open>__talloc\<close>\<close>

definition talloc_internal ::
  "ptr \<Rightarrow> u64 \<Rightarrow> 'a talloc_heap_scheme \<Rightarrow> (ptr \<times> 'a talloc_heap_scheme) option" where
  "talloc_internal context sz s = do {
     let context = (if context = NULL then null_context s else context);
     if MAX_TALLOC_SIZE \<le> sz then Some (NULL, s)
     else do {
       parent \<leftarrow> (if context \<noteq> NULL then do {
           _ \<leftarrow> talloc_chunk_from_ptr context s;
           Some context } else Some NULL);
       let (tc, s) = tc_malloc s;
       init_talloc parent tc sz s } }"

definition talloc_set_destructor ::
  "ptr \<Rightarrow> destructor \<Rightarrow> 'a talloc_heap_scheme \<Rightarrow> 'a talloc_heap_scheme option" where
  "talloc_set_destructor p d s = do {
     _ \<leftarrow> talloc_chunk_from_ptr p s;
     upd_chunk p (\<lambda>c. c\<lparr>tc_destructor := d\<rparr>) s }"

definition talloc_set_name_const ::
  "ptr \<Rightarrow> chunk_name \<Rightarrow> 'a talloc_heap_scheme \<Rightarrow> 'a talloc_heap_scheme option" where
  "talloc_set_name_const p name s = do {
     _ \<leftarrow> talloc_chunk_from_ptr p s;
     upd_chunk p (\<lambda>c. c\<lparr>tc_name := name\<rparr>) s }"

definition talloc_named_const ::
  "ptr \<Rightarrow> u64 \<Rightarrow> chunk_name \<Rightarrow> 'a talloc_heap_scheme \<Rightarrow> (ptr \<times> 'a talloc_heap_scheme) option" where
  "talloc_named_const context sz name s = do {
     (p, s) \<leftarrow> talloc_internal context sz s;
     if p = NULL then Some (NULL, s)
     else do {
       s \<leftarrow> talloc_set_name_const p name s;
       Some (p, s) } }"

text \<open>
  \<open>_talloc_zero\<close> and \<open>_talloc_memdup\<close> also write the block's contents; a client that
  keeps typed contents records them with the address it gets back.
\<close>

definition talloc_zero ::
  "ptr \<Rightarrow> u64 \<Rightarrow> chunk_name \<Rightarrow> 'a talloc_heap_scheme \<Rightarrow> (ptr \<times> 'a talloc_heap_scheme) option" where
  "talloc_zero ctx sz name s = talloc_named_const ctx sz name s"

text \<open>
  \<open>count >= MAX_TALLOC_SIZE/el_size\<close>: the overflow guard the three array allocators share. Elements
  of size 0 would divide by 0.
\<close>

definition array_too_big :: "u64 \<Rightarrow> u32 \<Rightarrow> bool" where
  "array_too_big el_size count \<longleftrightarrow> MAX_TALLOC_SIZE div el_size \<le> ucast count"

definition talloc_array ::
  "ptr \<Rightarrow> u64 \<Rightarrow> u32 \<Rightarrow> chunk_name \<Rightarrow> 'a talloc_heap_scheme \<Rightarrow> (ptr \<times> 'a talloc_heap_scheme) option" where
  "talloc_array ctx el_size count name s =
     (if el_size = 0 then None
      else if array_too_big el_size count then Some (NULL, s)
      else talloc_named_const ctx (el_size * ucast count) name s)"

definition talloc_zero_array ::
  "ptr \<Rightarrow> u64 \<Rightarrow> u32 \<Rightarrow> chunk_name \<Rightarrow> 'a talloc_heap_scheme \<Rightarrow> (ptr \<times> 'a talloc_heap_scheme) option" where
  "talloc_zero_array ctx el_size count name s =
     (if el_size = 0 then None
      else if array_too_big el_size count then Some (NULL, s)
      else talloc_zero ctx (el_size * ucast count) name s)"

section \<open>Moving and referencing\<close>

text \<open>Taking a chunk out of the list it is in: the same lines in \<open>__talloc_steal\<close> and \<open>_talloc_free\<close>.\<close>

definition unlink_chunk :: "ptr \<Rightarrow> 'a talloc_heap_scheme \<Rightarrow> 'a talloc_heap_scheme option" where
  "unlink_chunk tc s = do {
     c \<leftarrow> chunks s tc;
     if tc_parent c \<noteq> NULL then do {
       s \<leftarrow> tlist_remove_child (tc_parent c) tc s;
       pc \<leftarrow> chunks s (tc_parent c);
       if tc_child pc \<noteq> NULL then upd_chunk (tc_child pc) (\<lambda>x. x\<lparr>tc_parent := tc_parent c\<rparr>) s
       else Some s
     } else do {
       s \<leftarrow> (if tc_prev c \<noteq> NULL then upd_chunk (tc_prev c) (\<lambda>x. x\<lparr>tc_next := tc_next c\<rparr>) s else Some s);
       c \<leftarrow> chunks s tc;
       if tc_next c \<noteq> NULL then upd_chunk (tc_next c) (\<lambda>x. x\<lparr>tc_prev := tc_prev c\<rparr>) s else Some s
     } }"

text \<open>\<open>__talloc_steal\<close>\<close>

definition talloc_steal ::
  "ptr \<Rightarrow> ptr \<Rightarrow> 'a talloc_heap_scheme \<Rightarrow> (ptr \<times> 'a talloc_heap_scheme) option" where
  "talloc_steal new_ctx p s =
     (if p = NULL then Some (NULL, s)
      else do {
        let new_ctx = (if new_ctx = NULL then null_context s else new_ctx);
        tc \<leftarrow> talloc_chunk_from_ptr p s;
        if new_ctx = NULL then do {
          s \<leftarrow> unlink_chunk p s;
          s \<leftarrow> upd_chunk p (\<lambda>c. c\<lparr>tc_parent := NULL, tc_next := NULL, tc_prev := NULL\<rparr>) s;
          Some (p, s)
        } else do {
          _ \<leftarrow> talloc_chunk_from_ptr new_ctx s;
          if p = new_ctx \<or> tc_parent tc = new_ctx then Some (p, s)
          else do {
            s \<leftarrow> unlink_chunk p s;
            s \<leftarrow> upd_chunk p (\<lambda>c. c\<lparr>tc_parent := new_ctx\<rparr>) s;
            nc \<leftarrow> chunks s new_ctx;
            s \<leftarrow> (if tc_child nc \<noteq> NULL then upd_chunk (tc_child nc) (\<lambda>c. c\<lparr>tc_parent := NULL\<rparr>) s
                  else Some s);
            s \<leftarrow> tlist_add_child new_ctx p s;
            Some (p, s) } } })"

definition talloc_reference_destructor :: "ptr \<Rightarrow> 'a talloc_heap_scheme \<Rightarrow> (int \<times> 'a talloc_heap_scheme) option" where
  "talloc_reference_destructor handle s = do {
     h \<leftarrow> handles s handle;
     _ \<leftarrow> talloc_chunk_from_ptr (h_ptr h) s;
     s \<leftarrow> tlist_remove_ref (h_ptr h) handle s;
     Some (0, s) }"

text \<open>\<open>_talloc_reference\<close>; the handle is 24 bytes.\<close>

definition talloc_reference ::
  "ptr \<Rightarrow> ptr \<Rightarrow> 'a talloc_heap_scheme \<Rightarrow> (ptr \<times> 'a talloc_heap_scheme) option" where
  "talloc_reference context p s =
     (if p = NULL then Some (NULL, s)
      else do {
        _ \<leftarrow> talloc_chunk_from_ptr p s;
        (handle, s) \<leftarrow> talloc_named_const context 24 MagicReference s;
        if handle = NULL then Some (NULL, s)
        else do {
          s \<leftarrow> talloc_set_destructor handle D_reference s;
          let s = s\<lparr>handles := (handles s)(handle \<mapsto> \<lparr>h_next = NULL, h_prev = NULL, h_ptr = p\<rparr>)\<rparr>;
          s \<leftarrow> tlist_add_ref p handle s;
          Some (p, s) } })"

definition talloc_increase_ref_count :: "ptr \<Rightarrow> 'a talloc_heap_scheme \<Rightarrow> (int \<times> 'a talloc_heap_scheme) option" where
  "talloc_increase_ref_count p s = do {
     (r, s) \<leftarrow> talloc_reference (null_context s) p s;
     Some (if r = NULL then -1 else 0, s) }"

section \<open>Freeing\<close>

text \<open>
  A client destructor may free further blocks, so it is given the allocator's own free
  function. Each nested or repeated call of \<open>_talloc_free\<close> spends one unit of fuel.
\<close>

type_synonym 's free_fn = "ptr \<Rightarrow> 's \<Rightarrow> (int \<times> 's) option"
type_synonym 's client_dtor = "'s free_fn \<Rightarrow> nat \<Rightarrow> 's free_fn"

definition run_destructor ::
  "'a talloc_heap_scheme client_dtor \<Rightarrow> 'a talloc_heap_scheme free_fn \<Rightarrow> destructor \<Rightarrow>
   'a talloc_heap_scheme free_fn" where
  "run_destructor D free d p s =
     (case d of
        D_reference \<Rightarrow> talloc_reference_destructor p s
      | D_client i \<Rightarrow> D free i p s
      | _ \<Rightarrow> None)"

text \<open>Who inherits a child that cannot be freed: the owner of a reference to it, else the null context.\<close>

definition heir_of :: "talloc_chunk \<Rightarrow> 'a talloc_heap_scheme \<Rightarrow> ptr option" where
  "heir_of cc s =
     (if tc_refs cc \<noteq> NULL then do {
        q \<leftarrow> talloc_parent_chunk (tc_refs cc) s;
        Some (if q \<noteq> NULL then q else null_context s)
      } else Some (null_context s))"

definition tc_free :: "ptr \<Rightarrow> 'a talloc_heap_scheme \<Rightarrow> 'a talloc_heap_scheme" where
  "tc_free p s = s\<lparr>chunks := (chunks s)(p := None), handles := (handles s)(p := None)\<rparr>"

fun talloc_free :: "'a talloc_heap_scheme client_dtor \<Rightarrow> nat \<Rightarrow> 'a talloc_heap_scheme free_fn"
  and talloc_free_children :: "'a talloc_heap_scheme client_dtor \<Rightarrow> nat \<Rightarrow> ptr \<Rightarrow>
    'a talloc_heap_scheme \<Rightarrow> 'a talloc_heap_scheme option" where
  "talloc_free D 0 p s = None"
| "talloc_free D (Suc n) p s =
     (if p = NULL then Some (-1, s)
      else do {
        tc \<leftarrow> talloc_chunk_from_ptr p s;
        if tc_refs tc \<noteq> NULL then do {
          is_child \<leftarrow> talloc_is_parent (tc_refs tc) p s;
          (_, s) \<leftarrow> talloc_free D n (tc_refs tc) s;
          if is_child then talloc_free D n p s else Some (-1, s)
        }
        else if tc_flags tc AND TALLOC_FLAG_LOOP \<noteq> 0 then Some (0, s)
        else do {
          (gone, s) \<leftarrow>
            (if tc_destructor tc = D_null then Some (True, s)
             else if tc_destructor tc = D_minus1 then Some (False, s)
             else do {
               s \<leftarrow> upd_chunk p (\<lambda>c. c\<lparr>tc_destructor := D_minus1\<rparr>) s;
               (r, s) \<leftarrow> run_destructor D (\<lambda>q s. talloc_free D n q s) (tc_destructor tc) p s;
               if r = -1 then do {
                 s \<leftarrow> upd_chunk p (\<lambda>c. c\<lparr>tc_destructor := tc_destructor tc\<rparr>) s;
                 Some (False, s)
               } else do {
                 s \<leftarrow> upd_chunk p (\<lambda>c. c\<lparr>tc_destructor := D_null\<rparr>) s;
                 Some (True, s) } });
          if \<not> gone then Some (-1, s)
          else do {
            s \<leftarrow> unlink_chunk p s;
            s \<leftarrow> upd_chunk p (\<lambda>c. c\<lparr>tc_flags := tc_flags c OR TALLOC_FLAG_LOOP\<rparr>) s;
            s \<leftarrow> talloc_free_children D n p s;
            s \<leftarrow> upd_chunk p (\<lambda>c. c\<lparr>tc_flags := tc_flags c OR TALLOC_FLAG_FREE\<rparr>) s;
            Some (0, tc_free p s) } } })"
| "talloc_free_children D 0 p s = None"
| "talloc_free_children D (Suc n) p s = do {
     tc \<leftarrow> chunks s p;
     if tc_child tc = NULL then Some s
     else do {
       let child = tc_child tc;
       cc \<leftarrow> chunks s child;
       new_parent \<leftarrow> heir_of cc s;
       old_parent \<leftarrow>
         (if new_parent = null_context s \<and> (tc_refs cc \<noteq> NULL \<or> tc_destructor cc \<noteq> D_null)
          then talloc_parent_chunk p s else Some NULL);
       (r, s) \<leftarrow> talloc_free D n child s;
       s \<leftarrow>
         (if r = -1 then do {
            let heir = (if new_parent = null_context s \<and> old_parent \<noteq> NULL then old_parent else new_parent);
            (_, s) \<leftarrow> talloc_steal heir child s;
            Some s
          } else Some s);
       talloc_free_children D n p s } }"

text \<open>\<open>talloc_unreference\<close>: the loop that finds the handle held by \<open>context\<close>, then its release.\<close>

partial_function (option) find_handle :: "ptr \<Rightarrow> ptr \<Rightarrow> 'a talloc_heap_scheme \<Rightarrow> ptr option" where
  "find_handle context h s =
     (if h = NULL then Some NULL
      else do {
        q \<leftarrow> talloc_parent_chunk h s;
        if q = NULL \<and> context = NULL \<or> q \<noteq> NULL \<and> q = context then Some h
        else do {
          x \<leftarrow> handles s h;
          find_handle context (h_next x) s } })"

definition talloc_unreference ::
  "'a talloc_heap_scheme client_dtor \<Rightarrow> nat \<Rightarrow> ptr \<Rightarrow> 'a talloc_heap_scheme free_fn" where
  "talloc_unreference D n context p s = do {
     tc \<leftarrow> talloc_chunk_from_ptr p s;
     let context = (if context = NULL then null_context s else context);
     h \<leftarrow> find_handle context (tc_refs tc) s;
     if h = NULL then Some (-1, s) else talloc_free D n h s }"

definition talloc_unlink ::
  "'a talloc_heap_scheme client_dtor \<Rightarrow> nat \<Rightarrow> ptr \<Rightarrow> 'a talloc_heap_scheme free_fn" where
  "talloc_unlink D n context p s =
     (if p = NULL then Some (-1, s)
      else do {
        let context = (if context = NULL then null_context s else context);
        (r, s) \<leftarrow> talloc_unreference D n context p s;
        if r = 0 then Some (0, s)
        else do {
          q \<leftarrow> talloc_parent_chunk p s;
          _ \<leftarrow> (if context = NULL then Some () else do { _ \<leftarrow> talloc_chunk_from_ptr context s; Some () });
          if q \<noteq> context then Some (-1, s)
          else do {
            tc \<leftarrow> talloc_chunk_from_ptr p s;
            if tc_refs tc = NULL then talloc_free D n p s
            else do {
              new_parent \<leftarrow> talloc_parent_chunk (tc_refs tc) s;
              (r, s) \<leftarrow> talloc_unreference D n new_parent p s;
              if r \<noteq> 0 then Some (-1, s)
              else do {
                (_, s) \<leftarrow> talloc_steal new_parent p s;
                Some (0, s) } } } } })"

definition talloc_disable_null_tracking ::
  "'a talloc_heap_scheme client_dtor \<Rightarrow> nat \<Rightarrow> 'a talloc_heap_scheme \<Rightarrow> 'a talloc_heap_scheme option" where
  "talloc_disable_null_tracking D n s = do {
     (_, s) \<leftarrow> talloc_free D n (null_context s) s;
     Some (s\<lparr>null_context := NULL\<rparr>) }"

definition talloc_enable_null_tracking :: "'a talloc_heap_scheme \<Rightarrow> 'a talloc_heap_scheme option" where
  "talloc_enable_null_tracking s =
     (if null_context s = NULL then do {
        (p, s) \<leftarrow> talloc_named_const NULL 0 (Name ''null_context'') s;
        Some (s\<lparr>null_context := p\<rparr>)
      } else Some s)"

section \<open>Queries over a subtree\<close>

text \<open>
  \<open>_talloc_total_size\<close> and \<open>_talloc_total_blocks\<close> mark the chunks on the current path
  with \<open>TALLOC_FLAG_LOOP\<close> and skip a chunk already on it. Both add one number per chunk
  (its size, or 1): \<open>w\<close> is that number.
\<close>

fun talloc_total :: "(talloc_chunk \<Rightarrow> u64) \<Rightarrow> nat \<Rightarrow> ptr \<Rightarrow> 'a talloc_heap_scheme \<Rightarrow>
      (u64 \<times> 'a talloc_heap_scheme) option"
  and talloc_total_list :: "(talloc_chunk \<Rightarrow> u64) \<Rightarrow> nat \<Rightarrow> ptr \<Rightarrow> 'a talloc_heap_scheme \<Rightarrow>
      (u64 \<times> 'a talloc_heap_scheme) option" where
  "talloc_total w 0 p s = None"
| "talloc_total w (Suc n) p s = do {
     tc \<leftarrow> talloc_chunk_from_ptr p s;
     if tc_flags tc AND TALLOC_FLAG_LOOP \<noteq> 0 then Some (0, s)
     else do {
       s \<leftarrow> upd_chunk p (\<lambda>c. c\<lparr>tc_flags := tc_flags c OR TALLOC_FLAG_LOOP\<rparr>) s;
       (sum, s) \<leftarrow> talloc_total_list w n (tc_child tc) s;
       s \<leftarrow> upd_chunk p (\<lambda>c. c\<lparr>tc_flags := tc_flags c AND NOT TALLOC_FLAG_LOOP\<rparr>) s;
       Some (w tc + sum, s) } }"
| "talloc_total_list w 0 p s = None"
| "talloc_total_list w (Suc n) p s =
     (if p = NULL then Some (0, s)
      else do {
        (a, s) \<leftarrow> talloc_total w n p s;
        c \<leftarrow> chunks s p;
        (b, s) \<leftarrow> talloc_total_list w n (tc_next c) s;
        Some (a + b, s) })"

definition talloc_total_size :: "nat \<Rightarrow> ptr \<Rightarrow> 'a talloc_heap_scheme \<Rightarrow> (u64 \<times> 'a talloc_heap_scheme) option" where
  "talloc_total_size n p s =
     (let p = (if p = NULL then null_context s else p)
      in if p = NULL then Some (0, s) else talloc_total tc_size n p s)"

definition talloc_total_blocks :: "nat \<Rightarrow> ptr \<Rightarrow> 'a talloc_heap_scheme \<Rightarrow> (u64 \<times> 'a talloc_heap_scheme) option" where
  "talloc_total_blocks n p s = talloc_total (\<lambda>_. 1) n p s"

partial_function (option) count_handles :: "ptr \<Rightarrow> 'a talloc_heap_scheme \<Rightarrow> u64 option" where
  "count_handles h s =
     (if h = NULL then Some 0
      else do {
        x \<leftarrow> handles s h;
        n \<leftarrow> count_handles (h_next x) s;
        Some (n + 1) })"

definition talloc_reference_count :: "ptr \<Rightarrow> 'a talloc_heap_scheme \<Rightarrow> u64 option" where
  "talloc_reference_count p s = do {
     tc \<leftarrow> talloc_chunk_from_ptr p s;
     count_handles (tc_refs tc) s }"

definition talloc_get_size :: "ptr \<Rightarrow> 'a talloc_heap_scheme \<Rightarrow> u64 option" where
  "talloc_get_size context s =
     (if context = NULL then Some 0
      else do {
        tc \<leftarrow> talloc_chunk_from_ptr context s;
        Some (tc_size tc) })"

definition talloc_get_name :: "(ptr \<Rightarrow> string option) \<Rightarrow> ptr \<Rightarrow> 'a talloc_heap_scheme \<Rightarrow> string option" where
  "talloc_get_name text p s = do {
     tc \<leftarrow> talloc_chunk_from_ptr p s;
     case tc_name tc of
       MagicReference \<Rightarrow> Some ''.reference''
     | Name n \<Rightarrow> Some n
     | NameAt q \<Rightarrow> text q
     | NoName \<Rightarrow> Some ''UNNAMED'' }"

definition talloc_check_name ::
  "(ptr \<Rightarrow> string option) \<Rightarrow> ptr \<Rightarrow> string \<Rightarrow> 'a talloc_heap_scheme \<Rightarrow> ptr option" where
  "talloc_check_name text p name s =
     (if p = NULL then Some NULL
      else do {
        pname \<leftarrow> talloc_get_name text p s;
        Some (if pname = name then p else NULL) })"

end
