(* ===== verification/Rbt_Spec.thy ===== *)
theory Rbt_Spec
  imports Prelude
begin

text \<open>
  The abstract red-black tree that \<^verbatim>\<open>rbtree.c\<close> maintains: trees as values, positions as
  zippers. \<open>rbt_insert\<close> follows the same cases as the C code (descend, link a red leaf,
  repair upwards) and is what the pointer code is shown to implement; the balance and
  ordering invariants and the map semantics are proved here, once, for both.
\<close>

datatype color = Red | Black

datatype 'd rbt = Leaf | Node color "'d rbt" u32 'd "'d rbt"

fun rcolor :: "'d rbt \<Rightarrow> color" where
  "rcolor Leaf = Black"
| "rcolor (Node c l k d r) = c"

fun paint :: "color \<Rightarrow> 'd rbt \<Rightarrow> 'd rbt" where
  "paint c Leaf = Leaf"
| "paint c (Node _ l k d r) = Node c l k d r"

fun entries :: "'d rbt \<Rightarrow> (u32 \<times> 'd) list" where
  "entries Leaf = []"
| "entries (Node c l k d r) = entries l @ (k, d) # entries r"

fun rbt_lookup :: "'d rbt \<Rightarrow> u32 \<Rightarrow> 'd option" where
  "rbt_lookup Leaf key = None"
| "rbt_lookup (Node c l k d r) key =
     (if key = k then Some d else if key < k then rbt_lookup l key else rbt_lookup r key)"

section \<open>Positions\<close>

text \<open>
  A frame is one step of the way from the root to the focus: the node passed, and the
  subtree not taken. The innermost frame comes first.
\<close>

datatype 'd frame =
    InL color u32 'd "'d rbt"  \<comment> \<open>the focus is the left child\<close>
  | InR color "'d rbt" u32 'd  \<comment> \<open>the focus is the right child\<close>

fun fcolor :: "'d frame \<Rightarrow> color" where
  "fcolor (InL c k d r) = c"
| "fcolor (InR c l k d) = c"

fun fsib :: "'d frame \<Rightarrow> 'd rbt" where
  "fsib (InL c k d r) = r"
| "fsib (InR c l k d) = l"

fun fill :: "'d frame \<Rightarrow> 'd rbt \<Rightarrow> 'd rbt" where
  "fill (InL c k d r) t = Node c t k d r"
| "fill (InR c l k d) t = Node c l k d t"

fun fpaint :: "color \<Rightarrow> 'd frame \<Rightarrow> 'd frame" where
  "fpaint c (InL _ k d r) = InL c k d r"
| "fpaint c (InR _ l k d) = InR c l k d"

fun fsib_paint :: "color \<Rightarrow> 'd frame \<Rightarrow> 'd frame" where
  "fsib_paint c' (InL c k d r) = InL c k d (paint c' r)"
| "fsib_paint c' (InR c l k d) = InR c (paint c' l) k d"

fun plug :: "'d frame list \<Rightarrow> 'd rbt \<Rightarrow> 'd rbt" where
  "plug [] t = t"
| "plug (f # z) t = plug z (fill f t)"

section \<open>Rotations and insertion\<close>

fun rot_left :: "'d rbt \<Rightarrow> 'd rbt" where
  "rot_left (Node c l k d (Node c' l' k' d' r')) = Node c' (Node c l k d l') k' d' r'"
| "rot_left t = t"

fun rot_right :: "'d rbt \<Rightarrow> 'd rbt" where
  "rot_right (Node c (Node c' l' k' d' r') k d r) = Node c' l' k' d' (Node c r' k d r)"
| "rot_right t = t"

text \<open>
  The two frames above the focus as one tree, rotated as insert cases 4 and 5 do: \<open>f\<close> is
  the (red) parent's frame, \<open>g\<close> the grandparent's.
\<close>

fun insert_rotate :: "'d frame \<Rightarrow> 'd frame \<Rightarrow> 'd rbt \<Rightarrow> 'd rbt" where
  "insert_rotate (InL _ pk pd pr) (InL _ gk gd gr) t =
     rot_right (Node Red (Node Black t pk pd pr) gk gd gr)"
| "insert_rotate (InR pc pl pk pd) (InL _ gk gd gr) t =
     rot_right (Node Red (paint Black (rot_left (Node pc pl pk pd t))) gk gd gr)"
| "insert_rotate (InL pc pk pd pr) (InR _ gl gk gd) t =
     rot_left (Node Red gl gk gd (paint Black (rot_right (Node pc t pk pd pr))))"
| "insert_rotate (InR _ pl pk pd) (InR _ gl gk gd) t =
     rot_left (Node Red gl gk gd (Node Black pl pk pd t))"

fun insert_fix :: "'d frame list \<Rightarrow> 'd rbt \<Rightarrow> 'd rbt" where
  "insert_fix [] t = paint Black t"
| "insert_fix [f] t = plug [f] t"
| "insert_fix (f # g # z) t =
     (if fcolor f = Black then plug (f # g # z) t
      else if rcolor (fsib g) = Red
      then insert_fix z (fill (fpaint Red (fsib_paint Black g)) (fill (fpaint Black f) t))
      else plug z (insert_rotate f g t))"

fun insert_at :: "u32 \<Rightarrow> ('d option \<Rightarrow> 'd) \<Rightarrow> 'd frame list \<Rightarrow> 'd rbt \<Rightarrow> 'd rbt" where
  "insert_at key f z Leaf = insert_fix z (Node Red Leaf key (f None) Leaf)"
| "insert_at key f z (Node c l k d r) =
     (if key = k then plug z (Node c l k (f (Some d)) r)
      else if key < k then insert_at key f (InL c k d r # z) l
      else insert_at key f (InR c l k d # z) r)"

text \<open>
  \<open>f\<close> is the insertion's callback: it maps the data already there (if any) to the data to
  store. Plain insertion of \<open>v\<close> is the callback \<open>\<lambda>_. v\<close>.
\<close>

definition rbt_insert :: "u32 \<Rightarrow> ('d option \<Rightarrow> 'd) \<Rightarrow> 'd rbt \<Rightarrow> 'd rbt" where
  "rbt_insert key f t =
     (case t of Leaf \<Rightarrow> Node Black Leaf key (f None) Leaf | _ \<Rightarrow> insert_at key f [] t)"

section \<open>Ordering and map semantics\<close>

definition sorted1 :: "(u32 \<times> 'd) list \<Rightarrow> bool" where
  "sorted1 xs \<longleftrightarrow> sorted_wrt (<) (map fst xs)"

fun upd_list :: "u32 \<Rightarrow> ('d option \<Rightarrow> 'd) \<Rightarrow> (u32 \<times> 'd) list \<Rightarrow> (u32 \<times> 'd) list" where
  "upd_list key f [] = [(key, f None)]"
| "upd_list key f ((k, d) # xs) =
     (if key < k then (key, f None) # (k, d) # xs
      else if key = k then (k, f (Some d)) # xs
      else (k, d) # upd_list key f xs)"

fun before :: "'d frame list \<Rightarrow> (u32 \<times> 'd) list" where
  "before [] = []"
| "before (InL c k d r # z) = before z"
| "before (InR c l k d # z) = before z @ entries l @ [(k, d)]"

fun after :: "'d frame list \<Rightarrow> (u32 \<times> 'd) list" where
  "after [] = []"
| "after (InL c k d r # z) = (k, d) # entries r @ after z"
| "after (InR c l k d # z) = after z"

lemma entries_plug: "entries (plug z t) = before z @ entries t @ after z"
proof (induction z arbitrary: t)
  case (Cons f z)
  then show ?case by (cases f) simp_all
qed simp

lemma entries_paint [simp]: "entries (paint c t) = entries t"
  by (cases t) auto

lemma entries_rot_left [simp]: "entries (rot_left t) = entries t"
  by (cases t rule: rot_left.cases) auto

lemma entries_rot_right [simp]: "entries (rot_right t) = entries t"
  by (cases t rule: rot_right.cases) auto

lemma entries_fill: "entries (fill f t) = before [f] @ entries t @ after [f]"
  by (cases f) auto

lemma entries_insert_rotate: "entries (insert_rotate f g t) = entries (plug [f, g] t)"
  by (cases "(f, g, t)" rule: insert_rotate.cases) auto

lemma before_after_paint [simp]:
  "before (fpaint c f # z) = before (f # z)" "after (fpaint c f # z) = after (f # z)"
  "before (fsib_paint c f # z) = before (f # z)" "after (fsib_paint c f # z) = after (f # z)"
  by (cases f; simp)+

lemma entries_insert_fix: "entries (insert_fix z t) = before z @ entries t @ after z"
proof (induction z t rule: insert_fix.induct)
  case (3 f g z t)
  have "entries (plug z (insert_rotate f g t)) = before (f # g # z) @ entries t @ after (f # g # z)"
    by (cases f; cases g) (simp_all add: entries_plug entries_insert_rotate)
  moreover have "before z @ entries (fill (fpaint Red (fsib_paint Black g)) (fill (fpaint Black f) t)) @ after z =
      before (f # g # z) @ entries t @ after (f # g # z)"
    by (cases f; cases g) simp_all
  ultimately show ?case using 3 by (simp add: entries_plug del: plug.simps)
qed (simp_all add: entries_plug del: plug.simps)

lemma upd_list_append_right:
  "\<forall>y \<in> set ys. key < fst y \<Longrightarrow> upd_list key f (xs @ ys) = upd_list key f xs @ ys"
proof (induction xs)
  case Nil
  then show ?case by (cases ys) auto
qed auto

lemma upd_list_append_left:
  "\<forall>x \<in> set xs. fst x < key \<Longrightarrow> upd_list key f (xs @ ys) = xs @ upd_list key f ys"
  by (induction xs) auto

lemma sorted1_append [simp]:
  "sorted1 (xs @ ys) \<longleftrightarrow> sorted1 xs \<and> sorted1 ys \<and> (\<forall>x \<in> set xs. \<forall>y \<in> set ys. fst x < fst y)"
  by (simp add: sorted1_def sorted_wrt_append)

lemma sorted1_Cons [simp]:
  "sorted1 (x # xs) \<longleftrightarrow> sorted1 xs \<and> (\<forall>y \<in> set xs. fst x < fst y)"
  by (auto simp: sorted1_def)

lemma sorted1_Nil [simp]: "sorted1 []"
  by (simp add: sorted1_def)

lemma entries_insert_at:
  "sorted1 (entries t) \<Longrightarrow>
   entries (insert_at key f z t) = before z @ upd_list key f (entries t) @ after z"
proof (induction key f z t rule: insert_at.induct)
  case (1 key f z)
  then show ?case by (simp add: entries_insert_fix)
next
  case (2 key f z c l k d r)
  consider "key = k" | "key < k" | "k < key" by fastforce
  then show ?case
  proof cases
    case 1
    with "2.prems" show ?thesis by (simp add: entries_plug upd_list_append_left)
  next
    case 2
    with "2.prems" have "upd_list key f (entries l @ (k, d) # entries r) =
        upd_list key f (entries l) @ (k, d) # entries r"
      by (intro upd_list_append_right) fastforce
    with 2 "2.prems" "2.IH"(1) show ?thesis by auto
  next
    case 3
    with "2.prems" have "upd_list key f (entries l @ (k, d) # entries r) =
        entries l @ (k, d) # upd_list key f (entries r)"
      using upd_list_append_left [of "entries l @ [(k, d)]" key f "entries r"] by fastforce
    moreover from 3 have "key \<noteq> k" "\<not> key < k" by auto
    ultimately show ?thesis using "2.prems" "2.IH"(2) by simp
  qed
qed

theorem entries_rbt_insert:
  "sorted1 (entries t) \<Longrightarrow> entries (rbt_insert key f t) = upd_list key f (entries t)"
  by (cases t) (auto simp: rbt_insert_def entries_insert_at simp del: insert_at.simps)

lemma set_upd_list: "fst ` set (upd_list key f xs) = insert key (fst ` set xs)"
  by (induction key f xs rule: upd_list.induct) (simp_all add: insert_commute)

lemma sorted1_upd_list: "sorted1 xs \<Longrightarrow> sorted1 (upd_list key f xs)"
proof (induction xs)
  case (Cons x xs)
  obtain k d where x: "x = (k, d)" by force
  have "\<forall>y \<in> set (upd_list key f xs). k < fst y" if "k < key"
  proof
    fix y assume "y \<in> set (upd_list key f xs)"
    then have "fst y \<in> insert key (fst ` set xs)" using set_upd_list [of key f xs] by blast
    with that Cons.prems show "k < fst y" by (auto simp: x)
  qed
  with Cons show ?case by (auto simp: x)
qed simp

lemma map_of_upd_list:
  "sorted1 xs \<Longrightarrow> map_of (upd_list key f xs) = (map_of xs)(key \<mapsto> f (map_of xs key))"
proof (induction xs)
  case (Cons x xs)
  obtain k d where x: "x = (k, d)" by force
  have "map_of xs key = None" if "key < k" using Cons.prems that
    by (fastforce simp: x map_of_eq_None_iff)
  with Cons show ?case by (auto simp: x fun_eq_iff)
qed auto

lemma rbt_lookup_map_of: "sorted1 (entries t) \<Longrightarrow> rbt_lookup t key = map_of (entries t) key"
proof (induction t)
  case (Node c l k d r)
  have "map_of (entries r) key = None" if "key \<le> k"
    using Node.prems that by (fastforce simp: map_of_eq_None_iff)
  moreover have "map_of (entries l) key = None" if "k \<le> key"
    using Node.prems that by (fastforce simp: map_of_eq_None_iff)
  ultimately show ?case using Node by (auto simp: map_add_def split: option.splits)
qed simp

section \<open>Balance\<close>

fun bheight :: "'d rbt \<Rightarrow> nat" where
  "bheight Leaf = 0"
| "bheight (Node c l k d r) = (if c = Black then Suc (bheight l) else bheight l)"

text \<open>No red node has a red child.\<close>

fun invc :: "'d rbt \<Rightarrow> bool" where
  "invc Leaf = True"
| "invc (Node c l k d r) =
     ((c = Red \<longrightarrow> rcolor l = Black \<and> rcolor r = Black) \<and> invc l \<and> invc r)"

text \<open>Every path from a node down has the same number of black nodes.\<close>

fun invh :: "'d rbt \<Rightarrow> bool" where
  "invh Leaf = True"
| "invh (Node c l k d r) = (bheight l = bheight r \<and> invh l \<and> invh r)"

text \<open>The invariant of a tree: red-black balanced with a black root, keys ascending.\<close>

definition rbt_inv :: "'d rbt \<Rightarrow> bool" where
  "rbt_inv t \<longleftrightarrow> rcolor t = Black \<and> invc t \<and> invh t \<and> sorted1 (entries t)"

text \<open>What a position demands of the subtree put there.\<close>

fun invc_ctx :: "'d frame list \<Rightarrow> color \<Rightarrow> bool" where
  "invc_ctx [] c = True"
| "invc_ctx (f # z) c =
     ((fcolor f = Red \<longrightarrow> c = Black \<and> rcolor (fsib f) = Black) \<and> invc (fsib f) \<and> invc_ctx z (fcolor f))"

fun invh_ctx :: "'d frame list \<Rightarrow> nat \<Rightarrow> bool" where
  "invh_ctx [] n = True"
| "invh_ctx (f # z) n =
     (bheight (fsib f) = n \<and> invh (fsib f) \<and> invh_ctx z (if fcolor f = Black then Suc n else n))"

fun root_color :: "'d frame list \<Rightarrow> color \<Rightarrow> color" where
  "root_color [] c = c"
| "root_color (f # z) c = root_color z (fcolor f)"

lemma color_neq [simp]: "c \<noteq> Black \<longleftrightarrow> c = Red" "c \<noteq> Red \<longleftrightarrow> c = Black"
  by (cases c; simp)+

lemma rcolor_fill [simp]: "rcolor (fill f t) = fcolor f"
  by (cases f) auto

lemma rcolor_plug: "rcolor (plug z t) = root_color z (rcolor t)"
  by (induction z arbitrary: t) auto

lemma invc_fill: "invc (fill f t) \<longleftrightarrow> (fcolor f = Red \<longrightarrow> rcolor t = Black \<and> rcolor (fsib f) = Black) \<and> invc (fsib f) \<and> invc t"
  by (cases f) auto

lemma invc_plug: "invc (plug z t) \<longleftrightarrow> invc t \<and> invc_ctx z (rcolor t)"
  by (induction z arbitrary: t) (auto simp: invc_fill)

lemma invh_fill: "invh (fill f t) \<longleftrightarrow> bheight (fsib f) = bheight t \<and> invh (fsib f) \<and> invh t"
  by (cases f) auto

lemma bheight_fill:
  "bheight (fsib f) = bheight t \<Longrightarrow> bheight (fill f t) = (if fcolor f = Black then Suc (bheight t) else bheight t)"
  by (cases f) auto

lemma invh_plug: "invh (plug z t) \<longleftrightarrow> invh t \<and> invh_ctx z (bheight t)"
proof (induction z arbitrary: t)
  case (Cons f z)
  show ?case
    using Cons.IH [of "fill f t"] bheight_fill [of f t]
    by (cases "bheight (fsib f) = bheight t") (simp_all add: invh_fill conj_comms)
qed simp

lemma paint_simps [simp]:
  "invh (paint c t) = invh t" "rcolor (paint c t) = (if t = Leaf then Black else c)"
  "paint c t = Leaf \<longleftrightarrow> t = Leaf"
  by (cases t; simp)+

lemma frame_paint_simps [simp]:
  "fcolor (fpaint c f) = c" "fsib (fpaint c f) = fsib f"
  "fcolor (fsib_paint c f) = fcolor f" "fsib (fsib_paint c f) = paint c (fsib f)"
  by (cases f; simp)+

lemma bheight_paint_Black: "rcolor t = Red \<Longrightarrow> bheight (paint Black t) = Suc (bheight t)"
  by (cases t) auto

lemma invc_paint_Black: "invc t \<Longrightarrow> invc (paint Black t)"
  by (cases t) auto

text \<open>A red focus under a red parent, black uncle: the rotation restores both invariants.\<close>

lemma insert_rotate_inv:
  assumes "rcolor t = Red" "invc t" "invh t" "fcolor f = Red" "fcolor g = Black"
    "rcolor (fsib f) = Black" "rcolor (fsib g) = Black" "invc (fsib f)" "invc (fsib g)"
    "invh (fsib f)" "invh (fsib g)" "bheight (fsib f) = bheight t" "bheight (fsib g) = bheight t"
  shows "invc (insert_rotate f g t)" "invh (insert_rotate f g t)"
    "bheight (insert_rotate f g t) = Suc (bheight t)" "rcolor (insert_rotate f g t) = Black"
proof -
  obtain l k d r where t: "t = Node Red l k d r" using assms(1) by (cases t) auto
  have "invc (insert_rotate f g t) \<and> invh (insert_rotate f g t) \<and>
      bheight (insert_rotate f g t) = Suc (bheight t) \<and> rcolor (insert_rotate f g t) = Black"
    using assms by (cases f; cases g) (simp_all add: t)
  then show "invc (insert_rotate f g t)" "invh (insert_rotate f g t)"
    "bheight (insert_rotate f g t) = Suc (bheight t)" "rcolor (insert_rotate f g t) = Black" by auto
qed

text \<open>
  The repair loop: the focus is red and balanced, everything above is a red-black tree in
  which the focus stands in for a black one.
\<close>

lemma insert_fix_inv:
  assumes "rcolor t = Red" "invc t" "invh t" "invc_ctx z Black" "invh_ctx z (bheight t)"
    "root_color z Black = Black"
  shows "invc (insert_fix z t) \<and> invh (insert_fix z t) \<and> rcolor (insert_fix z t) = Black"
  using assms
proof (induction z t rule: insert_fix.induct)
  case (1 t)
  then show ?case by (cases t) auto
next
  case (2 f t)
  then show ?case by (auto simp: invc_fill invh_fill)
next
  case (3 f g z t)
  show ?case
  proof (cases "fcolor f = Black")
    case True
    with 3 show ?thesis by (auto simp: invc_plug invh_plug rcolor_plug invc_fill invh_fill bheight_fill)
  next
    case False
    then have f: "fcolor f = Red" and g: "fcolor g = Black" using 3 by auto
    show ?thesis
    proof (cases "rcolor (fsib g) = Red")
      case True
      let ?t = "fill (fpaint Red (fsib_paint Black g)) (fill (fpaint Black f) t)"
      have "bheight (fill (fpaint Black f) t) = Suc (bheight t)" using 3 f by (simp add: bheight_fill)
      with 3 f g True have "rcolor ?t = Red" "invc ?t" "invh ?t" "bheight ?t = Suc (bheight t)"
        by (auto simp: invc_fill invh_fill bheight_fill bheight_paint_Black invc_paint_Black)
      with 3 f g True show ?thesis by simp
    next
      case False
      with 3 f g have "invc (insert_rotate f g t)" "invh (insert_rotate f g t)"
          "bheight (insert_rotate f g t) = Suc (bheight t)" "rcolor (insert_rotate f g t) = Black"
        by (auto intro!: insert_rotate_inv)
      with 3 f g False show ?thesis by (auto simp: invc_plug invh_plug rcolor_plug)
    qed
  qed
qed

lemma insert_at_inv:
  assumes "invc (plug z t)" "invh (plug z t)" "rcolor (plug z t) = Black"
  shows "invc (insert_at key f z t) \<and> invh (insert_at key f z t) \<and> rcolor (insert_at key f z t) = Black"
  using assms
proof (induction key f z t rule: insert_at.induct)
  case (1 key f z)
  then show ?case using insert_fix_inv [of "Node Red Leaf key (f None) Leaf" z]
    by (auto simp: invc_plug invh_plug rcolor_plug)
next
  case (2 key f z c l k d r)
  then show ?case by (auto simp: invc_plug invh_plug rcolor_plug)
qed

theorem rbt_insert_inv: "rbt_inv t \<Longrightarrow> rbt_inv (rbt_insert key f t)"
proof -
  assume t: "rbt_inv t"
  then have "sorted1 (entries (rbt_insert key f t))"
    by (simp add: rbt_inv_def entries_rbt_insert sorted1_upd_list)
  moreover have "invc (rbt_insert key f t) \<and> invh (rbt_insert key f t) \<and> rcolor (rbt_insert key f t) = Black"
    using t insert_at_inv [of "[]" t key f] by (cases t) (simp_all add: rbt_inv_def rbt_insert_def)
  ultimately show ?thesis by (simp add: rbt_inv_def)
qed

theorem rbt_lookup_insert:
  "rbt_inv t \<Longrightarrow> rbt_lookup (rbt_insert key f t) = (rbt_lookup t)(key \<mapsto> f (rbt_lookup t key))"
proof -
  assume t: "rbt_inv t"
  then have "rbt_inv (rbt_insert key f t)" by (rule rbt_insert_inv)
  with t show ?thesis
    by (auto simp: rbt_inv_def rbt_lookup_map_of entries_rbt_insert map_of_upd_list fun_eq_iff)
qed

section \<open>Height\<close>

fun rheight :: "'d rbt \<Rightarrow> nat" where
  "rheight Leaf = 0"
| "rheight (Node c l k d r) = Suc (max (rheight l) (rheight r))"

lemma rheight_bheight:
  "invc t \<Longrightarrow> invh t \<Longrightarrow> rheight t \<le> 2 * bheight t + (if rcolor t = Black then 0 else 1)"
  by (induction t) (auto split: if_splits)

lemma bheight_size: "invh t \<Longrightarrow> 2 ^ bheight t \<le> length (entries t) + 1"
proof (induction t)
  case (Node c l k d r)
  then have "2 ^ bheight l \<le> length (entries l) + 1" "2 ^ bheight l \<le> length (entries r) + 1" by auto
  then show ?case by auto
qed simp

text \<open>The longest search path is logarithmic in the number of entries.\<close>

lemma rheight_log:
  assumes "rbt_inv t"
  shows "2 ^ (rheight t div 2) \<le> length (entries t) + 1"
proof -
  have "rheight t \<le> 2 * bheight t" using assms rheight_bheight [of t] by (auto simp: rbt_inv_def)
  then have "rheight t div 2 \<le> bheight t" by simp
  then have "(2::nat) ^ (rheight t div 2) \<le> 2 ^ bheight t" by (rule power_increasing) simp
  also have "\<dots> \<le> length (entries t) + 1" using bheight_size [of t] assms by (simp add: rbt_inv_def)
  finally show ?thesis .
qed

section \<open>Changing the stored data\<close>

text \<open>
  Insertion looks at keys only, so it commutes with any change of representation of the
  data (the pointer tree stores a node address next to each datum).
\<close>

lemma map_frame_simps [simp]:
  "map_rbt h (fill f t) = fill (map_frame h f) (map_rbt h t)"
  "fcolor (map_frame h f) = fcolor f" "fsib (map_frame h f) = map_rbt h (fsib f)"
  "map_frame h (fpaint c f) = fpaint c (map_frame h f)"
  by (cases f; simp)+

lemma map_paint [simp]:
  "map_rbt h (paint c t) = paint c (map_rbt h t)" "rcolor (map_rbt h t) = rcolor t"
  by (cases t; simp)+

lemma map_fsib_paint [simp]: "map_frame h (fsib_paint c f) = fsib_paint c (map_frame h f)"
  by (cases f) simp_all

lemma map_plug: "map_rbt h (plug z t) = plug (map (map_frame h) z) (map_rbt h t)"
  by (induction z arbitrary: t) auto

lemma map_rot [simp]:
  "map_rbt h (rot_left t) = rot_left (map_rbt h t)" "map_rbt h (rot_right t) = rot_right (map_rbt h t)"
  by (cases t rule: rot_left.cases; simp) (cases t rule: rot_right.cases; simp)

lemma map_insert_rotate:
  "map_rbt h (insert_rotate f g t) = insert_rotate (map_frame h f) (map_frame h g) (map_rbt h t)"
  by (cases "(f, g, t)" rule: insert_rotate.cases) simp_all

lemma map_insert_fix: "map_rbt h (insert_fix z t) = insert_fix (map (map_frame h) z) (map_rbt h t)"
  by (induction z t rule: insert_fix.induct) (auto simp: map_plug map_insert_rotate)

lemma map_insert_at:
  assumes "h (f None) = f' None" "\<And>d. h (f (Some d)) = f' (Some (h d))"
  shows "map_rbt h (insert_at key f z t) = insert_at key f' (map (map_frame h) z) (map_rbt h t)"
  using assms by (induction key f z t rule: insert_at.induct) (auto simp: map_insert_fix map_plug)

lemma map_rbt_insert:
  assumes "h (f None) = f' None" "\<And>d. h (f (Some d)) = f' (Some (h d))"
  shows "map_rbt h (rbt_insert key f t) = rbt_insert key f' (map_rbt h t)"
  using assms map_insert_at [of h f f' key "[]" t, OF assms] by (cases t) (simp_all add: rbt_insert_def)

lemma map_rbt_lookup: "rbt_lookup (map_rbt h t) key = map_option h (rbt_lookup t key)"
  by (induction t) auto

lemma map_rbt_inv [simp]: "rbt_inv (map_rbt h t) = rbt_inv t"
proof -
  have "bheight (map_rbt h t) = bheight t" for t :: "'b rbt" by (induction t) auto
  then have "invh (map_rbt h t) = invh t" for t :: "'b rbt" by (induction t) auto
  moreover have "invc (map_rbt h t) = invc t" for t :: "'b rbt" by (induction t) auto
  moreover have "map fst (entries (map_rbt h t)) = map fst (entries t)" for t :: "'b rbt"
    by (induction t) auto
  ultimately show ?thesis by (simp add: rbt_inv_def sorted1_def)
qed

section \<open>Searching for a position\<close>

text \<open>Where the search for a key ends: at a node with that key, or at an empty place.\<close>

fun seek :: "u32 \<Rightarrow> 'd frame list \<Rightarrow> 'd rbt \<Rightarrow> 'd frame list \<times> 'd rbt" where
  "seek key z Leaf = (z, Leaf)"
| "seek key z (Node c l k d r) =
     (if key = k then (z, Node c l k d r)
      else if key < k then seek key (InL c k d r # z) l
      else seek key (InR c l k d # z) r)"

lemma seek_plug: "seek key z t = (z', t') \<Longrightarrow> plug z' t' = plug z t"
  by (induction key z t rule: seek.induct) (auto split: if_splits)

lemma seek_lookup:
  "seek key z t = (z', t') \<Longrightarrow>
   rbt_lookup t key = (case t' of Leaf \<Rightarrow> None | Node c l k d r \<Rightarrow> Some d)"
  by (induction key z t rule: seek.induct) (auto split: if_splits)

lemma seek_key: "seek key z t = (z', Node c l k d r) \<Longrightarrow> k = key"
  by (induction key z t rule: seek.induct) (auto split: if_splits)

lemma seek_insert_at:
  "seek key z t = (z', t') \<Longrightarrow>
   insert_at key f z t =
     (case t' of Leaf \<Rightarrow> insert_fix z' (Node Red Leaf key (f None) Leaf)
      | Node c l k d r \<Rightarrow> plug z' (Node c l k (f (Some d)) r))"
  by (induction key z t rule: seek.induct) (auto split: if_splits)

lemma seek_not_root: "seek key z t = (z', Leaf) \<Longrightarrow> t \<noteq> Leaf \<Longrightarrow> z' \<noteq> []"
proof (induction key z t rule: seek.induct)
  case (2 key z c l k d r)
  then show ?case by (cases l; cases r) (auto split: if_splits)
qed simp

end
