(* ===== verification/Rbtree.thy ===== *)
theory Rbtree
  imports Talloc Rbt_Spec
begin

text \<open>
  \<^verbatim>\<open>rbtree.c\<close> on the heap: nodes and trees are talloc blocks whose contents are the
  structures below. Every function of the C file is one definition; a function that ends
  by calling itself through its successors (\<open>trbt_insert_case3\<close> calls
  \<open>trbt_insert_case1\<close> on the grandparent, \<open>trbt_delete_case3\<close> calls
  \<open>trbt_delete_case1\<close> on the parent) returns that tail call as \<open>Some node\<close>.
\<close>

section \<open>Nodes, trees and the heap\<close>

record trbt_node =
  n_tree :: ptr
  n_parent :: ptr
  n_left :: ptr
  n_right :: ptr
  n_color :: color
  n_key32 :: u32
  n_data :: ptr

record trbt_tree =
  t_root :: ptr
  t_flags :: u32

record trbt_heap = talloc_heap +
  nodes :: "ptr \<rightharpoonup> trbt_node"
  trees :: "ptr \<rightharpoonup> trbt_tree"

definition TRBT_AUTOFREE :: u32 where "TRBT_AUTOFREE = 0x00000001"

text \<open>The function pointers \<open>tree_destructor\<close> and \<open>node_destructor\<close>.\<close>

definition tree_destructor_id :: destructor where "tree_destructor_id = D_client 1"
definition node_destructor_id :: destructor where "node_destructor_id = D_client 2"

definition upd_node :: "ptr \<Rightarrow> (trbt_node \<Rightarrow> trbt_node) \<Rightarrow> trbt_heap \<Rightarrow> trbt_heap option" where
  "upd_node p f s = do {
     h \<leftarrow> upd_cell p f (nodes s);
     Some (s\<lparr>nodes := h\<rparr>) }"

definition upd_tree :: "ptr \<Rightarrow> (trbt_tree \<Rightarrow> trbt_tree) \<Rightarrow> trbt_heap \<Rightarrow> trbt_heap option" where
  "upd_tree p f s = do {
     h \<leftarrow> upd_cell p f (trees s);
     Some (s\<lparr>trees := h\<rparr>) }"

text \<open>\<open>sizeof(trbt_tree_t)\<close> is 16, \<open>sizeof(trbt_node_t)\<close> is 48.\<close>

definition trbt_create :: "ptr \<Rightarrow> u32 \<Rightarrow> trbt_heap \<Rightarrow> (ptr \<times> trbt_heap) option" where
  "trbt_create memctx flags s = do {
     (tree, s) \<leftarrow> talloc_zero memctx 16 (Name ''trbt_tree_t'') s;
     if tree = NULL then Some (NULL, s)
     else do {
       let s = s\<lparr>trees := (trees s)(tree \<mapsto> \<lparr>t_root = NULL, t_flags = 0\<rparr>)\<rparr>;
       s \<leftarrow> talloc_set_destructor tree tree_destructor_id s;
       s \<leftarrow> upd_tree tree (\<lambda>t. t\<lparr>t_flags := flags\<rparr>) s;
       Some (tree, s) } }"

section \<open>Navigation\<close>

definition trbt_parent :: "ptr \<Rightarrow> trbt_heap \<Rightarrow> ptr option" where
  "trbt_parent node s = do { n \<leftarrow> nodes s node; Some (n_parent n) }"

definition trbt_grandparent :: "ptr \<Rightarrow> trbt_heap \<Rightarrow> ptr option" where
  "trbt_grandparent node s = do {
     parent \<leftarrow> trbt_parent node s;
     if parent \<noteq> NULL then trbt_parent parent s else Some NULL }"

definition trbt_uncle :: "ptr \<Rightarrow> trbt_heap \<Rightarrow> ptr option" where
  "trbt_uncle node s = do {
     parent \<leftarrow> trbt_parent node s;
     if parent = NULL then Some NULL
     else do {
       grandparent \<leftarrow> trbt_parent parent s;
       if grandparent = NULL then Some NULL
       else do {
         g \<leftarrow> nodes s grandparent;
         Some (if parent = n_left g then n_right g else n_left g) } } }"

definition trbt_sibling :: "ptr \<Rightarrow> trbt_heap \<Rightarrow> ptr option" where
  "trbt_sibling node s = do {
     parent \<leftarrow> trbt_parent node s;
     if parent = NULL then Some NULL
     else do {
       p \<leftarrow> nodes s parent;
       Some (if node = n_left p then n_right p else n_left p) } }"

section \<open>Rotations\<close>

text \<open>The first statement of both rotations: what pointed at \<open>node\<close> now points at \<open>new\<close>.\<close>

definition replace_child :: "ptr \<Rightarrow> ptr \<Rightarrow> trbt_heap \<Rightarrow> trbt_heap option" where
  "replace_child node new s = do {
     n \<leftarrow> nodes s node;
     if n_parent n \<noteq> NULL then do {
       p \<leftarrow> nodes s (n_parent n);
       if n_left p = node then upd_node (n_parent n) (\<lambda>x. x\<lparr>n_left := new\<rparr>) s
       else upd_node (n_parent n) (\<lambda>x. x\<lparr>n_right := new\<rparr>) s
     } else upd_tree (n_tree n) (\<lambda>x. x\<lparr>t_root := new\<rparr>) s }"

definition trbt_rotate_left :: "ptr \<Rightarrow> trbt_heap \<Rightarrow> trbt_heap option" where
  "trbt_rotate_left node s = do {
     n \<leftarrow> nodes s node;
     s \<leftarrow> replace_child node (n_right n) s;
     s \<leftarrow> upd_node (n_right n) (\<lambda>x. x\<lparr>n_parent := n_parent n\<rparr>) s;
     s \<leftarrow> upd_node node (\<lambda>x. x\<lparr>n_parent := n_right n\<rparr>) s;
     r \<leftarrow> nodes s (n_right n);
     s \<leftarrow> upd_node node (\<lambda>x. x\<lparr>n_right := n_left r\<rparr>) s;
     s \<leftarrow> (if n_left r \<noteq> NULL then upd_node (n_left r) (\<lambda>x. x\<lparr>n_parent := node\<rparr>) s else Some s);
     n \<leftarrow> nodes s node;
     upd_node (n_parent n) (\<lambda>x. x\<lparr>n_left := node\<rparr>) s }"

definition trbt_rotate_right :: "ptr \<Rightarrow> trbt_heap \<Rightarrow> trbt_heap option" where
  "trbt_rotate_right node s = do {
     n \<leftarrow> nodes s node;
     s \<leftarrow> replace_child node (n_left n) s;
     s \<leftarrow> upd_node (n_left n) (\<lambda>x. x\<lparr>n_parent := n_parent n\<rparr>) s;
     s \<leftarrow> upd_node node (\<lambda>x. x\<lparr>n_parent := n_left n\<rparr>) s;
     l \<leftarrow> nodes s (n_left n);
     s \<leftarrow> upd_node node (\<lambda>x. x\<lparr>n_left := n_right l\<rparr>) s;
     s \<leftarrow> (if n_right l \<noteq> NULL then upd_node (n_right l) (\<lambda>x. x\<lparr>n_parent := node\<rparr>) s else Some s);
     n \<leftarrow> nodes s node;
     upd_node (n_parent n) (\<lambda>x. x\<lparr>n_right := node\<rparr>) s }"

section \<open>Colours\<close>

definition trbt_get_color :: "ptr \<Rightarrow> trbt_heap \<Rightarrow> color option" where
  "trbt_get_color node s =
     (if node = NULL then Some Black else do { n \<leftarrow> nodes s node; Some (n_color n) })"

definition trbt_get_color_left :: "ptr \<Rightarrow> trbt_heap \<Rightarrow> color option" where
  "trbt_get_color_left node s =
     (if node = NULL then Some Black
      else do {
        n \<leftarrow> nodes s node;
        if n_left n = NULL then Some Black
        else do { l \<leftarrow> nodes s (n_left n); Some (n_color l) } })"

definition trbt_get_color_right :: "ptr \<Rightarrow> trbt_heap \<Rightarrow> color option" where
  "trbt_get_color_right node s =
     (if node = NULL then Some Black
      else do {
        n \<leftarrow> nodes s node;
        if n_right n = NULL then Some Black
        else do { r \<leftarrow> nodes s (n_right n); Some (n_color r) } })"

definition trbt_set_color :: "ptr \<Rightarrow> color \<Rightarrow> trbt_heap \<Rightarrow> trbt_heap option" where
  "trbt_set_color node c s =
     (if node = NULL \<and> c = Black then Some s
      else upd_node node (\<lambda>x. x\<lparr>n_color := c\<rparr>) s)"

definition trbt_set_color_left :: "ptr \<Rightarrow> color \<Rightarrow> trbt_heap \<Rightarrow> trbt_heap option" where
  "trbt_set_color_left node c s =
     (if node = NULL then (if c = Black then Some s else None)
      else do {
        n \<leftarrow> nodes s node;
        if n_left n = NULL \<and> c = Black then Some s
        else upd_node (n_left n) (\<lambda>x. x\<lparr>n_color := c\<rparr>) s })"

definition trbt_set_color_right :: "ptr \<Rightarrow> color \<Rightarrow> trbt_heap \<Rightarrow> trbt_heap option" where
  "trbt_set_color_right node c s =
     (if node = NULL then (if c = Black then Some s else None)
      else do {
        n \<leftarrow> nodes s node;
        if n_right n = NULL \<and> c = Black then Some s
        else upd_node (n_right n) (\<lambda>x. x\<lparr>n_color := c\<rparr>) s })"

section \<open>Repair after an insertion\<close>

definition trbt_insert_case5 :: "ptr \<Rightarrow> trbt_heap \<Rightarrow> trbt_heap option" where
  "trbt_insert_case5 node s = do {
     parent \<leftarrow> trbt_parent node s;
     grandparent \<leftarrow> trbt_parent parent s;
     s \<leftarrow> upd_node parent (\<lambda>x. x\<lparr>n_color := Black\<rparr>) s;
     s \<leftarrow> upd_node grandparent (\<lambda>x. x\<lparr>n_color := Red\<rparr>) s;
     p \<leftarrow> nodes s parent;
     g \<leftarrow> nodes s grandparent;
     if node = n_left p \<and> parent = n_left g then trbt_rotate_right grandparent s
     else trbt_rotate_left grandparent s }"

definition trbt_insert_case4 :: "ptr \<Rightarrow> trbt_heap \<Rightarrow> trbt_heap option" where
  "trbt_insert_case4 node s = do {
     parent \<leftarrow> trbt_parent node s;
     grandparent \<leftarrow> trbt_parent parent s;
     if grandparent = NULL then Some s
     else do {
       p \<leftarrow> nodes s parent;
       g \<leftarrow> nodes s grandparent;
       (node, s) \<leftarrow>
         (if node = n_right p \<and> parent = n_left g then do {
            s \<leftarrow> trbt_rotate_left parent s;
            n \<leftarrow> nodes s node;
            Some (n_left n, s)
          } else if node = n_left p \<and> parent = n_right g then do {
            s \<leftarrow> trbt_rotate_right parent s;
            n \<leftarrow> nodes s node;
            Some (n_right n, s)
          } else Some (node, s));
       trbt_insert_case5 node s } }"

definition trbt_insert_case3 :: "ptr \<Rightarrow> trbt_heap \<Rightarrow> (ptr option \<times> trbt_heap) option" where
  "trbt_insert_case3 node s = do {
     uncle \<leftarrow> trbt_uncle node s;
     uncle_red \<leftarrow> (if uncle \<noteq> NULL then do { u \<leftarrow> nodes s uncle; Some (n_color u = Red) } else Some False);
     if uncle_red then do {
       parent \<leftarrow> trbt_parent node s;
       s \<leftarrow> upd_node parent (\<lambda>x. x\<lparr>n_color := Black\<rparr>) s;
       s \<leftarrow> upd_node uncle (\<lambda>x. x\<lparr>n_color := Black\<rparr>) s;
       grandparent \<leftarrow> trbt_grandparent node s;
       s \<leftarrow> upd_node grandparent (\<lambda>x. x\<lparr>n_color := Red\<rparr>) s;
       Some (Some grandparent, s)
     } else do {
       s \<leftarrow> trbt_insert_case4 node s;
       Some (None, s) } }"

definition trbt_insert_case2 :: "ptr \<Rightarrow> trbt_heap \<Rightarrow> (ptr option \<times> trbt_heap) option" where
  "trbt_insert_case2 node s = do {
     parent \<leftarrow> trbt_parent node s;
     p \<leftarrow> nodes s parent;
     if n_color p = Black then Some (None, s) else trbt_insert_case3 node s }"

partial_function (option) trbt_insert_case1 :: "ptr \<Rightarrow> trbt_heap \<Rightarrow> trbt_heap option" where
  "trbt_insert_case1 node s = do {
     parent \<leftarrow> trbt_parent node s;
     if parent = NULL then upd_node node (\<lambda>x. x\<lparr>n_color := Black\<rparr>) s
     else do {
       r \<leftarrow> trbt_insert_case2 node s;
       case fst r of None \<Rightarrow> Some (snd r) | Some g \<Rightarrow> trbt_insert_case1 g (snd r) } }"

section \<open>Insertion and lookup\<close>

definition trbt_create_node ::
  "ptr \<Rightarrow> ptr \<Rightarrow> u32 \<Rightarrow> ptr \<Rightarrow> trbt_heap \<Rightarrow> (ptr \<times> trbt_heap) option" where
  "trbt_create_node tree parent key data s = do {
     (node, s) \<leftarrow> talloc_zero tree 48 (Name ''trbt_node_t'') s;
     if node = NULL then Some (NULL, s)
     else do {
       let s = s\<lparr>nodes := (nodes s)(node \<mapsto>
         \<lparr>n_tree = tree, n_parent = parent, n_left = NULL, n_right = NULL, n_color = Black,
          n_key32 = key, n_data = data\<rparr>)\<rparr>;
       (_, s) \<leftarrow> talloc_steal data node s;
       s \<leftarrow> talloc_set_destructor node node_destructor_id s;
       Some (node, s) } }"

text \<open>
  The walk of \<open>trbt_insert32_callback\<close>: \<open>cb\<close> is the callback with its parameter. The
  result is the new node to repair from, or NULL when an existing node was updated.
\<close>

partial_function (option) insert_walk ::
  "u32 \<Rightarrow> (ptr \<Rightarrow> trbt_heap \<Rightarrow> (ptr \<times> trbt_heap) option) \<Rightarrow> ptr \<Rightarrow> ptr \<Rightarrow> trbt_heap \<Rightarrow>
   (ptr \<times> trbt_heap) option" where
  "insert_walk key cb tree node s = do {
     n \<leftarrow> nodes s node;
     if key = n_key32 n then do {
       (d, s) \<leftarrow> cb (n_data n) s;
       s \<leftarrow> upd_node node (\<lambda>x. x\<lparr>n_data := d\<rparr>) s;
       (_, s) \<leftarrow> talloc_steal d node s;
       Some (NULL, s)
     }
     else if key < n_key32 n then
       (if n_left n = NULL then do {
          (d, s) \<leftarrow> cb NULL s;
          (new_node, s) \<leftarrow> trbt_create_node tree node key d s;
          s \<leftarrow> upd_node node (\<lambda>x. x\<lparr>n_left := new_node\<rparr>) s;
          if new_node = NULL then None else Some (new_node, s)
        } else insert_walk key cb tree (n_left n) s)
     else
       (if n_right n = NULL then do {
          (d, s) \<leftarrow> cb NULL s;
          (new_node, s) \<leftarrow> trbt_create_node tree node key d s;
          s \<leftarrow> upd_node node (\<lambda>x. x\<lparr>n_right := new_node\<rparr>) s;
          if new_node = NULL then None else Some (new_node, s)
        } else insert_walk key cb tree (n_right n) s) }"

definition trbt_insert32_callback ::
  "ptr \<Rightarrow> u32 \<Rightarrow> (ptr \<Rightarrow> trbt_heap \<Rightarrow> (ptr \<times> trbt_heap) option) \<Rightarrow> trbt_heap \<Rightarrow> trbt_heap option" where
  "trbt_insert32_callback tree key cb s = do {
     t \<leftarrow> trees s tree;
     if t_root t = NULL then do {
       (d, s) \<leftarrow> cb NULL s;
       (node, s) \<leftarrow> trbt_create_node tree NULL key d s;
       upd_tree tree (\<lambda>x. x\<lparr>t_root := node\<rparr>) s
     } else do {
       (node, s) \<leftarrow> insert_walk key cb tree (t_root t) s;
       if node = NULL then Some s
       else do {
         s \<leftarrow> upd_node node (\<lambda>x. x\<lparr>n_color := Red\<rparr>) s;
         trbt_insert_case1 node s } } }"

text \<open>
  The walk of \<open>trbt_insert32\<close>. \<open>Inl old\<close> is an early return of \<open>old\<close> (the replaced
  data, or NULL when no node could be allocated); \<open>Inr node\<close> is the node to repair from.
\<close>

partial_function (option) insert32_walk ::
  "u32 \<Rightarrow> ptr \<Rightarrow> ptr \<Rightarrow> ptr \<Rightarrow> trbt_heap \<Rightarrow> ((ptr + ptr) \<times> trbt_heap) option" where
  "insert32_walk key data tree node s = do {
     n \<leftarrow> nodes s node;
     if key = n_key32 n then do {
       s \<leftarrow> upd_node node (\<lambda>x. x\<lparr>n_data := data\<rparr>) s;
       (_, s) \<leftarrow> talloc_steal data node s;
       Some (Inl (n_data n), s)
     }
     else if key < n_key32 n then
       (if n_left n = NULL then do {
          (new_node, s) \<leftarrow> trbt_create_node tree node key data s;
          if new_node = NULL then Some (Inl NULL, s)
          else do {
            s \<leftarrow> upd_node node (\<lambda>x. x\<lparr>n_left := new_node\<rparr>) s;
            Some (Inr new_node, s) }
        } else insert32_walk key data tree (n_left n) s)
     else
       (if n_right n = NULL then do {
          (new_node, s) \<leftarrow> trbt_create_node tree node key data s;
          if new_node = NULL then Some (Inl NULL, s)
          else do {
            s \<leftarrow> upd_node node (\<lambda>x. x\<lparr>n_right := new_node\<rparr>) s;
            Some (Inr new_node, s) }
        } else insert32_walk key data tree (n_right n) s) }"

definition trbt_insert32 :: "ptr \<Rightarrow> u32 \<Rightarrow> ptr \<Rightarrow> trbt_heap \<Rightarrow> (ptr \<times> trbt_heap) option" where
  "trbt_insert32 tree key data s = do {
     t \<leftarrow> trees s tree;
     if t_root t = NULL then do {
       (node, s) \<leftarrow> trbt_create_node tree NULL key data s;
       s \<leftarrow> upd_tree tree (\<lambda>x. x\<lparr>t_root := node\<rparr>) s;
       Some (NULL, s)
     } else do {
       (r, s) \<leftarrow> insert32_walk key data tree (t_root t) s;
       case r of
         Inl old \<Rightarrow> Some (old, s)
       | Inr node \<Rightarrow> do {
           s \<leftarrow> upd_node node (\<lambda>x. x\<lparr>n_color := Red\<rparr>) s;
           s \<leftarrow> trbt_insert_case1 node s;
           Some (NULL, s) } } }"

text \<open>The search loop that \<open>trbt_lookup32\<close> and \<open>trbt_delete32\<close> share.\<close>

partial_function (option) find_node :: "u32 \<Rightarrow> ptr \<Rightarrow> trbt_heap \<Rightarrow> ptr option" where
  "find_node key node s =
     (if node = NULL then Some NULL
      else do {
        n \<leftarrow> nodes s node;
        if key = n_key32 n then Some node
        else if key < n_key32 n then find_node key (n_left n) s
        else find_node key (n_right n) s })"

definition trbt_lookup32 :: "ptr \<Rightarrow> u32 \<Rightarrow> trbt_heap \<Rightarrow> ptr option" where
  "trbt_lookup32 tree key s = do {
     t \<leftarrow> trees s tree;
     node \<leftarrow> find_node key (t_root t) s;
     if node = NULL then Some NULL
     else do { n \<leftarrow> nodes s node; Some (n_data n) } }"

end
