(* ===== verification/Talloc_Forest.thy ===== *)
theory Talloc_Forest
  imports Talloc
begin

text \<open>
  The chunk headers represent a forest: an abstract children function \<open>K\<close> gives every
  block the list of its children, most recently added first. \<open>forest\<close> says that the
  next, prev, parent and child fields are exactly the links of that forest, and every
  operation on the headers is shown to act on \<open>K\<close> the way its name promises.
\<close>

section \<open>Sibling lists in the heap\<close>

primrec dllseg :: "(ptr \<rightharpoonup> talloc_chunk) \<Rightarrow> ptr \<Rightarrow> ptr \<Rightarrow> ptr list \<Rightarrow> ptr \<Rightarrow> bool" where
  "dllseg h par prv [] nxt = True"
| "dllseg h par prv (x # xs) nxt =
     ((case h x of None \<Rightarrow> False
       | Some c \<Rightarrow> tc_prev c = prv \<and> tc_parent c = par \<and>
                   tc_next c = (if xs = [] then nxt else head_ptr xs)) \<and>
      dllseg h NULL x xs nxt)"

definition links :: "talloc_chunk \<Rightarrow> ptr \<times> ptr \<times> ptr" where
  "links c = (tc_next c, tc_prev c, tc_parent c)"

definition last_ptr :: "ptr \<Rightarrow> ptr list \<Rightarrow> ptr" where
  "last_ptr d xs = (if xs = [] then d else last xs)"

lemma last_ptr_simps [simp]:
  "last_ptr d [] = d" "last_ptr d (x # xs) = last_ptr x xs" "last_ptr d (xs @ [y]) = y"
  by (auto simp: last_ptr_def)

lemma dllseg_frame:
  "(\<And>x. x \<in> set xs \<Longrightarrow> map_option links (h' x) = map_option links (h x)) \<Longrightarrow>
   dllseg h' par prv xs nxt = dllseg h par prv xs nxt"
proof (induction xs arbitrary: par prv)
  case (Cons x xs)
  from Cons.prems have "map_option links (h' x) = map_option links (h x)" by simp
  moreover from Cons have "dllseg h' NULL x xs nxt = dllseg h NULL x xs nxt" by simp
  ultimately show ?case by (auto simp: links_def split: option.splits)
qed simp

lemma dllseg_upd_other [simp]:
  "x \<notin> set xs \<Longrightarrow> dllseg (h(x \<mapsto> c)) par prv xs nxt = dllseg h par prv xs nxt"
  by (rule dllseg_frame) auto

lemma dllseg_append:
  "dllseg h par prv (xs @ ys) nxt \<longleftrightarrow>
     dllseg h par prv xs (if ys = [] then nxt else head_ptr ys) \<and>
     dllseg h (if xs = [] then par else NULL) (last_ptr prv xs) ys nxt"
  by (induction xs arbitrary: par prv) (auto simp: head_ptr_append split: option.splits)

lemma dllseg_in_dom: "dllseg h par prv xs nxt \<Longrightarrow> set xs \<subseteq> dom h"
  by (induction xs arbitrary: par prv) (auto split: option.splits)

lemma dllseg_set_next:
  assumes "dllseg h par prv (xs @ [u]) nxt" "h u = Some c" "u \<notin> set xs"
  shows "dllseg (h(u \<mapsto> c\<lparr>tc_next := n\<rparr>)) par prv (xs @ [u]) n"
  using assms by (auto simp: dllseg_append)

lemma dllseg_set_prev:
  assumes "dllseg h par prv (y # ys) nxt" "h y = Some c" "y \<notin> set ys"
  shows "dllseg (h(y \<mapsto> c\<lparr>tc_prev := q\<rparr>)) par q (y # ys) nxt"
  using assms by auto

lemma dllseg_set_parent:
  assumes "dllseg h par prv (y # ys) nxt" "h y = Some c" "y \<notin> set ys"
  shows "dllseg (h(y \<mapsto> c\<lparr>tc_parent := q\<rparr>)) q prv (y # ys) nxt"
  using assms by auto

section \<open>The forest\<close>

text \<open>
  \<open>forest_but X s K\<close>: the headers represent \<open>K\<close>, except that the link fields of the
  parentless blocks in \<open>X\<close> are arbitrary (a block between being unlinked and being linked
  again).
\<close>

definition forest_but :: "ptr set \<Rightarrow> 'a talloc_heap_scheme \<Rightarrow> (ptr \<Rightarrow> ptr list) \<Rightarrow> bool" where
  "forest_but X s K \<longleftrightarrow>
     (\<forall>p \<in> dom (chunks s). p \<noteq> NULL \<and> p < brk s) \<and> 0 < brk s \<and>
     null_context s \<in> insert NULL (dom (chunks s)) \<and>
     (\<forall>p c. chunks s p = Some c \<longrightarrow>
        magic_ok (tc_flags c) \<and> tc_child c = head_ptr (K p) \<and> dllseg (chunks s) p NULL (K p) NULL) \<and>
     (\<forall>p. p \<notin> dom (chunks s) \<longrightarrow> K p = []) \<and>
     (\<forall>p. distinct (K p) \<and> p \<notin> set (K p)) \<and>
     (\<forall>p q x. x \<in> set (K p) \<longrightarrow> x \<in> set (K q) \<longrightarrow> p = q) \<and>
     (\<forall>x \<in> X. \<forall>p. x \<notin> set (K p)) \<and>
     (\<forall>x c. chunks s x = Some c \<longrightarrow> x \<notin> X \<longrightarrow> (\<forall>p. x \<notin> set (K p)) \<longrightarrow> links c = (NULL, NULL, NULL))"

abbreviation forest :: "'a talloc_heap_scheme \<Rightarrow> (ptr \<Rightarrow> ptr list) \<Rightarrow> bool" where
  "forest \<equiv> forest_but {}"

text \<open>The two moves on the abstract forest.\<close>

definition detach :: "ptr \<Rightarrow> (ptr \<Rightarrow> ptr list) \<Rightarrow> (ptr \<Rightarrow> ptr list)" where
  "detach x K = (\<lambda>p. removeAll x (K p))"

definition attach :: "ptr \<Rightarrow> ptr \<Rightarrow> (ptr \<Rightarrow> ptr list) \<Rightarrow> (ptr \<Rightarrow> ptr list)" where
  "attach par x K = K(par := x # K par)"

text \<open>
  \<open>same_blocks\<close>: an operation moved blocks around but neither created, freed nor wrote
  one, and touched nothing outside the headers.
\<close>

definition block_data :: "talloc_chunk \<Rightarrow> ptr \<times> destructor \<times> chunk_name \<times> u64 \<times> u32" where
  "block_data c = (tc_refs c, tc_destructor c, tc_name c, tc_size c, tc_flags c)"

definition same_blocks :: "'a talloc_heap_scheme \<Rightarrow> 'a talloc_heap_scheme \<Rightarrow> bool" where
  "same_blocks s s' \<longleftrightarrow>
     handles s' = handles s \<and> null_context s' = null_context s \<and> malloc_ok s' = malloc_ok s \<and>
     brk s' = brk s \<and> talloc_heap.more s' = talloc_heap.more s \<and>
     map_option block_data \<circ> chunks s' = map_option block_data \<circ> chunks s"

lemma same_blocks_refl [simp]: "same_blocks s s"
  by (simp add: same_blocks_def)

lemma same_blocks_trans: "same_blocks s t \<Longrightarrow> same_blocks t u \<Longrightarrow> same_blocks s u"
  by (simp add: same_blocks_def)

lemma same_blocks_dom: "same_blocks s s' \<Longrightarrow> dom (chunks s') = dom (chunks s)"
  by (auto simp: same_blocks_def fun_eq_iff dom_def) (metis map_option_eq_Some option.simps(3))+

lemma same_blocks_frame:
  assumes "same_blocks s s'"
  shows "handles s' = handles s" "null_context s' = null_context s" "brk s' = brk s"
    "malloc_ok s' = malloc_ok s" "talloc_heap.more s' = talloc_heap.more s"
  using assms by (simp_all add: same_blocks_def)

lemma same_blocks_upd:
  "chunks s p = Some c \<Longrightarrow> block_data c' = block_data c \<Longrightarrow>
   same_blocks s (s\<lparr>chunks := (chunks s)(p \<mapsto> c')\<rparr>)"
  by (auto simp: same_blocks_def)

lemma upd_chunk_Some [heap_simps]:
  "chunks s p = Some c \<Longrightarrow> upd_chunk p f s = Some (s\<lparr>chunks := (chunks s)(p \<mapsto> f c)\<rparr>)"
  by (simp add: upd_chunk_def heap_simps)

lemma chunk_from_ptr_Some [heap_simps]:
  "chunks s p = Some c \<Longrightarrow> magic_ok (tc_flags c) \<Longrightarrow> talloc_chunk_from_ptr p s = Some c"
  by (simp add: talloc_chunk_from_ptr_def)


lemma forest_butD:
  assumes "forest_but X s K"
  shows forest_NULL: "chunks s NULL = None" and forest_brk: "0 < brk s" "chunks s (brk s) = None"
    and forest_null_context: "null_context s = NULL \<or> null_context s \<in> dom (chunks s)"
    and forest_chunk: "chunks s p = Some c \<Longrightarrow> magic_ok (tc_flags c) \<and> tc_child c = head_ptr (K p)"
    and forest_dll: "dllseg (chunks s) p NULL (K p) NULL"
    and forest_distinct: "distinct (K p)" "p \<notin> set (K p)"
    and forest_unique: "x \<in> set (K p) \<Longrightarrow> x \<in> set (K q) \<Longrightarrow> p = q"
    and forest_outside: "p \<notin> dom (chunks s) \<Longrightarrow> K p = []"
    and forest_loose: "x \<in> X \<Longrightarrow> x \<notin> set (K p)"
    and forest_root: "chunks s x = Some c \<Longrightarrow> x \<notin> X \<Longrightarrow> \<forall>p. x \<notin> set (K p) \<Longrightarrow> links c = (NULL, NULL, NULL)"
proof -
  show "dllseg (chunks s) p NULL (K p) NULL"
    using assms by (cases "p \<in> dom (chunks s)") (auto simp: forest_but_def)
qed (use assms in \<open>auto simp: forest_but_def\<close>)

lemma forest_kids_dom: "forest_but X s K \<Longrightarrow> x \<in> set (K p) \<Longrightarrow> x \<in> dom (chunks s) \<and> x \<noteq> NULL"
  using forest_dll [THEN dllseg_in_dom, of X s K p] forest_NULL [of X s K] by (metis domIff subsetD)

lemma forest_parent_dom: "forest_but X s K \<Longrightarrow> x \<in> set (K p) \<Longrightarrow> p \<in> dom (chunks s)"
  using forest_outside by fastforce

lemma forest_fresh: "forest_but X s K \<Longrightarrow> brk s \<notin> set (K p) \<and> K (brk s) = []"
  using forest_kids_dom [of X s K "brk s" p] forest_brk(2) [of X s K] forest_outside [of X s K "brk s"] by auto

section \<open>Linking a block under a parent\<close>

text \<open>The header updates that put \<open>x\<close> in front of the children of \<open>par\<close>, whose first child was \<open>f\<close>.\<close>

definition link_first :: "ptr \<Rightarrow> ptr \<Rightarrow> ptr \<Rightarrow> (ptr \<rightharpoonup> talloc_chunk) \<Rightarrow> (ptr \<rightharpoonup> talloc_chunk)" where
  "link_first par x f h = (\<lambda>p.
     if p = x then map_option (\<lambda>c. c\<lparr>tc_next := f, tc_prev := NULL, tc_parent := par\<rparr>) (h p)
     else if p = par then map_option (\<lambda>c. c\<lparr>tc_child := x\<rparr>) (h p)
     else if p = f then map_option (\<lambda>c. c\<lparr>tc_prev := x, tc_parent := NULL\<rparr>) (h p)
     else h p)"

lemma dllseg_link_first_other:
  assumes "x \<notin> set xs" "f \<notin> set xs"
  shows "dllseg (link_first par x f h) q prv xs nxt = dllseg h q prv xs nxt"
  using assms by (intro dllseg_frame) (auto simp: link_first_def option.map_comp comp_def links_def [abs_def])

lemma forest_attach:
  assumes F: "forest_but (insert x X) s K" and x: "x \<in> dom (chunks s)" "x \<notin> X"
    and par: "par \<in> dom (chunks s)" "par \<noteq> x"
  shows "forest_but X (s\<lparr>chunks := link_first par x (head_ptr (K par)) (chunks s)\<rparr>) (attach par x K)"
proof -
  let ?f = "head_ptr (K par)" and ?h = "chunks s"
  let ?h' = "link_first par x ?f ?h"
  have xK: "x \<notin> set (K p)" for p using forest_loose [OF F, of x] by simp
  have dom: "dom ?h' = dom ?h" by (auto simp: link_first_def dom_def)
  have f_only: "?f \<in> set (K q) \<Longrightarrow> q = par" if "K par \<noteq> []" for q
    using forest_unique [OF F, of ?f q par] head_ptr_in_set [OF that] by blast
  have fNULL: "NULL \<notin> set (K q)" for q using forest_kids_dom [OF F, of NULL q] by auto
  have other: "dllseg ?h' q NULL (K q) NULL" if "q \<noteq> par" for q
  proof -
    have "?f \<notin> set (K q)"
      using f_only [of q] that fNULL [of q] by (cases "K par = []") auto
    then show ?thesis using forest_dll [OF F, of q] xK by (simp add: dllseg_link_first_other)
  qed
  have own: "dllseg ?h' par NULL (x # K par) NULL"
  proof (cases "K par")
    case Nil
    with x show ?thesis by (auto simp: link_first_def)
  next
    case (Cons y ys)
    from forest_dll [OF F, of par] have d: "dllseg ?h par NULL (y # ys) NULL" by (simp add: Cons)
    have ny: "y \<notin> set ys" "y \<noteq> x" "y \<noteq> par" "x \<notin> set ys"
      using forest_distinct [OF F, of par] xK [of par] by (auto simp: Cons)
    from d ny have "dllseg ?h' NULL y ys NULL" by (simp add: Cons dllseg_link_first_other)
    with d ny x show ?thesis by (auto simp: Cons link_first_def split: option.splits)
  qed
  show ?thesis
    unfolding forest_but_def
  proof (intro conjI allI ballI impI)
    fix p c assume "chunks (s\<lparr>chunks := ?h'\<rparr>) p = Some c"
    then obtain c0 where "?h p = Some c0" "tc_flags c = tc_flags c0"
        "tc_child c = (if p = par then x else tc_child c0)"
      using par by (auto simp: link_first_def split: if_splits)
    with forest_chunk [OF F, of p c0] show "magic_ok (tc_flags c)"
      and "tc_child c = head_ptr (attach par x K p)" by (auto simp: attach_def)
    show "dllseg (chunks (s\<lparr>chunks := ?h'\<rparr>)) p NULL (attach par x K p) NULL"
      using own other [of p] by (auto simp: attach_def)
  next
    fix p q y assume "y \<in> set (attach par x K p)" "y \<in> set (attach par x K q)"
    then show "p = q" using forest_unique [OF F, of y p q] xK by (auto simp: attach_def split: if_splits)
  next
    fix y c assume y: "chunks (s\<lparr>chunks := ?h'\<rparr>) y = Some c" "y \<notin> X" "\<forall>p. y \<notin> set (attach par x K p)"
    then have "y \<noteq> x" "\<forall>p. y \<notin> set (K p)" by (auto simp: attach_def split: if_splits)
    moreover have "y \<noteq> ?f \<or> y = NULL" using calculation(2) [rule_format, of par] by (cases "K par") auto
    ultimately show "links c = (NULL, NULL, NULL)"
      using y forest_root [OF F, of y] forest_NULL [OF F]
      by (auto simp: link_first_def links_def split: if_splits)
  qed (use F x par dom forest_distinct [OF F] xK in
      \<open>auto simp: forest_but_def attach_def\<close>)
qed

section \<open>Taking a block out of its list\<close>

text \<open>
  The header updates that take \<open>x\<close> out of the children \<open>xs @ x # ys\<close> of \<open>q\<close>; what the
  link fields of \<open>x\<close> hold afterwards does not matter.
\<close>

definition unlinked :: "ptr \<Rightarrow> ptr list \<Rightarrow> ptr \<Rightarrow> ptr list \<Rightarrow>
    (ptr \<rightharpoonup> talloc_chunk) \<Rightarrow> (ptr \<rightharpoonup> talloc_chunk) \<Rightarrow> bool" where
  "unlinked q xs x ys h h' \<longleftrightarrow>
     (\<exists>cx cx'. h x = Some cx \<and> h' x = Some cx' \<and> block_data cx' = block_data cx \<and> tc_child cx' = tc_child cx) \<and>
     (\<forall>p. p \<noteq> x \<longrightarrow> h' p = map_option (\<lambda>c.
        c\<lparr>tc_child := (if p = q \<and> xs = [] then head_ptr ys else tc_child c),
          tc_next := (if xs \<noteq> [] \<and> p = last xs then head_ptr ys else tc_next c),
          tc_prev := (if ys \<noteq> [] \<and> p = head_ptr ys then last_ptr NULL xs else tc_prev c),
          tc_parent := (if ys \<noteq> [] \<and> p = head_ptr ys \<and> xs = [] then q else tc_parent c)\<rparr>) (h p))"

lemma unlinked_dom: "unlinked q xs x ys h h' \<Longrightarrow> dom h' = dom h"
proof -
  assume U: "unlinked q xs x ys h h'"
  have "h' p = None \<longleftrightarrow> h p = None" for p
    using U by (cases "p = x") (auto simp: unlinked_def)
  then show ?thesis by (auto simp: dom_def)
qed

lemma dllseg_unlinked_other:
  assumes U: "unlinked q xs x ys h h'" and "x \<notin> set zs"
    "xs \<noteq> [] \<longrightarrow> last xs \<notin> set zs" "ys \<noteq> [] \<longrightarrow> head_ptr ys \<notin> set zs"
  shows "dllseg h' par prv zs nxt = dllseg h par prv zs nxt"
proof (rule dllseg_frame)
  fix z assume z: "z \<in> set zs"
  with assms have "z \<noteq> x" "\<not> (xs \<noteq> [] \<and> z = last xs)" "\<not> (ys \<noteq> [] \<and> z = head_ptr ys)" by auto
  with U show "map_option links (h' z) = map_option links (h z)"
    by (cases "h z") (auto simp: unlinked_def links_def)
qed

lemma dllseg_unlinked_own:
  assumes U: "unlinked q xs x ys h h'" and d: "dllseg h q NULL (xs @ x # ys) NULL"
    and dist: "distinct (xs @ x # ys)"
  shows "dllseg h' q NULL (xs @ ys) NULL"
proof -
  have new: "z \<noteq> x \<Longrightarrow> h z = Some c \<Longrightarrow> h' z = Some (c\<lparr>
      tc_child := (if z = q \<and> xs = [] then head_ptr ys else tc_child c),
      tc_next := (if xs \<noteq> [] \<and> z = last xs then head_ptr ys else tc_next c),
      tc_prev := (if ys \<noteq> [] \<and> z = head_ptr ys then last_ptr NULL xs else tc_prev c),
      tc_parent := (if ys \<noteq> [] \<and> z = head_ptr ys \<and> xs = [] then q else tc_parent c)\<rparr>)" for z c
    using U by (auto simp: unlinked_def)
  from d have d1: "dllseg h q NULL xs x" and d2: "dllseg h NULL x ys NULL"
    by (auto simp: dllseg_append)
  have "dllseg h' q NULL xs (head_ptr ys)"
  proof (cases xs rule: rev_cases)
    case (snoc us u)
    have "dllseg h' q NULL us u = dllseg h q NULL us u"
      using dist by (intro dllseg_unlinked_other [OF U]) (cases ys; auto simp: snoc)+
    with d1 have us: "dllseg h' q NULL us u" by (simp add: snoc dllseg_append)
    from d1 obtain c where c: "h u = Some c" "tc_prev c = last_ptr NULL us"
        "tc_parent c = (if us = [] then q else NULL)"
      by (auto simp: snoc dllseg_append split: option.splits)
    have u: "u \<noteq> x" "ys = [] \<or> u \<noteq> head_ptr ys" using dist by (cases ys; auto simp: snoc)+
    with new [OF u(1) c(1)] have "h' u = Some (c\<lparr>tc_child := tc_child c, tc_next := head_ptr ys\<rparr>)"
      by (auto simp: snoc)
    with us c show ?thesis by (simp add: snoc dllseg_append)
  qed simp
  moreover have "dllseg h' (if xs = [] then q else NULL) (last_ptr NULL xs) ys NULL"
  proof (cases ys)
    case (Cons y zs)
    have "dllseg h' NULL y zs NULL = dllseg h NULL y zs NULL"
      using dist by (intro dllseg_unlinked_other [OF U]) (cases xs rule: rev_cases; auto simp: Cons)+
    with d2 new [of y] dist show ?thesis
      by (cases xs rule: rev_cases) (auto simp: Cons split: option.splits)
  qed simp
  ultimately show ?thesis by (cases ys) (auto simp: dllseg_append)
qed

lemma detach_split:
  assumes F: "forest_but X s K" and q: "K q = xs @ x # ys"
  shows "detach x K = K(q := xs @ ys)"
proof
  fix p
  have "x \<notin> set (K p)" if "p \<noteq> q" using forest_unique [OF F, of x p q] that q by auto
  moreover have "x \<notin> set xs" "x \<notin> set ys" using forest_distinct(1) [OF F, of q] by (auto simp: q)
  ultimately show "detach x K p = (K(q := xs @ ys)) p" by (auto simp: detach_def q removeAll_id)
qed

lemma forest_detach:
  assumes F: "forest_but X s K" and q: "K q = xs @ x # ys" and xX: "x \<notin> X"
    and U: "unlinked q xs x ys (chunks s) h'"
  shows "forest_but (insert x X) (s\<lparr>chunks := h'\<rparr>) (detach x K)"
proof -
  have dist: "distinct (xs @ x # ys)" "q \<notin> set (xs @ x # ys)"
    using forest_distinct [OF F, of q] by (simp_all add: q)
  have only: "z \<in> set (K p) \<Longrightarrow> z \<in> set (xs @ x # ys) \<Longrightarrow> p = q" for z p
    using forest_unique [OF F, of z p q] by (simp add: q)
  have other: "dllseg h' p NULL (K p) NULL" if "p \<noteq> q" for p
  proof -
    have "x \<notin> set (K p)" "xs \<noteq> [] \<longrightarrow> last xs \<notin> set (K p)" "ys \<noteq> [] \<longrightarrow> head_ptr ys \<notin> set (K p)"
      using only [of x p] only [of "last xs" p] only [of "head_ptr ys" p] that head_ptr_in_set [of ys] by auto
    with forest_dll [OF F, of p] show ?thesis by (simp add: dllseg_unlinked_other [OF U])
  qed
  have own: "dllseg h' q NULL (xs @ ys) NULL"
    using dllseg_unlinked_own [OF U _ dist(1)] forest_dll [OF F, of q] by (simp add: q)
  show ?thesis
    unfolding forest_but_def detach_split [OF F q]
  proof (intro conjI allI ballI impI)
    fix p c assume "chunks (s\<lparr>chunks := h'\<rparr>) p = Some c"
    then obtain c0 where "chunks s p = Some c0" "tc_flags c = tc_flags c0"
        "tc_child c = (if p = q \<and> xs = [] then head_ptr ys else tc_child c0)"
      using U dist(2) by (cases "p = x") (auto simp: unlinked_def block_data_def)
    with forest_chunk [OF F, of p c0] show "magic_ok (tc_flags c)"
      and "tc_child c = head_ptr ((K(q := xs @ ys)) p)"
      by (auto simp: q head_ptr_append)
    show "dllseg (chunks (s\<lparr>chunks := h'\<rparr>)) p NULL ((K(q := xs @ ys)) p) NULL"
      using own other [of p] by simp
  next
    fix p r y assume "y \<in> set ((K(q := xs @ ys)) p)" "y \<in> set ((K(q := xs @ ys)) r)"
    then show "p = r" using forest_unique [OF F, of y p r] by (auto simp: q split: if_splits)
  next
    fix z p assume "z \<in> insert x X"
    then show "z \<notin> set ((K(q := xs @ ys)) p)"
      using forest_loose [OF F, of z p] forest_loose [OF F, of z q] only [of x p] dist by (auto simp: q)
  next
    fix z c assume z: "chunks (s\<lparr>chunks := h'\<rparr>) z = Some c" "z \<notin> insert x X"
      "\<forall>p. z \<notin> set ((K(q := xs @ ys)) p)"
    from z(3) have "z \<notin> set (xs @ ys)" by (metis fun_upd_same)
    moreover have "z \<notin> set (K p)" for p
      using z(3) [rule_format, of p] z(2) calculation by (cases "p = q") (auto simp: q)
    ultimately show "links c = (NULL, NULL, NULL)"
      using z U forest_root [OF F, of z] head_ptr_in_set [of ys] last_in_set [of xs]
      by (cases "chunks s z") (auto simp: unlinked_def links_def)
  next
    fix p assume "p \<notin> dom (chunks (s\<lparr>chunks := h'\<rparr>))"
    then show "(K(q := xs @ ys)) p = []"
      using forest_outside [OF F, of p] unlinked_dom [OF U] by (auto simp: q)
  qed (use F dist forest_distinct [OF F] unlinked_dom [OF U] in \<open>auto simp: forest_but_def\<close>)
qed

lemma dllseg_mid:
  assumes "dllseg h par prv (xs @ x # ys) NULL"
  obtains c where "h x = Some c" "tc_next c = head_ptr ys" "tc_prev c = last_ptr prv xs"
    "tc_parent c = (if xs = [] then par else NULL)"
  using assms by (auto simp: dllseg_append split: option.splits if_splits)

lemma unlink_first:
  assumes F: "forest_but X s K" and q: "K q = x # ys"
  shows "\<exists>h'. unlink_chunk x s = Some (s\<lparr>chunks := h'\<rparr>) \<and> unlinked q [] x ys (chunks s) h'"
proof -
  have qd: "q \<in> dom (chunks s)" using forest_parent_dom [OF F, of x q] by (simp add: q)
  then obtain qc where qc: "chunks s q = Some qc" "tc_child qc = x"
    using forest_chunk [OF F, of q] by (auto simp: q)
  obtain c where c: "chunks s x = Some c" "tc_next c = head_ptr ys" "tc_prev c = NULL" "tc_parent c = q"
    using forest_dll [OF F, of q] dllseg_mid [of "chunks s" q NULL "[]" x ys] by (auto simp: q)
  have ne: "q \<noteq> NULL" "x \<noteq> NULL" "q \<noteq> x" "q \<notin> set ys" "x \<notin> set ys" "NULL \<notin> set ys"
    using qd forest_NULL [OF F] forest_kids_dom [OF F, of x q] forest_distinct [OF F, of q]
      forest_kids_dom [OF F, of NULL q] by (auto simp: q intro!: gr0I)
  show ?thesis
  proof (cases ys)
    case Nil
    with qc c ne show ?thesis
      by (auto simp: unlink_chunk_def tlist_remove_child_def heap_simps unlinked_def block_data_def
          option.map_ident fun_eq_iff intro!: exI)
  next
    case (Cons y zs)
    obtain yc where yc: "chunks s y = Some yc"
      using forest_kids_dom [OF F, of y q] by (auto simp: q Cons)
    have "y \<noteq> x" "y \<noteq> q" "y \<noteq> NULL" using ne by (auto simp: Cons)
    with qc c ne yc Cons show ?thesis
      by (auto simp: unlink_chunk_def tlist_remove_child_def heap_simps unlinked_def block_data_def
          option.map_ident fun_eq_iff intro!: exI)
  qed
qed

lemma unlink_later:
  assumes F: "forest_but X s K" and q: "K q = xs @ x # ys" and xs: "xs \<noteq> []"
  shows "\<exists>h'. unlink_chunk x s = Some (s\<lparr>chunks := h'\<rparr>) \<and> unlinked q xs x ys (chunks s) h'"
proof -
  obtain us u where us: "xs = us @ [u]" using xs by (cases xs rule: rev_cases) auto
  obtain c where c: "chunks s x = Some c" "tc_next c = head_ptr ys" "tc_prev c = u" "tc_parent c = NULL"
    using forest_dll [OF F, of q] dllseg_mid [of "chunks s" q NULL xs x ys] by (auto simp: q us)
  obtain uc where uc: "chunks s u = Some uc"
    using forest_kids_dom [OF F, of u q] by (auto simp: q us)
  have ne: "u \<noteq> NULL" "x \<noteq> NULL" "u \<noteq> x" "u \<notin> set ys" "x \<notin> set ys" "NULL \<notin> set ys"
    using forest_kids_dom [OF F, of x q] forest_kids_dom [OF F, of u q] forest_distinct [OF F, of q]
      forest_kids_dom [OF F, of NULL q] by (auto simp: q us)
  show ?thesis
  proof (cases ys)
    case Nil
    with c uc ne show ?thesis
      by (auto simp: unlink_chunk_def heap_simps unlinked_def block_data_def us option.map_ident)
  next
    case (Cons y zs)
    obtain yc where yc: "chunks s y = Some yc"
      using forest_kids_dom [OF F, of y q] by (auto simp: q Cons)
    have "y \<noteq> x" "y \<noteq> u" "y \<noteq> NULL" using ne by (auto simp: Cons)
    with c uc ne yc Cons show ?thesis
      by (auto simp: unlink_chunk_def heap_simps unlinked_def block_data_def us option.map_ident)
  qed
qed

text \<open>Unlinking keeps the blocks and leaves the unlinked one loose.\<close>

lemma unlinked_same_blocks:
  assumes U: "unlinked q xs x ys (chunks s) h'"
  shows "same_blocks s (s\<lparr>chunks := h'\<rparr>)"
proof -
  have "map_option block_data (h' p) = map_option block_data (chunks s p)" for p
    using U by (cases "p = x"; cases "chunks s p") (auto simp: unlinked_def block_data_def)
  then show ?thesis by (auto simp: same_blocks_def)
qed

lemma forest_but_weaken:
  assumes F: "forest_but X s K" and "\<forall>p. x \<notin> set (K p)"
  shows "forest_but (insert x X) s K"
  using assms by (auto simp: forest_but_def)

lemma unlink_chunk_forest:
  assumes F: "forest_but X s K" and x: "x \<in> dom (chunks s)" "x \<notin> X"
  shows "\<exists>s'. unlink_chunk x s = Some s' \<and> forest_but (insert x X) s' (detach x K) \<and> same_blocks s s'"
proof (cases "\<exists>q. x \<in> set (K q)")
  case True
  then obtain q xs ys where q: "K q = xs @ x # ys" by (metis split_list)
  then obtain h' where "unlink_chunk x s = Some (s\<lparr>chunks := h'\<rparr>)" "unlinked q xs x ys (chunks s) h'"
    using unlink_first [OF F, of q x ys] unlink_later [OF F q] by (cases "xs = []") auto
  with forest_detach [OF F q x(2)] unlinked_same_blocks show ?thesis by blast
next
  case False
  obtain c where c: "chunks s x = Some c" using x by auto
  with False forest_root [OF F, of x c] x have "links c = (NULL, NULL, NULL)" by auto
  with c have "unlink_chunk x s = Some s" by (simp add: unlink_chunk_def links_def)
  moreover have "detach x K = K" using False by (auto simp: detach_def removeAll_id)
  ultimately show ?thesis using forest_but_weaken [OF F, of x] False by auto
qed

text \<open>A loose block that gets empty links is a root.\<close>

lemma forest_make_root:
  assumes F: "forest_but (insert x X) s K" and x: "x \<notin> X" and c: "chunks s x = Some c"
    and l: "links c' = (NULL, NULL, NULL)" and b: "tc_child c' = tc_child c" "magic_ok (tc_flags c')"
  shows "forest_but X (s\<lparr>chunks := (chunks s)(x \<mapsto> c')\<rparr>) K"
proof -
  have xK: "x \<notin> set (K p)" for p using forest_loose [OF F, of x] by simp
  then have d: "dllseg ((chunks s)(x \<mapsto> c')) p NULL (K p) NULL" for p
    using forest_dll [OF F, of p] by simp
  show ?thesis
    unfolding forest_but_def
  proof (intro conjI allI ballI impI)
    fix p e assume "chunks (s\<lparr>chunks := (chunks s)(x \<mapsto> c')\<rparr>) p = Some e"
    then show "magic_ok (tc_flags e)" "tc_child e = head_ptr (K p)"
      using forest_chunk [OF F, of p e] forest_chunk [OF F, of x c] c b by (auto split: if_splits)
  next
    fix z e assume "chunks (s\<lparr>chunks := (chunks s)(x \<mapsto> c')\<rparr>) z = Some e" "z \<notin> X" "\<forall>p. z \<notin> set (K p)"
    then show "links e = (NULL, NULL, NULL)"
      using forest_root [OF F, of z e] l by (auto split: if_splits)
  qed (use F c d xK in \<open>auto simp: forest_but_def\<close>)
qed

section \<open>What the operations do to the forest\<close>

text \<open>Where a steal puts a block: the new context, or the null context when that is NULL.\<close>

definition context_of :: "ptr \<Rightarrow> 'a talloc_heap_scheme \<Rightarrow> ptr" where
  "context_of ctx s = (if ctx = NULL then null_context s else ctx)"

definition move_to :: "ptr \<Rightarrow> ptr \<Rightarrow> (ptr \<Rightarrow> ptr list) \<Rightarrow> (ptr \<Rightarrow> ptr list)" where
  "move_to ctx x K =
     (if ctx = x then K else if ctx = NULL then detach x K else attach ctx x (detach x K))"

lemma parent_first_child:
  assumes F: "forest_but X s K" and c: "chunks s x = Some c" "x \<notin> X" and par: "tc_parent c \<noteq> NULL"
  shows "\<exists>ys. K (tc_parent c) = x # ys"
proof -
  obtain q where "x \<in> set (K q)"
    using forest_root [OF F c] par by (auto simp: links_def)
  then obtain xs ys where q: "K q = xs @ x # ys" by (metis split_list)
  from forest_dll [OF F, of q] c par have "xs = []" "tc_parent c = q"
    by (auto simp: q dllseg_append split: if_splits)
  with q show ?thesis by auto
qed

text \<open>The last lines of \<open>__talloc_steal\<close> link a loose block in front of the new parent's children.\<close>

lemma link_loose:
  assumes F: "forest_but (insert x X) s K" and x: "x \<notin> X" "chunks s x = Some c"
    and ctx: "ctx \<in> dom (chunks s)" "ctx \<noteq> x"
  shows "do {
      s \<leftarrow> upd_chunk x (\<lambda>c. c\<lparr>tc_parent := ctx\<rparr>) s;
      nc \<leftarrow> chunks s ctx;
      s \<leftarrow> (if tc_child nc \<noteq> NULL then upd_chunk (tc_child nc) (\<lambda>c. c\<lparr>tc_parent := NULL\<rparr>) s else Some s);
      s \<leftarrow> tlist_add_child ctx x s;
      k s } = k (s\<lparr>chunks := link_first ctx x (head_ptr (K ctx)) (chunks s)\<rparr>)"
proof -
  obtain nc where nc: "chunks s ctx = Some nc" "tc_child nc = head_ptr (K ctx)"
    using ctx forest_chunk [OF F, of ctx] by auto
  show ?thesis
  proof (cases "K ctx")
    case Nil
    with nc x ctx forest_NULL [OF F] show ?thesis
      by (auto simp: heap_simps tlist_add_child_def link_first_def fun_eq_iff intro!: arg_cong [where f = k])
  next
    case (Cons y ys)
    have y: "y \<noteq> NULL" "y \<noteq> x" "y \<noteq> ctx" and "y \<in> dom (chunks s)"
      using forest_kids_dom [OF F, of y ctx] forest_loose [OF F, of x ctx] forest_distinct [OF F, of ctx]
      by (auto simp: Cons)
    then obtain yc where "chunks s y = Some yc" by auto
    with y nc x ctx Cons show ?thesis
      by (auto simp: heap_simps tlist_add_child_def link_first_def fun_eq_iff intro!: arg_cong [where f = k])
  qed
qed

lemma same_blocks_link_first:
  "same_blocks s (s\<lparr>chunks := link_first par x f (chunks s)\<rparr>)"
  by (auto simp: same_blocks_def link_first_def fun_eq_iff block_data_def [abs_def] option.map_comp comp_def)

lemma talloc_steal_forest:
  assumes F: "forest s K" and x: "x \<in> dom (chunks s)"
    and ctx: "context_of new s = NULL \<or> context_of new s \<in> dom (chunks s)"
  shows "\<exists>s'. talloc_steal new x s = Some (x, s') \<and> forest s' (move_to (context_of new s) x K) \<and> same_blocks s s'"
proof -
  let ?ctx = "context_of new s"
  obtain c where c: "chunks s x = Some c" using x by auto
  have m: "magic_ok (tc_flags c)" using forest_chunk [OF F c] by simp
  have xN: "x \<noteq> NULL" using x forest_NULL [OF F] by (auto intro!: gr0I)
  obtain s1 where s1: "unlink_chunk x s = Some s1" "forest_but {x} s1 (detach x K)" "same_blocks s s1"
    using unlink_chunk_forest [OF F x] by auto
  obtain c1 where c1: "chunks s1 x = Some c1" using same_blocks_dom [OF s1(3)] x by auto
  have m1: "magic_ok (tc_flags c1)" using forest_chunk [OF s1(2) c1] by simp
  show ?thesis
  proof (cases "?ctx = NULL")
    case True
    let ?c = "c1\<lparr>tc_parent := NULL, tc_next := NULL, tc_prev := NULL\<rparr>"
    have "talloc_steal new x s = Some (x, s1\<lparr>chunks := (chunks s1)(x \<mapsto> ?c)\<rparr>)"
      using True xN c m s1(1) c1 by (simp add: talloc_steal_def context_of_def heap_simps Let_def split: if_splits)
    moreover have "forest (s1\<lparr>chunks := (chunks s1)(x \<mapsto> ?c)\<rparr>) (detach x K)"
      by (rule forest_make_root [OF s1(2) _ c1]) (simp_all add: links_def m1)
    moreover have "same_blocks s (s1\<lparr>chunks := (chunks s1)(x \<mapsto> ?c)\<rparr>)"
      using s1(3) same_blocks_upd [OF c1, of ?c] by (auto intro: same_blocks_trans simp: block_data_def)
    ultimately show ?thesis using True xN by (simp add: move_to_def)
  next
    case False
    with ctx obtain nc where nc: "chunks s ?ctx = Some nc" by auto
    have nd: "?ctx \<in> dom (chunks s1)" using nc same_blocks_dom [OF s1(3)] by auto
    have steal: "talloc_steal new x s =
      (if x = ?ctx \<or> tc_parent c = ?ctx then Some (x, s)
       else Some (x, s1\<lparr>chunks := link_first ?ctx x (head_ptr (detach x K ?ctx)) (chunks s1)\<rparr>))"
      if "x \<noteq> ?ctx"
      using False xN c m s1(1) link_loose [OF s1(2) _ c1 nd, of "\<lambda>s. Some (x, s)"] that nc forest_chunk [OF F nc]
      by (auto simp: talloc_steal_def context_of_def heap_simps Let_def)
    consider (self) "x = ?ctx" | (first) "x \<noteq> ?ctx" "tc_parent c = ?ctx" | (move) "x \<noteq> ?ctx" "tc_parent c \<noteq> ?ctx"
      by blast
    then show ?thesis
    proof cases
      case self
      have "talloc_steal new x s = Some (x, s)"
        using self nc forest_chunk [OF F nc] xN
        by (simp add: talloc_steal_def context_of_def heap_simps Let_def split: if_splits)
      then show ?thesis using F self by (simp add: move_to_def)
    next
      case first
      obtain ys where ys: "K ?ctx = x # ys"
        using parent_first_child [OF F c] first(2) False by auto
      then have "attach ?ctx x (detach x K) = K"
        by (simp add: detach_split [OF F, of ?ctx "[]" x ys] attach_def fun_upd_idem)
      with steal first F False show ?thesis by (simp add: move_to_def)
    next
      case move
      have "forest (s1\<lparr>chunks := link_first ?ctx x (head_ptr (detach x K ?ctx)) (chunks s1)\<rparr>)
          (attach ?ctx x (detach x K))"
        using s1(2) c1 nc same_blocks_dom [OF s1(3)] move by (intro forest_attach) auto
      with steal move False same_blocks_trans [OF s1(3) same_blocks_link_first] show ?thesis
        by (simp add: move_to_def)
    qed
  qed
qed

text \<open>Writing a header field that is no link keeps the forest.\<close>

lemma forest_upd_data:
  assumes F: "forest_but X s K" and c: "chunks s p = Some c"
    and c': "links c' = links c" "tc_child c' = tc_child c" "magic_ok (tc_flags c')"
  shows "forest_but X (s\<lparr>chunks := (chunks s)(p \<mapsto> c')\<rparr>) K"
proof -
  have d: "dllseg ((chunks s)(p \<mapsto> c')) q NULL (K q) NULL" for q
    using forest_dll [OF F, of q] c c'(1) by (subst dllseg_frame [where h = "chunks s"]) auto
  show ?thesis
    unfolding forest_but_def
  proof (intro conjI allI ballI impI)
    fix q e assume "chunks (s\<lparr>chunks := (chunks s)(p \<mapsto> c')\<rparr>) q = Some e"
    then show "magic_ok (tc_flags e)" "tc_child e = head_ptr (K q)"
      using forest_chunk [OF F, of q] c c' by (auto split: if_splits)
  next
    fix z e assume "chunks (s\<lparr>chunks := (chunks s)(p \<mapsto> c')\<rparr>) z = Some e" "z \<notin> X" "\<forall>q. z \<notin> set (K q)"
    then show "links e = (NULL, NULL, NULL)"
      using forest_root [OF F, of z] c c'(1) by (auto split: if_splits)
  qed (use F c d in \<open>auto simp: forest_but_def\<close>)
qed

text \<open>
  \<open>allocates p d s s'\<close>: the step from \<open>s\<close> to \<open>s'\<close> created the block \<open>p\<close> with header
  data \<open>d\<close> at a new address and left every other block as it was.
\<close>

definition allocates ::
  "ptr \<Rightarrow> ptr \<times> destructor \<times> chunk_name \<times> u64 \<times> u32 \<Rightarrow> 'a talloc_heap_scheme \<Rightarrow> 'a talloc_heap_scheme \<Rightarrow> bool" where
  "allocates p d s s' \<longleftrightarrow>
     handles s' = handles s \<and> null_context s' = null_context s \<and> malloc_ok s' = malloc_ok s \<and>
     talloc_heap.more s' = talloc_heap.more s \<and> p = brk s \<and> brk s' = Suc (brk s) \<and>
     map_option block_data \<circ> chunks s' = (map_option block_data \<circ> chunks s)(p \<mapsto> d)"

lemma allocates_dom: "allocates p d s s' \<Longrightarrow> dom (chunks s') = insert p (dom (chunks s))"
proof -
  assume "allocates p d s s'"
  then have "map_option block_data (chunks s' q) = (if q = p then Some d else map_option block_data (chunks s q))" for q
    by (auto simp: allocates_def fun_eq_iff)
  then have "chunks s' q = None \<longleftrightarrow> q \<noteq> p \<and> chunks s q = None" for q
    by (metis (no_types) None_eq_map_option_iff option.discI)
  then show ?thesis by (auto simp: dom_def)
qed

lemma allocates_same_blocks:
  "allocates p d s s1 \<Longrightarrow> same_blocks s1 s2 \<Longrightarrow> allocates p d s s2"
  by (simp add: allocates_def same_blocks_def)

lemma forest_fresh_chunk:
  assumes F: "forest s K" and c: "links c = (NULL, NULL, NULL)" "tc_child c = NULL" "magic_ok (tc_flags c)"
  shows "forest (s\<lparr>brk := Suc (brk s), chunks := (chunks s)(brk s \<mapsto> c)\<rparr>) K"
proof -
  let ?b = "brk s"
  have b: "?b \<notin> set (K p)" "K ?b = []" for p using forest_fresh [OF F] by auto
  then have d: "dllseg ((chunks s)(?b \<mapsto> c)) p NULL (K p) NULL" for p
    using forest_dll [OF F, of p] by simp
  show ?thesis
    unfolding forest_but_def
  proof (intro conjI allI ballI impI)
    fix p e assume "chunks (s\<lparr>brk := Suc ?b, chunks := (chunks s)(?b \<mapsto> c)\<rparr>) p = Some e"
    then show "magic_ok (tc_flags e)" "tc_child e = head_ptr (K p)"
      using forest_chunk [OF F, of p e] c b by (auto split: if_splits)
  next
    fix z e assume "chunks (s\<lparr>brk := Suc ?b, chunks := (chunks s)(?b \<mapsto> c)\<rparr>) z = Some e"
      "z \<notin> {}" "\<forall>p. z \<notin> set (K p)"
    then show "links e = (NULL, NULL, NULL)"
      using forest_root [OF F, of z e] c by (auto split: if_splits)
  qed (use F d in \<open>auto simp: forest_but_def less_Suc_eq\<close>)
qed

lemma magic_ok_MAGIC [simp]: "magic_ok TALLOC_MAGIC"
  by (simp add: magic_ok_def TALLOC_MAGIC_def TALLOC_FLAG_FREE_def)

definition alloc_under :: "ptr \<Rightarrow> ptr \<Rightarrow> (ptr \<Rightarrow> ptr list) \<Rightarrow> (ptr \<Rightarrow> ptr list)" where
  "alloc_under ctx p K = (if ctx = NULL then K else attach ctx p K)"

lemma init_talloc_forest:
  assumes F: "forest s K" and par: "par = NULL \<or> par \<in> dom (chunks s)"
  shows "\<exists>s'. init_talloc par (brk s) sz (s\<lparr>brk := Suc (brk s)\<rparr>) = Some (brk s, s') \<and>
    forest s' (alloc_under par (brk s) K) \<and> allocates (brk s) (NULL, D_null, NoName, sz, TALLOC_MAGIC) s s'"
proof -
  let ?b = "brk s"
  let ?c = "\<lparr>tc_next = NULL, tc_prev = NULL, tc_parent = NULL, tc_child = NULL, tc_refs = NULL,
           tc_destructor = D_null, tc_name = NoName, tc_size = sz, tc_flags = TALLOC_MAGIC\<rparr>"
  let ?s0 = "s\<lparr>brk := Suc ?b, chunks := (chunks s)(?b \<mapsto> ?c)\<rparr>"
  have F0: "forest ?s0 K" by (rule forest_fresh_chunk [OF F]) (simp_all add: links_def)
  have A0: "allocates ?b (NULL, D_null, NoName, sz, TALLOC_MAGIC) s ?s0"
    by (auto simp: allocates_def block_data_def fun_eq_iff)
  have b0: "0 < ?b" by (rule forest_brk(1) [OF F])
  show ?thesis
  proof (cases "par = NULL")
    case True
    then have "init_talloc par ?b sz (s\<lparr>brk := Suc ?b\<rparr>) = Some (?b, ?s0)"
      using b0 by (simp add: init_talloc_def heap_simps Let_def)
    with F0 A0 True show ?thesis by (auto simp: alloc_under_def)
  next
    case False
    with par have pd: "par \<in> dom (chunks s)" "par \<noteq> ?b" using forest_brk(2) [OF F] by auto
    have F1: "forest_but {?b} ?s0 K" using forest_but_weaken [OF F0, of ?b] forest_fresh [OF F] by auto
    have "forest (?s0\<lparr>chunks := link_first par ?b (head_ptr (K par)) (chunks ?s0)\<rparr>) (attach par ?b K)"
      using F1 pd by (intro forest_attach) auto
    moreover have "init_talloc par ?b sz (s\<lparr>brk := Suc ?b\<rparr>) =
        Some (?b, ?s0\<lparr>chunks := link_first par ?b (head_ptr (K par)) (chunks ?s0)\<rparr>)"
    proof -
      obtain pc where pc: "chunks s par = Some pc" "tc_child pc = head_ptr (K par)"
        using pd forest_chunk [OF F, of par] by auto
      show ?thesis
      proof (cases "K par")
        case Nil
        with pc pd b0 False forest_NULL [OF F] show ?thesis
          by (auto simp: init_talloc_def heap_simps link_first_def fun_eq_iff Let_def)
      next
        case (Cons y ys)
        have y: "y \<noteq> NULL" "y \<noteq> ?b" "y \<noteq> par" and "y \<in> dom (chunks s)"
          using forest_kids_dom [OF F, of y par] forest_fresh [OF F, of par] forest_distinct [OF F, of par]
          by (auto simp: Cons)
        then obtain yc where "chunks s y = Some yc" by auto
        with y pc pd b0 False Cons show ?thesis
          by (auto simp: init_talloc_def heap_simps link_first_def fun_eq_iff Let_def)
      qed
    qed
    ultimately show ?thesis
      using False allocates_same_blocks [OF A0 same_blocks_link_first] by (simp add: alloc_under_def)
  qed
qed

lemma talloc_internal_forest:
  assumes F: "forest s K" and ctx: "context_of ctx s = NULL \<or> context_of ctx s \<in> dom (chunks s)"
    and sz: "sz < MAX_TALLOC_SIZE" and ok: "malloc_ok s (brk s)"
  shows "\<exists>s'. talloc_internal ctx sz s = Some (brk s, s') \<and>
    forest s' (alloc_under (context_of ctx s) (brk s) K) \<and>
    allocates (brk s) (NULL, D_null, NoName, sz, TALLOC_MAGIC) s s'"
proof -
  have "talloc_internal ctx sz s = init_talloc (context_of ctx s) (brk s) sz (s\<lparr>brk := Suc (brk s)\<rparr>)"
    using ctx sz ok forest_chunk [OF F, of "context_of ctx s"]
    by (auto simp: talloc_internal_def context_of_def tc_malloc_def Let_def heap_simps not_le)
  with init_talloc_forest [OF F ctx] show ?thesis by simp
qed

lemma talloc_internal_fails:
  assumes F: "forest s K" and ctx: "context_of ctx s = NULL \<or> context_of ctx s \<in> dom (chunks s)"
    and no: "MAX_TALLOC_SIZE \<le> sz \<or> \<not> malloc_ok s (brk s)"
  shows "\<exists>s'. talloc_internal ctx sz s = Some (NULL, s') \<and> forest s' K \<and> chunks s' = chunks s \<and>
    (s' = s \<or> s' = s\<lparr>brk := Suc (brk s)\<rparr>)"
proof (cases "MAX_TALLOC_SIZE \<le> sz")
  case True
  with F show ?thesis by (simp add: talloc_internal_def)
next
  case False
  with no ctx forest_chunk [OF F, of "context_of ctx s"]
  have "talloc_internal ctx sz s = Some (NULL, s\<lparr>brk := Suc (brk s)\<rparr>)"
    by (auto simp: talloc_internal_def context_of_def tc_malloc_def init_talloc_def Let_def heap_simps)
  moreover have "forest (s\<lparr>brk := Suc (brk s)\<rparr>) K"
    using F by (auto simp: forest_but_def less_Suc_eq)
  ultimately show ?thesis by simp
qed

lemma allocates_chunk:
  assumes "allocates p (r, d, n, z, f) s s'"
  obtains c where "chunks s' p = Some c" "tc_refs c = r" "tc_destructor c = d" "tc_name c = n"
    "tc_size c = z" "tc_flags c = f"
proof -
  have "(map_option block_data \<circ> chunks s') p = Some (r, d, n, z, f)"
    using assms by (simp add: allocates_def)
  then show ?thesis by (auto simp: block_data_def intro: that)
qed

text \<open>Rewriting the data of the block just allocated.\<close>

lemma allocates_upd:
  assumes A: "allocates p d s s'" and c: "chunks s' p = Some c"
  shows "allocates p (block_data c') s (s'\<lparr>chunks := (chunks s')(p \<mapsto> c')\<rparr>)"
proof -
  have "map_option block_data \<circ> (chunks s')(p \<mapsto> c') = (map_option block_data \<circ> chunks s')(p \<mapsto> block_data c')"
    by (auto simp: fun_eq_iff)
  with A show ?thesis by (simp add: allocates_def)
qed

lemma talloc_named_const_forest:
  assumes F: "forest s K" and ctx: "context_of ctx s = NULL \<or> context_of ctx s \<in> dom (chunks s)"
    and sz: "sz < MAX_TALLOC_SIZE" and ok: "malloc_ok s (brk s)"
  shows "\<exists>s'. talloc_named_const ctx sz name s = Some (brk s, s') \<and>
    forest s' (alloc_under (context_of ctx s) (brk s) K) \<and>
    allocates (brk s) (NULL, D_null, name, sz, TALLOC_MAGIC) s s'"
proof -
  obtain s1 where s1: "talloc_internal ctx sz s = Some (brk s, s1)"
      "forest s1 (alloc_under (context_of ctx s) (brk s) K)"
      "allocates (brk s) (NULL, D_null, NoName, sz, TALLOC_MAGIC) s s1"
    using talloc_internal_forest [OF assms] by blast
  obtain c where c: "chunks s1 (brk s) = Some c" "tc_refs c = NULL" "tc_destructor c = D_null"
      "tc_size c = sz" "tc_flags c = TALLOC_MAGIC"
    using allocates_chunk [OF s1(3)] by blast
  let ?s = "s1\<lparr>chunks := (chunks s1)(brk s \<mapsto> c\<lparr>tc_name := name\<rparr>)\<rparr>"
  have "talloc_named_const ctx sz name s = Some (brk s, ?s)"
    using s1(1) c forest_brk(1) [OF F] by (simp add: talloc_named_const_def talloc_set_name_const_def heap_simps)
  moreover have "forest ?s (alloc_under (context_of ctx s) (brk s) K)"
    by (rule forest_upd_data [OF s1(2) c(1)]) (simp_all add: links_def c)
  moreover have "allocates (brk s) (NULL, D_null, name, sz, TALLOC_MAGIC) s ?s"
    using allocates_upd [OF s1(3) c(1), of "c\<lparr>tc_name := name\<rparr>"] c by (simp add: block_data_def)
  ultimately show ?thesis by blast
qed

section \<open>Asking for the parent\<close>

lemma first_sibling_dll:
  assumes "dllseg h par NULL (xs @ x # ys) NULL" "chunks s = h" "NULL \<notin> set xs"
  shows "first_sibling x s = Some (head_ptr (xs @ [x]))"
  using assms
proof (induction xs arbitrary: x ys rule: rev_induct)
  case Nil
  then obtain c where "h x = Some c" "tc_prev c = NULL" by (auto split: option.splits)
  with Nil.prems show ?case by (simp add: first_sibling.simps)
next
  case (snoc u us)
  have u: "u \<noteq> NULL" "NULL \<notin> set us" using snoc.prems by auto
  obtain c where c: "h x = Some c" "tc_prev c = u"
    using dllseg_mid [OF snoc.prems(1)] by auto
  have "first_sibling u s = Some (head_ptr (us @ [u]))"
    using snoc.prems snoc.IH [of u "x # ys"] u by simp
  moreover have "head_ptr (us @ [u]) = head_ptr ((us @ [u]) @ [x])" by (simp add: head_ptr_append)
  ultimately show ?case using c u snoc.prems(2) by (subst first_sibling.simps) simp
qed

lemma parent_chunk_of_kid:
  assumes F: "forest s K" and x: "x \<in> set (K q)"
  shows "talloc_parent_chunk x s = Some q"
proof -
  obtain xs ys where q: "K q = xs @ x # ys" using x by (metis split_list)
  have xd: "x \<noteq> NULL" "x \<in> dom (chunks s)" using forest_kids_dom [OF F x] by auto
  then obtain c where c: "chunks s x = Some c" by auto
  have "NULL \<notin> set xs" using forest_kids_dom [OF F, of NULL q] by (auto simp: q)
  then have fs: "first_sibling x s = Some (head_ptr (xs @ [x]))"
    using forest_dll [OF F, of q] by (intro first_sibling_dll) (auto simp: q)
  have "\<exists>c. chunks s (head_ptr (xs @ [x])) = Some c \<and> tc_parent c = q"
    using forest_dll [OF F, of q] by (cases xs) (auto simp: q split: option.splits)
  then show ?thesis
    using fs xd c forest_chunk [OF F c] by (auto simp: talloc_parent_chunk_def heap_simps)
qed

lemma parent_chunk_of_root:
  assumes F: "forest s K" and x: "x \<in> dom (chunks s)" "\<forall>q. x \<notin> set (K q)"
  shows "talloc_parent_chunk x s = Some NULL"
proof -
  obtain c where c: "chunks s x = Some c" using x by auto
  with forest_root [OF F c] x have "tc_prev c = NULL" "tc_parent c = NULL" by (auto simp: links_def)
  with c forest_chunk [OF F c] show ?thesis
    by (simp add: talloc_parent_chunk_def first_sibling.simps heap_simps)
qed

end
