(* ===== verification/Rbtree_Refine.thy ===== *)
theory Rbtree_Refine
  imports Rbtree Talloc_Forest
begin

text \<open>
  The pointer structure of \<^verbatim>\<open>rbtree.c\<close> represents the trees of \<open>Rbt_Spec\<close>: the datum
  stored with a key is the address of its node together with the node's data pointer. Every
  operation on the heap is shown to compute the operation on trees of the same name, to
  touch no node of another tree, and never to follow a bad pointer.
\<close>

section \<open>Trees in the heap\<close>

type_synonym ptree = "(ptr \<times> ptr) rbt"
type_synonym pframe = "(ptr \<times> ptr) frame"

fun root_ptr :: "ptree \<Rightarrow> ptr" where
  "root_ptr Leaf = NULL"
| "root_ptr (Node c l k d r) = fst d"

definition addrs :: "ptree \<Rightarrow> ptr list" where
  "addrs t = map (fst \<circ> snd) (entries t)"

fun faddr :: "pframe \<Rightarrow> ptr" where
  "faddr (InL c k d r) = fst d"
| "faddr (InR c l k d) = fst d"

fun ctx_parent :: "pframe list \<Rightarrow> ptr" where
  "ctx_parent [] = NULL"
| "ctx_parent (f # z) = faddr f"

fun zaddrs :: "pframe list \<Rightarrow> ptr list" where
  "zaddrs [] = []"
| "zaddrs (f # z) = faddr f # addrs (fsib f) @ zaddrs z"

text \<open>\<open>shape h tr par t\<close>: the heap holds \<open>t\<close>, as a subtree of tree \<open>tr\<close> hanging off \<open>par\<close>.\<close>

fun shape :: "(ptr \<rightharpoonup> trbt_node) \<Rightarrow> ptr \<Rightarrow> ptr \<Rightarrow> ptree \<Rightarrow> bool" where
  "shape h tr par Leaf = True"
| "shape h tr par (Node c l k d r) =
     (fst d \<noteq> NULL \<and>
      h (fst d) = Some \<lparr>n_tree = tr, n_parent = par, n_left = root_ptr l, n_right = root_ptr r,
                        n_color = c, n_key32 = k, n_data = snd d\<rparr> \<and>
      shape h tr (fst d) l \<and> shape h tr (fst d) r)"

text \<open>\<open>cshape h tr rt z q\<close>: the heap holds everything around the position \<open>z\<close>, where \<open>q\<close> hangs.\<close>

fun cshape :: "(ptr \<rightharpoonup> trbt_node) \<Rightarrow> ptr \<Rightarrow> ptr \<Rightarrow> pframe list \<Rightarrow> ptr \<Rightarrow> bool" where
  "cshape h tr rt [] q = (rt = q)"
| "cshape h tr rt (InL c k d r # z) q =
     (fst d \<noteq> NULL \<and>
      h (fst d) = Some \<lparr>n_tree = tr, n_parent = ctx_parent z, n_left = q, n_right = root_ptr r,
                        n_color = c, n_key32 = k, n_data = snd d\<rparr> \<and>
      shape h tr (fst d) r \<and> cshape h tr rt z (fst d))"
| "cshape h tr rt (InR c l k d # z) q =
     (fst d \<noteq> NULL \<and>
      h (fst d) = Some \<lparr>n_tree = tr, n_parent = ctx_parent z, n_left = root_ptr l, n_right = q,
                        n_color = c, n_key32 = k, n_data = snd d\<rparr> \<and>
      shape h tr (fst d) l \<and> cshape h tr rt z (fst d))"

definition zip_at :: "trbt_heap \<Rightarrow> ptr \<Rightarrow> pframe list \<Rightarrow> ptree \<Rightarrow> bool" where
  "zip_at s tr z t \<longleftrightarrow>
     (\<exists>T. trees s tr = Some T \<and> cshape (nodes s) tr (t_root T) z (root_ptr t)) \<and>
     shape (nodes s) tr (ctx_parent z) t \<and> distinct (addrs t @ zaddrs z)"

text \<open>\<open>tree_at s tr t\<close>: the tree object \<open>tr\<close> holds exactly \<open>t\<close>.\<close>

abbreviation tree_at :: "trbt_heap \<Rightarrow> ptr \<Rightarrow> ptree \<Rightarrow> bool" where
  "tree_at s tr t \<equiv> zip_at s tr [] t"

lemma addrs_simps [simp]:
  "addrs Leaf = []" "addrs (Node c l k d r) = addrs l @ fst d # addrs r"
  by (simp_all add: addrs_def)

lemma addrs_paint [simp]: "addrs (paint c t) = addrs t"
  by (cases t) auto

lemma root_ptr_paint [simp]: "root_ptr (paint c t) = root_ptr t"
  by (cases t) auto

lemma frame_addr_paint [simp]:
  "faddr (fpaint c f) = faddr f" "faddr (fsib_paint c f) = faddr f"
  by (cases f; simp)+

lemma root_ptr_in_addrs: "t \<noteq> Leaf \<Longrightarrow> root_ptr t \<in> set (addrs t)"
  by (cases t) auto

lemma root_ptr_neq: "a \<notin> set (addrs t) \<Longrightarrow> a \<noteq> NULL \<Longrightarrow> root_ptr t \<noteq> a"
  by (cases t) auto

lemma shape_root_NULL: "shape h tr par t \<Longrightarrow> root_ptr t = NULL \<longleftrightarrow> t = Leaf"
  by (cases t) auto

lemma shape_addrs_NULL: "shape h tr par t \<Longrightarrow> NULL \<notin> set (addrs t)"
  by (induction t arbitrary: par) auto

lemma shape_frame:
  "(\<And>x. x \<in> set (addrs t) \<Longrightarrow> h' x = h x) \<Longrightarrow> shape h' tr par t = shape h tr par t"
  by (induction t arbitrary: par) auto

lemma cshape_frame:
  "(\<And>x. x \<in> set (zaddrs z) \<Longrightarrow> h' x = h x) \<Longrightarrow> cshape h' tr rt z q = cshape h tr rt z q"
proof (induction z arbitrary: q)
  case (Cons f z)
  then have "shape h' tr (faddr f) (fsib f) = shape h tr (faddr f) (fsib f)"
    by (intro shape_frame) auto
  with Cons show ?case by (cases f) auto
qed simp

lemma shape_upd_other [simp]:
  "x \<notin> set (addrs t) \<Longrightarrow> shape (h(x := v)) tr par t = shape h tr par t"
  by (rule shape_frame) auto

lemma cshape_upd_other [simp]:
  "x \<notin> set (zaddrs z) \<Longrightarrow> cshape (h(x := v)) tr rt z q = cshape h tr rt z q"
  by (rule cshape_frame) auto

text \<open>Moving the focus up and down changes nothing in the heap.\<close>

lemma zip_at_Cons: "zip_at s tr (f # z) t \<longleftrightarrow> zip_at s tr z (fill f t)"
  by (cases f) (auto simp: zip_at_def)

lemma zip_at_plug: "zip_at s tr z t \<longleftrightarrow> tree_at s tr (plug z t)"
  by (induction z arbitrary: t) (simp_all add: zip_at_Cons)

section \<open>What an operation leaves alone\<close>

text \<open>
  \<open>within A tr s s'\<close>: from \<open>s\<close> to \<open>s'\<close> only nodes in \<open>A\<close> and the root pointer of \<open>tr\<close>
  were written; the allocator's state is untouched.
\<close>

definition within :: "ptr set \<Rightarrow> ptr \<Rightarrow> trbt_heap \<Rightarrow> trbt_heap \<Rightarrow> bool" where
  "within A tr s s' \<longleftrightarrow>
     talloc_heap.truncate s' = talloc_heap.truncate s \<and>
     (\<forall>x. x \<notin> A \<longrightarrow> nodes s' x = nodes s x) \<and>
     (\<forall>x. x \<noteq> tr \<longrightarrow> trees s' x = trees s x) \<and>
     map_option t_flags (trees s' tr) = map_option t_flags (trees s tr)"

lemma within_refl [simp]: "within A tr s s"
  by (simp add: within_def)

lemma within_trans: "within A tr s t \<Longrightarrow> within A tr t u \<Longrightarrow> within A tr s u"
  by (simp add: within_def)

lemma within_mono: "within A tr s s' \<Longrightarrow> A \<subseteq> B \<Longrightarrow> within B tr s s'"
  by (auto simp: within_def)

lemma within_chain: "within X tr s t \<Longrightarrow> X \<subseteq> A \<Longrightarrow> within A tr t u \<Longrightarrow> within A tr s u"
  by (blast intro: within_trans within_mono)

lemma truncate_upd [simp]:
  "talloc_heap.truncate (s\<lparr>nodes := n\<rparr>) = talloc_heap.truncate s"
  "talloc_heap.truncate (s\<lparr>trees := t\<rparr>) = talloc_heap.truncate s"
  by (simp_all add: talloc_heap.defs)

lemma upd_node_Some [heap_simps]:
  "nodes s p = Some n \<Longrightarrow> upd_node p f s = Some (s\<lparr>nodes := (nodes s)(p \<mapsto> f n)\<rparr>)"
  by (simp add: upd_node_def heap_simps)

lemma upd_tree_Some [heap_simps]:
  "trees s p = Some t \<Longrightarrow> upd_tree p f s = Some (s\<lparr>trees := (trees s)(p \<mapsto> f t)\<rparr>)"
  by (simp add: upd_tree_def heap_simps)

lemma within_upd_node: "x \<in> A \<Longrightarrow> within A tr s (s\<lparr>nodes := (nodes s)(x \<mapsto> n)\<rparr>)"
  by (auto simp: within_def)

section \<open>Rotations\<close>

lemma replace_child_correct:
  assumes T: "trees s tr = Some T" and cs: "cshape (nodes s) tr (t_root T) z a"
    and n: "nodes s a = Some n" "n_parent n = ctx_parent z" "n_tree n = tr"
    and d: "distinct (zaddrs z)" "a \<notin> set (zaddrs z)" "a \<noteq> NULL"
  shows "\<exists>h T'. replace_child a new s = Some (s\<lparr>nodes := h, trees := (trees s)(tr \<mapsto> T')\<rparr>) \<and>
    cshape h tr (t_root T') z new \<and> (\<forall>x. x \<notin> set (zaddrs z) \<longrightarrow> h x = nodes s x) \<and> t_flags T' = t_flags T"
proof (cases z)
  case Nil
  with T n have "replace_child a new s =
      Some (s\<lparr>nodes := nodes s, trees := (trees s)(tr \<mapsto> T\<lparr>t_root := new\<rparr>)\<rparr>)"
    by (simp add: replace_child_def heap_simps)
  with Nil show ?thesis by (intro exI [of _ "nodes s"] exI [of _ "T\<lparr>t_root := new\<rparr>"]) simp
next
  case (Cons f y)
  have T': "(trees s)(tr \<mapsto> T) = trees s" using T by auto
  show ?thesis
  proof (cases f)
    case (InL c k d' r)
    with Cons cs n d show ?thesis
      by (intro exI [of _ "(nodes s)(fst d' \<mapsto> \<lparr>n_tree = tr, n_parent = ctx_parent y, n_left = new,
            n_right = root_ptr r, n_color = c, n_key32 = k, n_data = snd d'\<rparr>)"] exI [of _ T])
        (auto simp: replace_child_def heap_simps T')
  next
    case (InR c l k d')
    have "root_ptr l \<noteq> a" using InR Cons d root_ptr_in_addrs [of l] by (cases "l = Leaf") auto
    with InR Cons cs n d show ?thesis
      by (intro exI [of _ "(nodes s)(fst d' \<mapsto> \<lparr>n_tree = tr, n_parent = ctx_parent y, n_left = root_ptr l,
            n_right = new, n_color = c, n_key32 = k, n_data = snd d'\<rparr>)"] exI [of _ T])
        (auto simp: replace_child_def heap_simps T')
  qed
qed

lemma rotate_left_correct:
  assumes Z: "zip_at s tr z (Node c l k (a, d) (Node c' l' k' (b, d') r'))"
  shows "\<exists>s'. trbt_rotate_left a s = Some s' \<and>
    zip_at s' tr z (Node c' (Node c l k (a, d) l') k' (b, d') r') \<and>
    within (set (addrs (Node c l k (a, d) (Node c' l' k' (b, d') r')) @ zaddrs z)) tr s s'"
proof -
  let ?t = "Node c l k (a, d) (Node c' l' k' (b, d') r')"
  obtain T where T: "trees s tr = Some T" "cshape (nodes s) tr (t_root T) z a"
    and sh: "shape (nodes s) tr (ctx_parent z) ?t" and dist: "distinct (addrs ?t @ zaddrs z)"
    using Z by (auto simp: zip_at_def)
  obtain h T' where h: "replace_child a b s = Some (s\<lparr>nodes := h, trees := (trees s)(tr \<mapsto> T')\<rparr>)"
      "cshape h tr (t_root T') z b" "\<forall>x. x \<notin> set (zaddrs z) \<longrightarrow> h x = nodes s x" "t_flags T' = t_flags T"
    using replace_child_correct [OF T, of _ b] sh dist by auto
  have sh': "shape h tr (ctx_parent z) ?t"
    using sh h(3) dist by (subst shape_frame [where h = "nodes s"]) auto
  show ?thesis
  proof (cases l')
    case Leaf
    with sh sh' dist h T(1) show ?thesis
      by (auto simp: trbt_rotate_left_def heap_simps zip_at_def within_def)
  next
    case (Node cm lm km dm rm)
    with sh sh' dist h T(1) show ?thesis
      by (auto simp: trbt_rotate_left_def heap_simps zip_at_def within_def)
  qed
qed

lemma rotate_right_correct:
  assumes Z: "zip_at s tr z (Node c (Node c' l' k' (b, d') r') k (a, d) r)"
  shows "\<exists>s'. trbt_rotate_right a s = Some s' \<and>
    zip_at s' tr z (Node c' l' k' (b, d') (Node c r' k (a, d) r)) \<and>
    within (set (addrs (Node c (Node c' l' k' (b, d') r') k (a, d) r) @ zaddrs z)) tr s s'"
proof -
  let ?t = "Node c (Node c' l' k' (b, d') r') k (a, d) r"
  obtain T where T: "trees s tr = Some T" "cshape (nodes s) tr (t_root T) z a"
    and sh: "shape (nodes s) tr (ctx_parent z) ?t" and dist: "distinct (addrs ?t @ zaddrs z)"
    using Z by (auto simp: zip_at_def)
  obtain h T' where h: "replace_child a b s = Some (s\<lparr>nodes := h, trees := (trees s)(tr \<mapsto> T')\<rparr>)"
      "cshape h tr (t_root T') z b" "\<forall>x. x \<notin> set (zaddrs z) \<longrightarrow> h x = nodes s x" "t_flags T' = t_flags T"
    using replace_child_correct [OF T, of _ b] sh dist by auto
  have sh': "shape h tr (ctx_parent z) ?t"
    using sh h(3) dist by (subst shape_frame [where h = "nodes s"]) auto
  show ?thesis
  proof (cases r')
    case Leaf
    with sh sh' dist h T(1) show ?thesis
      by (auto simp: trbt_rotate_right_def heap_simps zip_at_def within_def)
  next
    case (Node cm lm km dm rm)
    with sh sh' dist h T(1) show ?thesis
      by (auto simp: trbt_rotate_right_def heap_simps zip_at_def within_def)
  qed
qed

lemma zip_at_node:
  assumes "zip_at s tr z (Node c l k d r)"
  shows "nodes s (fst d) = Some \<lparr>n_tree = tr, n_parent = ctx_parent z, n_left = root_ptr l,
    n_right = root_ptr r, n_color = c, n_key32 = k, n_data = snd d\<rparr>" "fst d \<noteq> NULL"
  using assms by (auto simp: zip_at_def)

lemma recolor_correct:
  assumes Z: "zip_at s tr z (Node c l k d r)"
  shows "\<exists>s'. upd_node (fst d) (\<lambda>x. x\<lparr>n_color := c'\<rparr>) s = Some s' \<and> zip_at s' tr z (Node c' l k d r) \<and>
    within {fst d} tr s s'"
  using Z zip_at_node [OF Z] by (auto simp: zip_at_def heap_simps within_def)

section \<open>The repair loop\<close>

lemma insert_case5_LL:
  assumes Z: "zip_at s tr z (Node gc (Node pc t pk (p, pd) pr) gk (g, gd) gr)" and t: "root_ptr t = a" "a \<noteq> NULL"
    and na: "nodes s a = Some n" "n_parent n = p"
  shows "\<exists>s'. trbt_insert_case5 a s = Some s' \<and>
    zip_at s' tr z (rot_right (Node Red (Node Black t pk (p, pd) pr) gk (g, gd) gr)) \<and>
    within (set (addrs (Node gc (Node pc t pk (p, pd) pr) gk (g, gd) gr) @ zaddrs z)) tr s s'"
proof -
  let ?A = "set (addrs (Node gc (Node pc t pk (p, pd) pr) gk (g, gd) gr) @ zaddrs z)"
  let ?f = "InL gc gk (g, gd) gr"
  have Zp: "zip_at s tr (?f # z) (Node pc t pk (p, pd) pr)" using Z by (simp add: zip_at_Cons)
  obtain s1 where s1: "upd_node p (\<lambda>x. x\<lparr>n_color := Black\<rparr>) s = Some s1"
      "zip_at s1 tr (?f # z) (Node Black t pk (p, pd) pr)" "within {p} tr s s1"
    using recolor_correct [OF Zp, of Black] by auto
  then obtain s2 where s2: "upd_node g (\<lambda>x. x\<lparr>n_color := Red\<rparr>) s1 = Some s2"
      "zip_at s2 tr z (Node Red (Node Black t pk (p, pd) pr) gk (g, gd) gr)" "within {g} tr s1 s2"
    using recolor_correct [of s1 tr z gc "Node Black t pk (p, pd) pr" gk "(g, gd)" gr Red] by (auto simp: zip_at_Cons)
  obtain s3 where s3: "trbt_rotate_right g s2 = Some s3"
      "zip_at s3 tr z (Node Black t pk (p, pd) (Node Red pr gk (g, gd) gr))" "within ?A tr s2 s3"
    using rotate_right_correct [OF s2(2)] by auto
  have "within ?A tr s s3"
    by (rule within_chain [OF s1(3) _ within_chain [OF s2(3) _ s3(3)]]) simp_all
  moreover have "trbt_insert_case5 a s = Some s3"
    using na zip_at_node [OF Zp] s1(1) s2(1) s3(1) zip_at_node [OF s2(2)] t
      zip_at_node [of s2 tr "InL Red gk (g, gd) gr # z" Black t pk "(p, pd)" pr] s2(2)
    by (simp add: trbt_insert_case5_def trbt_parent_def zip_at_Cons)
  ultimately show ?thesis using s3(2) by auto
qed

lemma insert_case5_RR:
  assumes Z: "zip_at s tr z (Node gc gl gk (g, gd) (Node pc pl pk (p, pd) t))" and t: "root_ptr t = a" "a \<noteq> NULL"
    and na: "nodes s a = Some n" "n_parent n = p"
  shows "\<exists>s'. trbt_insert_case5 a s = Some s' \<and>
    zip_at s' tr z (rot_left (Node Red gl gk (g, gd) (Node Black pl pk (p, pd) t))) \<and>
    within (set (addrs (Node gc gl gk (g, gd) (Node pc pl pk (p, pd) t)) @ zaddrs z)) tr s s'"
proof -
  let ?A = "set (addrs (Node gc gl gk (g, gd) (Node pc pl pk (p, pd) t)) @ zaddrs z)"
  let ?f = "InR gc gl gk (g, gd)"
  have Zp: "zip_at s tr (?f # z) (Node pc pl pk (p, pd) t)" using Z by (simp add: zip_at_Cons)
  have pl: "root_ptr pl \<noteq> a"
    using Z t root_ptr_in_addrs [of pl] root_ptr_in_addrs [of t] by (cases "pl = Leaf"; cases "t = Leaf") (auto simp: zip_at_def)
  obtain s1 where s1: "upd_node p (\<lambda>x. x\<lparr>n_color := Black\<rparr>) s = Some s1"
      "zip_at s1 tr (?f # z) (Node Black pl pk (p, pd) t)" "within {p} tr s s1"
    using recolor_correct [OF Zp, of Black] by auto
  then obtain s2 where s2: "upd_node g (\<lambda>x. x\<lparr>n_color := Red\<rparr>) s1 = Some s2"
      "zip_at s2 tr z (Node Red gl gk (g, gd) (Node Black pl pk (p, pd) t))" "within {g} tr s1 s2"
    using recolor_correct [of s1 tr z gc gl gk "(g, gd)" "Node Black pl pk (p, pd) t" Red] by (auto simp: zip_at_Cons)
  obtain s3 where s3: "trbt_rotate_left g s2 = Some s3"
      "zip_at s3 tr z (Node Black (Node Red gl gk (g, gd) pl) pk (p, pd) t)" "within ?A tr s2 s3"
    using rotate_left_correct [OF s2(2)] by auto
  have "within ?A tr s s3"
    by (rule within_chain [OF s1(3) _ within_chain [OF s2(3) _ s3(3)]]) simp_all
  moreover have "trbt_insert_case5 a s = Some s3"
    using na zip_at_node [OF Zp] s1(1) s2(1) s3(1) zip_at_node [OF s2(2)] t pl
      zip_at_node [of s2 tr "InR Red gl gk (g, gd) # z" Black pl pk "(p, pd)" t] s2(2)
    by (simp add: trbt_insert_case5_def trbt_parent_def zip_at_Cons)
  ultimately show ?thesis using s3(2) by auto
qed

text \<open>Cases 4 and 5 together: the rotation that ends the repair.\<close>

lemma insert_case4_correct:
  assumes Z: "zip_at s tr (f # g # z) (Node ct l k (a, d) r)"
  shows "\<exists>s'. trbt_insert_case4 a s = Some s' \<and> zip_at s' tr z (insert_rotate f g (Node ct l k (a, d) r)) \<and>
    within (set (addrs (fill g (fill f (Node ct l k (a, d) r))) @ zaddrs z)) tr s s'"
proof -
  let ?t = "Node ct l k (a, d) r"
  have a: "nodes s a = Some \<lparr>n_tree = tr, n_parent = faddr f, n_left = root_ptr l, n_right = root_ptr r,
      n_color = ct, n_key32 = k, n_data = d\<rparr>" "a \<noteq> NULL"
    using zip_at_node [OF Z] by simp_all
  have dist: "distinct (addrs ?t @ zaddrs (f # g # z))" using Z by (simp add: zip_at_def)
  obtain gc gk gd g' gs where g: "g = InL gc gk (g', gd) gs \<or> g = InR gc gs gk (g', gd)"
    by (cases g) auto
  obtain pc pk pd p ps where f: "f = InL pc pk (p, pd) ps \<or> f = InR pc ps pk (p, pd)"
    by (cases f) auto
  have Zp: "zip_at s tr (g # z) (fill f ?t)" using Z by (simp add: zip_at_Cons)
  have "p \<noteq> NULL" using Z f by (auto simp: zip_at_def)
  moreover have "a \<notin> set (addrs ps)" "p \<notin> set (addrs gs)" using dist f g by auto
  ultimately have ps: "root_ptr ps \<noteq> a" and gs: "root_ptr gs \<noteq> p" using a(2) by (auto simp: root_ptr_neq)
  from f g show ?thesis
  proof (elim disjE)
    assume fg: "f = InL pc pk (p, pd) ps" "g = InL gc gk (g', gd) gs"
    have "trbt_insert_case4 a s = trbt_insert_case5 a s"
      using a zip_at_node [of s tr "g # z" pc ?t pk "(p, pd)" ps] zip_at_node [of s tr z gc "fill f ?t" gk "(g', gd)" gs] Zp ps gs
      by (simp add: fg trbt_insert_case4_def trbt_parent_def zip_at_Cons)
    with insert_case5_LL [of s tr z gc pc ?t pk p pd ps gk g' gd gs a] Z a show ?thesis
      by (simp add: fg zip_at_Cons)
  next
    assume fg: "f = InR pc ps pk (p, pd)" "g = InR gc gs gk (g', gd)"
    have "trbt_insert_case4 a s = trbt_insert_case5 a s"
      using a zip_at_node [of s tr "g # z" pc ps pk "(p, pd)" ?t] zip_at_node [of s tr z gc gs gk "(g', gd)" "fill f ?t"] Zp ps gs
      by (simp add: fg trbt_insert_case4_def trbt_parent_def zip_at_Cons)
    with insert_case5_RR [of s tr z gc gs gk g' gd pc ps pk p pd ?t a] Z a show ?thesis
      by (simp add: fg zip_at_Cons)
  next
    assume fg: "f = InR pc ps pk (p, pd)" "g = InL gc gk (g', gd) gs"
    let ?u = "Node pc ps pk (p, pd) l"
    obtain s1 where s1: "trbt_rotate_left p s = Some s1" "zip_at s1 tr (g # z) (Node ct ?u k (a, d) r)"
        "within (set (addrs (Node pc ps pk (p, pd) ?t) @ zaddrs (g # z))) tr s s1"
      using rotate_left_correct [of s tr "g # z" pc ps pk p pd ct l k a d r] Zp by (auto simp: fg)
    have p1: "nodes s1 p = Some \<lparr>n_tree = tr, n_parent = a, n_left = root_ptr ps, n_right = root_ptr l,
        n_color = pc, n_key32 = pk, n_data = pd\<rparr>" "p \<noteq> NULL"
      using zip_at_node [of s1 tr "InL ct k (a, d) r # g # z" pc ps pk "(p, pd)" l] s1(2)
      by (simp_all add: zip_at_Cons)
    have "trbt_insert_case4 a s = trbt_insert_case5 p s1"
      using a zip_at_node [of s tr "g # z" pc ps pk "(p, pd)" ?t] zip_at_node [of s tr z gc "fill f ?t" gk "(g', gd)" gs] Zp
        s1(1) zip_at_node [OF s1(2)]
      by (simp add: fg trbt_insert_case4_def trbt_parent_def zip_at_Cons)
    moreover obtain s2 where "trbt_insert_case5 p s1 = Some s2"
        "zip_at s2 tr z (insert_rotate f g ?t)"
        "within (set (addrs (fill g (Node ct ?u k (a, d) r)) @ zaddrs z)) tr s1 s2"
      using insert_case5_LL [of s1 tr z gc ct ?u k a d r gk g' gd gs p] s1(2) p1 by (auto simp: fg zip_at_Cons)
    ultimately show ?thesis using s1(3) by (auto simp: fg insert_commute Un_left_commute Un_commute intro!: within_chain [OF s1(3)])
  next
    assume fg: "f = InL pc pk (p, pd) ps" "g = InR gc gs gk (g', gd)"
    let ?u = "Node pc r pk (p, pd) ps"
    obtain s1 where s1: "trbt_rotate_right p s = Some s1" "zip_at s1 tr (g # z) (Node ct l k (a, d) ?u)"
        "within (set (addrs (Node pc ?t pk (p, pd) ps) @ zaddrs (g # z))) tr s s1"
      using rotate_right_correct [of s tr "g # z" pc ct l k a d r pk p pd ps] Zp by (auto simp: fg)
    have p1: "nodes s1 p = Some \<lparr>n_tree = tr, n_parent = a, n_left = root_ptr r, n_right = root_ptr ps,
        n_color = pc, n_key32 = pk, n_data = pd\<rparr>" "p \<noteq> NULL"
      using zip_at_node [of s1 tr "InR ct l k (a, d) # g # z" pc r pk "(p, pd)" ps] s1(2)
      by (simp_all add: zip_at_Cons)
    have "trbt_insert_case4 a s = trbt_insert_case5 p s1"
      using a zip_at_node [of s tr "g # z" pc ?t pk "(p, pd)" ps] zip_at_node [of s tr z gc gs gk "(g', gd)" "fill f ?t"] Zp
        s1(1) zip_at_node [OF s1(2)] ps gs
      by (simp add: fg trbt_insert_case4_def trbt_parent_def zip_at_Cons)
    moreover obtain s2 where "trbt_insert_case5 p s1 = Some s2"
        "zip_at s2 tr z (insert_rotate f g ?t)"
        "within (set (addrs (fill g (Node ct l k (a, d) ?u)) @ zaddrs z)) tr s1 s2"
      using insert_case5_RR [of s1 tr z gc gs gk g' gd ct l k a d ?u p] s1(2) p1 by (auto simp: fg zip_at_Cons)
    ultimately show ?thesis using s1(3) by (auto simp: fg insert_commute Un_left_commute Un_commute intro!: within_chain [OF s1(3)])
  qed
qed

text \<open>Case 3 with a red uncle: three nodes change colour and the repair moves two levels up.\<close>

lemma insert_case3_recolor:
  assumes Z: "zip_at s tr (f # g # z) (Node ct l k (a, d) r)" and u: "rcolor (fsib g) = Red"
  shows "\<exists>s'. trbt_insert_case3 a s = Some (Some (faddr g), s') \<and>
    zip_at s' tr z (fill (fpaint Red (fsib_paint Black g)) (fill (fpaint Black f) (Node ct l k (a, d) r))) \<and>
    within (set (addrs (fill g (fill f (Node ct l k (a, d) r))) @ zaddrs z)) tr s s'"
proof -
  let ?t = "Node ct l k (a, d) r"
  obtain ul uk u' ud ur where us: "fsib g = Node Red ul uk (u', ud) ur"
    using u by (cases "fsib g") auto
  let ?u = "Node Red ul uk (u', ud) ur"
  obtain gc gk gd g' where g: "g = InL gc gk (g', gd) ?u \<or> g = InR gc ?u gk (g', gd)"
    using us by (cases g) auto
  obtain pc pk pd p ps where f: "f = InL pc pk (p, pd) ps \<or> f = InR pc ps pk (p, pd)"
    by (cases f) auto
  have facts: "distinct (addrs ?t @ zaddrs (f # g # z))" "NULL \<notin> set (addrs ?t)"
    using Z shape_addrs_NULL by (auto simp: zip_at_def)
  show ?thesis
    using f g
  proof (elim disjE)
    assume fg: "f = InL pc pk (p, pd) ps" "g = InL gc gk (g', gd) ?u"
    show ?thesis using Z facts unfolding fg
      by (auto simp: trbt_insert_case3_def trbt_uncle_def trbt_grandparent_def trbt_parent_def heap_simps
          zip_at_def within_def)
  next
    assume fg: "f = InL pc pk (p, pd) ps" "g = InR gc ?u gk (g', gd)"
    show ?thesis using Z facts unfolding fg
      by (auto simp: trbt_insert_case3_def trbt_uncle_def trbt_grandparent_def trbt_parent_def heap_simps
          zip_at_def within_def)
  next
    assume fg: "f = InR pc ps pk (p, pd)" "g = InL gc gk (g', gd) ?u"
    show ?thesis using Z facts unfolding fg
      by (auto simp: trbt_insert_case3_def trbt_uncle_def trbt_grandparent_def trbt_parent_def heap_simps
          zip_at_def within_def)
  next
    assume fg: "f = InR pc ps pk (p, pd)" "g = InR gc ?u gk (g', gd)"
    show ?thesis using Z facts unfolding fg
      by (auto simp: trbt_insert_case3_def trbt_uncle_def trbt_grandparent_def trbt_parent_def heap_simps
          zip_at_def within_def)
  qed
qed

text \<open>The whole repair loop implements \<open>insert_fix\<close>.\<close>

lemma insert_case1_correct:
  assumes "zip_at s tr z t" "t \<noteq> Leaf" "rcolor t = Red"
  shows "\<exists>s'. trbt_insert_case1 (root_ptr t) s = Some s' \<and> tree_at s' tr (insert_fix z t) \<and>
    within (set (addrs t @ zaddrs z)) tr s s'"
  using assms
proof (induction z t arbitrary: s rule: insert_fix.induct)
  case (1 t)
  obtain l k a d r where t: "t = Node Red l k (a, d) r" using 1 by (cases t) auto
  from 1 recolor_correct [of s tr "[]" Red l k "(a, d)" r Black] zip_at_node [of s tr "[]" Red l k "(a, d)" r]
  show ?case by (subst trbt_insert_case1.simps) (auto simp: t trbt_parent_def elim: within_mono)
next
  case (2 f t)
  obtain l k a d r where t: "t = Node Red l k (a, d) r" using 2 by (cases t) auto
  have a: "nodes s a = Some \<lparr>n_tree = tr, n_parent = faddr f, n_left = root_ptr l, n_right = root_ptr r,
      n_color = Red, n_key32 = k, n_data = d\<rparr>"
    using zip_at_node [of s tr "[f]" Red l k "(a, d)" r] 2 by (simp add: t)
  obtain n where n: "nodes s (faddr f) = Some n" "n_parent n = NULL" "faddr f \<noteq> NULL"
    using 2 by (cases f) (auto simp: zip_at_def)
  have "trbt_insert_case1 a s = Some s"
    using a n by (subst trbt_insert_case1.simps)
      (simp add: trbt_parent_def trbt_insert_case2_def trbt_insert_case3_def trbt_uncle_def trbt_insert_case4_def)
  with 2 show ?case by (simp add: t zip_at_Cons)
next
  case (3 f g z t)
  obtain l k a d r where t: "t = Node Red l k (a, d) r" using 3 by (cases t) auto
  have a: "nodes s a = Some \<lparr>n_tree = tr, n_parent = faddr f, n_left = root_ptr l, n_right = root_ptr r,
      n_color = Red, n_key32 = k, n_data = d\<rparr>"
    using zip_at_node [of s tr "f # g # z" Red l k "(a, d)" r] 3 by (simp add: t)
  obtain n where n: "nodes s (faddr f) = Some n" "n_parent n = faddr g" "faddr f \<noteq> NULL" "n_color n = fcolor f"
    using "3.prems"(1) by (cases f) (auto simp: zip_at_def)
  have A: "set (addrs (fill g (fill f t)) @ zaddrs z) = set (addrs t @ zaddrs (f # g # z))"
    by (cases f; cases g) auto
  show ?case
  proof (cases "fcolor f = Black")
    case True
    have "trbt_insert_case1 a s = Some s"
      using a n True by (subst trbt_insert_case1.simps) (simp add: trbt_parent_def trbt_insert_case2_def)
    with "3.prems"(1) True zip_at_plug [of s tr "f # g # z" t] show ?thesis by (simp add: t)
  next
    case red: False
    then have step: "trbt_insert_case1 a s = do {
        r \<leftarrow> trbt_insert_case3 a s;
        case fst r of None \<Rightarrow> Some (snd r) | Some g \<Rightarrow> trbt_insert_case1 g (snd r) }"
      using a n by (subst trbt_insert_case1.simps) (simp add: trbt_parent_def trbt_insert_case2_def)
    show ?thesis
    proof (cases "rcolor (fsib g) = Red")
      case True
      let ?t = "fill (fpaint Red (fsib_paint Black g)) (fill (fpaint Black f) t)"
      obtain s1 where s1: "trbt_insert_case3 a s = Some (Some (faddr g), s1)" "zip_at s1 tr z ?t"
          "within (set (addrs (fill g (fill f t)) @ zaddrs z)) tr s s1"
        using insert_case3_recolor [of s tr f g z Red l k a d r] 3 True by (auto simp: t)
      have ft: "?t \<noteq> Leaf" "rcolor ?t = Red" "root_ptr ?t = faddr g" "addrs ?t = addrs (fill g (fill f t))"
        by (cases f; cases g; simp)+
      obtain s2 where s2: "trbt_insert_case1 (faddr g) s1 = Some s2" "tree_at s2 tr (insert_fix z ?t)"
          "within (set (addrs (fill g (fill f t)) @ zaddrs z)) tr s1 s2"
        using "3.IH" [of s1] red True s1(2) ft by auto
      have "within (set (addrs t @ zaddrs (f # g # z))) tr s s2"
        using within_trans [OF s1(3) s2(3)] A by simp
      with s1(1) s2(1,2) step red True show ?thesis by (simp add: t)
    next
      case False
      obtain s1 where s1: "trbt_insert_case4 a s = Some s1" "zip_at s1 tr z (insert_rotate f g t)"
          "within (set (addrs (fill g (fill f t)) @ zaddrs z)) tr s s1"
        using insert_case4_correct [of s tr f g z Red l k a d r] 3 by (auto simp: t)
      have "\<exists>u. trbt_uncle a s = Some u \<and> (u = NULL \<or> (\<exists>n. nodes s u = Some n \<and> n_color n = Black))"
      proof -
        have "faddr g \<noteq> NULL" "(\<exists>m. nodes s (faddr g) = Some m \<and>
           (if faddr f = n_left m then n_right m else n_left m) = root_ptr (fsib g))"
          using "3.prems"(1) by (cases f; cases g; auto simp: zip_at_def root_ptr_neq)+
        moreover have "root_ptr (fsib g) = NULL \<or> (\<exists>n. nodes s (root_ptr (fsib g)) = Some n \<and> n_color n = Black)"
          using "3.prems"(1) False by (cases f; cases g; cases "fsib g") (auto simp: zip_at_def)
        ultimately show ?thesis using a n by (auto simp: trbt_uncle_def trbt_parent_def)
      qed
      then have "trbt_insert_case3 a s = Some (None, s1)"
        using s1(1) by (auto simp: trbt_insert_case3_def)
      with s1 step red False A zip_at_plug [of s1 tr z "insert_rotate f g t"] show ?thesis by (simp add: t)
    qed
  qed
qed

end
