(* ===== verification/Rbtree_Insert.thy ===== *)
theory Rbtree_Insert
  imports Rbtree_Refine
begin

text \<open>
  Lookup and insertion of \<^verbatim>\<open>rbtree.c\<close> against \<open>Rbt_Spec\<close>, including what insertion does
  to the allocator's forest: the node of an entry is a talloc child of the entry's data, so
  freeing the data removes the entry.
\<close>

section \<open>Lookup\<close>

lemma find_node_correct:
  assumes "shape (nodes s) tr par t"
  shows "find_node key (root_ptr t) s = Some (case rbt_lookup t key of None \<Rightarrow> NULL | Some d \<Rightarrow> fst d)"
  using assms
proof (induction t arbitrary: par)
  case Leaf
  show ?case by (subst find_node.simps) simp
next
  case (Node c l k d r)
  then show ?case by (subst find_node.simps) auto
qed

lemma shape_lookup_node:
  assumes "shape h tr par t" "rbt_lookup t key = Some d"
  shows "fst d \<noteq> NULL \<and> (\<exists>n. h (fst d) = Some n \<and> n_data n = snd d)"
  using assms by (induction t arbitrary: par) (auto split: if_splits)

text \<open>The stored data pointer of a key, NULL for a key that is not there.\<close>

definition data_of :: "ptree \<Rightarrow> u32 \<Rightarrow> ptr" where
  "data_of t key = (case rbt_lookup t key of None \<Rightarrow> NULL | Some d \<Rightarrow> snd d)"

lemma trbt_lookup32_correct:
  assumes "tree_at s tr t"
  shows "trbt_lookup32 tr key s = Some (data_of t key)"
proof -
  obtain T where T: "trees s tr = Some T" "t_root T = root_ptr t" and sh: "shape (nodes s) tr NULL t"
    using assms by (auto simp: zip_at_def)
  with find_node_correct [OF sh, of key] show ?thesis
    using shape_lookup_node [OF sh, of key]
    by (auto simp: trbt_lookup32_def data_of_def split: option.splits)
qed

section \<open>Insertion\<close>

text \<open>Linking a new node below the node of the innermost frame.\<close>

definition link_new :: "pframe \<Rightarrow> ptr \<Rightarrow> trbt_heap \<Rightarrow> trbt_heap option" where
  "link_new f p = (case f of
      InL c k d r \<Rightarrow> upd_node (fst d) (\<lambda>x. x\<lparr>n_left := p\<rparr>)
    | InR c l k d \<Rightarrow> upd_node (fst d) (\<lambda>x. x\<lparr>n_right := p\<rparr>))"

lemma insert32_walk_seek:
  assumes "zip_at s tr z t" "t \<noteq> Leaf" "seek key z t = (z', t')"
  shows "insert32_walk key data tr (root_ptr t) s =
    (case t' of
       Leaf \<Rightarrow> do {
         (new_node, s) \<leftarrow> trbt_create_node tr (ctx_parent z') key data s;
         if new_node = NULL then Some (Inl NULL, s)
         else do { s \<leftarrow> link_new (hd z') new_node s; Some (Inr new_node, s) } }
     | Node c l k d r \<Rightarrow> do {
         s \<leftarrow> upd_node (fst d) (\<lambda>x. x\<lparr>n_data := data\<rparr>) s;
         (_, s) \<leftarrow> talloc_steal data (fst d) s;
         Some (Inl (snd d), s) })"
  using assms
proof (induction t arbitrary: z)
  case (Node c l k d r)
  note n = zip_at_node [OF Node.prems(1)]
  have sub: "zip_at s tr (InL c k d r # z) l" "zip_at s tr (InR c l k d # z) r"
    using Node.prems(1) by (simp_all add: zip_at_Cons)
  have lf: "root_ptr l = NULL \<longleftrightarrow> l = Leaf" "root_ptr r = NULL \<longleftrightarrow> r = Leaf"
    using Node.prems(1) shape_root_NULL by (auto simp: zip_at_def)
  consider "key = k" | "key < k" | "key \<noteq> k" "\<not> key < k" by blast
  then show ?case
  proof cases
    case 1
    with Node.prems n show ?thesis by (subst insert32_walk.simps) auto
  next
    case 2
    then have ne: "key \<noteq> k" by auto
    show ?thesis
    proof (cases "l = Leaf")
      case True
      with Node.prems n 2 ne show ?thesis by (subst insert32_walk.simps) (auto simp: link_new_def cong: if_cong)
    next
      case False
      with Node.prems n 2 ne Node.IH(1) [OF sub(1)] lf show ?thesis by (subst insert32_walk.simps) auto
    qed
  next
    case 3
    show ?thesis
    proof (cases "r = Leaf")
      case True
      with Node.prems n 3 show ?thesis by (subst insert32_walk.simps) (auto simp: link_new_def cong: if_cong)
    next
      case False
      with Node.prems n 3 Node.IH(2) [OF sub(2)] lf show ?thesis by (subst insert32_walk.simps) auto
    qed
  qed
qed simp

lemma more_eqD:
  assumes "talloc_heap.more s = talloc_heap.more (s' :: trbt_heap)"
  shows "nodes s = nodes s'" "trees s = trees s'"
  using assms by (cases s; cases s'; simp)+

lemma forest_upd [simp]:
  "forest_but X (s\<lparr>nodes := n\<rparr>) K = forest_but X s K" "forest_but X (s\<lparr>trees := t\<rparr>) K = forest_but X s K"
  by (simp_all add: forest_but_def)

text \<open>
  What creating a node does to the allocator: one new block, carrying the destructor that
  removes the node from its tree, owned by the data it was created for.
\<close>

definition node_created :: "trbt_heap \<Rightarrow> trbt_heap \<Rightarrow> bool" where
  "node_created s s' \<longleftrightarrow>
     handles s' = handles s \<and> null_context s' = null_context s \<and> malloc_ok s' = malloc_ok s \<and>
     brk s' = Suc (brk s) \<and>
     map_option block_data \<circ> chunks s' = (map_option block_data \<circ> chunks s)
       (brk s \<mapsto> (NULL, node_destructor_id, Name ''trbt_node_t'', 48, TALLOC_MAGIC))"

lemma create_node_correct:
  assumes F: "forest s K" and tr: "tr \<in> dom (chunks s)" and data: "data \<in> dom (chunks s)"
    and ok: "malloc_ok s (brk s)"
  shows "\<exists>s'. trbt_create_node tr par key data s = Some (brk s, s') \<and>
    nodes s' = (nodes s)(brk s \<mapsto> \<lparr>n_tree = tr, n_parent = par, n_left = NULL, n_right = NULL,
      n_color = Black, n_key32 = key, n_data = data\<rparr>) \<and>
    trees s' = trees s \<and> forest s' (move_to data (brk s) (attach tr (brk s) K)) \<and> node_created s s' \<and>
    dom (chunks s') = insert (brk s) (dom (chunks s))"
proof -
  let ?b = "brk s" and ?K = "attach tr (brk s) K"
  have nz: "tr \<noteq> NULL" "data \<noteq> NULL" "?b \<noteq> NULL" "data \<noteq> ?b"
    using tr data forest_NULL [OF F] forest_brk [OF F] by (auto intro!: gr0I)
  obtain s1 where s1: "talloc_named_const tr 48 (Name ''trbt_node_t'') s = Some (?b, s1)" "forest s1 ?K"
      "allocates ?b (NULL, D_null, Name ''trbt_node_t'', 48, TALLOC_MAGIC) s s1"
    using talloc_named_const_forest [OF F, of tr 48 "Name ''trbt_node_t''"] tr ok nz
    by (auto simp: context_of_def alloc_under_def MAX_TALLOC_SIZE_def)
  let ?n = "\<lparr>n_tree = tr, n_parent = par, n_left = NULL, n_right = NULL, n_color = Black,
    n_key32 = key, n_data = data\<rparr>"
  define s2 where "s2 = s1\<lparr>nodes := (nodes s1)(?b \<mapsto> ?n)\<rparr>"
  have F2: "forest s2 ?K" using s1(2) by (simp add: s2_def)
  have dom2: "dom (chunks s2) = insert ?b (dom (chunks s))"
    using allocates_dom [OF s1(3)] by (simp add: s2_def)
  obtain s3 where s3: "talloc_steal data ?b s2 = Some (?b, s3)" "forest s3 (move_to data ?b ?K)" "same_blocks s2 s3"
    using talloc_steal_forest [OF F2, of ?b data] dom2 data nz by (auto simp: context_of_def)
  obtain c where c: "chunks s3 ?b = Some c" using same_blocks_dom [OF s3(3)] dom2 by auto
  have mc: "magic_ok (tc_flags c)" using forest_chunk [OF s3(2) c] by simp
  define s4 where "s4 = s3\<lparr>chunks := (chunks s3)(?b \<mapsto> c\<lparr>tc_destructor := node_destructor_id\<rparr>)\<rparr>"
  have "trbt_create_node tr par key data s = Some (?b, s4)"
    using s1(1) nz s3(1) [unfolded s2_def] c mc
    by (simp add: trbt_create_node_def talloc_zero_def talloc_set_destructor_def heap_simps s4_def)
  moreover have "forest s4 (move_to data ?b ?K)"
    unfolding s4_def by (rule forest_upd_data [OF s3(2) c]) (simp_all add: links_def mc)
  moreover have "nodes s4 = (nodes s)(?b \<mapsto> ?n)" "trees s4 = trees s"
  proof -
    have "talloc_heap.more s1 = talloc_heap.more s" using s1(3) by (simp add: allocates_def)
    note m1 = more_eqD [OF this]
    have "talloc_heap.more s3 = talloc_heap.more s2" using s3(3) by (simp add: same_blocks_def)
    note m3 = more_eqD [OF this]
    show "nodes s4 = (nodes s)(?b \<mapsto> ?n)" "trees s4 = trees s"
      using m1 m3 by (simp_all add: s4_def s2_def)
  qed
  moreover have "node_created s s4"
  proof -
    have b3: "map_option block_data \<circ> chunks s3 =
        (map_option block_data \<circ> chunks s)(?b \<mapsto> (NULL, D_null, Name ''trbt_node_t'', 48, TALLOC_MAGIC))"
      using s1(3) s3(3) by (simp add: allocates_def same_blocks_def s2_def)
    have "block_data c = (NULL, D_null, Name ''trbt_node_t'', 48, TALLOC_MAGIC)"
      using c fun_cong [OF b3, of ?b] by simp
    then have "map_option block_data \<circ> chunks s4 = (map_option block_data \<circ> chunks s3)
        (?b \<mapsto> (NULL, node_destructor_id, Name ''trbt_node_t'', 48, TALLOC_MAGIC))"
      by (auto simp: s4_def fun_eq_iff block_data_def)
    with b3 s1(3) s3(3) show ?thesis
      by (simp add: node_created_def s4_def allocates_def same_blocks_def s2_def)
  qed
  moreover have "dom (chunks s4) = insert ?b (dom (chunks s))"
    using dom2 same_blocks_dom [OF s3(3)] by (auto simp: s4_def)
  ultimately show ?thesis by blast
qed


text \<open>The well-formed state of a tree: its nodes are live blocks, each of them a node of \<open>t\<close>.\<close>

definition trbt_wf :: "trbt_heap \<Rightarrow> ptr \<Rightarrow> ptree \<Rightarrow> (ptr \<Rightarrow> ptr list) \<Rightarrow> bool" where
  "trbt_wf s tr t K \<longleftrightarrow>
     tree_at s tr t \<and> forest s K \<and> tr \<in> dom (chunks s) \<and> set (addrs t) \<subseteq> dom (chunks s)"

text \<open>The callback of \<open>rbt_insert\<close> that plain insertion corresponds to.\<close>

definition store :: "ptr \<Rightarrow> ptr \<Rightarrow> (ptr \<times> ptr) option \<Rightarrow> ptr \<times> ptr" where
  "store new data old = (case old of None \<Rightarrow> (new, data) | Some d \<Rightarrow> (fst d, data))"

lemma addrs_plug: "set (addrs (plug z t)) = set (addrs t) \<union> set (zaddrs z)"
proof (induction z arbitrary: t)
  case (Cons f z)
  then show ?case by (cases f) auto
qed simp

text \<open>Writing the data of an existing node.\<close>

lemma redata_correct:
  assumes Z: "zip_at s tr z (Node c l k d r)"
  shows "\<exists>s'. upd_node (fst d) (\<lambda>x. x\<lparr>n_data := e\<rparr>) s = Some s' \<and> zip_at s' tr z (Node c l k (fst d, e) r) \<and>
    within {fst d} tr s s'"
  using Z zip_at_node [OF Z] by (auto simp: zip_at_def heap_simps within_def)

text \<open>Linking a red leaf that is already in the heap below the innermost frame.\<close>

lemma link_new_correct:
  assumes Z: "zip_at s tr z Leaf" and z: "z = f # z0" and b: "b \<notin> set (zaddrs z)" "b \<noteq> NULL"
    and n: "nodes s b = Some \<lparr>n_tree = tr, n_parent = faddr f, n_left = NULL, n_right = NULL,
      n_color = c, n_key32 = k, n_data = d\<rparr>"
  shows "\<exists>s'. link_new f b s = Some s' \<and> zip_at s' tr z (Node c Leaf k (b, d) Leaf) \<and> within {faddr f} tr s s'"
proof (cases f)
  case (InL fc fk fd fr)
  with Z b n show ?thesis by (auto simp: z zip_at_def link_new_def heap_simps within_def)
next
  case (InR fc fl fk fd)
  with Z b n show ?thesis by (auto simp: z zip_at_def link_new_def heap_simps within_def)
qed


text \<open>
  The state after an insertion: the tree is the abstract insertion, the headers are still a
  forest in which the node belongs to its data, and nothing else has moved.
\<close>

definition inserted_frame :: "ptree \<Rightarrow> ptr \<Rightarrow> trbt_heap \<Rightarrow> trbt_heap \<Rightarrow> bool" where
  "inserted_frame t tr s s' \<longleftrightarrow>
     (\<forall>x. x \<notin> set (addrs t) \<longrightarrow> x \<noteq> brk s \<longrightarrow> nodes s' x = nodes s x) \<and>
     (\<forall>x. x \<noteq> tr \<longrightarrow> trees s' x = trees s x) \<and>
     map_option t_flags (trees s' tr) = map_option t_flags (trees s tr)"

lemma within_frame: "within A tr s s' \<Longrightarrow> A \<subseteq> insert (brk s) (set (addrs t)) \<Longrightarrow> inserted_frame t tr s s'"
  unfolding within_def inserted_frame_def by blast

lemma trunc_eqD:
  assumes "talloc_heap.truncate (s :: trbt_heap) = talloc_heap.truncate (s' :: trbt_heap)"
  shows "chunks s = chunks s'" "handles s = handles s'" "null_context s = null_context s'"
    "malloc_ok s = malloc_ok s'" "brk s = brk s'"
  using assms by (simp_all add: talloc_heap.defs)

lemma within_forest: "within A tr s s' \<Longrightarrow> forest_but X s' K = forest_but X s K"
  using trunc_eqD [of s' s] by (simp add: within_def forest_but_def)

lemma zip_at_cong:
  "nodes s' = nodes s \<Longrightarrow> trees s' = trees s \<Longrightarrow> zip_at s' tr z t = zip_at s tr z t"
  by (simp add: zip_at_def)

lemma insert_existing:
  assumes W: "trbt_wf s tr t K" and data: "data \<in> dom (chunks s)" and t: "t \<noteq> Leaf"
    and sk: "seek key [] t = (z, Node c l k d r)"
  shows "\<exists>s'. trbt_insert32 tr key data s = Some (snd d, s') \<and>
    trbt_wf s' tr (plug z (Node c l k (fst d, data) r)) (move_to data (fst d) K) \<and>
    same_blocks (s\<lparr>nodes := nodes s', trees := trees s'\<rparr>) s' \<and> inserted_frame t tr s s'"
proof -
  have T: "tree_at s tr t" "forest s K" using W by (simp_all add: trbt_wf_def)
  have pl: "plug z (Node c l k d r) = t" using seek_plug [OF sk] by simp
  have Z: "zip_at s tr z (Node c l k d r)" using T(1) zip_at_plug [of s tr z "Node c l k d r"] pl by simp
  obtain s1 where s1: "upd_node (fst d) (\<lambda>x. x\<lparr>n_data := data\<rparr>) s = Some s1"
      "zip_at s1 tr z (Node c l k (fst d, data) r)" "within {fst d} tr s s1"
    using redata_correct [OF Z] by blast
  have eq1: "chunks s1 = chunks s" "brk s1 = brk s" "null_context s1 = null_context s" "handles s1 = handles s"
      "malloc_ok s1 = malloc_ok s"
    using s1(3) trunc_eqD [of s1 s] by (simp_all add: within_def)
  have F1: "forest s1 K" using within_forest [OF s1(3)] T(2) by simp
  have dom: "fst d \<in> dom (chunks s1)" "data \<in> dom (chunks s1)"
    using W data eq1(1) by (auto simp: trbt_wf_def pl [symmetric] addrs_plug)
  then have dN: "data \<noteq> NULL" using forest_NULL [OF F1] by (auto intro!: gr0I)
  obtain s2 where s2: "talloc_steal data (fst d) s1 = Some (fst d, s2)" "forest s2 (move_to data (fst d) K)"
      "same_blocks s1 s2"
    using talloc_steal_forest [OF F1 dom(1), of data] dom(2) dN by (auto simp: context_of_def)
  have m: "nodes s2 = nodes s1" "trees s2 = trees s1"
    using s2(3) more_eqD [of s2 s1] by (simp_all add: same_blocks_def)
  obtain T' where "trees s tr = Some T'" "t_root T' \<noteq> NULL" "t_root T' = root_ptr t"
    using T(1) t by (cases t) (auto simp: zip_at_def)
  then have "trbt_insert32 tr key data s = Some (snd d, s2)"
    using insert32_walk_seek [OF T(1) t sk, of data] s1(1) s2(1) by (simp add: trbt_insert32_def)
  moreover have "tree_at s2 tr (plug z (Node c l k (fst d, data) r))"
    using s1(2) zip_at_plug [of s1 tr z] zip_at_cong [OF m] by simp
  then have "trbt_wf s2 tr (plug z (Node c l k (fst d, data) r)) (move_to data (fst d) K)"
    using W s2(2) same_blocks_dom [OF s2(3)] eq1 by (auto simp: trbt_wf_def pl [symmetric] addrs_plug)
  moreover have "same_blocks (s\<lparr>nodes := nodes s2, trees := trees s2\<rparr>) s2"
  proof -
    have "talloc_heap.more (s\<lparr>nodes := nodes s2, trees := trees s2\<rparr>) = talloc_heap.more s2"
      by (cases s; cases s2) simp
    with s2(3) eq1 show ?thesis by (simp add: same_blocks_def)
  qed
  moreover have "inserted_frame t tr s s2"
    using within_frame [OF s1(3), of t] m by (auto simp: inserted_frame_def pl [symmetric] addrs_plug)
  ultimately show ?thesis by blast
qed


lemma within_dom: "within A tr s s' \<Longrightarrow> chunks s' = chunks s \<and> brk s' = brk s"
  using trunc_eqD [of s' s] by (simp add: within_def)

lemma node_created_within: "node_created s s1 \<Longrightarrow> within A tr s1 s2 \<Longrightarrow> node_created s s2"
  using trunc_eqD [of s2 s1] by (simp add: node_created_def within_def)

lemma insert_new:
  assumes W: "trbt_wf s tr t K" and data: "data \<in> dom (chunks s)" and t: "t \<noteq> Leaf"
    and ok: "malloc_ok s (brk s)" and sk: "seek key [] t = (z, Leaf)"
  shows "\<exists>s'. trbt_insert32 tr key data s = Some (NULL, s') \<and>
    trbt_wf s' tr (insert_fix z (Node Red Leaf key (brk s, data) Leaf)) (move_to data (brk s) (attach tr (brk s) K)) \<and>
    node_created s s' \<and> inserted_frame t tr s s'"
proof -
  let ?b = "brk s" and ?K = "move_to data (brk s) (attach tr (brk s) K)"
  have T: "tree_at s tr t" "forest s K" "tr \<in> dom (chunks s)" "set (addrs t) \<subseteq> dom (chunks s)"
    using W by (simp_all add: trbt_wf_def)
  have pl: "plug z Leaf = t" using seek_plug [OF sk] by simp
  have A: "set (zaddrs z) = set (addrs t)" using addrs_plug [of z Leaf] pl by simp
  have b: "?b \<notin> set (zaddrs z)" "?b \<noteq> NULL"
    using T(4) forest_brk [OF T(2)] A by auto
  have Z: "zip_at s tr z Leaf" using T(1) zip_at_plug [of s tr z Leaf] pl by simp
  obtain f z0 where z: "z = f # z0" using seek_not_root [OF sk t] by (cases z) auto
  let ?n = "\<lparr>n_tree = tr, n_parent = faddr f, n_left = NULL, n_right = NULL, n_color = Black,
    n_key32 = key, n_data = data\<rparr>"
  obtain s1 where s1: "trbt_create_node tr (faddr f) key data s = Some (?b, s1)"
      "nodes s1 = (nodes s)(?b \<mapsto> ?n)" "trees s1 = trees s" "forest s1 ?K" "node_created s s1"
      "dom (chunks s1) = insert ?b (dom (chunks s))"
    using create_node_correct [OF T(2,3) data ok] by blast
  have Z1: "zip_at s1 tr z Leaf" using Z s1(2,3) b by (simp add: zip_at_def)
  obtain s2 where s2: "link_new f ?b s1 = Some s2" "zip_at s2 tr z (Node Black Leaf key (?b, data) Leaf)"
      "within {faddr f} tr s1 s2"
    using link_new_correct [OF Z1 z b] s1(2) by auto
  obtain s3 where s3: "upd_node ?b (\<lambda>x. x\<lparr>n_color := Red\<rparr>) s2 = Some s3"
      "zip_at s3 tr z (Node Red Leaf key (?b, data) Leaf)" "within {?b} tr s2 s3"
    using recolor_correct [OF s2(2), of Red] by auto
  obtain s4 where s4: "trbt_insert_case1 ?b s3 = Some s4"
      "tree_at s4 tr (insert_fix z (Node Red Leaf key (?b, data) Leaf))"
      "within (insert ?b (set (zaddrs z))) tr s3 s4"
    using insert_case1_correct [OF s3(2)] by auto
  have w: "within (insert ?b (set (zaddrs z))) tr s1 s4"
    by (rule within_chain [OF s2(3) _ within_chain [OF s3(3) _ s4(3)]]) (simp_all add: z)
  obtain T' where "trees s tr = Some T'" "t_root T' \<noteq> NULL" "t_root T' = root_ptr t"
    using T(1) t by (cases t) (auto simp: zip_at_def)
  then have "trbt_insert32 tr key data s = Some (NULL, s4)"
    using insert32_walk_seek [OF T(1) t sk, of data] s1(1) s2(1) s3(1) s4(1) b
    by (simp add: trbt_insert32_def z)
  moreover have "trbt_wf s4 tr (insert_fix z (Node Red Leaf key (?b, data) Leaf)) ?K"
  proof -
    have "set (addrs (insert_fix z (Node Red Leaf key (?b, data) Leaf))) = insert ?b (set (addrs t))"
      by (simp add: addrs_def entries_insert_fix pl [symmetric] entries_plug)
    with s4(2) s1(4,6) T within_forest [OF w] within_dom [OF w] show ?thesis
      by (auto simp: trbt_wf_def)
  qed
  moreover have "inserted_frame t tr s s4"
    using w s1(2,3) A by (simp add: within_def inserted_frame_def)
  moreover have "node_created s s4" by (rule node_created_within [OF s1(5) w])
  ultimately show ?thesis by blast
qed

lemma insert_first:
  assumes W: "trbt_wf s tr Leaf K" and data: "data \<in> dom (chunks s)" and ok: "malloc_ok s (brk s)"
  shows "\<exists>s'. trbt_insert32 tr key data s = Some (NULL, s') \<and>
    trbt_wf s' tr (Node Black Leaf key (brk s, data) Leaf) (move_to data (brk s) (attach tr (brk s) K)) \<and>
    node_created s s' \<and> inserted_frame Leaf tr s s'"
proof -
  let ?b = "brk s" and ?K = "move_to data (brk s) (attach tr (brk s) K)"
  have T: "tree_at s tr Leaf" "forest s K" "tr \<in> dom (chunks s)"
    using W by (simp_all add: trbt_wf_def)
  let ?n = "\<lparr>n_tree = tr, n_parent = NULL, n_left = NULL, n_right = NULL, n_color = Black,
    n_key32 = key, n_data = data\<rparr>"
  obtain s1 where s1: "trbt_create_node tr NULL key data s = Some (?b, s1)"
      "nodes s1 = (nodes s)(?b \<mapsto> ?n)" "trees s1 = trees s" "forest s1 ?K" "node_created s s1"
      "dom (chunks s1) = insert ?b (dom (chunks s))"
    using create_node_correct [OF T(2,3) data ok] by blast
  obtain T' where T': "trees s tr = Some T'" "t_root T' = NULL" using T(1) by (auto simp: zip_at_def)
  let ?s = "s1\<lparr>trees := (trees s1)(tr \<mapsto> T'\<lparr>t_root := ?b\<rparr>)\<rparr>"
  have "trbt_insert32 tr key data s = Some (NULL, ?s)"
    using T' s1 by (simp add: trbt_insert32_def heap_simps)
  moreover have "trbt_wf ?s tr (Node Black Leaf key (?b, data) Leaf) ?K"
    using s1 T forest_brk(1) [OF T(2)] by (auto simp: trbt_wf_def zip_at_def)
  moreover have "node_created s ?s" using s1(5) by (simp add: node_created_def)
  moreover have "inserted_frame Leaf tr s ?s" using s1(2,3) T' by (simp add: inserted_frame_def)
  ultimately show ?thesis by blast
qed


text \<open>An insertion frees nothing and leaves the behaviour of \<open>malloc\<close> alone.\<close>

definition heap_kept :: "'a talloc_heap_scheme \<Rightarrow> 'a talloc_heap_scheme \<Rightarrow> bool" where
  "heap_kept s s' \<longleftrightarrow> dom (chunks s) \<subseteq> dom (chunks s') \<and> malloc_ok s' = malloc_ok s"

lemma heap_kept_trans: "heap_kept a b \<Longrightarrow> heap_kept b c \<Longrightarrow> heap_kept a c"
  unfolding heap_kept_def by auto

lemma dom_block_data: "dom (map_option block_data \<circ> h) = dom h"
  by (auto simp: dom_def)

lemma node_created_kept: "node_created s s' \<Longrightarrow> heap_kept s s'"
proof -
  assume n: "node_created s s'"
  then have "dom (map_option block_data \<circ> chunks s') = insert (brk s) (dom (map_option block_data \<circ> chunks s))"
    by (simp add: node_created_def)
  with n show ?thesis unfolding dom_block_data by (auto simp: heap_kept_def node_created_def)
qed

lemma same_blocks_kept:
  "same_blocks (s\<lparr>nodes := n, trees := t\<rparr>) s' \<Longrightarrow> heap_kept (s :: trbt_heap) s'"
  using same_blocks_dom [of "s\<lparr>nodes := n, trees := t\<rparr>" s'] by (simp add: heap_kept_def same_blocks_def)

text \<open>Who owns the node afterwards: it is moved under the data it now stores.\<close>

definition owner_after :: "ptree \<Rightarrow> ptr \<Rightarrow> u32 \<Rightarrow> ptr \<Rightarrow> trbt_heap \<Rightarrow> (ptr \<Rightarrow> ptr list) \<Rightarrow> (ptr \<Rightarrow> ptr list)" where
  "owner_after t tr key data s K =
     (case rbt_lookup t key of
        None \<Rightarrow> move_to data (brk s) (attach tr (brk s) K)
      | Some d \<Rightarrow> move_to data (fst d) K)"

text \<open>What happens to the blocks: a new node is created, or a node only moves.\<close>

definition insert_blocks :: "ptree \<Rightarrow> u32 \<Rightarrow> trbt_heap \<Rightarrow> trbt_heap \<Rightarrow> bool" where
  "insert_blocks t key s s' \<longleftrightarrow>
     (case rbt_lookup t key of
        None \<Rightarrow> node_created s s'
      | Some d \<Rightarrow> same_blocks (s\<lparr>nodes := nodes s', trees := trees s'\<rparr>) s')"

lemma insert_blocks_kept: "insert_blocks t key s s' \<Longrightarrow> heap_kept s s'"
  by (auto simp: insert_blocks_def dest: node_created_kept same_blocks_kept split: option.splits)

theorem trbt_insert32_blocks:
  assumes W: "trbt_wf s tr t K" and data: "data \<in> dom (chunks s)" and ok: "malloc_ok s (brk s)"
  shows "\<exists>s'. trbt_insert32 tr key data s = Some (data_of t key, s') \<and>
    trbt_wf s' tr (rbt_insert key (store (brk s) data) t) (owner_after t tr key data s K) \<and>
    inserted_frame t tr s s' \<and> insert_blocks t key s s'"
proof (cases t)
  case Leaf
  with insert_first [OF W [unfolded Leaf] data ok, of key] show ?thesis
    by (auto simp: rbt_insert_def store_def owner_after_def data_of_def insert_blocks_def)
next
  case (Node c0 l0 k0 d0 r0)
  then have t: "t \<noteq> Leaf" by simp
  obtain z t' where sk: "seek key [] t = (z, t')" by force
  have ins: "rbt_insert key f t = insert_at key f [] t" for f
    by (simp only: Node rbt_insert_def rbt.case)
  show ?thesis
  proof (cases t')
    case Leaf
    with insert_new [OF W data t ok, of key z] sk seek_insert_at [OF sk] seek_lookup [OF sk] show ?thesis
      by (auto simp: ins owner_after_def data_of_def store_def insert_blocks_def)
  next
    case (Node c l k d r)
    with insert_existing [OF W data t, of key z c l k d r] sk seek_insert_at [OF sk] seek_lookup [OF sk] show ?thesis
      by (auto simp: ins owner_after_def data_of_def store_def insert_blocks_def)
  qed
qed

corollary trbt_insert32_correct:
  assumes W: "trbt_wf s tr t K" and data: "data \<in> dom (chunks s)" and ok: "malloc_ok s (brk s)"
  shows "\<exists>s'. trbt_insert32 tr key data s = Some (data_of t key, s') \<and>
    trbt_wf s' tr (rbt_insert key (store (brk s) data) t) (owner_after t tr key data s K) \<and>
    inserted_frame t tr s s' \<and> heap_kept s s'"
  using trbt_insert32_blocks [OF assms] insert_blocks_kept by blast

text \<open>Reading back: the abstract insertion is a map update on the data pointers.\<close>

lemma data_of_insert:
  assumes "rbt_inv t"
  shows "data_of (rbt_insert key (store b data) t) key' = (if key' = key then data else data_of t key')"
  using assms by (auto simp: data_of_def rbt_lookup_insert store_def split: option.splits)

end
