(* ===== verification/Rbt_Delete_Spec.thy ===== *)
theory Rbt_Delete_Spec
  imports Rbt_Spec
begin

text \<open>
  Removal from an abstract red-black tree, with the cases of \<^verbatim>\<open>rbtree.c\<close>. The repair never
  looks at the subtree that became too short, so it is a function on positions:
  \<open>delete_ctx z\<close> is the surroundings \<open>z\<close> rearranged for a subtree one black node shorter.
\<close>

section \<open>The repair\<close>

abbreviation (input) kids_black :: "'d rbt \<Rightarrow> bool" where
  "kids_black t \<equiv> (case t of Leaf \<Rightarrow> True | Node c l k d r \<Rightarrow> rcolor l = Black \<and> rcolor r = Black)"

text \<open>Case 5: the sibling's inner child is red and its outer child black.\<close>

fun delete_turn :: "'d frame \<Rightarrow> 'd frame" where
  "delete_turn (InL c k d s) =
     (case s of
        Node sc (Node _ ll lk ld lr) sk sd sr \<Rightarrow>
          if rcolor sr = Black then InL c k d (Node Black ll lk ld (Node Red lr sk sd sr)) else InL c k d s
      | _ \<Rightarrow> InL c k d s)"
| "delete_turn (InR c s k d) =
     (case s of
        Node sc sl sk sd (Node _ rl rk rd rr) \<Rightarrow>
          if rcolor sl = Black then InR c (Node Black (Node Red sl sk sd rl) rk rd rr) k d else InR c s k d
      | _ \<Rightarrow> InR c s k d)"

text \<open>Case 6: the sibling's outer child is red; one rotation ends the repair.\<close>

fun delete_rotate :: "'d frame \<Rightarrow> 'd frame list" where
  "delete_rotate (InL c k d (Node sc sl sk sd sr)) = [InL Black k d sl, InL c sk sd (paint Black sr)]"
| "delete_rotate (InR c (Node sc sl sk sd sr) k d) = [InR Black sr k d, InR c (paint Black sl) sk sd]"
| "delete_rotate f = [f]"

text \<open>Case 5's test: turn only when the inner child is red.\<close>

fun inner_red :: "'d frame \<Rightarrow> bool" where
  "inner_red (InL c k d (Node sc sl sk sd sr)) \<longleftrightarrow> rcolor sl = Red"
| "inner_red (InR c (Node sc sl sk sd sr) k d) \<longleftrightarrow> rcolor sr = Red"
| "inner_red f \<longleftrightarrow> False"

text \<open>Cases 4 to 6, which end the repair.\<close>

definition delete_end :: "'d frame \<Rightarrow> 'd frame list" where
  "delete_end f =
     (if fcolor f = Red \<and> kids_black (fsib f) then [fpaint Black (fsib_paint Red f)]
      else delete_rotate (if inner_red f then delete_turn f else f))"

text \<open>Case 2: a red sibling is rotated above the parent.\<close>

fun delete_lift :: "'d frame \<Rightarrow> 'd frame \<times> 'd frame list" where
  "delete_lift (InL c k d (Node sc sl sk sd sr)) = (InL Red k d sl, [InL Black sk sd sr])"
| "delete_lift (InR c (Node sc sl sk sd sr) k d) = (InR Red sr k d, [InR Black sl sk sd])"
| "delete_lift f = (f, [])"

fun delete_ctx :: "'d frame list \<Rightarrow> 'd frame list" where
  "delete_ctx [] = []"
| "delete_ctx (f # z) =
     (if rcolor (fsib f) = Red then delete_end (fst (delete_lift f)) @ snd (delete_lift f) @ z
      else if fcolor f = Black \<and> kids_black (fsib f) then fsib_paint Red f # delete_ctx z
      else delete_end f @ z)"

section \<open>Removal\<close>

text \<open>Removing the root of the focus, which has at most one child.\<close>

fun delete_one :: "'d frame list \<Rightarrow> 'd rbt \<Rightarrow> 'd rbt" where
  "delete_one z Leaf = plug z Leaf"
| "delete_one z (Node c l k d r) =
     (let child = (if r \<noteq> Leaf then r else l)
      in if c = Red then plug z child
         else if rcolor child = Red then plug z (paint Black child)
         else plug (delete_ctx z) child)"

text \<open>The position of the last entry of the focus.\<close>

fun last_pos :: "'d frame list \<Rightarrow> 'd rbt \<Rightarrow> 'd frame list \<times> 'd rbt" where
  "last_pos z Leaf = (z, Leaf)"
| "last_pos z (Node c l k d r) =
     (if r = Leaf then (z, Node c l k d r) else last_pos (InR c l k d # z) r)"

fun last_entry :: "'d rbt \<Rightarrow> (u32 \<times> 'd) option" where
  "last_entry Leaf = None"
| "last_entry (Node c l k d r) = (if r = Leaf then Some (k, d) else last_entry r)"

text \<open>Removing the root of the focus: its predecessor, if it has two children, takes its place.\<close>

fun delete_root :: "'d frame list \<Rightarrow> 'd rbt \<Rightarrow> 'd rbt" where
  "delete_root z Leaf = plug z Leaf"
| "delete_root z (Node c l k d r) =
     (if l \<noteq> Leaf \<and> r \<noteq> Leaf then
        (case last_entry l of
           None \<Rightarrow> plug z (Node c l k d r)
         | Some (pk, pd) \<Rightarrow> (case last_pos (InL c pk pd r # z) l of (zp, p) \<Rightarrow> delete_one zp p))
      else delete_one z (Node c l k d r))"

definition rbt_delete :: "u32 \<Rightarrow> 'd rbt \<Rightarrow> 'd rbt" where
  "rbt_delete key t = (case seek key [] t of (z, t') \<Rightarrow> delete_root z t')"

section \<open>Entries\<close>

lemma before_append: "before (xs @ z) = before z @ before xs"
proof (induction xs)
  case (Cons f xs)
  then show ?case by (cases f) simp_all
qed simp

lemma after_append: "after (xs @ z) = after xs @ after z"
proof (induction xs)
  case (Cons f xs)
  then show ?case by (cases f) simp_all
qed simp

lemma before_after_turn: "before [delete_turn f] = before [f] \<and> after [delete_turn f] = after [f]"
  by (cases f) (auto split: rbt.splits)

lemma before_after_rotate: "before (delete_rotate f) = before [f] \<and> after (delete_rotate f) = after [f]"
  by (cases f rule: delete_rotate.cases) auto

lemma before_after_end: "before (delete_end f) = before [f] \<and> after (delete_end f) = after [f]"
  by (simp add: delete_end_def before_after_rotate before_after_turn)

lemma before_after_lift:
  "before (fst (delete_lift f) # snd (delete_lift f)) = before [f] \<and>
   after (fst (delete_lift f) # snd (delete_lift f)) = after [f]"
  by (cases f rule: delete_lift.cases) auto

lemma before_Cons: "before (f # z) = before z @ before [f]"
  using before_append [of "[f]" z] by simp

lemma after_Cons: "after (f # z) = after [f] @ after z"
  using after_append [of "[f]" z] by simp

lemma before_after_delete_ctx: "before (delete_ctx z) = before z \<and> after (delete_ctx z) = after z"
proof (induction z)
  case (Cons f z)
  have "before (delete_end (fst (delete_lift f)) @ snd (delete_lift f) @ z) = before (f # z) \<and>
      after (delete_end (fst (delete_lift f)) @ snd (delete_lift f) @ z) = after (f # z)"
    using before_after_lift [of f] before_Cons [of "fst (delete_lift f)" "snd (delete_lift f)"]
      after_Cons [of "fst (delete_lift f)" "snd (delete_lift f)"]
    by (simp add: before_append after_append before_after_end before_Cons [of f z] after_Cons [of f z])
  moreover have "before (delete_end f @ z) = before (f # z) \<and> after (delete_end f @ z) = after (f # z)"
    by (simp add: before_append after_append before_after_end before_Cons [of f z] after_Cons [of f z])
  moreover have "before (fsib_paint Red f # delete_ctx z) = before (f # z) \<and>
      after (fsib_paint Red f # delete_ctx z) = after (f # z)"
    using Cons by (simp add: before_Cons [of f "delete_ctx z"] before_Cons [of f z]
        after_Cons [of f "delete_ctx z"] after_Cons [of f z])
  ultimately show ?case by simp
qed simp

lemma entries_delete_one:
  "l = Leaf \<or> r = Leaf \<Longrightarrow>
   entries (delete_one z (Node c l k d r)) = before z @ entries l @ entries r @ after z"
  by (auto simp: Let_def entries_plug before_after_delete_ctx)

lemma last_entry_Some: "t \<noteq> Leaf \<Longrightarrow> \<exists>k d. last_entry t = Some (k, d)"
  by (induction t) auto

lemma last_pos_spec:
  assumes "t \<noteq> Leaf" "last_pos z t = (zp, p)" "last_entry t = Some (k, d)"
  shows "\<exists>c l es. p = Node c l k d Leaf \<and> entries t = es @ [(k, d)] \<and>
    before zp @ entries l = before z @ es \<and> after zp = after z \<and> plug zp p = plug z t"
  using assms
proof (induction z t rule: last_pos.induct)
  case (2 z c l k' d' r)
  show ?case
  proof (cases "r = Leaf")
    case False
    with 2 obtain c1 l1 es where "p = Node c1 l1 k d Leaf" "entries r = es @ [(k, d)]"
        "before zp @ entries l1 = before (InR c l k' d' # z) @ es" "after zp = after z"
        "plug zp p = plug (InR c l k' d' # z) r"
      by auto
    then show ?thesis by auto
  qed (use 2 in auto)
qed simp

lemma entries_delete_root:
  "entries (delete_root z (Node c l k d r)) = before z @ entries l @ entries r @ after z"
proof (cases "l \<noteq> Leaf \<and> r \<noteq> Leaf")
  case True
  obtain pk pd where le: "last_entry l = Some (pk, pd)" using True last_entry_Some by blast
  obtain zp p where lp: "last_pos (InL c pk pd r # z) l = (zp, p)" by force
  obtain pc pl es where p: "p = Node pc pl pk pd Leaf" "entries l = es @ [(pk, pd)]"
      "before zp @ entries pl = before z @ es" "after zp = (pk, pd) # entries r @ after z"
    using last_pos_spec [OF _ lp le] True by auto
  have "entries (delete_one zp p) = before z @ es @ after zp"
    using p(3) by (simp only: p(1) entries_delete_one [of pl Leaf] simp_thms) simp
  with True le lp p show ?thesis by simp
qed (auto simp: entries_delete_one simp del: delete_one.simps)

lemma entries_rbt_delete:
  assumes "sorted1 (entries t)"
  shows "entries (rbt_delete key t) = filter (\<lambda>x. fst x \<noteq> key) (entries t)"
proof -
  obtain z t' where sk: "seek key [] t = (z, t')" by force
  have e: "entries t = before z @ entries t' @ after z"
    using seek_plug [OF sk] entries_plug [of z t'] by simp
  show ?thesis
  proof (cases t')
    case Leaf
    have "map_of (entries t) key = None"
      using seek_lookup [OF sk] rbt_lookup_map_of [OF assms, of key] Leaf by simp
    then have "filter (\<lambda>x. fst x \<noteq> key) (entries t) = entries t"
      by (auto simp: filter_id_conv map_of_eq_None_iff)
    with sk Leaf seek_plug [OF sk] show ?thesis by (simp add: rbt_delete_def)
  next
    case (Node c l k d r)
    have k: "k = key" using seek_key [of key "[]" t z c l k d r] sk Node by simp
    have "sorted1 (before z @ (entries l @ (k, d) # entries r) @ after z)" using assms e Node by simp
    then have "\<forall>x \<in> set (before z @ entries l). fst x \<noteq> key" "\<forall>x \<in> set (entries r @ after z). fst x \<noteq> key"
      unfolding k by (simp_all add: ball_Un) fastforce+
    then have "filter (\<lambda>x. fst x \<noteq> key) (entries t) = before z @ entries l @ entries r @ after z"
      using e Node k by (auto simp: filter_id_conv)
    with sk Node show ?thesis by (simp add: rbt_delete_def entries_delete_root del: delete_root.simps)
  qed
qed

section \<open>Balance\<close>

lemma invc_ctx_Black: "invc_ctx z c \<Longrightarrow> invc_ctx z Black"
  by (cases z) auto

lemma root_color_ne: "z \<noteq> [] \<Longrightarrow> root_color z c = root_color z c'"
  by (cases z) auto

lemma root_color_append: "root_color (xs @ z) c = root_color z (root_color xs c)"
  by (induction xs arbitrary: c) auto

text \<open>
  The ending cases: the position below a parent with a black sibling, one black node too
  deep for the subtree put there.
\<close>

lemma delete_end_inv:
  assumes f: "rcolor (fsib f) = Black" "invc (fsib f)" "invh (fsib f)" "bheight (fsib f) = Suc n"
    and c: "fcolor f = Red \<or> \<not> kids_black (fsib f)"
    and z: "invc_ctx z (fcolor f)" "invh_ctx z (if fcolor f = Black then Suc (Suc n) else Suc n)"
  shows "invc_ctx (delete_end f @ z) Black \<and> invh_ctx (delete_end f @ z) n \<and>
    (root_color z (fcolor f) = Black \<longrightarrow> root_color (delete_end f @ z) Black = Black)"
proof -
  obtain sl sk sd sr where s: "fsib f = Node Black sl sk sd sr" using f by (cases "fsib f") auto
  have kids: "invc sl" "invc sr" "invh sl" "invh sr" "bheight sl = n" "bheight sr = n" using f s by auto
  show ?thesis
  proof (cases "rcolor sl = Black \<and> rcolor sr = Black")
    case True
    with c s z kids f invc_ctx_Black [of z Red] root_color_ne [of z Red Black] show ?thesis
      by (cases z; cases f) (auto simp: delete_end_def)
  next
    case False
    then have e: "delete_end f = delete_rotate (if inner_red f then delete_turn f else f)"
      by (auto simp: delete_end_def s)
    show ?thesis
    proof (cases f)
      case (InL c k d r)
      with False s z kids show ?thesis unfolding e
        by (cases sl; cases sr) (auto simp: invc_paint_Black bheight_paint_Black)
    next
      case (InR c l k d)
      with False s z kids show ?thesis unfolding e
        by (cases sl; cases sr) (auto simp: invc_paint_Black bheight_paint_Black)
    qed
  qed
qed

lemma delete_ctx_inv:
  assumes "invc_ctx z Black" "invh_ctx z (Suc n)"
  shows "invc_ctx (delete_ctx z) Black \<and> invh_ctx (delete_ctx z) n \<and>
    (root_color z Black = Black \<longrightarrow> root_color (delete_ctx z) Black = Black)"
  using assms
proof (induction z arbitrary: n)
  case (Cons f z)
  note z = Cons.prems
  consider (red) "rcolor (fsib f) = Red" | (up) "rcolor (fsib f) = Black" "fcolor f = Black" "kids_black (fsib f)"
    | (stop) "rcolor (fsib f) = Black" "fcolor f = Red \<or> \<not> kids_black (fsib f)" by (cases "rcolor (fsib f)"; cases "fcolor f") blast+
  then show ?case
  proof cases
    case red
    then have fc: "fcolor f = Black" using z by auto
    obtain sl sk sd sr where s: "fsib f = Node Red sl sk sd sr" using red by (cases "fsib f") auto
    define g where "g = fst (delete_lift f)"
    define y where "y = snd (delete_lift f) @ z"
    have g: "rcolor (fsib g) = Black" "invc (fsib g)" "invh (fsib g)" "bheight (fsib g) = Suc n" "fcolor g = Red"
        "invc_ctx y Red" "invh_ctx y (Suc n)" "root_color y Red = root_color (f # z) Black"
      using s z fc by (cases f; auto simp: g_def y_def)+
    have "invc_ctx (delete_end g @ y) Black \<and> invh_ctx (delete_end g @ y) n \<and>
        (root_color y (fcolor g) = Black \<longrightarrow> root_color (delete_end g @ y) Black = Black)"
      by (rule delete_end_inv) (use g in auto)
    with g red show ?thesis by (simp add: g_def y_def)
  next
    case up
    obtain sl sk sd sr where s: "fsib f = Node Black sl sk sd sr" using up z by (cases "fsib f") auto
    from Cons.IH [of "Suc n"] z up s show ?thesis
      by (auto simp: root_color_ne [of z] split: if_splits)
  next
    case stop
    from delete_end_inv [OF stop(1) _ _ _ stop(2), of n z] z stop show ?thesis by auto
  qed
qed simp

lemma black_no_height: "invc t \<Longrightarrow> invh t \<Longrightarrow> bheight t = 0 \<Longrightarrow> rcolor t = Black \<Longrightarrow> t = Leaf"
  by (cases t) auto

lemma delete_one_inv:
  assumes "invc (plug z (Node c l k d r))" "invh (plug z (Node c l k d r))" "rcolor (plug z (Node c l k d r)) = Black"
    and lr: "l = Leaf \<or> r = Leaf"
  shows "invc (delete_one z (Node c l k d r)) \<and> invh (delete_one z (Node c l k d r)) \<and>
    rcolor (delete_one z (Node c l k d r)) = Black"
proof -
  define child where "child = (if r \<noteq> Leaf then r else l)"
  have kids: "invc child" "invh child" "bheight child = bheight l" "c = Red \<Longrightarrow> rcolor child = Black"
    and z: "invc_ctx z c" "invh_ctx z (if c = Black then Suc (bheight l) else bheight l)" "root_color z c = Black"
    using assms by (auto simp: invc_plug invh_plug rcolor_plug child_def)
  have eq: "delete_one z (Node c l k d r) = (if c = Red then plug z child
      else if rcolor child = Red then plug z (paint Black child) else plug (delete_ctx z) child)"
    by (simp add: child_def Let_def)
  show ?thesis
  proof (cases "c = Red")
    case True
    then have "child = Leaf" using lr kids assms(2) by (intro black_no_height) (auto simp: invh_plug)
    moreover have "root_color z Black = Black" using z True by (cases z) auto
    ultimately show ?thesis unfolding eq using True kids z invc_ctx_Black [of z c]
      by (simp add: invc_plug invh_plug rcolor_plug)
  next
    case c: False
    then have c: "c = Black" by simp
    show ?thesis
    proof (cases "rcolor child = Red")
      case True
      then have "child \<noteq> Leaf" by auto
      with True c kids z show ?thesis unfolding eq
        by (simp add: invc_plug invh_plug rcolor_plug invc_paint_Black bheight_paint_Black)
    next
      case False
      with c kids z delete_ctx_inv [of z "bheight l"] show ?thesis unfolding eq
        by (simp add: invc_plug invh_plug rcolor_plug)
    qed
  qed
qed

lemma delete_root_inv:
  assumes "invc (plug z t)" "invh (plug z t)" "rcolor (plug z t) = Black"
  shows "invc (delete_root z t) \<and> invh (delete_root z t) \<and> rcolor (delete_root z t) = Black"
proof (cases t)
  case (Node c l k d r)
  show ?thesis
  proof (cases "l \<noteq> Leaf \<and> r \<noteq> Leaf")
    case True
    obtain pk pd where le: "last_entry l = Some (pk, pd)" using True last_entry_Some by blast
    obtain zp p where lp: "last_pos (InL c pk pd r # z) l = (zp, p)" by force
    obtain pc pl where p: "p = Node pc pl pk pd Leaf" "plug zp p = plug (InL c pk pd r # z) l"
      using last_pos_spec [OF _ lp le] True by auto
    have "plug zp p = plug z (Node c l pk pd r)" using p(2) by simp
    moreover have "invc (plug z (Node c l pk pd r))" "invh (plug z (Node c l pk pd r))"
        "rcolor (plug z (Node c l pk pd r)) = Black"
      using assms Node by (simp_all add: invc_plug invh_plug rcolor_plug)
    ultimately have "invc (delete_one zp p) \<and> invh (delete_one zp p) \<and> rcolor (delete_one zp p) = Black"
      using delete_one_inv [of zp pc pl pk pd Leaf] p(1) by auto
    moreover have "delete_root z t = delete_one zp p" using Node True le lp by simp
    ultimately show ?thesis by simp
  next
    case False
    then have "delete_root z t = delete_one z t" using Node by auto
    with delete_one_inv [of z c l k d r] assms False Node show ?thesis by auto
  qed
qed (use assms in auto)

theorem rbt_delete_inv: "rbt_inv t \<Longrightarrow> rbt_inv (rbt_delete key t)"
proof -
  assume t: "rbt_inv t"
  obtain z t' where sk: "seek key [] t = (z, t')" by force
  have "sorted1 (entries (rbt_delete key t))"
    using t by (simp add: rbt_inv_def entries_rbt_delete sorted1_def) (simp add: sorted_wrt_map sorted_wrt_filter)
  with t delete_root_inv [of z t'] seek_plug [OF sk] sk show ?thesis by (simp add: rbt_inv_def rbt_delete_def)
qed

theorem rbt_lookup_delete: "rbt_inv t \<Longrightarrow> rbt_lookup (rbt_delete key t) = (rbt_lookup t)(key := None)"
proof -
  assume t: "rbt_inv t"
  then have "rbt_inv (rbt_delete key t)" by (rule rbt_delete_inv)
  moreover have "map_of (filter (\<lambda>x. fst x \<noteq> key) xs) = (map_of xs)(key := None)" for xs :: "(u32 \<times> 'a) list"
    by (induction xs) auto
  ultimately show ?thesis using t
    by (auto simp: rbt_inv_def rbt_lookup_map_of entries_rbt_delete fun_eq_iff)
qed

section \<open>Changing the stored data\<close>

lemma map_frame_eqs [simp]:
  "map_rbt h t = Leaf \<longleftrightarrow> t = Leaf" "kids_black (map_rbt h t) = kids_black t"
  by (cases t; simp)+

lemma map_delete_rotate: "map (map_frame h) (delete_rotate f) = delete_rotate (map_frame h f)"
  by (cases f rule: delete_rotate.cases) simp_all

lemma map_delete_turn: "map_frame h (delete_turn f) = delete_turn (map_frame h f)"
  by (cases f) (auto split: rbt.splits)

lemma map_inner_red: "inner_red (map_frame h f) = inner_red f"
  by (cases f rule: inner_red.cases) simp_all

lemma map_delete_end: "map (map_frame h) (delete_end f) = delete_end (map_frame h f)"
  by (simp add: delete_end_def map_delete_rotate map_delete_turn map_inner_red)

lemma map_delete_lift:
  "fst (delete_lift (map_frame h f)) = map_frame h (fst (delete_lift f)) \<and>
   snd (delete_lift (map_frame h f)) = map (map_frame h) (snd (delete_lift f))"
  by (cases f rule: delete_lift.cases) simp_all

lemma map_delete_ctx: "map (map_frame h) (delete_ctx z) = delete_ctx (map (map_frame h) z)"
  by (induction z) (auto simp: map_delete_end map_delete_lift)

lemma map_delete_one: "map_rbt h (delete_one z t) = delete_one (map (map_frame h) z) (map_rbt h t)"
  by (cases t) (auto simp: Let_def map_plug map_delete_ctx)

lemma map_seek: "seek key (map (map_frame h) z) (map_rbt h t) = map_prod (map (map_frame h)) (map_rbt h) (seek key z t)"
  by (induction key z t rule: seek.induct) auto

lemma map_last_entry: "last_entry (map_rbt h t) = map_option (map_prod id h) (last_entry t)"
  by (induction t) auto

lemma map_last_pos:
  "last_pos (map (map_frame h) z) (map_rbt h t) = map_prod (map (map_frame h)) (map_rbt h) (last_pos z t)"
  by (induction z t rule: last_pos.induct) auto

lemma map_delete_root: "map_rbt h (delete_root z t) = delete_root (map (map_frame h) z) (map_rbt h t)"
proof (cases t)
  case (Node c l k d r)
  show ?thesis
  proof (cases "l \<noteq> Leaf \<and> r \<noteq> Leaf")
    case True
    obtain pk pd where le: "last_entry l = Some (pk, pd)" using True last_entry_Some by blast
    have "last_entry (map_rbt h l) = Some (pk, h pd)" using le by (simp add: map_last_entry)
    with True Node le map_last_pos [of h "InL c pk pd r # z" l] show ?thesis
      by (simp add: map_delete_one split: prod.split)
  next
    case False
    then have "delete_root z t = delete_one z t"
      "delete_root (map (map_frame h) z) (map_rbt h t) = delete_one (map (map_frame h) z) (map_rbt h t)"
      using Node by auto
    then show ?thesis by (simp only: map_delete_one)
  qed
qed (simp add: map_plug)

lemma map_rbt_delete: "map_rbt h (rbt_delete key t) = rbt_delete key (map_rbt h t)"
  using map_seek [of key h "[]" t] by (simp add: rbt_delete_def map_delete_root split: prod.split)

end
