(* ===== verification/Rbtree_Delete.thy ===== *)
theory Rbtree_Delete
  imports Rbtree
begin

text \<open>
  Removal in \<^verbatim>\<open>rbtree.c\<close>. An entry leaves its tree when its node is freed: the node's talloc
  destructor calls \<open>delete_node\<close>, which unlinks the node and repairs the balance; freeing
  the tree frees all its nodes. \<open>trbt_dtor\<close> gives both destructors to \<open>talloc_free\<close>.
\<close>

section \<open>Repair after a removal\<close>

definition trbt_delete_case6 :: "ptr \<Rightarrow> trbt_heap \<Rightarrow> trbt_heap option" where
  "trbt_delete_case6 node s = do {
     sibling \<leftarrow> trbt_sibling node s;
     parent \<leftarrow> trbt_parent node s;
     p \<leftarrow> nodes s parent;
     s \<leftarrow> trbt_set_color sibling (n_color p) s;
     s \<leftarrow> trbt_set_color parent Black s;
     p \<leftarrow> nodes s parent;
     if node = n_left p then do {
       s \<leftarrow> trbt_set_color_right sibling Black s;
       trbt_rotate_left parent s
     } else do {
       s \<leftarrow> trbt_set_color_left sibling Black s;
       trbt_rotate_right parent s } }"

definition trbt_delete_case5 :: "ptr \<Rightarrow> trbt_heap \<Rightarrow> trbt_heap option" where
  "trbt_delete_case5 node s = do {
     parent \<leftarrow> trbt_parent node s;
     sibling \<leftarrow> trbt_sibling node s;
     p \<leftarrow> nodes s parent;
     sc \<leftarrow> trbt_get_color sibling s;
     lc \<leftarrow> trbt_get_color_left sibling s;
     rc \<leftarrow> trbt_get_color_right sibling s;
     if node = n_left p \<and> sc = Black \<and> lc = Red \<and> rc = Black then do {
       s \<leftarrow> trbt_set_color sibling Red s;
       s \<leftarrow> trbt_set_color_left sibling Black s;
       s \<leftarrow> trbt_rotate_right sibling s;
       trbt_delete_case6 node s
     } else if node = n_right p \<and> sc = Black \<and> rc = Red \<and> lc = Black then do {
       s \<leftarrow> trbt_set_color sibling Red s;
       s \<leftarrow> trbt_set_color_right sibling Black s;
       s \<leftarrow> trbt_rotate_left sibling s;
       trbt_delete_case6 node s
     } else trbt_delete_case6 node s }"

definition trbt_delete_case4 :: "ptr \<Rightarrow> trbt_heap \<Rightarrow> trbt_heap option" where
  "trbt_delete_case4 node s = do {
     sibling \<leftarrow> trbt_sibling node s;
     n \<leftarrow> nodes s node;
     pc \<leftarrow> trbt_get_color (n_parent n) s;
     sc \<leftarrow> trbt_get_color sibling s;
     lc \<leftarrow> trbt_get_color_left sibling s;
     rc \<leftarrow> trbt_get_color_right sibling s;
     if pc = Red \<and> sc = Black \<and> lc = Black \<and> rc = Black then do {
       s \<leftarrow> trbt_set_color sibling Red s;
       trbt_set_color (n_parent n) Black s
     } else trbt_delete_case5 node s }"

text \<open>
  Cases 1 to 3 call each other upwards. As with insertion, case 3 returns the node to go on
  from, if any, and case 1 is the loop.
\<close>

definition trbt_delete_case3 :: "ptr \<Rightarrow> trbt_heap \<Rightarrow> (ptr option \<times> trbt_heap) option" where
  "trbt_delete_case3 node s = do {
     sibling \<leftarrow> trbt_sibling node s;
     n \<leftarrow> nodes s node;
     pc \<leftarrow> trbt_get_color (n_parent n) s;
     sc \<leftarrow> trbt_get_color sibling s;
     lc \<leftarrow> trbt_get_color_left sibling s;
     rc \<leftarrow> trbt_get_color_right sibling s;
     if pc = Black \<and> sc = Black \<and> lc = Black \<and> rc = Black then do {
       s \<leftarrow> trbt_set_color sibling Red s;
       Some (Some (n_parent n), s)
     } else do {
       s \<leftarrow> trbt_delete_case4 node s;
       Some (None, s) } }"

definition trbt_delete_case2 :: "ptr \<Rightarrow> trbt_heap \<Rightarrow> (ptr option \<times> trbt_heap) option" where
  "trbt_delete_case2 node s = do {
     sibling \<leftarrow> trbt_sibling node s;
     sc \<leftarrow> trbt_get_color sibling s;
     s \<leftarrow> (if sc = Red then do {
         n \<leftarrow> nodes s node;
         s \<leftarrow> trbt_set_color (n_parent n) Red s;
         s \<leftarrow> trbt_set_color sibling Black s;
         p \<leftarrow> nodes s (n_parent n);
         if node = n_left p then trbt_rotate_left (n_parent n) s else trbt_rotate_right (n_parent n) s
       } else Some s);
     trbt_delete_case3 node s }"

partial_function (option) trbt_delete_case1 :: "ptr \<Rightarrow> trbt_heap \<Rightarrow> trbt_heap option" where
  "trbt_delete_case1 node s = do {
     n \<leftarrow> nodes s node;
     if n_parent n = NULL then Some s
     else do {
       r \<leftarrow> trbt_delete_case2 node s;
       case fst r of None \<Rightarrow> Some (snd r) | Some p \<Rightarrow> trbt_delete_case1 p (snd r) } }"

section \<open>Removing a node\<close>

text \<open>\<open>temp = node->left; while (temp->right != NULL) temp = temp->right;\<close>\<close>

partial_function (option) rightmost :: "ptr \<Rightarrow> trbt_heap \<Rightarrow> ptr option" where
  "rightmost temp s = do {
     n \<leftarrow> nodes s temp;
     if n_right n \<noteq> NULL then rightmost (n_right n) s else Some temp }"

text \<open>The repair when the removed node was of colour \<open>c\<close> and \<open>child\<close> took its place.\<close>

definition repair_above :: "color \<Rightarrow> ptr \<Rightarrow> trbt_heap \<Rightarrow> trbt_heap option" where
  "repair_above c child s =
     (if c = Black then do {
        cc \<leftarrow> trbt_get_color child s;
        if cc = Red then upd_node child (\<lambda>x. x\<lparr>n_color := Black\<rparr>) s
        else trbt_delete_case1 child s
      } else Some s)"

text \<open>Taking the dummy child \<open>dc\<close> out again.\<close>

definition drop_dummy :: "ptr \<Rightarrow> ptr \<Rightarrow> trbt_heap \<Rightarrow> trbt_heap option" where
  "drop_dummy tree dc s = do {
     c \<leftarrow> nodes s dc;
     if n_parent c = NULL then upd_tree tree (\<lambda>x. x\<lparr>t_root := NULL\<rparr>) s
     else do {
       p \<leftarrow> nodes s (n_parent c);
       if n_left p = dc then upd_node (n_parent c) (\<lambda>x. x\<lparr>n_left := NULL\<rparr>) s
       else upd_node (n_parent c) (\<lambda>x. x\<lparr>n_right := NULL\<rparr>) s } }"

text \<open>
  The part of \<open>delete_node\<close> for a node with at most one child, up to \<open>finished\<close>. The local
  variable \<open>dc\<close> needs an address that no block has: \<open>brk\<close> is one. Its contents end with
  the function; its key is never read.
\<close>

definition unlink_node :: "ptr \<Rightarrow> trbt_heap \<Rightarrow> trbt_heap option" where
  "unlink_node node s = do {
     n \<leftarrow> nodes s node;
     let dc = brk s;
     let child = (if n_right n \<noteq> NULL then n_right n else n_left n);
     let (child, s) =
       (if child \<noteq> NULL then (child, s)
        else (dc, s\<lparr>nodes := (nodes s)(dc \<mapsto> \<lparr>n_tree = n_tree n, n_parent = NULL, n_left = NULL,
               n_right = NULL, n_color = Black, n_key32 = 0, n_data = NULL\<rparr>)\<rparr>));
     s \<leftarrow> replace_child node child s;
     s \<leftarrow> upd_node child (\<lambda>x. x\<lparr>n_parent := n_parent n\<rparr>) s;
     s \<leftarrow> repair_above (n_color n) child s;
     if child = dc then do {
       s \<leftarrow> drop_dummy (n_tree n) dc s;
       Some (s\<lparr>nodes := (nodes s)(dc := None)\<rparr>)
     } else Some s }"

text \<open>
  The part after \<open>finished\<close> when the predecessor \<open>temp\<close> was unlinked: it gets the contents
  and the links of \<open>node\<close>, and everything around \<open>node\<close> now points to it.
\<close>

definition relink_node :: "ptr \<Rightarrow> ptr \<Rightarrow> trbt_heap \<Rightarrow> trbt_heap option" where
  "relink_node temp node s = do {
     n \<leftarrow> nodes s node;
     s \<leftarrow> upd_node temp (\<lambda>x. x\<lparr>n_parent := n_parent n\<rparr>) s;
     s \<leftarrow> (if n_parent n \<noteq> NULL then do {
         p \<leftarrow> nodes s (n_parent n);
         if n_left p = node then upd_node (n_parent n) (\<lambda>x. x\<lparr>n_left := temp\<rparr>) s
         else upd_node (n_parent n) (\<lambda>x. x\<lparr>n_right := temp\<rparr>) s
       } else Some s);
     s \<leftarrow> upd_node temp (\<lambda>x. x\<lparr>n_left := n_left n\<rparr>) s;
     s \<leftarrow> (if n_left n \<noteq> NULL then upd_node (n_left n) (\<lambda>x. x\<lparr>n_parent := temp\<rparr>) s else Some s);
     s \<leftarrow> upd_node temp (\<lambda>x. x\<lparr>n_right := n_right n\<rparr>) s;
     s \<leftarrow> (if n_right n \<noteq> NULL then upd_node (n_right n) (\<lambda>x. x\<lparr>n_parent := temp\<rparr>) s else Some s);
     t \<leftarrow> nodes s temp;
     T \<leftarrow> trees s (n_tree t);
     if t_root T = node then upd_tree (n_tree t) (\<lambda>x. x\<lparr>t_root := temp\<rparr>) s else Some s }"

definition take_place :: "ptr \<Rightarrow> ptr \<Rightarrow> trbt_heap \<Rightarrow> trbt_heap option" where
  "take_place temp node s = do {
     n \<leftarrow> nodes s node;
     s \<leftarrow> upd_node temp (\<lambda>x. x\<lparr>n_key32 := n_key32 n, n_color := n_color n, n_data := n_data n\<rparr>) s;
     (_, s) \<leftarrow> talloc_steal (n_data n) temp s;
     relink_node temp node s }"

text \<open>The last statement of \<open>delete_node\<close>: an empty \<open>TRBT_AUTOFREE\<close> tree is freed.\<close>

definition autofree :: "trbt_heap free_fn \<Rightarrow> ptr \<Rightarrow> trbt_heap \<Rightarrow> trbt_heap option" where
  "autofree free node s = do {
     n \<leftarrow> nodes s node;
     T \<leftarrow> trees s (n_tree n);
     if t_flags T AND TRBT_AUTOFREE \<noteq> 0 \<and> t_root T = NULL then do {
       (_, s) \<leftarrow> free (n_tree n) s;
       Some s
     } else Some s }"

partial_function (option) delete_node :: "trbt_heap free_fn \<Rightarrow> ptr \<Rightarrow> trbt_heap \<Rightarrow> trbt_heap option" where
  "delete_node free node s = do {
     n \<leftarrow> nodes s node;
     s \<leftarrow>
       (if n_left n \<noteq> NULL \<and> n_right n \<noteq> NULL then do {
          temp \<leftarrow> rightmost (n_left n) s;
          t \<leftarrow> nodes s temp;
          s \<leftarrow> upd_node node (\<lambda>x. x\<lparr>n_key32 := n_key32 t, n_data := n_data t\<rparr>) s;
          (_, s) \<leftarrow> talloc_steal (n_data t) node s;
          s \<leftarrow> upd_node temp (\<lambda>x. x\<lparr>n_data := NULL, n_key32 := -1\<rparr>) s;
          s \<leftarrow> delete_node free temp s;
          take_place temp node s
        } else unlink_node node s);
     autofree free node s }"

section \<open>Destructors\<close>

definition node_destructor :: "trbt_heap free_fn \<Rightarrow> trbt_heap free_fn" where
  "node_destructor free node s = do {
     s \<leftarrow> delete_node free node s;
     Some (0, s) }"

partial_function (option) tree_destructor_traverse_node ::
  "trbt_heap free_fn \<Rightarrow> ptr \<Rightarrow> trbt_heap \<Rightarrow> trbt_heap option" where
  "tree_destructor_traverse_node free node s = do {
     s \<leftarrow> talloc_set_destructor node D_null s;
     n \<leftarrow> nodes s node;
     s \<leftarrow> (if n_left n \<noteq> NULL then tree_destructor_traverse_node free (n_left n) s else Some s);
     n \<leftarrow> nodes s node;
     s \<leftarrow> (if n_right n \<noteq> NULL then tree_destructor_traverse_node free (n_right n) s else Some s);
     (_, s) \<leftarrow> free node s;
     Some s }"

definition tree_destructor :: "trbt_heap free_fn \<Rightarrow> trbt_heap free_fn" where
  "tree_destructor free tree s =
     (if tree = NULL then Some (0, s)
      else do {
        T \<leftarrow> trees s tree;
        if t_root T = NULL then Some (0, s)
        else do {
          s \<leftarrow> tree_destructor_traverse_node free (t_root T) s;
          Some (0, s) } })"

definition trbt_dtor :: "trbt_heap client_dtor" where
  "trbt_dtor free i p s =
     (if D_client i = tree_destructor_id then tree_destructor free p s
      else if D_client i = node_destructor_id then node_destructor free p s
      else None)"

definition trbt_delete32 :: "nat \<Rightarrow> ptr \<Rightarrow> u32 \<Rightarrow> trbt_heap \<Rightarrow> trbt_heap option" where
  "trbt_delete32 n tree key s = do {
     t \<leftarrow> trees s tree;
     node \<leftarrow> find_node key (t_root t) s;
     if node = NULL then Some s
     else do {
       (_, s) \<leftarrow> talloc_free trbt_dtor n node s;
       Some s } }"

end
