(* ===== verification/Rbtree_Delete_Refine.thy ===== *)
theory Rbtree_Delete_Refine
  imports Rbtree_Insert Rbt_Delete_Spec Rbtree_Delete
begin

text \<open>
  Removal in the heap against \<open>Rbt_Delete_Spec\<close>: the repair cases rearrange the surroundings
  of a node as \<open>delete_ctx\<close> does.
\<close>

section \<open>Reading around a position\<close>

fun is_left :: "'d frame \<Rightarrow> bool" where
  "is_left (InL c k d r) = True"
| "is_left (InR c l k d) = False"

fun lkid :: "'d rbt \<Rightarrow> 'd rbt" where
  "lkid Leaf = Leaf"
| "lkid (Node c l k d r) = l"

fun rkid :: "'d rbt \<Rightarrow> 'd rbt" where
  "rkid Leaf = Leaf"
| "rkid (Node c l k d r) = r"

lemma kids_black_iff: "kids_black t \<longleftrightarrow> rcolor (lkid t) = Black \<and> rcolor (rkid t) = Black"
  by (cases t) auto

text \<open>The same place with the sibling in focus.\<close>

fun turn_to_sib :: "'d frame \<Rightarrow> 'd rbt \<Rightarrow> 'd frame" where
  "turn_to_sib (InL c k d r) t = InR c t k d"
| "turn_to_sib (InR c l k d) t = InL c k d t"

lemma zip_at_sib: "zip_at s tr (f # z) t \<longleftrightarrow> zip_at s tr (turn_to_sib f t # z) (fsib f)"
  by (cases f) (simp_all add: zip_at_Cons)

lemma zip_focus:
  assumes "zip_at s tr (f # z) t" "t \<noteq> Leaf"
  shows "\<exists>n. nodes s (root_ptr t) = Some n \<and> n_parent n = faddr f \<and> root_ptr t \<noteq> NULL"
  using assms zip_at_node [of s tr "f # z"] by (cases t) fastforce+

lemma zip_parent:
  assumes "zip_at s tr (f # z) t" "t \<noteq> Leaf"
  shows "\<exists>p. nodes s (faddr f) = Some p \<and> n_color p = fcolor f \<and> faddr f \<noteq> NULL \<and> n_parent p = ctx_parent z \<and>
    (root_ptr t = n_left p \<longleftrightarrow> is_left f) \<and> (root_ptr t = n_right p \<longleftrightarrow> \<not> is_left f) \<and>
    (if is_left f then n_right p else n_left p) = root_ptr (fsib f)"
proof -
  have "root_ptr t \<notin> set (addrs (fsib f))" using assms root_ptr_in_addrs [OF assms(2)] by (auto simp: zip_at_def)
  then have "root_ptr (fsib f) \<noteq> root_ptr t" using zip_focus [OF assms] root_ptr_neq by blast
  then show ?thesis using assms by (cases f) (auto simp: zip_at_def)
qed

lemma sibling_correct:
  assumes "zip_at s tr (f # z) t" "t \<noteq> Leaf"
  shows "trbt_sibling (root_ptr t) s = Some (root_ptr (fsib f))" "trbt_parent (root_ptr t) s = Some (faddr f)"
  using zip_focus [OF assms] zip_parent [OF assms]
  by (auto simp: trbt_sibling_def trbt_parent_def split: if_splits)

lemma shape_sib: "zip_at s tr (f # z) t \<Longrightarrow> shape (nodes s) tr (faddr f) (fsib f)"
  by (cases f) (auto simp: zip_at_def)

lemma get_color_correct:
  assumes "shape (nodes s) tr par u"
  shows "trbt_get_color (root_ptr u) s = Some (rcolor u)"
    "trbt_get_color_left (root_ptr u) s = Some (rcolor (lkid u))"
    "trbt_get_color_right (root_ptr u) s = Some (rcolor (rkid u))"
proof -
  show "trbt_get_color (root_ptr u) s = Some (rcolor u)"
    using assms by (cases u) (auto simp: trbt_get_color_def)
  show "trbt_get_color_left (root_ptr u) s = Some (rcolor (lkid u))"
  proof (cases u)
    case (Node c l k d r)
    with assms show ?thesis by (cases l) (auto simp: trbt_get_color_left_def)
  qed (simp add: trbt_get_color_left_def)
  show "trbt_get_color_right (root_ptr u) s = Some (rcolor (rkid u))"
  proof (cases u)
    case (Node c l k d r)
    with assms show ?thesis by (cases r) (auto simp: trbt_get_color_right_def)
  qed (simp add: trbt_get_color_right_def)
qed

section \<open>Writing around a position\<close>

lemma set_color_correct:
  assumes "zip_at s tr z t" "t \<noteq> Leaf" "set (addrs t) \<subseteq> A"
  shows "\<exists>s'. trbt_set_color (root_ptr t) c s = Some s' \<and> zip_at s' tr z (paint c t) \<and> within A tr s s'"
proof (cases t)
  case (Node c0 l k d r)
  with assms recolor_correct [of s tr z c0 l k d r c] zip_at_node [of s tr z c0 l k d r] show ?thesis
    by (auto simp: trbt_set_color_def elim: within_mono)
qed (use assms in simp)

lemma set_color_parent:
  assumes "zip_at s tr (f # z) t" "faddr f \<in> A"
  shows "\<exists>s'. trbt_set_color (faddr f) c s = Some s' \<and> zip_at s' tr (fpaint c f # z) t \<and> within A tr s s'"
proof (cases f)
  case (InL c0 k d r)
  with assms recolor_correct [of s tr z c0 t k d r c] zip_at_node [of s tr z c0 t k d r] show ?thesis
    by (auto simp: trbt_set_color_def zip_at_Cons elim: within_mono)
next
  case (InR c0 l k d)
  with assms recolor_correct [of s tr z c0 l k d t c] zip_at_node [of s tr z c0 l k d t] show ?thesis
    by (auto simp: trbt_set_color_def zip_at_Cons elim: within_mono)
qed

lemma set_color_sib:
  assumes "zip_at s tr (f # z) t" "fsib f \<noteq> Leaf" "set (addrs (fsib f)) \<subseteq> A"
  shows "\<exists>s'. trbt_set_color (root_ptr (fsib f)) c s = Some s' \<and> zip_at s' tr (fsib_paint c f # z) t \<and> within A tr s s'"
proof -
  have "zip_at s tr (turn_to_sib f t # z) (fsib f)" using assms(1) zip_at_sib by blast
  from set_color_correct [OF this assms(2,3), of c] show ?thesis
    by (cases f) (auto simp: zip_at_Cons)
qed

lemma set_color_kid:
  assumes "zip_at s tr z (Node c l k d r)" "set (addrs (Node c l k d r)) \<subseteq> A"
  shows "\<exists>s'. trbt_set_color_left (fst d) Black s = Some s' \<and> zip_at s' tr z (Node c (paint Black l) k d r) \<and> within A tr s s'"
    and "\<exists>s'. trbt_set_color_right (fst d) Black s = Some s' \<and> zip_at s' tr z (Node c l k d (paint Black r)) \<and> within A tr s s'"
proof -
  note n = zip_at_node [OF assms(1)]
  show "\<exists>s'. trbt_set_color_left (fst d) Black s = Some s' \<and> zip_at s' tr z (Node c (paint Black l) k d r) \<and> within A tr s s'"
  proof (cases l)
    case Leaf
    with n assms show ?thesis by (auto simp: trbt_set_color_left_def)
  next
    case (Node lc ll lk ld lr)
    have Z: "zip_at s tr (InL c k d r # z) l" using assms(1) by (simp add: zip_at_Cons)
    have "trbt_set_color_left (fst d) Black s = trbt_set_color (root_ptr l) Black s"
      using n zip_at_node [OF Z [unfolded Node]] Node by (simp add: trbt_set_color_left_def trbt_set_color_def)
    with set_color_correct [OF Z, of A Black] Node assms(2) show ?thesis by (auto simp: zip_at_Cons)
  qed
  show "\<exists>s'. trbt_set_color_right (fst d) Black s = Some s' \<and> zip_at s' tr z (Node c l k d (paint Black r)) \<and> within A tr s s'"
  proof (cases r)
    case Leaf
    with n assms show ?thesis by (auto simp: trbt_set_color_right_def)
  next
    case (Node rc rl rk rd rr)
    have Z: "zip_at s tr (InR c l k d # z) r" using assms(1) by (simp add: zip_at_Cons)
    have "trbt_set_color_right (fst d) Black s = trbt_set_color (root_ptr r) Black s"
      using n zip_at_node [OF Z [unfolded Node]] Node by (simp add: trbt_set_color_right_def trbt_set_color_def)
    with set_color_correct [OF Z, of A Black] Node assms(2) show ?thesis by (auto simp: zip_at_Cons)
  qed
qed

lemma rotate_within:
  assumes "set (addrs t @ zaddrs z) \<subseteq> A" "zip_at s tr z t"
  shows "t = Node c l k d (Node c' l' k' d' r') \<Longrightarrow> \<exists>s'. trbt_rotate_left (fst d) s = Some s' \<and>
      zip_at s' tr z (Node c' (Node c l k d l') k' d' r') \<and> within A tr s s'"
    and "t = Node c (Node c' l' k' d' r') k d r \<Longrightarrow> \<exists>s'. trbt_rotate_right (fst d) s = Some s' \<and>
      zip_at s' tr z (Node c' l' k' d' (Node c r' k d r)) \<and> within A tr s s'"
  using assms rotate_left_correct [of s tr z c l k "fst d" "snd d" c' l' k' "fst d'" "snd d'" r']
    rotate_right_correct [of s tr z c c' l' k' "fst d'" "snd d'" r' k "fst d" "snd d" r]
    within_mono [OF _ assms(1)] by (metis prod.collapse)+

lemma rotate_parent:
  assumes "set (addrs t @ zaddrs (f # z)) \<subseteq> A"
  shows "zip_at s tr (f # z) t \<Longrightarrow> f = InL c k d (Node sc sl sk sd sr) \<Longrightarrow>
      \<exists>s'. trbt_rotate_left (fst d) s = Some s' \<and> zip_at s' tr (InL c k d sl # InL sc sk sd sr # z) t \<and> within A tr s s'"
    and "zip_at s tr (f # z) t \<Longrightarrow> f = InR c (Node sc sl sk sd sr) k d \<Longrightarrow>
      \<exists>s'. trbt_rotate_right (fst d) s = Some s' \<and> zip_at s' tr (InR c sr k d # InR sc sl sk sd # z) t \<and> within A tr s s'"
proof -
  show "\<exists>s'. trbt_rotate_left (fst d) s = Some s' \<and> zip_at s' tr (InL c k d sl # InL sc sk sd sr # z) t \<and> within A tr s s'"
    if "zip_at s tr (f # z) t" "f = InL c k d (Node sc sl sk sd sr)"
    using rotate_within(1) [of "fill f t" z A s tr c t k d sc sl sk sd sr] that assms by (auto simp: zip_at_Cons)
  show "\<exists>s'. trbt_rotate_right (fst d) s = Some s' \<and> zip_at s' tr (InR c sr k d # InR sc sl sk sd # z) t \<and> within A tr s s'"
    if "zip_at s tr (f # z) t" "f = InR c (Node sc sl sk sd sr) k d"
    using rotate_within(2) [of "fill f t" z A s tr c sc sl sk sd sr k d t] that assms by (auto simp: zip_at_Cons)
qed

section \<open>The repair cases\<close>

lemma delete_case6_correct:
  assumes Z: "zip_at s tr (f # z) t" and t: "t \<noteq> Leaf" and sib: "fsib f \<noteq> Leaf"
    and A: "set (addrs t @ zaddrs (f # z)) \<subseteq> A"
  shows "\<exists>s'. trbt_delete_case6 (root_ptr t) s = Some s' \<and> zip_at s' tr (delete_rotate f @ z) t \<and> within A tr s s'"
proof -
  obtain sc sl sk sd sr where sib': "fsib f = Node sc sl sk sd sr" using sib by (cases "fsib f") auto
  obtain s1 where s1: "trbt_set_color (root_ptr (fsib f)) (fcolor f) s = Some s1"
      "zip_at s1 tr (fsib_paint (fcolor f) f # z) t" "within A tr s s1"
    using set_color_sib [OF Z sib, of A "fcolor f"] A by auto
  obtain s2 where s2: "trbt_set_color (faddr f) Black s1 = Some s2"
      "zip_at s2 tr (fpaint Black (fsib_paint (fcolor f) f) # z) t" "within A tr s1 s2"
    using set_color_parent [OF s1(2), of A Black] A by auto
  obtain p where p: "nodes s2 (faddr f) = Some p" "root_ptr t = n_left p \<longleftrightarrow> is_left f"
    using zip_parent [OF s2(2) t] by (cases f) auto
  obtain p0 where p0: "nodes s (faddr f) = Some p0" "n_color p0 = fcolor f" using zip_parent [OF Z t] by auto
  note start = sibling_correct [OF Z t] p0 s1(1) s2(1) p
  show ?thesis
  proof (cases f)
    case (InL c k d r)
    then have r: "r = Node sc sl sk sd sr" using sib' by simp
    obtain s3 where s3: "trbt_set_color_right (fst sd) Black s2 = Some s3"
        "zip_at s3 tr (InL Black k d (Node c sl sk sd (paint Black sr)) # z) t" "within A tr s2 s3"
      using set_color_kid(2) [of s2 tr "InR Black t k d # z" c sl sk sd sr A] s2(2) A
      by (auto simp: InL r zip_at_Cons)
    obtain s4 where s4: "trbt_rotate_left (fst d) s3 = Some s4"
        "zip_at s4 tr (InL Black k d sl # InL c sk sd (paint Black sr) # z) t" "within A tr s3 s4"
      using rotate_parent(1) [OF _ s3(2) refl, of A] A by (auto simp: InL r)
    have "trbt_delete_case6 (root_ptr t) s = Some s4"
      using start s3(1) s4(1) by (simp add: trbt_delete_case6_def InL r)
    with s4(2) within_trans [OF s1(3) within_trans [OF s2(3) within_trans [OF s3(3) s4(3)]]] show ?thesis
      by (simp add: InL r)
  next
    case (InR c l k d)
    then have l: "l = Node sc sl sk sd sr" using sib' by simp
    obtain s3 where s3: "trbt_set_color_left (fst sd) Black s2 = Some s3"
        "zip_at s3 tr (InR Black (Node c (paint Black sl) sk sd sr) k d # z) t" "within A tr s2 s3"
      using set_color_kid(1) [of s2 tr "InL Black k d t # z" c sl sk sd sr A] s2(2) A
      by (auto simp: InR l zip_at_Cons)
    obtain s4 where s4: "trbt_rotate_right (fst d) s3 = Some s4"
        "zip_at s4 tr (InR Black sr k d # InR c (paint Black sl) sk sd # z) t" "within A tr s3 s4"
      using rotate_parent(2) [OF _ s3(2) refl, of A] A by (auto simp: InR l)
    have "trbt_delete_case6 (root_ptr t) s = Some s4"
      using start s3(1) s4(1) by (simp add: trbt_delete_case6_def InR l)
    with s4(2) within_trans [OF s1(3) within_trans [OF s2(3) within_trans [OF s3(3) s4(3)]]] show ?thesis
      by (simp add: InR l)
  qed
qed

lemma zaddrs_turn: "set (zaddrs (delete_turn f # z)) = set (zaddrs (f # z))"
  by (cases f) (auto split: rbt.splits)

text \<open>Turning the sibling: case 5 before it calls case 6.\<close>

lemma turn_left_sib:
  assumes Z: "zip_at s tr (InL c k d (Node sc (Node lc ll lk ld lr) sk sd sr) # z) t"
    and A: "set (addrs t @ zaddrs (InL c k d (Node sc (Node lc ll lk ld lr) sk sd sr) # z)) \<subseteq> A"
  shows "\<exists>s'. do {
      s \<leftarrow> trbt_set_color (fst sd) Red s;
      s \<leftarrow> trbt_set_color_left (fst sd) Black s;
      trbt_rotate_right (fst sd) s } = Some s' \<and>
    zip_at s' tr (InL c k d (Node Black ll lk ld (Node Red lr sk sd sr)) # z) t \<and> within A tr s s'"
proof -
  let ?y = "InR c t k d # z"
  have Z': "zip_at s tr ?y (Node sc (Node lc ll lk ld lr) sk sd sr)" using Z by (simp add: zip_at_Cons)
  obtain s1 where s1: "trbt_set_color (fst sd) Red s = Some s1"
      "zip_at s1 tr ?y (Node Red (Node lc ll lk ld lr) sk sd sr)" "within A tr s s1"
    using set_color_correct [OF Z', of A Red] A by auto
  obtain s2 where s2: "trbt_set_color_left (fst sd) Black s1 = Some s2"
      "zip_at s2 tr ?y (Node Red (Node Black ll lk ld lr) sk sd sr)" "within A tr s1 s2"
    using set_color_kid(1) [OF s1(2), of A] A by auto
  obtain s3 where s3: "trbt_rotate_right (fst sd) s2 = Some s3"
      "zip_at s3 tr ?y (Node Black ll lk ld (Node Red lr sk sd sr))" "within A tr s2 s3"
    using rotate_within(2) [OF _ s2(2) refl, of A] A by auto
  have "zip_at s3 tr (InL c k d (Node Black ll lk ld (Node Red lr sk sd sr)) # z) t"
    using s3(2) by (simp add: zip_at_Cons)
  with s1(1) s2(1) s3(1) within_trans [OF s1(3) within_trans [OF s2(3) s3(3)]] show ?thesis by simp
qed

lemma turn_right_sib:
  assumes Z: "zip_at s tr (InR c (Node sc sl sk sd (Node rc rl rk rd rr)) k d # z) t"
    and A: "set (addrs t @ zaddrs (InR c (Node sc sl sk sd (Node rc rl rk rd rr)) k d # z)) \<subseteq> A"
  shows "\<exists>s'. do {
      s \<leftarrow> trbt_set_color (fst sd) Red s;
      s \<leftarrow> trbt_set_color_right (fst sd) Black s;
      trbt_rotate_left (fst sd) s } = Some s' \<and>
    zip_at s' tr (InR c (Node Black (Node Red sl sk sd rl) rk rd rr) k d # z) t \<and> within A tr s s'"
proof -
  let ?y = "InL c k d t # z"
  have Z': "zip_at s tr ?y (Node sc sl sk sd (Node rc rl rk rd rr))" using Z by (simp add: zip_at_Cons)
  obtain s1 where s1: "trbt_set_color (fst sd) Red s = Some s1"
      "zip_at s1 tr ?y (Node Red sl sk sd (Node rc rl rk rd rr))" "within A tr s s1"
    using set_color_correct [OF Z', of A Red] A by auto
  obtain s2 where s2: "trbt_set_color_right (fst sd) Black s1 = Some s2"
      "zip_at s2 tr ?y (Node Red sl sk sd (Node Black rl rk rd rr))" "within A tr s1 s2"
    using set_color_kid(2) [OF s1(2), of A] A by auto
  obtain s3 where s3: "trbt_rotate_left (fst sd) s2 = Some s3"
      "zip_at s3 tr ?y (Node Black (Node Red sl sk sd rl) rk rd rr)" "within A tr s2 s3"
    using rotate_within(1) [OF _ s2(2) refl, of A] A by auto
  have "zip_at s3 tr (InR c (Node Black (Node Red sl sk sd rl) rk rd rr) k d # z) t"
    using s3(2) by (simp add: zip_at_Cons)
  with s1(1) s2(1) s3(1) within_trans [OF s1(3) within_trans [OF s2(3) s3(3)]] show ?thesis by simp
qed

lemma delete_case5_correct:
  assumes Z: "zip_at s tr (f # z) t" and t: "t \<noteq> Leaf" and sib: "fsib f \<noteq> Leaf" "rcolor (fsib f) = Black"
    and A: "set (addrs t @ zaddrs (f # z)) \<subseteq> A"
  shows "\<exists>s'. trbt_delete_case5 (root_ptr t) s = Some s' \<and>
    zip_at s' tr (delete_rotate (if inner_red f then delete_turn f else f) @ z) t \<and> within A tr s s'"
proof -
  let ?f = "if inner_red f then delete_turn f else f"
  obtain sl sk sd sr where sib': "fsib f = Node Black sl sk sd sr" using sib by (cases "fsib f") auto
  obtain p where p: "nodes s (faddr f) = Some p" "root_ptr t = n_left p \<longleftrightarrow> is_left f"
      "root_ptr t = n_right p \<longleftrightarrow> \<not> is_left f"
    using zip_parent [OF Z t] by auto
  note start = sibling_correct [OF Z t] p get_color_correct [OF shape_sib [OF Z]]
  have turned: "\<exists>s'. trbt_delete_case5 (root_ptr t) s = Some s' \<and> zip_at s' tr (delete_rotate g @ z) t \<and> within A tr s s'"
    if g: "trbt_delete_case5 (root_ptr t) s = trbt_delete_case6 (root_ptr t) s1" "zip_at s1 tr (g # z) t"
      "within A tr s s1" "fsib g \<noteq> Leaf" "set (zaddrs (g # z)) = set (zaddrs (f # z))" for g s1
  proof -
    have "set (addrs t @ zaddrs (g # z)) \<subseteq> A" using A g(5) by simp
    from delete_case6_correct [OF g(2) t g(4) this] g(1) within_trans [OF g(3)] show ?thesis by auto
  qed
  show ?thesis
  proof (cases "?f = f")
    case True
    then have "trbt_delete_case5 (root_ptr t) s = trbt_delete_case6 (root_ptr t) s"
      using start sib' by (cases f; cases sl; cases sr) (auto simp: trbt_delete_case5_def split: if_splits)
    from turned [OF this Z _ sib(1)] True show ?thesis by simp
  next
    case False
    show ?thesis
    proof (cases f)
      case (InL c k d r)
      obtain ll lk ld lr where sl: "sl = Node Red ll lk ld lr" and sr: "rcolor sr = Black"
        using False sib' InL by (cases sl) (auto split: if_splits)
      have f: "f = InL c k d (Node Black (Node Red ll lk ld lr) sk sd sr)" using InL sib' sl by simp
      obtain s1 where s1: "do {
          s \<leftarrow> trbt_set_color (fst sd) Red s;
          s \<leftarrow> trbt_set_color_left (fst sd) Black s;
          trbt_rotate_right (fst sd) s } = Some s1"
        "zip_at s1 tr (InL c k d (Node Black ll lk ld (Node Red lr sk sd sr)) # z) t" "within A tr s s1"
        using turn_left_sib [OF Z [unfolded f], of A] A by (auto simp: f)
      have "trbt_delete_case5 (root_ptr t) s = trbt_delete_case6 (root_ptr t) s1"
        using start s1(1) sr by (auto simp: f trbt_delete_case5_def bind_eq_Some_conv)
      from turned [OF this s1(2,3)] show ?thesis using sr by (auto simp: f)
    next
      case (InR c l k d)
      obtain rl rk rd rr where sr: "sr = Node Red rl rk rd rr" and sl: "rcolor sl = Black"
        using False sib' InR by (cases sr) (auto split: if_splits)
      have f: "f = InR c (Node Black sl sk sd (Node Red rl rk rd rr)) k d" using InR sib' sr by simp
      obtain s1 where s1: "do {
          s \<leftarrow> trbt_set_color (fst sd) Red s;
          s \<leftarrow> trbt_set_color_right (fst sd) Black s;
          trbt_rotate_left (fst sd) s } = Some s1"
        "zip_at s1 tr (InR c (Node Black (Node Red sl sk sd rl) rk rd rr) k d # z) t" "within A tr s s1"
        using turn_right_sib [OF Z [unfolded f], of A] A by (auto simp: f)
      have "trbt_delete_case5 (root_ptr t) s = trbt_delete_case6 (root_ptr t) s1"
        using start s1(1) sl by (auto simp: f trbt_delete_case5_def bind_eq_Some_conv)
      from turned [OF this s1(2,3)] show ?thesis using sl by (auto simp: f)
    qed
  qed
qed

lemma delete_case4_correct:
  assumes Z: "zip_at s tr (f # z) t" and t: "t \<noteq> Leaf" and sib: "fsib f \<noteq> Leaf" "rcolor (fsib f) = Black"
    and A: "set (addrs t @ zaddrs (f # z)) \<subseteq> A"
  shows "\<exists>s'. trbt_delete_case4 (root_ptr t) s = Some s' \<and> zip_at s' tr (delete_end f @ z) t \<and> within A tr s s'"
proof -
  obtain n where n: "nodes s (root_ptr t) = Some n" "n_parent n = faddr f" using zip_focus [OF Z t] by auto
  have pc: "trbt_get_color (faddr f) s = Some (fcolor f)"
    using zip_parent [OF Z t] by (auto simp: trbt_get_color_def)
  note start = n pc sibling_correct [OF Z t] get_color_correct [OF shape_sib [OF Z]]
  show ?thesis
  proof (cases "fcolor f = Red \<and> kids_black (fsib f)")
    case True
    obtain s1 where s1: "trbt_set_color (root_ptr (fsib f)) Red s = Some s1"
        "zip_at s1 tr (fsib_paint Red f # z) t" "within A tr s s1"
      using set_color_sib [OF Z sib(1), of A Red] A by auto
    obtain s2 where s2: "trbt_set_color (faddr f) Black s1 = Some s2"
        "zip_at s2 tr (fpaint Black (fsib_paint Red f) # z) t" "within A tr s1 s2"
      using set_color_parent [OF s1(2), of A Black] A by auto
    have "trbt_delete_case4 (root_ptr t) s = Some s2"
      using start s1(1) s2(1) True sib(2) kids_black_iff [of "fsib f"] by (simp add: trbt_delete_case4_def)
    with s2(2) within_trans [OF s1(3) s2(3)] True show ?thesis by (simp add: delete_end_def)
  next
    case False
    then have "trbt_delete_case4 (root_ptr t) s = trbt_delete_case5 (root_ptr t) s"
      using start sib(2) kids_black_iff [of "fsib f"] by (auto simp: trbt_delete_case4_def)
    moreover have "delete_end f = delete_rotate (if inner_red f then delete_turn f else f)"
      using False by (auto simp: delete_end_def)
    ultimately show ?thesis using delete_case5_correct [OF Z t sib A] by simp
  qed
qed

lemma delete_case3_correct:
  assumes Z: "zip_at s tr (f # z) t" and t: "t \<noteq> Leaf" and sib: "fsib f \<noteq> Leaf" "rcolor (fsib f) = Black"
    and A: "set (addrs t @ zaddrs (f # z)) \<subseteq> A"
  shows "\<exists>s'. trbt_delete_case3 (root_ptr t) s =
      Some (if fcolor f = Black \<and> kids_black (fsib f) then Some (faddr f) else None, s') \<and>
    zip_at s' tr ((if fcolor f = Black \<and> kids_black (fsib f) then [fsib_paint Red f] else delete_end f) @ z) t \<and>
    within A tr s s'"
proof -
  obtain n where n: "nodes s (root_ptr t) = Some n" "n_parent n = faddr f" using zip_focus [OF Z t] by auto
  have pc: "trbt_get_color (faddr f) s = Some (fcolor f)"
    using zip_parent [OF Z t] by (auto simp: trbt_get_color_def)
  note start = n pc sibling_correct [OF Z t] get_color_correct [OF shape_sib [OF Z]]
  show ?thesis
  proof (cases "fcolor f = Black \<and> kids_black (fsib f)")
    case True
    with start sib(2) kids_black_iff [of "fsib f"] set_color_sib [OF Z sib(1), of A Red] A show ?thesis
      by (auto simp: trbt_delete_case3_def)
  next
    case False
    then have "trbt_delete_case3 (root_ptr t) s = do {
        s \<leftarrow> trbt_delete_case4 (root_ptr t) s; Some (None, s) }"
      using start sib(2) kids_black_iff [of "fsib f"] by (auto simp: trbt_delete_case3_def)
    with delete_case4_correct [OF Z t sib A] False show ?thesis by auto
  qed
qed

text \<open>Case 2: a red sibling goes above the parent first.\<close>

lemma delete_case2_lift:
  assumes Z: "zip_at s tr (f # z) t" and t: "t \<noteq> Leaf" and sib: "rcolor (fsib f) = Red"
    and A: "set (addrs t @ zaddrs (f # z)) \<subseteq> A"
  shows "\<exists>s'. trbt_delete_case2 (root_ptr t) s = trbt_delete_case3 (root_ptr t) s' \<and>
    zip_at s' tr (fst (delete_lift f) # snd (delete_lift f) @ z) t \<and> within A tr s s'"
proof -
  obtain sl sk sd sr where sib': "fsib f = Node Red sl sk sd sr" using sib by (cases "fsib f") auto
  then have ne: "fsib f \<noteq> Leaf" by simp
  obtain n where n: "nodes s (root_ptr t) = Some n" "n_parent n = faddr f" using zip_focus [OF Z t] by auto
  obtain s1 where s1: "trbt_set_color (faddr f) Red s = Some s1" "zip_at s1 tr (fpaint Red f # z) t" "within A tr s s1"
    using set_color_parent [OF Z, of A Red] A by auto
  obtain s2 where s2: "trbt_set_color (root_ptr (fsib f)) Black s1 = Some s2"
      "zip_at s2 tr (fsib_paint Black (fpaint Red f) # z) t" "within A tr s1 s2"
    using set_color_sib [OF s1(2), of A Black] ne A by auto
  obtain p where p: "nodes s2 (faddr f) = Some p" "root_ptr t = n_left p \<longleftrightarrow> is_left f"
    using zip_parent [OF s2(2) t] by (cases f) auto
  note start = n sibling_correct [OF Z t] get_color_correct(1) [OF shape_sib [OF Z]] s1(1) s2(1) p
  show ?thesis
  proof (cases f)
    case (InL c k d r)
    obtain s3 where "trbt_rotate_left (fst d) s2 = Some s3"
        "zip_at s3 tr (InL Red k d sl # InL Black sk sd sr # z) t" "within A tr s2 s3"
      using rotate_parent(1) [OF _ s2(2), of A Red k d Black sl sk sd sr] A sib' by (auto simp: InL)
    with start sib' within_trans [OF s1(3) within_trans [OF s2(3)]] show ?thesis
      by (auto simp: InL trbt_delete_case2_def)
  next
    case (InR c l k d)
    obtain s3 where "trbt_rotate_right (fst d) s2 = Some s3"
        "zip_at s3 tr (InR Red sr k d # InR Black sl sk sd # z) t" "within A tr s2 s3"
      using rotate_parent(2) [OF _ s2(2), of A Red Black sl sk sd sr k d] A sib' by (auto simp: InR)
    with start sib' within_trans [OF s1(3) within_trans [OF s2(3)]] show ?thesis
      by (auto simp: InR trbt_delete_case2_def)
  qed
qed

lemma lift_frame:
  assumes "rcolor (fsib f) = Red" "invc (fsib f)" "invh (fsib f)" "bheight (fsib f) = Suc n"
  shows "fcolor (fst (delete_lift f)) = Red" "fsib (fst (delete_lift f)) \<noteq> Leaf"
    "rcolor (fsib (fst (delete_lift f))) = Black"
    "set (zaddrs (fst (delete_lift f) # snd (delete_lift f) @ z)) = set (zaddrs (f # z))"
proof -
  obtain sl sk sd sr where s: "fsib f = Node Red sl sk sd sr" using assms by (cases "fsib f") auto
  with assms have "sl \<noteq> Leaf" "sr \<noteq> Leaf" by auto
  with assms s show "fcolor (fst (delete_lift f)) = Red" "fsib (fst (delete_lift f)) \<noteq> Leaf"
    "rcolor (fsib (fst (delete_lift f))) = Black"
    "set (zaddrs (fst (delete_lift f) # snd (delete_lift f) @ z)) = set (zaddrs (f # z))"
    by (cases f; auto)+
qed

text \<open>The repair loop computes \<open>delete_ctx\<close>.\<close>

lemma delete_case1_correct:
  assumes "zip_at s tr z t" "t \<noteq> Leaf" "invc_ctx z Black" "invh_ctx z (Suc n)" "set (addrs t @ zaddrs z) \<subseteq> A"
  shows "\<exists>s'. trbt_delete_case1 (root_ptr t) s = Some s' \<and> zip_at s' tr (delete_ctx z) t \<and> within A tr s s'"
  using assms
proof (induction z arbitrary: s t n)
  case Nil
  obtain c l k d r where t: "t = Node c l k d r" using Nil by (cases t) auto
  with Nil zip_at_node [of s tr "[]" c l k d r] show ?case by (subst trbt_delete_case1.simps) auto
next
  case (Cons f z)
  note Z = Cons.prems(1) and t = Cons.prems(2) and A = Cons.prems(5)
  have sib: "invc (fsib f)" "invh (fsib f)" "bheight (fsib f) = Suc n" using Cons.prems by simp_all
  then have ne: "fsib f \<noteq> Leaf" by auto
  have step: "trbt_delete_case1 (root_ptr t) s = do {
      r \<leftarrow> trbt_delete_case2 (root_ptr t) s;
      case fst r of None \<Rightarrow> Some (snd r) | Some p \<Rightarrow> trbt_delete_case1 p (snd r) }"
    using zip_focus [OF Z t] zip_parent [OF Z t] by (subst trbt_delete_case1.simps) auto
  show ?case
  proof (cases "rcolor (fsib f) = Red")
    case True
    let ?g = "fst (delete_lift f)" and ?y = "snd (delete_lift f) @ z"
    obtain s1 where s1: "trbt_delete_case2 (root_ptr t) s = trbt_delete_case3 (root_ptr t) s1"
        "zip_at s1 tr (?g # ?y) t" "within A tr s s1"
      using delete_case2_lift [OF Z t True A] by blast
    note g = lift_frame [OF True sib]
    have "set (addrs t @ zaddrs (?g # ?y)) \<subseteq> A" using A g(4) [of z] by simp
    from delete_case3_correct [OF s1(2) t g(2,3) this]
    obtain s2 where "trbt_delete_case3 (root_ptr t) s1 = Some (None, s2)" "zip_at s2 tr (delete_end ?g @ ?y) t"
        "within A tr s1 s2" using g(1) by auto
    with step s1(1) True within_trans [OF s1(3)] show ?thesis by auto
  next
    case False
    then have black: "rcolor (fsib f) = Black" by simp
    have c2: "trbt_delete_case2 (root_ptr t) s = trbt_delete_case3 (root_ptr t) s"
      using sibling_correct [OF Z t] get_color_correct(1) [OF shape_sib [OF Z]] black
      by (simp add: trbt_delete_case2_def)
    show ?thesis
    proof (cases "fcolor f = Black \<and> kids_black (fsib f)")
      case True
      let ?f = "fsib_paint Red f"
      obtain s1 where s1: "trbt_delete_case3 (root_ptr t) s = Some (Some (faddr f), s1)"
          "zip_at s1 tr (?f # z) t" "within A tr s s1"
        using delete_case3_correct [OF Z t ne black A] True by auto
      have up: "zip_at s1 tr z (fill ?f t)" "fill ?f t \<noteq> Leaf" "root_ptr (fill ?f t) = faddr f"
          "set (addrs (fill ?f t) @ zaddrs z) \<subseteq> A"
        using s1(2) A by (simp_all add: zip_at_Cons) (cases f; auto)+
      obtain s2 where "trbt_delete_case1 (faddr f) s1 = Some s2" "zip_at s2 tr (delete_ctx z) (fill ?f t)"
          "within A tr s1 s2"
        using Cons.IH [OF up(1,2) _ _ up(4), of "Suc n"] Cons.prems True up(3) by auto
      with step c2 s1(1) True black within_trans [OF s1(3)] show ?thesis by (auto simp: zip_at_Cons)
    next
      case False
      obtain s1 where "trbt_delete_case3 (root_ptr t) s = Some (None, s1)"
          "zip_at s1 tr (delete_end f @ z) t" "within A tr s s1"
        using delete_case3_correct [OF Z t ne black A] False by auto
      with step c2 False black show ?thesis by auto
    qed
  qed
qed

section \<open>Unlinking a node\<close>

text \<open>A subtree of the node takes the node's place.\<close>

lemma splice_correct:
  assumes Z: "zip_at s tr z (Node c l k (a, d) r)"
    and u: "shape (nodes s) tr p0 u" "u \<noteq> Leaf" "distinct (addrs u @ zaddrs z)" "a \<notin> set (addrs u)"
  shows "\<exists>s'. do {
      s \<leftarrow> replace_child a (root_ptr u) s;
      upd_node (root_ptr u) (\<lambda>x. x\<lparr>n_parent := ctx_parent z\<rparr>) s } = Some s' \<and>
    zip_at s' tr z u \<and> within (set (addrs u @ zaddrs z)) tr s s'"
proof -
  obtain T where T: "trees s tr = Some T" "cshape (nodes s) tr (t_root T) z a"
      "a \<notin> set (zaddrs z)" "distinct (zaddrs z)" "a \<noteq> NULL"
    using Z by (auto simp: zip_at_def)
  obtain h T' where h: "replace_child a (root_ptr u) s = Some (s\<lparr>nodes := h, trees := (trees s)(tr \<mapsto> T')\<rparr>)"
      "cshape h tr (t_root T') z (root_ptr u)" "\<forall>x. x \<notin> set (zaddrs z) \<longrightarrow> h x = nodes s x" "t_flags T' = t_flags T"
    using replace_child_correct [OF T(1,2), of _ "root_ptr u"] zip_at_node [OF Z] T(3-5) by auto
  have sh: "shape h tr p0 u" using u(1,3) h(3) by (subst shape_frame [where h = "nodes s"]) auto
  obtain uc ul uk ud ur where u': "u = Node uc ul uk ud ur" using u(2) by (cases u) auto
  from sh h u(3) T(1) show ?thesis by (auto simp: u' heap_simps zip_at_def within_def)
qed

text \<open>Taking a childless node out of the tree.\<close>

lemma drop_focus:
  assumes Z: "zip_at s tr z (Node c Leaf k (b, d) Leaf)"
  shows "\<exists>s'. replace_child b NULL s = Some s' \<and> zip_at (s'\<lparr>nodes := (nodes s')(b := None)\<rparr>) tr z Leaf \<and>
    within (set (zaddrs z)) tr s s'"
proof -
  obtain T where T: "trees s tr = Some T" "cshape (nodes s) tr (t_root T) z b"
      "b \<notin> set (zaddrs z)" "distinct (zaddrs z)" "b \<noteq> NULL"
    using Z by (auto simp: zip_at_def)
  obtain h T' where h: "replace_child b NULL s = Some (s\<lparr>nodes := h, trees := (trees s)(tr \<mapsto> T')\<rparr>)"
      "cshape h tr (t_root T') z NULL" "\<forall>x. x \<notin> set (zaddrs z) \<longrightarrow> h x = nodes s x" "t_flags T' = t_flags T"
    using replace_child_correct [OF T(1,2), of _ NULL] zip_at_node [OF Z] T(3-5) by auto
  with T show ?thesis by (auto simp: zip_at_def within_def)
qed

lemma drop_dummy_correct:
  assumes Z: "zip_at s tr z (Node c Leaf k (b, d) Leaf)"
  shows "\<exists>s'. drop_dummy tr b s = Some s' \<and> zip_at (s'\<lparr>nodes := (nodes s')(b := None)\<rparr>) tr z Leaf \<and>
    within (set (zaddrs z)) tr s s'"
proof -
  have "drop_dummy tr b s = replace_child b NULL s"
    using zip_at_node [OF Z] by (simp add: drop_dummy_def replace_child_def)
  with drop_focus [OF Z] show ?thesis by simp
qed

text \<open>The balance of the surroundings that the repair needs.\<close>

lemma delete_needs:
  assumes "invc (plug z (Node Black l k d r))" "invh (plug z (Node Black l k d r))"
  shows "invc_ctx z Black" "invh_ctx z (Suc (bheight l))"
  using assms by (auto simp: invc_plug invh_plug)

lemma repair_correct:
  assumes Z: "zip_at s tr z u" and u: "u \<noteq> Leaf"
    and z: "c = Black \<longrightarrow> invc_ctx z Black \<and> invh_ctx z (Suc n)" and A: "set (addrs u @ zaddrs z) \<subseteq> A"
  shows "\<exists>s'. repair_above c (root_ptr u) s = Some s' \<and>
    zip_at s' tr (if c = Black \<and> rcolor u = Black then delete_ctx z else z)
      (if c = Black \<and> rcolor u = Red then paint Black u else u) \<and> within A tr s s'"
proof -
  have gc: "trbt_get_color (root_ptr u) s = Some (rcolor u)"
    using get_color_correct(1) [of s tr "ctx_parent z" u] Z by (simp add: zip_at_def)
  show ?thesis
  proof (cases "c = Black \<and> rcolor u = Black")
    case True
    with delete_case1_correct [OF Z u _ _ A, of n] z gc show ?thesis by (auto simp: repair_above_def)
  next
    case False
    obtain uc ul uk ud ur where u': "u = Node uc ul uk ud ur" using u by (cases u) auto
    from recolor_correct [of s tr z uc ul uk ud ur Black] Z A False gc show ?thesis
      by (auto simp: u' repair_above_def elim: within_mono)
  qed
qed

lemma unlink_node_child:
  assumes Z: "zip_at s tr z (Node c l k (a, d) r)" and lr: "l = Leaf \<or> r = Leaf" and ne: "l \<noteq> Leaf \<or> r \<noteq> Leaf"
    and inv: "invc (plug z (Node c l k (a, d) r))" "invh (plug z (Node c l k (a, d) r))"
    and b: "brk s \<notin> set (addrs (Node c l k (a, d) r))"
  shows "\<exists>s'. unlink_node a s = Some s' \<and> tree_at s' tr (delete_one z (Node c l k (a, d) r)) \<and>
    within (set (addrs l @ addrs r @ zaddrs z)) tr s s'"
proof -
  define u where "u = (if r \<noteq> Leaf then r else l)"
  have u: "u \<noteq> Leaf" "shape (nodes s) tr a u" "distinct (addrs u @ zaddrs z)" "a \<notin> set (addrs u)"
      "set (addrs u) = set (addrs l @ addrs r)"
    using Z ne lr by (auto simp: u_def zip_at_def)
  note n = zip_at_node [OF Z]
  have r0: "root_ptr r = NULL \<longleftrightarrow> r = Leaf" using Z by (auto simp: zip_at_def dest: shape_root_NULL)
  have "root_ptr u \<noteq> NULL" using shape_root_NULL [OF u(2)] u(1) by simp
  moreover have "root_ptr u \<noteq> brk s" using b root_ptr_in_addrs [OF u(1)] unfolding u(5) by auto
  ultimately have ptr: "(if root_ptr r \<noteq> NULL then root_ptr r else root_ptr l) = root_ptr u"
      "root_ptr u \<noteq> NULL" "root_ptr u \<noteq> brk s"
    using r0 by (auto simp: u_def)
  let ?A = "set (addrs u @ zaddrs z)"
  obtain s1 where s1: "do {
      s \<leftarrow> replace_child a (root_ptr u) s;
      upd_node (root_ptr u) (\<lambda>x. x\<lparr>n_parent := ctx_parent z\<rparr>) s } = Some s1"
      "zip_at s1 tr z u" "within ?A tr s s1"
    using splice_correct [OF Z u(2,1,3,4)] by blast
  have need: "c = Black \<longrightarrow> invc_ctx z Black \<and> invh_ctx z (Suc (bheight l))"
    using inv delete_needs [of z l k "(a, d)" r] by auto
  let ?z = "if c = Black \<and> rcolor u = Black then delete_ctx z else z"
    and ?u = "if c = Black \<and> rcolor u = Red then paint Black u else u"
  obtain s2 where s2: "repair_above c (root_ptr u) s1 = Some s2" "zip_at s2 tr ?z ?u" "within ?A tr s1 s2"
    using repair_correct [OF s1(2) u(1) need subset_refl] by blast
  have "unlink_node a s = Some s2"
    using n s1(1) s2(1) ptr by (auto simp: unlink_node_def bind_eq_Some_conv Let_def)
  moreover have "delete_one z (Node c l k (a, d) r) = plug ?z ?u"
    by (auto simp: u_def Let_def)
  ultimately show ?thesis using s2(2) within_trans [OF s1(3) s2(3)] u(5) zip_at_plug [of s2 tr ?z ?u]
    by (simp add: Un_assoc del: delete_one.simps)
qed

lemma zaddrs_delete_ctx: "set (zaddrs (delete_ctx z)) = set (zaddrs z)"
proof -
  have "set (addrs (plug (delete_ctx z) Leaf)) = set (addrs (plug z Leaf))"
    using before_after_delete_ctx [of z] by (simp add: addrs_def entries_plug)
  then show ?thesis by (simp add: addrs_plug)
qed

lemma unlink_node_leaf:
  assumes Z: "zip_at s tr z (Node c Leaf k (a, d) Leaf)"
    and inv: "invc (plug z (Node c Leaf k (a, d) Leaf))" "invh (plug z (Node c Leaf k (a, d) Leaf))"
    and b: "brk s \<notin> set (a # zaddrs z)" "brk s \<noteq> NULL"
  shows "\<exists>s'. unlink_node a s = Some s' \<and> tree_at s' tr (delete_one z (Node c Leaf k (a, d) Leaf)) \<and>
    within (insert (brk s) (set (zaddrs z))) tr s s'"
proof -
  let ?b = "brk s" and ?A = "insert (brk s) (set (zaddrs z))"
  let ?dc = "\<lparr>n_tree = tr, n_parent = NULL, n_left = NULL, n_right = NULL, n_color = Black, n_key32 = 0, n_data = NULL\<rparr>"
  let ?u = "Node Black Leaf 0 (?b, NULL) Leaf :: ptree"
  define s0 where "s0 = s\<lparr>nodes := (nodes s)(?b \<mapsto> ?dc)\<rparr>"
  note n = zip_at_node [OF Z]
  have Z0: "zip_at s0 tr z (Node c Leaf k (a, d) Leaf)" using Z b by (auto simp: s0_def zip_at_def)
  have u: "shape (nodes s0) tr NULL ?u" "?u \<noteq> Leaf" "distinct (addrs ?u @ zaddrs z)" "a \<notin> set (addrs ?u)"
    using b Z by (auto simp: s0_def zip_at_def)
  have w0: "within ?A tr s s0" by (simp add: s0_def within_upd_node)
  obtain s1 where s1: "do {
      s \<leftarrow> replace_child a ?b s0;
      upd_node ?b (\<lambda>x. x\<lparr>n_parent := ctx_parent z\<rparr>) s } = Some s1" "zip_at s1 tr z ?u" "within ?A tr s0 s1"
    using splice_correct [OF Z0 u] by auto
  have need: "c = Black \<longrightarrow> invc_ctx z Black \<and> invh_ctx z (Suc 0)"
    using inv delete_needs [of z Leaf k "(a, d)" Leaf] by auto
  define z' where "z' = (if c = Black then delete_ctx z else z)"
  obtain s2 where s2: "repair_above c ?b s1 = Some s2" "zip_at s2 tr z' ?u" "within ?A tr s1 s2"
    using repair_correct [OF s1(2) u(2) need, where A = ?A] by (auto simp: z'_def)
  obtain s3 where s3: "drop_dummy tr ?b s2 = Some s3" "zip_at (s3\<lparr>nodes := (nodes s3)(?b := None)\<rparr>) tr z' Leaf"
      "within (set (zaddrs z')) tr s2 s3"
    using drop_dummy_correct [OF s2(2)] by blast
  have "unlink_node a s = Some (s3\<lparr>nodes := (nodes s3)(?b := None)\<rparr>)"
    using n s1(1) s2(1) s3(1) b by (auto simp: unlink_node_def Let_def s0_def bind_eq_Some_conv)
  moreover have "delete_one z (Node c Leaf k (a, d) Leaf) = plug z' Leaf" by (auto simp: z'_def)
  moreover have "within ?A tr s (s3\<lparr>nodes := (nodes s3)(?b := None)\<rparr>)"
  proof -
    have "within ?A tr s2 s3" by (rule within_mono [OF s3(3)]) (auto simp: z'_def zaddrs_delete_ctx)
    moreover have "within ?A tr s3 (s3\<lparr>nodes := (nodes s3)(?b := None)\<rparr>)" by (auto simp: within_def)
    ultimately show ?thesis using w0 s1(3) s2(3) by (meson within_trans)
  qed
  ultimately show ?thesis using s3(2) zip_at_plug [of _ tr z' Leaf] by auto
qed

section \<open>Frames for steps that also move blocks\<close>

text \<open>
  \<open>moved A tr s s'\<close>: only nodes in \<open>A\<close> and the root pointer of \<open>tr\<close> were written, and in the
  allocator only the owners of blocks changed.
\<close>

definition moved :: "ptr set \<Rightarrow> ptr \<Rightarrow> trbt_heap \<Rightarrow> trbt_heap \<Rightarrow> bool" where
  "moved A tr s s' \<longleftrightarrow>
     (\<forall>x. x \<notin> A \<longrightarrow> nodes s' x = nodes s x) \<and> (\<forall>x. x \<noteq> tr \<longrightarrow> trees s' x = trees s x) \<and>
     map_option t_flags (trees s' tr) = map_option t_flags (trees s tr) \<and>
     handles s' = handles s \<and> null_context s' = null_context s \<and> malloc_ok s' = malloc_ok s \<and> brk s' = brk s \<and>
     map_option block_data \<circ> chunks s' = map_option block_data \<circ> chunks s"

lemma moved_trans: "moved A tr s t \<Longrightarrow> moved A tr t u \<Longrightarrow> moved A tr s u"
  by (simp add: moved_def)

lemma moved_mono: "moved A tr s t \<Longrightarrow> A \<subseteq> B \<Longrightarrow> moved B tr s t"
  by (auto simp: moved_def)

lemma within_moved: "within A tr s s' \<Longrightarrow> A \<subseteq> B \<Longrightarrow> moved B tr s s'"
  using trunc_eqD [of s' s] by (auto simp: within_def moved_def)

lemma moved_dom: "moved A tr s s' \<Longrightarrow> dom (chunks s') = dom (chunks s)"
proof -
  assume "moved A tr s s'"
  then have "dom (map_option block_data \<circ> chunks s') = dom (map_option block_data \<circ> chunks s)" by (simp add: moved_def)
  then show ?thesis by (simp add: dom_block_data)
qed

lemma moved_brk: "moved A tr s s' \<Longrightarrow> brk s' = brk s"
  by (simp add: moved_def)

lemma moved_flags: "moved A tr s s' \<Longrightarrow> map_option t_flags (trees s' tr) = map_option t_flags (trees s tr)"
  by (simp add: moved_def)

lemma steal_moved:
  assumes F: "forest s K" and x: "x \<in> dom (chunks s)" and d: "d \<in> dom (chunks s)"
  shows "\<exists>s'. talloc_steal d x s = Some (x, s') \<and> forest s' (move_to d x K) \<and> nodes s' = nodes s \<and>
    trees s' = trees s \<and> moved A tr s s'"
proof -
  have "d \<noteq> NULL" using d forest_NULL [OF F] by (auto intro!: gr0I)
  then obtain s' where s': "talloc_steal d x s = Some (x, s')" "forest s' (move_to d x K)" "same_blocks s s'"
    using talloc_steal_forest [OF F x, of d] d by (auto simp: context_of_def)
  have "nodes s' = nodes s" "trees s' = trees s" using s'(3) more_eqD [of s' s] by (simp_all add: same_blocks_def)
  with s' show ?thesis by (auto simp: moved_def same_blocks_def)
qed

section \<open>The predecessor takes the node's place\<close>

lemma cshape_root_in: "cshape h tr rt z q \<Longrightarrow> z \<noteq> [] \<Longrightarrow> rt \<in> set (zaddrs z)"
proof (induction z arbitrary: q)
  case (Cons f z)
  then show ?case by (cases f; cases "z = []") auto
qed simp

lemma relink_correct:
  assumes Z: "zip_at s tr z (Node c l k (a, d) r)"
    and b: "b \<noteq> NULL" "b \<notin> set (addrs (Node c l k (a, d) r) @ zaddrs z)"
    and n: "nodes s b = Some nb" "n_tree nb = tr" "n_key32 nb = k" "n_color nb = c" "n_data nb = d"
  shows "\<exists>s'. relink_node b a s = Some s' \<and> zip_at s' tr z (Node c l k (b, d) r) \<and>
    within (insert b (set (addrs l @ addrs r @ zaddrs z))) tr s s'"
proof -
  obtain T where T: "trees s tr = Some T" "cshape (nodes s) tr (t_root T) z a" using Z by (auto simp: zip_at_def)
  have rt: "t_root T = a \<longleftrightarrow> z = []"
    using T(2) cshape_root_in [OF T(2)] Z by (cases "z = []") (auto simp: zip_at_def)
  show ?thesis
  proof (cases z)
    case Nil
    with Z b n T rt show ?thesis
      by (cases l; cases r) (auto simp: relink_node_def zip_at_def heap_simps within_def)
  next
    case (Cons f y)
    show ?thesis
    proof (cases f)
      case (InL fc fk fd fr)
      from Z b n T rt show ?thesis unfolding Cons InL
        by (cases l; cases r) (auto simp: relink_node_def zip_at_def heap_simps within_def)
    next
      case (InR fc fl fk fd)
      have "root_ptr fl \<noteq> a"
        using Z root_ptr_in_addrs [of fl] by (cases "fl = Leaf") (auto simp: Cons InR zip_at_def)
      with Z b n T rt show ?thesis unfolding Cons InR
        by (cases l; cases r) (auto simp: relink_node_def zip_at_def heap_simps within_def)
    qed
  qed
qed

end
