(* ===== verification/Rbtree_Delete_Node.thy ===== *)
theory Rbtree_Delete_Node
  imports Rbtree_Delete_Refine
begin

text \<open>
  \<open>delete_node\<close> of \<^verbatim>\<open>rbtree.c\<close> implements \<open>delete_root\<close>: for a node with at most one child
  directly, for a node with two children by way of its predecessor.
\<close>

section \<open>Taking another node's place\<close>

lemma take_place_correct:
  assumes Z: "zip_at s tr z (Node c l k (a, d) r)"
    and b: "b \<noteq> NULL" "b \<notin> set (addrs (Node c l k (a, d) r) @ zaddrs z)"
    and n: "nodes s b = Some nb" "n_tree nb = tr"
    and F: "forest s K" and dom: "b \<in> dom (chunks s)" "d \<in> dom (chunks s)"
  shows "\<exists>s'. take_place b a s = Some s' \<and> zip_at s' tr z (Node c l k (b, d) r) \<and> forest s' (move_to d b K) \<and>
    moved (insert b (set (addrs l @ addrs r @ zaddrs z))) tr s s'"
proof -
  let ?A = "insert b (set (addrs l @ addrs r @ zaddrs z))"
  define s1 where "s1 = s\<lparr>nodes := (nodes s)(b \<mapsto> nb\<lparr>n_key32 := k, n_color := c, n_data := d\<rparr>)\<rparr>"
  have w1: "within {b} tr s s1" by (simp add: s1_def within_upd_node)
  have Z1: "zip_at s1 tr z (Node c l k (a, d) r)" using Z b by (auto simp: s1_def zip_at_def)
  have F1: "forest s1 K" using F by (simp add: s1_def)
  obtain s2 where s2: "talloc_steal d b s1 = Some (b, s2)" "forest s2 (move_to d b K)" "nodes s2 = nodes s1"
      "trees s2 = trees s1" "moved ?A tr s1 s2"
    using steal_moved [OF F1, of b d ?A tr] dom by (auto simp: s1_def)
  have Z2: "zip_at s2 tr z (Node c l k (a, d) r)" using Z1 zip_at_cong [OF s2(3,4)] by simp
  obtain s3 where s3: "relink_node b a s2 = Some s3" "zip_at s3 tr z (Node c l k (b, d) r)" "within ?A tr s2 s3"
    using relink_correct [OF Z2 b] n s2(3) by (auto simp: s1_def)
  have "take_place b a s = Some s3"
    using zip_at_node [OF Z] n(1) s2(1) s3(1) by (simp add: take_place_def s1_def heap_simps)
  moreover have "moved ?A tr s s3"
    using within_moved [OF w1] s2(5) within_moved [OF s3(3)] by (meson moved_trans subset_refl insert_mono empty_subsetI)
  moreover have "forest s3 (move_to d b K)" using s2(2) within_forest [OF s3(3)] by simp
  ultimately show ?thesis using s3(2) by blast
qed

section \<open>Removing a node from its tree\<close>

definition no_autofree :: "trbt_heap \<Rightarrow> ptr \<Rightarrow> bool" where
  "no_autofree s tr \<longleftrightarrow> (\<forall>T. trees s tr = Some T \<longrightarrow> t_flags T AND TRBT_AUTOFREE = 0)"

lemma no_autofree_flags:
  "map_option t_flags (trees s' tr) = map_option t_flags (trees s tr) \<Longrightarrow> no_autofree s tr \<Longrightarrow> no_autofree s' tr"
  by (cases "trees s tr"; cases "trees s' tr") (auto simp: no_autofree_def)

lemma autofree_noop:
  assumes "nodes s a = Some n" "n_tree n = tr" "trees s tr \<noteq> None" "no_autofree s tr"
  shows "autofree free a s = Some s"
  using assms by (auto simp: autofree_def no_autofree_def)

lemma tree_at_trees: "zip_at s tr z t \<Longrightarrow> trees s tr \<noteq> None"
  by (auto simp: zip_at_def)

lemma delete_node_one:
  assumes Z: "zip_at s tr z (Node c l k (a, d) r)" and lr: "l = Leaf \<or> r = Leaf"
    and inv: "invc (plug z (Node c l k (a, d) r))" "invh (plug z (Node c l k (a, d) r))"
    and b: "brk s \<notin> set (addrs (plug z (Node c l k (a, d) r)))" "brk s \<noteq> NULL" and na: "no_autofree s tr"
  shows "\<exists>s'. delete_node free a s = Some s' \<and> tree_at s' tr (delete_one z (Node c l k (a, d) r)) \<and>
    within (insert (brk s) (set (addrs l @ addrs r @ zaddrs z))) tr s s' \<and> nodes s' a = nodes s a"
proof -
  let ?A = "insert (brk s) (set (addrs l @ addrs r @ zaddrs z))"
  have "\<exists>s'. unlink_node a s = Some s' \<and> tree_at s' tr (delete_one z (Node c l k (a, d) r)) \<and> within ?A tr s s'"
  proof (cases "l = Leaf \<and> r = Leaf")
    case True
    with unlink_node_leaf [of s tr z c k a d] Z inv b show ?thesis by (auto simp: addrs_plug simp del: delete_one.simps)
  next
    case False
    from unlink_node_child [OF Z lr _ inv] False b show ?thesis
      by (auto simp: addrs_plug simp del: delete_one.simps elim: within_mono)
  qed
  then obtain s' where s': "unlink_node a s = Some s'" "tree_at s' tr (delete_one z (Node c l k (a, d) r))"
      "within ?A tr s s'" by blast
  have "a \<notin> ?A" using Z b by (auto simp: zip_at_def addrs_plug)
  then have na': "nodes s' a = nodes s a" using s'(3) by (simp add: within_def)
  have "no_autofree s' tr" using s'(3) na by (auto simp: within_def intro: no_autofree_flags)
  then have af: "autofree free a s' = Some s'"
    using autofree_noop [of s' a _ tr] zip_at_node [OF Z] na' tree_at_trees [OF s'(2)] by auto
  have "root_ptr l = NULL \<or> root_ptr r = NULL" using lr by auto
  then have "delete_node free a s = Some s'"
    using zip_at_node [OF Z] s'(1) af by (subst delete_node.simps) auto
  with s' na' show ?thesis by blast
qed

text \<open>Finding the predecessor.\<close>

lemma rightmost_correct:
  assumes "shape (nodes s) tr par t" "last_entry t = Some (k, b, d)"
  shows "rightmost (root_ptr t) s = Some b \<and> (\<exists>n. nodes s b = Some n \<and> n_key32 n = k \<and> n_data n = d)"
  using assms
proof (induction t arbitrary: par)
  case (Node c l k' d' r)
  show ?case
  proof (cases "r = Leaf")
    case True
    with Node show ?thesis by (subst rightmost.simps) auto
  next
    case False
    with Node have "root_ptr r \<noteq> NULL" using shape_root_NULL [of "nodes s" tr "fst d'" r] by auto
    with Node False show ?thesis by (subst rightmost.simps) auto
  qed
qed simp

lemma rekey_correct:
  assumes Z: "zip_at s tr z (Node c l k (a, d) r)"
  shows "\<exists>s'. upd_node a (\<lambda>x. x\<lparr>n_key32 := k', n_data := d'\<rparr>) s = Some s' \<and>
    zip_at s' tr z (Node c l k' (a, d') r) \<and> within {a} tr s s'"
  using Z zip_at_node [OF Z] by (auto simp: zip_at_def heap_simps within_def)

lemma plug_append: "plug (y @ z) t = plug z (plug y t)"
  by (induction y arbitrary: t) auto

lemma entry_pos: "(k, d) \<in> set (entries t) \<Longrightarrow> \<exists>z c l r. t = plug z (Node c l k d r)"
proof (induction t)
  case (Node c l k' d' r)
  then consider "(k, d) \<in> set (entries l)" | "k = k'" "d = d'" | "(k, d) \<in> set (entries r)" by auto
  then show ?case
  proof cases
    case 1
    with Node obtain z c1 l1 r1 where "l = plug z (Node c1 l1 k d r1)" by blast
    then have "Node c l k' d' r = plug (z @ [InL c k' d' r]) (Node c1 l1 k d r1)" by (simp add: plug_append)
    then show ?thesis by blast
  next
    case 2
    then have "Node c l k' d' r = plug [] (Node c l k d r)" by simp
    then show ?thesis by blast
  next
    case 3
    with Node obtain z c1 l1 r1 where "r = plug z (Node c1 l1 k d r1)" by blast
    then have "Node c l k' d' r = plug (z @ [InR c l k' d']) (Node c1 l1 k d r1)" by (simp add: plug_append)
    then show ?thesis by blast
  qed
qed simp

text \<open>Giving a node another address.\<close>

definition relabel :: "ptr \<Rightarrow> ptr \<Rightarrow> ptr \<times> ptr \<Rightarrow> ptr \<times> ptr" where
  "relabel a b d = (if fst d = a then (b, snd d) else d)"

lemma relabel_simps [simp]: "fst d \<noteq> a \<Longrightarrow> relabel a b d = d" "relabel a b (a, e) = (b, e)"
  by (simp_all add: relabel_def)

lemma map_relabel_id: "a \<notin> set (addrs t) \<Longrightarrow> map_rbt (relabel a b) t = t"
  by (induction t) auto

lemma map_relabel_ctx: "a \<notin> set (zaddrs z) \<Longrightarrow> map (map_frame (relabel a b)) z = z"
proof (induction z)
  case (Cons f z)
  then have "map_rbt (relabel a b) (fsib f) = fsib f" by (intro map_relabel_id) simp
  with Cons show ?case by (cases f) auto
qed simp

lemma delete_one_cong: "delete_one z (Node c l k d r) = delete_one z (Node c l k' d' r)"
  by simp

text \<open>
  What the detour over the predecessor amounts to: relabelling the removed node with the
  predecessor's address gives the tree the specification builds.
\<close>

lemma relabel_delete:
  assumes le: "last_entry l = Some (pk, b, pd)" and l: "l \<noteq> Leaf" and r: "r \<noteq> Leaf"
    and lp: "last_pos (InL c pk (a, pd) r # z) l = (zp, p)" and p: "p = Node pc pl pk (b, pd) Leaf"
    and a: "a \<notin> set (addrs l @ addrs r @ zaddrs z)"
  shows "map_rbt (relabel a b) (delete_one zp (Node pc pl k0 e0 Leaf)) = delete_root z (Node c l k d r)"
proof -
  let ?h = "relabel a b"
  have "map (map_frame ?h) (InL c pk (a, pd) r # z) = InL c pk (b, pd) r # z"
    using a map_relabel_ctx [of a z b] map_relabel_id [of a r b] by simp
  moreover have "map_rbt ?h l = l" using a map_relabel_id [of a l b] by simp
  ultimately have "last_pos (InL c pk (b, pd) r # z) l = (map (map_frame ?h) zp, map_rbt ?h p)"
    using map_last_pos [of ?h "InL c pk (a, pd) r # z" l] lp by simp
  then have "delete_root z (Node c l k d r) = delete_one (map (map_frame ?h) zp) (map_rbt ?h p)"
    using l r le by simp
  also have "\<dots> = map_rbt ?h (delete_one zp p)" by (simp add: map_delete_one)
  also have "delete_one zp p = delete_one zp (Node pc pl k0 e0 Leaf)" unfolding p by (rule delete_one_cong)
  finally show ?thesis by simp
qed

text \<open>
  First half of removing a node with two children: the predecessor's contents are copied
  to the node, and the predecessor's node is unlinked in its stead.
\<close>

lemma delete_pred:
  assumes Z: "zip_at s tr z (Node c l k (a, d) r)" and l: "l \<noteq> Leaf"
    and inv: "invc (plug z (Node c l k (a, d) r))" "invh (plug z (Node c l k (a, d) r))"
    and F: "forest s K" and dom: "set (addrs (plug z (Node c l k (a, d) r))) \<subseteq> dom (chunks s)"
    and le: "last_entry l = Some (pk, b, pd)" and pd: "pd \<in> dom (chunks s)" and na: "no_autofree s tr"
    and lp: "last_pos (InL c pk (a, pd) r # z) l = (zp, p)" and p: "p = Node pc pl pk (b, pd) Leaf"
    and pp: "plug zp p = plug z (Node c l pk (a, pd) r)"
    and A: "A = insert (brk s) (set (addrs (plug z (Node c l k (a, d) r))))"
    and p1: "p1 = Node pc pl (-1) (b, NULL) Leaf"
  shows "\<exists>s'. do {
      s \<leftarrow> upd_node a (\<lambda>x. x\<lparr>n_key32 := pk, n_data := pd\<rparr>) s;
      (_, s) \<leftarrow> talloc_steal pd a s;
      s \<leftarrow> upd_node b (\<lambda>x. x\<lparr>n_data := NULL, n_key32 := -1\<rparr>) s;
      delete_node free b s } = Some s' \<and>
    tree_at s' tr (delete_one zp p1) \<and> forest s' (move_to pd a K) \<and> moved A tr s s' \<and>
    b \<noteq> NULL \<and> b \<notin> set (addrs (delete_one zp p1)) \<and> (\<exists>n. nodes s' b = Some n \<and> n_tree n = tr) \<and>
    set (addrs (delete_one zp p1)) \<subseteq> A"
proof -
  have same: "set (addrs (plug zp p1)) = set (addrs (plug z (Node c l k (a, d) r)))"
    using arg_cong [OF pp, of "\<lambda>t. set (addrs t)"] p by (simp add: addrs_plug p1)
  then have Aeq: "A = insert (brk s) (set (addrs (plug zp p1)))" by (simp add: A)
  have brk: "brk s \<notin> set (addrs (plug zp p1))" "brk s \<noteq> NULL" using dom forest_brk [OF F] unfolding same by auto
  have ab: "a \<in> A" "b \<in> A" "a \<in> dom (chunks s)" using dom Aeq by (auto simp: A addrs_plug p1)
  obtain s1 where s1: "upd_node a (\<lambda>x. x\<lparr>n_key32 := pk, n_data := pd\<rparr>) s = Some s1"
      "zip_at s1 tr z (Node c l pk (a, pd) r)" "within {a} tr s s1"
    using rekey_correct [OF Z] by blast
  have F1: "forest s1 K" "chunks s1 = chunks s" using within_forest [OF s1(3)] F within_dom [OF s1(3)] by simp_all
  obtain s2 where s2: "talloc_steal pd a s1 = Some (a, s2)" "forest s2 (move_to pd a K)" "nodes s2 = nodes s1"
      "trees s2 = trees s1" "moved A tr s1 s2"
    using steal_moved [OF F1(1), of a pd A tr] ab pd F1(2) by auto
  have "tree_at s2 tr (plug zp p)" using s1(2) zip_at_cong [OF s2(3,4)] pp zip_at_plug [of s2 tr z] by simp
  then have "zip_at s2 tr zp (Node pc pl pk (b, pd) Leaf)" using zip_at_plug [of s2 tr zp p] p by simp
  then obtain s3 where s3: "upd_node b (\<lambda>x. x\<lparr>n_key32 := -1, n_data := NULL\<rparr>) s2 = Some s3"
      "zip_at s3 tr zp p1" "within {b} tr s2 s3"
    unfolding p1 using rekey_correct by blast
  have m3: "moved A tr s s3"
    using within_moved [OF s1(3), of A] s2(5) within_moved [OF s3(3), of A] ab by (auto intro: moved_trans)
  have "invc (plug zp p)" "invh (plug zp p)" using inv unfolding pp by (auto simp: invc_plug invh_plug)
  then have inv3: "invc (plug zp p1)" "invh (plug zp p1)" unfolding p p1 by (auto simp: invc_plug invh_plug)
  have b3: "brk s3 = brk s" "no_autofree s3 tr"
    using moved_brk [OF m3] no_autofree_flags [OF moved_flags [OF m3] na] by simp_all
  obtain s4 where s4: "delete_node free b s3 = Some s4" "tree_at s4 tr (delete_one zp p1)"
      "within (insert (brk s) (set (addrs pl @ zaddrs zp))) tr s3 s4" "nodes s4 b = nodes s3 b"
    using delete_node_one [of s3 tr zp pc pl "-1" b NULL Leaf free] s3(2) inv3 b3 brk by (auto simp: p1)
  have "entries (delete_one zp p1) = entries (plug zp pl)"
    unfolding p1 using entries_delete_one [of pl Leaf zp pc "-1" "(b, NULL)"] by (simp add: entries_plug)
  then have A4: "set (addrs (delete_one zp p1)) = set (addrs pl @ zaddrs zp)"
    using addrs_plug [of zp pl] by (simp add: addrs_def)
  have "insert (brk s) (set (addrs pl @ zaddrs zp)) \<subseteq> A" by (auto simp: Aeq addrs_plug p1)
  then have "moved A tr s s4" "set (addrs (delete_one zp p1)) \<subseteq> A"
    using m3 within_moved [OF s4(3)] A4 by (auto intro: moved_trans)
  moreover have "b \<noteq> NULL" "b \<notin> set (addrs (delete_one zp p1))" "\<exists>n. nodes s4 b = Some n \<and> n_tree n = tr"
    using s3(2) s4(4) unfolding A4 by (auto simp: zip_at_def p1)
  moreover have "forest s4 (move_to pd a K)"
    using s2(2) within_forest [OF s3(3)] within_forest [OF s4(3)] by simp
  moreover have "(\<lambda>x :: trbt_node. x\<lparr>n_data := NULL, n_key32 := -1\<rparr>) = (\<lambda>x. x\<lparr>n_key32 := -1, n_data := NULL\<rparr>)"
    by (rule ext) simp
  ultimately show ?thesis using s1(1) s2(1) s3(1) s4(1,2) by auto
qed

lemma delete_node_two:
  assumes Z: "zip_at s tr z (Node c l k (a, d) r)" and l: "l \<noteq> Leaf" and r: "r \<noteq> Leaf"
    and inv: "invc (plug z (Node c l k (a, d) r))" "invh (plug z (Node c l k (a, d) r))"
    and F: "forest s K" and dom: "set (addrs (plug z (Node c l k (a, d) r))) \<subseteq> dom (chunks s)"
    and le: "last_entry l = Some (pk, b, pd)" and pd: "pd \<in> dom (chunks s)" and na: "no_autofree s tr"
  shows "\<exists>s'. delete_node free a s = Some s' \<and> tree_at s' tr (delete_root z (Node c l k (a, d) r)) \<and>
    forest s' (move_to pd b (move_to pd a K)) \<and> moved (insert (brk s) (set (addrs (plug z (Node c l k (a, d) r))))) tr s s'"
proof -
  let ?t = "Node c l k (a, d) r"
  let ?A = "insert (brk s) (set (addrs (plug z ?t)))"
  obtain zp p where lp: "last_pos (InL c pk (a, pd) r # z) l = (zp, p)" by force
  obtain pc pl where p: "p = Node pc pl pk (b, pd) Leaf" and pp: "plug zp p = plug z (Node c l pk (a, pd) r)"
    and az: "after zp = (pk, a, pd) # entries r @ after z"
    using last_pos_spec [OF l lp le] by auto
  let ?p = "Node pc pl (-1) (b, NULL) Leaf"
  obtain s4 where s4: "do {
      s \<leftarrow> upd_node a (\<lambda>x. x\<lparr>n_key32 := pk, n_data := pd\<rparr>) s;
      (_, s) \<leftarrow> talloc_steal pd a s;
      s \<leftarrow> upd_node b (\<lambda>x. x\<lparr>n_data := NULL, n_key32 := -1\<rparr>) s;
      delete_node free b s } = Some s4" "tree_at s4 tr (delete_one zp ?p)" "forest s4 (move_to pd a K)" "moved ?A tr s s4"
      "b \<noteq> NULL" "b \<notin> set (addrs (delete_one zp ?p))" "\<exists>n. nodes s4 b = Some n \<and> n_tree n = tr"
      "set (addrs (delete_one zp ?p)) \<subseteq> ?A"
    using delete_pred [OF Z l inv F dom le pd na lp p pp refl refl] by blast
  obtain z5 c5 l5 r5 where t5: "delete_one zp ?p = plug z5 (Node c5 l5 pk (a, pd) r5)"
    using entry_pos [of pk "(a, pd)" "delete_one zp ?p"] entries_delete_one [of pl Leaf zp pc "-1" "(b, NULL)"] az by auto
  have Z5: "zip_at s4 tr z5 (Node c5 l5 pk (a, pd) r5)" using s4(2) zip_at_plug [of s4 tr z5] unfolding t5 by simp
  have b5: "b \<notin> set (addrs (Node c5 l5 pk (a, pd) r5) @ zaddrs z5)"
    using s4(6) unfolding t5 by (auto simp: addrs_plug)
  have ab: "a \<in> ?A" "b \<in> ?A" "b \<in> dom (chunks s)"
    using dom arg_cong [OF pp, of "\<lambda>t. set (addrs t)"] by (auto simp: addrs_plug p)
  obtain s5 where s5: "take_place b a s4 = Some s5" "zip_at s5 tr z5 (Node c5 l5 pk (b, pd) r5)"
      "forest s5 (move_to pd b (move_to pd a K))" "moved (insert b (set (addrs l5 @ addrs r5 @ zaddrs z5))) tr s4 s5"
    using take_place_correct [OF Z5 s4(5) b5 _ _ s4(3)] s4(7) moved_dom [OF s4(4)] ab pd by auto
  have "set (addrs l5 @ addrs r5 @ zaddrs z5) \<subseteq> ?A" using s4(8) unfolding t5 by (auto simp: addrs_plug)
  then have m5: "moved ?A tr s s5" using s4(4) moved_mono [OF s5(4), of ?A] ab by (auto intro: moved_trans)
  have "a \<notin> insert b (set (addrs l5 @ addrs r5 @ zaddrs z5))" using Z5 b5 by (auto simp: zip_at_def)
  then have "nodes s5 a = nodes s4 a" using s5(4) by (simp add: moved_def)
  then have af: "autofree free a s5 = Some s5"
    using autofree_noop [of s5 a _ tr free] zip_at_node [OF Z5] tree_at_trees [OF s5(2)]
      no_autofree_flags [OF moved_flags [OF m5] na] by auto
  have sh: "shape (nodes s) tr a l" "shape (nodes s) tr a r" using Z by (simp_all add: zip_at_def)
  obtain nb where nb: "rightmost (root_ptr l) s = Some b" "nodes s b = Some nb" "n_key32 nb = pk" "n_data nb = pd"
    using rightmost_correct [OF sh(1) le] by blast
  have "delete_node free a s = Some s5"
    using zip_at_node [OF Z] shape_root_NULL [OF sh(1)] shape_root_NULL [OF sh(2)] l r nb s4(1) s5(1) af
    by (subst delete_node.simps) (auto simp: bind_eq_Some_conv)
  moreover have "plug z5 (Node c5 l5 pk (b, pd) r5) = delete_root z ?t"
  proof -
    have "plug z5 (Node c5 l5 pk (b, pd) r5) = map_rbt (relabel a b) (plug z5 (Node c5 l5 pk (a, pd) r5))"
      using Z5 map_relabel_ctx [of a z5 b] map_relabel_id [of a l5 b] map_relabel_id [of a r5 b]
      by (simp add: map_plug zip_at_def)
    also have "\<dots> = delete_root z ?t" unfolding t5 [symmetric]
      using Z by (intro relabel_delete [OF le l r lp p]) (auto simp: zip_at_def)
    finally show ?thesis .
  qed
  ultimately show ?thesis using s5(2,3) m5 zip_at_plug [of s5 tr z5] by auto
qed

end
