(* ===== verification/Talloc_Free.thy ===== *)
theory Talloc_Free
  imports Talloc_Forest
begin

text \<open>
  Freeing in \<^verbatim>\<open>talloc.c\<close>: what \<open>_talloc_free\<close> does to the forest. A block without references
  and destructors goes with everything below it, and nothing else changes.
\<close>

section \<open>Releasing one block\<close>

text \<open>\<open>freed X s s'\<close>: the blocks in \<open>X\<close> are gone, all others keep their contents.\<close>

definition freed :: "ptr set \<Rightarrow> 'a talloc_heap_scheme \<Rightarrow> 'a talloc_heap_scheme \<Rightarrow> bool" where
  "freed X s s' \<longleftrightarrow>
     (\<forall>h. h \<notin> X \<longrightarrow> handles s' h = handles s h) \<and> null_context s' = null_context s \<and> malloc_ok s' = malloc_ok s \<and>
     brk s' = brk s \<and> talloc_heap.more s' = talloc_heap.more s \<and>
     map_option block_data \<circ> chunks s' = (map_option block_data \<circ> chunks s) |` (- X)"

lemma freed_dom: "freed X s s' \<Longrightarrow> dom (chunks s') = dom (chunks s) - X"
proof -
  assume "freed X s s'"
  then have "map_option block_data (chunks s' p) = (if p \<in> X then None else map_option block_data (chunks s p))" for p
    by (auto simp: freed_def fun_eq_iff restrict_map_def)
  then have "chunks s' p = None \<longleftrightarrow> p \<in> X \<or> chunks s p = None" for p
    by (metis (no_types) None_eq_map_option_iff)
  then show ?thesis by (auto simp: dom_def)
qed

lemma freed_trans: "freed X s t \<Longrightarrow> freed Y t u \<Longrightarrow> freed (X \<union> Y) s u"
  by (auto simp: freed_def fun_eq_iff restrict_map_def)

lemma freed_empty: "same_blocks s s' \<Longrightarrow> freed {} s s'"
  by (auto simp: freed_def same_blocks_def)

lemma freed_block:
  assumes "freed X s s'" "chunks s p = Some c" "p \<notin> X"
  shows "\<exists>c'. chunks s' p = Some c' \<and> block_data c' = block_data c"
proof -
  have "map_option block_data (chunks s' p) = Some (block_data c)"
    using assms by (auto simp: freed_def fun_eq_iff restrict_map_def)
  then show ?thesis by auto
qed

text \<open>What happened to the headers of the freed blocks before does not matter.\<close>

lemma freed_from:
  assumes "freed Y (r\<lparr>chunks := (chunks r)(x \<mapsto> c)\<rparr>) u" "x \<in> Y" "same_blocks s r"
  shows "freed Y s u"
proof -
  have "(map_option block_data \<circ> (chunks r)(x \<mapsto> c)) |` (- Y) = (map_option block_data \<circ> chunks r) |` (- Y)"
    using assms(2) by (auto simp: fun_eq_iff restrict_map_def)
  with assms show ?thesis by (simp add: freed_def same_blocks_def)
qed

lemma freed_frame:
  "freed X s s' \<Longrightarrow> null_context s' = null_context s" "freed X s s' \<Longrightarrow> malloc_ok s' = malloc_ok s"
  "freed X s s' \<Longrightarrow> brk s' = brk s" "freed X s s' \<Longrightarrow> talloc_heap.more s' = talloc_heap.more s"
  by (simp_all add: freed_def)

lemma magic_ok_LOOP: "magic_ok f \<Longrightarrow> magic_ok (f OR TALLOC_FLAG_LOOP)"
proof -
  have "(f OR TALLOC_FLAG_LOOP) AND (TALLOC_FLAG_FREE OR NOT 0xF) = f AND (TALLOC_FLAG_FREE OR NOT 0xF)"
    by (simp add: TALLOC_FLAG_LOOP_def TALLOC_FLAG_FREE_def bit.conj_disj_distrib2)
  then show "magic_ok f \<Longrightarrow> magic_ok (f OR TALLOC_FLAG_LOOP)" by (simp add: magic_ok_def)
qed

lemma forest_release:
  assumes F: "forest_but (insert x X) s K" and x: "x \<notin> X" "x \<in> dom (chunks s)" "K x = []" "null_context s \<noteq> x"
  shows "forest_but X (tc_free x s) K"
proof -
  have xK: "x \<notin> set (K p)" for p using forest_loose [OF F, of x] by simp
  have d: "dllseg ((chunks s)(x := None)) p NULL (K p) NULL" for p
    using forest_dll [OF F, of p] xK by (subst dllseg_frame [where h = "chunks s"]) auto
  show ?thesis
    unfolding forest_but_def tc_free_def
  proof (intro conjI allI ballI impI)
    fix z e assume "chunks (s\<lparr>chunks := (chunks s)(x := None), handles := (handles s)(x := None)\<rparr>) z = Some e"
      "z \<notin> X" "\<forall>p. z \<notin> set (K p)"
    then show "links e = (NULL, NULL, NULL)" using forest_root [OF F, of z e] by (auto split: if_splits)
  qed (use F x d xK in \<open>auto simp: forest_but_def split: if_splits\<close>)
qed

text \<open>The block is taken out of its list and marked as being freed.\<close>

lemma mark_correct:
  assumes F: "forest_but X s K" and x: "x \<in> dom (chunks s)" "x \<notin> X"
  shows "\<exists>s'. do { s \<leftarrow> unlink_chunk x s; upd_chunk x (\<lambda>c. c\<lparr>tc_flags := tc_flags c OR TALLOC_FLAG_LOOP\<rparr>) s } = Some s' \<and>
    forest_but (insert x X) s' (detach x K) \<and> (\<forall>Y u. x \<in> Y \<longrightarrow> freed Y s' u \<longrightarrow> freed Y s u) \<and>
    null_context s' = null_context s \<and> x \<in> dom (chunks s') \<and>
    (\<forall>p. p \<noteq> x \<longrightarrow> map_option block_data (chunks s' p) = map_option block_data (chunks s p))"
proof -
  obtain s1 where s1: "unlink_chunk x s = Some s1" "forest_but (insert x X) s1 (detach x K)" "same_blocks s s1"
    using unlink_chunk_forest [OF F x] by auto
  obtain c where c: "chunks s1 x = Some c" using same_blocks_dom [OF s1(3)] x by auto
  let ?s = "s1\<lparr>chunks := (chunks s1)(x \<mapsto> c\<lparr>tc_flags := tc_flags c OR TALLOC_FLAG_LOOP\<rparr>)\<rparr>"
  have "magic_ok (tc_flags c)" using forest_chunk [OF s1(2) c] by simp
  then have "forest_but (insert x X) ?s (detach x K)"
    by (intro forest_upd_data [OF s1(2) c]) (auto simp: links_def magic_ok_LOOP)
  moreover have "map_option block_data (chunks s1 p) = map_option block_data (chunks s p)" for p
    using s1(3) by (auto simp: same_blocks_def fun_eq_iff)
  ultimately show ?thesis using s1(1) c same_blocks_frame(2) [OF s1(3)] freed_from [OF _ _ s1(3)]
    by (intro exI [of _ ?s]) (auto simp: heap_simps)
qed

text \<open>The end of \<open>_talloc_free\<close>, for a block that is already unlinked and has no children left.\<close>

lemma release_correct:
  assumes F: "forest_but (insert x X) s K" and x: "x \<notin> X" "chunks s x = Some c" "K x = []" "null_context s \<noteq> x"
  shows "\<exists>s'. do { s \<leftarrow> upd_chunk x (\<lambda>c. c\<lparr>tc_flags := tc_flags c OR TALLOC_FLAG_FREE\<rparr>) s; Some (0 :: int, tc_free x s) } =
      Some (0, s') \<and> forest_but X s' K \<and> freed {x} s s'"
proof -
  have "tc_free x (s\<lparr>chunks := (chunks s)(x \<mapsto> c')\<rparr>) = tc_free x s" for c' by (simp add: tc_free_def)
  moreover have "forest_but X (tc_free x s) K" using forest_release [OF F x(1)] x by auto
  moreover have "freed {x} s (tc_free x s)" by (auto simp: freed_def tc_free_def fun_eq_iff restrict_map_def)
  ultimately show ?thesis using x(2) by (simp add: heap_simps)
qed

section \<open>Freeing a subtree\<close>

datatype blocks = Blocks ptr "blocks list"

fun top :: "blocks \<Rightarrow> ptr" where
  "top (Blocks p ts) = p"

fun members :: "blocks \<Rightarrow> ptr list" where
  "members (Blocks p ts) = p # concat (map members ts)"

text \<open>\<open>holds K T\<close>: \<open>T\<close> is the tree of blocks that hangs below its top block in \<open>K\<close>.\<close>

fun holds :: "(ptr \<Rightarrow> ptr list) \<Rightarrow> blocks \<Rightarrow> bool" where
  "holds K (Blocks p ts) \<longleftrightarrow> K p = map top ts \<and> (\<forall>t \<in> set ts. holds K t)"

text \<open>The forest without some blocks.\<close>

definition prune :: "ptr set \<Rightarrow> (ptr \<Rightarrow> ptr list) \<Rightarrow> (ptr \<Rightarrow> ptr list)" where
  "prune X K = (\<lambda>p. if p \<in> X then [] else filter (\<lambda>q. q \<notin> X) (K p))"

lemma top_member: "top T \<in> set (members T)"
  by (cases T) simp

lemma members_pos: "0 < length (members T)"
  by (cases T) simp

lemma prune_prune: "prune Y (prune X K) = prune (X \<union> Y) K"
  by (auto simp: prune_def fun_eq_iff intro!: filter_cong)

lemma holds_kids: "holds K T \<Longrightarrow> p \<in> set (members T) \<Longrightarrow> set (K p) \<subseteq> set (members T)"
proof (induction T)
  case (Blocks q ts)
  then show ?case using top_member by fastforce
qed

lemma holds_prune:
  assumes "holds K T" "set (members T) \<inter> X = {}"
  shows "holds (prune X K) T"
  using assms
proof (induction T)
  case (Blocks q ts)
  have "filter (\<lambda>q. q \<notin> X) (map top ts) = map top ts"
    using Blocks.prems(2) top_member by (auto simp: filter_id_conv)
  moreover have "holds (prune X K) t" if "t \<in> set ts" for t using Blocks that by auto
  ultimately show ?case using Blocks.prems by (auto simp: prune_def)
qed

lemma holds_detach:
  assumes "holds K T" "x \<notin> set (members T)"
  shows "holds (detach x K) T"
  using assms
proof (induction T)
  case (Blocks q ts)
  have "removeAll x (map top ts) = map top ts"
    using Blocks.prems(2) top_member by (intro removeAll_id) auto
  moreover have "holds (detach x K) t" if "t \<in> set ts" for t using Blocks that by auto
  ultimately show ?case using Blocks.prems by (auto simp: detach_def)
qed

definition plain :: "'a talloc_heap_scheme \<Rightarrow> ptr \<Rightarrow> bool" where
  "plain s x \<longleftrightarrow> (\<exists>c. chunks s x = Some c \<and> tc_refs c = NULL \<and> tc_destructor c = D_null \<and> tc_flags c AND TALLOC_FLAG_LOOP = 0)"

lemma plain_freed: "plain s x \<Longrightarrow> freed X s s' \<Longrightarrow> x \<notin> X \<Longrightarrow> plain s' x"
  using freed_block [of X s s' x] by (fastforce simp: plain_def block_data_def)

definition freeable :: "ptr set \<Rightarrow> 'a talloc_heap_scheme \<Rightarrow> (ptr \<Rightarrow> ptr list) \<Rightarrow> ptr list \<Rightarrow> bool" where
  "freeable X s K ps \<longleftrightarrow>
     forest_but X s K \<and> distinct ps \<and> (\<forall>p \<in> set ps. plain s p) \<and> null_context s \<notin> set ps \<and> X \<inter> set ps = {}"

lemma freeable_rest:
  assumes "freeable X s K (ps @ qs)" "freed (set ps) s s'" "forest_but X s' (prune (set ps) K)"
  shows "freeable X s' (prune (set ps) K) qs"
  using assms plain_freed [of s _ "set ps" s'] by (auto simp: freeable_def freed_def)

lemma free_children_step:
  assumes F: "forest_but X s K" and x: "chunks s x = Some c" "K x = t # ts" and t: "plain s t"
    and f: "talloc_free D n t s = Some (0, s1)"
  shows "talloc_free_children D (Suc n) x s = talloc_free_children D n x s1"
proof -
  have "t \<noteq> NULL" using forest_kids_dom [OF F, of t x] x(2) by simp
  moreover have "tc_child c = t" using forest_chunk [OF F x(1)] x(2) by simp
  ultimately show ?thesis using x(1) t f by (auto simp: plain_def heir_of_def Let_def)
qed

lemma free_children_list:
  assumes IH: "\<And>t s K X n. t \<in> set ts \<Longrightarrow> freeable X s K (members t) \<Longrightarrow> holds K t \<Longrightarrow> 2 * length (members t) \<le> n \<Longrightarrow>
      \<exists>s'. talloc_free D n (top t) s = Some (0, s') \<and> forest_but X s' (prune (set (members t)) K) \<and> freed (set (members t)) s s'"
    and F: "freeable X s K (concat (map members ts))" and x: "x \<in> dom (chunks s)" "x \<notin> set (concat (map members ts))"
    and K: "K x = map top ts" "\<forall>t \<in> set ts. holds K t" and n: "2 * length (concat (map members ts)) < n"
  shows "\<exists>s'. talloc_free_children D n x s = Some s' \<and> forest_but X s' (prune (set (concat (map members ts))) K) \<and>
    freed (set (concat (map members ts))) s s'"
  using assms
proof (induction ts arbitrary: s K n)
  case Nil
  then obtain m where m: "n = Suc m" by (cases n) auto
  obtain c where c: "chunks s x = Some c" using Nil by auto
  have "forest_but X s K" using Nil.prems(2) by (simp add: freeable_def)
  then have "tc_child c = NULL" using forest_chunk [of X s K x c] c Nil.prems(5) by simp
  moreover have "prune {} K = K" by (simp add: prune_def)
  ultimately show ?case using c \<open>forest_but X s K\<close> by (auto simp: m intro: freed_empty)
next
  case (Cons t ts)
  obtain m where m: "n = Suc m" using Cons.prems(7) by (cases n) auto
  have F: "forest_but X s K" "distinct (members t @ concat (map members ts))" "\<forall>p \<in> set (members t). plain s p"
    using Cons.prems(2) by (auto simp: freeable_def)
  have "freeable X s K (members t)" using Cons.prems(2) by (auto simp: freeable_def)
  then obtain s1 where s1: "talloc_free D m (top t) s = Some (0, s1)" "forest_but X s1 (prune (set (members t)) K)"
      "freed (set (members t)) s s1"
    using Cons.prems(1) [of t X s K m] Cons.prems(6,7) m by auto
  let ?K = "prune (set (members t)) K"
  obtain c where c: "chunks s x = Some c" using Cons.prems(3) by auto
  have step: "talloc_free_children D n x s = talloc_free_children D m x s1"
    unfolding m using F(3) top_member [of t] Cons.prems(5) c
    by (intro free_children_step [OF F(1) c _ _ s1(1)]) auto
  have rest: "freeable X s1 ?K (concat (map members ts))"
    using freeable_rest [OF _ s1(3,2)] Cons.prems(2) by simp
  have "top u \<notin> set (members t)" if "u \<in> set ts" for u
    using F(2) top_member [of u] that by auto
  then have Kx: "?K x = map top ts"
    using Cons.prems(4,5) top_member [of t] by (auto simp: prune_def filter_id_conv)
  have "\<exists>s2. talloc_free_children D m x s1 = Some s2 \<and>
      forest_but X s2 (prune (set (concat (map members ts))) ?K) \<and> freed (set (concat (map members ts))) s1 s2"
  proof (rule Cons.IH [OF _ rest _ _ Kx])
    show "\<exists>s'. talloc_free D k (top u) r = Some (0, s') \<and> forest_but Y s' (prune (set (members u)) L) \<and>
        freed (set (members u)) r s'"
      if "u \<in> set ts" "freeable Y r L (members u)" "holds L u" "2 * length (members u) \<le> k" for u r L Y k
      using Cons.prems(1) [of u Y r L k] that by simp
    show "x \<in> dom (chunks s1)" "x \<notin> set (concat (map members ts))"
      using freed_dom [OF s1(3)] Cons.prems(3,4) by auto
    show "\<forall>u \<in> set ts. holds ?K u" using Cons.prems(6) F(2) by (auto intro!: holds_prune)
    show "2 * length (concat (map members ts)) < m" using Cons.prems(7) members_pos [of t] by (simp add: m del: length_greater_0_conv)
  qed
  then obtain s2 where "talloc_free_children D m x s1 = Some s2"
      "forest_but X s2 (prune (set (concat (map members ts))) ?K)" "freed (set (concat (map members ts))) s1 s2"
    by blast
  with step freed_trans [OF s1(3)] show ?case by (auto simp: prune_prune)
qed

theorem talloc_free_tree:
  assumes "freeable X s K (members T)" "holds K T" "2 * length (members T) \<le> n"
  shows "\<exists>s'. talloc_free D n (top T) s = Some (0, s') \<and> forest_but X s' (prune (set (members T)) K) \<and>
    freed (set (members T)) s s'"
  using assms
proof (induction T arbitrary: s K X n)
  case (Blocks x ts)
  let ?ps = "concat (map members ts)" and ?K = "detach x K"
  have F: "forest_but X s K" "x \<notin> set ?ps" "distinct ?ps" "plain s x" "null_context s \<noteq> x" "x \<notin> X"
    using Blocks.prems(1) by (auto simp: freeable_def)
  obtain m where m: "n = Suc m" "2 * length ?ps < m" using Blocks.prems(3) by (cases n) auto
  obtain c where c: "chunks s x = Some c" "tc_refs c = NULL" "tc_destructor c = D_null" "tc_flags c AND TALLOC_FLAG_LOOP = 0"
    using F(4) by (auto simp: plain_def)
  have mag: "magic_ok (tc_flags c)" and xN: "x \<noteq> NULL" using forest_chunk [OF F(1) c(1)] c(1) forest_NULL [OF F(1)]
    by (auto intro!: gr0I)
  obtain s2 where s2: "do { s \<leftarrow> unlink_chunk x s; upd_chunk x (\<lambda>c. c\<lparr>tc_flags := tc_flags c OR TALLOC_FLAG_LOOP\<rparr>) s } = Some s2"
      "forest_but (insert x X) s2 ?K" "\<forall>Y u. x \<in> Y \<longrightarrow> freed Y s2 u \<longrightarrow> freed Y s u" "null_context s2 = null_context s"
      "x \<in> dom (chunks s2)" "\<forall>p. p \<noteq> x \<longrightarrow> map_option block_data (chunks s2 p) = map_option block_data (chunks s p)"
    using mark_correct [OF F(1) _ F(6)] c(1) by blast
  have xK: "x \<notin> set (map top ts)" using F(2) top_member by fastforce
  have K2: "?K x = map top ts" using Blocks.prems(2) xK by (simp add: detach_def removeAll_id)
  have h2: "\<forall>t \<in> set ts. holds ?K t" using Blocks.prems(2) F(2) by (auto intro!: holds_detach)
  have "plain s2 p" if "p \<in> set ?ps" for p
  proof -
    have "plain s p" "p \<noteq> x" using Blocks.prems(1) F(2) that by (auto simp: freeable_def)
    then show ?thesis using s2(6) by (fastforce simp: plain_def block_data_def)
  qed
  then have fr: "freeable (insert x X) s2 ?K ?ps"
    using Blocks.prems(1) s2(2,4) F(2) by (auto simp: freeable_def)
  obtain s3 where s3: "talloc_free_children D m x s2 = Some s3"
      "forest_but (insert x X) s3 (prune (set ?ps) ?K)" "freed (set ?ps) s2 s3"
    using free_children_list [OF Blocks.IH fr s2(5) F(2) K2 h2 m(2)] by blast
  obtain c3 where c3: "chunks s3 x = Some c3" using freed_block [OF s3(3), of x] F(2) s2(5) by auto
  have K3: "prune (set ?ps) ?K x = []"
    using F(2) K2 top_member by (fastforce simp: prune_def filter_empty_conv)
  have nc: "null_context s3 \<noteq> x" using freed_frame(1) [OF s3(3)] s2(4) F(5) by simp
  obtain s4 where s4: "do { s \<leftarrow> upd_chunk x (\<lambda>c. c\<lparr>tc_flags := tc_flags c OR TALLOC_FLAG_FREE\<rparr>) s3;
        Some (0 :: int, tc_free x s) } = Some (0, s4)" "forest_but X s4 (prune (set ?ps) ?K)" "freed {x} s3 s4"
    using release_correct [OF s3(2) F(6) c3 K3 nc] by blast
  have "talloc_free D n x s = Some (0, s4)"
    using c mag xN s2(1) s3(1) s4(1) by (auto simp: m(1) heap_simps bind_eq_Some_conv)
  moreover have "prune (set ?ps) ?K = prune (set (members (Blocks x ts))) K"
  proof
    fix p
    have "set (K x) \<subseteq> set ?ps" using Blocks.prems(2) top_member by fastforce
    then show "prune (set ?ps) ?K p = prune (set (members (Blocks x ts))) K p"
      by (auto simp: prune_def detach_def removeAll_filter_not_eq filter_empty_conv intro!: filter_cong)
  qed
  moreover have "freed (set (members (Blocks x ts))) s s4"
    using s2(3) freed_trans [OF s3(3) s4(3)] by (simp add: Un_commute)
  ultimately show ?case using s4(2) by auto
qed

section \<open>Destructors\<close>

text \<open>The part of \<open>_talloc_free\<close> after the destructor, for a block without children.\<close>

lemma free_childless:
  assumes F: "forest s K" and a: "a \<in> dom (chunks s)" "K a = []" "null_context s \<noteq> a"
  shows "\<exists>s'. do {
      s \<leftarrow> unlink_chunk a s;
      s \<leftarrow> upd_chunk a (\<lambda>c. c\<lparr>tc_flags := tc_flags c OR TALLOC_FLAG_LOOP\<rparr>) s;
      s \<leftarrow> talloc_free_children D (Suc m) a s;
      s \<leftarrow> upd_chunk a (\<lambda>c. c\<lparr>tc_flags := tc_flags c OR TALLOC_FLAG_FREE\<rparr>) s;
      Some (0 :: int, tc_free a s) } = Some (0, s') \<and> forest s' (detach a K) \<and> freed {a} s s'"
proof -
  obtain s1 where s1: "do { s \<leftarrow> unlink_chunk a s; upd_chunk a (\<lambda>c. c\<lparr>tc_flags := tc_flags c OR TALLOC_FLAG_LOOP\<rparr>) s } = Some s1"
      "forest_but {a} s1 (detach a K)" "\<forall>Y u. a \<in> Y \<longrightarrow> freed Y s1 u \<longrightarrow> freed Y s u" "null_context s1 = null_context s"
      "a \<in> dom (chunks s1)"
    using mark_correct [OF F a(1)] by auto
  obtain c where c: "chunks s1 a = Some c" using s1(5) by auto
  have Ka: "detach a K a = []" using a(2) by (simp add: detach_def)
  then have "talloc_free_children D (Suc m) a s1 = Some s1" using c forest_chunk [OF s1(2) c] by simp
  moreover obtain s2 where "do { s \<leftarrow> upd_chunk a (\<lambda>c. c\<lparr>tc_flags := tc_flags c OR TALLOC_FLAG_FREE\<rparr>) s1; Some (0 :: int, tc_free a s) } = Some (0, s2)"
      "forest s2 (detach a K)" "freed {a} s1 s2"
    using release_correct [OF s1(2) _ c Ka] s1(4) a(3) by auto
  moreover obtain s0 where "unlink_chunk a s = Some s0" "upd_chunk a (\<lambda>c. c\<lparr>tc_flags := tc_flags c OR TALLOC_FLAG_LOOP\<rparr>) s0 = Some s1"
    using s1(1) by (auto simp: bind_eq_Some_conv)
  ultimately show ?thesis using s1(3) by (simp del: talloc_free_children.simps)
qed

text \<open>
  The destructor runs once, with the block marked by \<open>D_minus1\<close>. When it returns -1 the block stays
  as it was, otherwise it goes.
\<close>

theorem talloc_free_destructor:
  assumes F: "forest s K" and p: "chunks s p = Some c" "tc_refs c = NULL" "tc_destructor c = D_client i"
      "tc_flags c AND TALLOC_FLAG_LOOP = 0" "K p = []" "null_context s \<noteq> p"
    and run: "D (talloc_free D (Suc m)) i p (s\<lparr>chunks := (chunks s)(p \<mapsto> c\<lparr>tc_destructor := D_minus1\<rparr>)\<rparr>) =
      Some (r, talloc_heap.more_update g (s\<lparr>chunks := (chunks s)(p \<mapsto> c\<lparr>tc_destructor := D_minus1\<rparr>)\<rparr>))"
  shows "if r = -1 then talloc_free D (Suc (Suc m)) p s = Some (-1, talloc_heap.more_update g s)
    else \<exists>s'. talloc_free D (Suc (Suc m)) p s = Some (0, s') \<and> forest s' (detach p K) \<and>
      freed {p} (talloc_heap.more_update g s) s'"
proof -
  have m: "magic_ok (tc_flags c)" "p \<noteq> NULL" using forest_chunk [OF F p(1)] forest_NULL [OF F] p(1) by (auto intro!: gr0I)
  have comm: "talloc_heap.more_update g (s\<lparr>chunks := h\<rparr>) = talloc_heap.more_update g s\<lparr>chunks := h\<rparr>" for h
    by (cases s) simp
  show ?thesis
  proof (cases "r = -1")
    case True
    have "c\<lparr>tc_destructor := D_client i\<rparr> = c" using p(3) by simp
    then have "(chunks s)(p \<mapsto> c\<lparr>tc_destructor := D_client i\<rparr>) = chunks s" using p(1) by (simp add: fun_upd_idem)
    moreover have "talloc_heap.more_update g s\<lparr>chunks := chunks s\<rparr> = talloc_heap.more_update g s" by (cases s) simp
    ultimately show ?thesis
      using True p m run by (simp add: heap_simps run_destructor_def)
  next
    case False
    let ?s = "talloc_heap.more_update g (s\<lparr>chunks := (chunks s)(p \<mapsto> c\<lparr>tc_destructor := D_null\<rparr>)\<rparr>)"
    have "forest (s\<lparr>chunks := (chunks s)(p \<mapsto> c\<lparr>tc_destructor := D_null\<rparr>)\<rparr>) K"
      using m by (intro forest_upd_data [OF F p(1)]) (simp_all add: links_def)
    then have "forest ?s K" by (simp add: forest_but_def)
    then obtain s' where s': "do {
        s \<leftarrow> unlink_chunk p ?s;
        s \<leftarrow> upd_chunk p (\<lambda>c. c\<lparr>tc_flags := tc_flags c OR TALLOC_FLAG_LOOP\<rparr>) s;
        s \<leftarrow> talloc_free_children D (Suc m) p s;
        s \<leftarrow> upd_chunk p (\<lambda>c. c\<lparr>tc_flags := tc_flags c OR TALLOC_FLAG_FREE\<rparr>) s;
        Some (0 :: int, tc_free p s) } = Some (0, s')" "forest s' (detach p K)" "freed {p} ?s s'"
      using free_childless [of ?s K p D m] p(1,5,6) by auto
    have "talloc_free D (Suc (Suc m)) p s = Some (0, s')"
      using p m run False s'(1) by (simp add: comm heap_simps run_destructor_def del: talloc_free_children.simps)
    moreover have "freed {p} (talloc_heap.more_update g s) s'"
      using s'(3) by (auto simp: freed_def fun_eq_iff restrict_map_def)
    ultimately show ?thesis using False s'(2) by auto
  qed
qed

end
