(* ===== verification/Rbtree_Remove.thy ===== *)
theory Rbtree_Remove
  imports Rbtree_Delete_Node Talloc_Free
begin

text \<open>
  Removing an entry: \<open>trbt_delete32\<close> of \<^verbatim>\<open>rbtree.c\<close> frees the entry's node, whose destructor
  takes it out of the tree. The result is the tree \<open>rbt_delete\<close> builds, and no other block is
  freed.
\<close>

section \<open>Live tables\<close>

text \<open>The block of a tree node: no references, the destructor that removes the node from its tree.\<close>

definition node_block :: "trbt_heap \<Rightarrow> ptr \<Rightarrow> bool" where
  "node_block s a \<longleftrightarrow> (\<exists>c. chunks s a = Some c \<and> tc_refs c = NULL \<and> tc_destructor c = node_destructor_id \<and>
     tc_flags c = TALLOC_MAGIC)"

text \<open>
  A table in use: the tree is a red-black tree, every node belongs to the data it stores,
  nothing hangs off a node, and no other part of the program owns the nodes.
\<close>

definition trbt_live :: "trbt_heap \<Rightarrow> ptr \<Rightarrow> ptree \<Rightarrow> (ptr \<Rightarrow> ptr list) \<Rightarrow> bool" where
  "trbt_live s tr t K \<longleftrightarrow> trbt_wf s tr t K \<and> rbt_inv t \<and> no_autofree s tr \<and>
     tr \<notin> set (addrs t) \<and> null_context s \<notin> set (addrs t) \<and>
     (\<forall>(k, a, d) \<in> set (entries t). a \<in> set (K d) \<and> K a = [] \<and> node_block s a)"

lemma trbt_liveD:
  assumes "trbt_live s tr t K"
  shows "trbt_wf s tr t K" "rbt_inv t" "no_autofree s tr" "tr \<notin> set (addrs t)" "null_context s \<notin> set (addrs t)"
    "(k, a, d) \<in> set (entries t) \<Longrightarrow> a \<in> set (K d) \<and> K a = [] \<and> node_block s a"
  using assms by (auto simp: trbt_live_def)

lemma entry_addr: "(k, a, d) \<in> set (entries t) \<Longrightarrow> a \<in> set (addrs t)"
  by (force simp: addrs_def)

lemma addr_entry: "a \<in> set (addrs t) \<Longrightarrow> \<exists>k d. (k, a, d) \<in> set (entries t)"
  by (force simp: addrs_def)

text \<open>No node stores a node: whoever owns a node has a child.\<close>

lemma live_data_no_node:
  assumes "trbt_live s tr t K" "(k, a, d) \<in> set (entries t)"
  shows "d \<notin> set (addrs t)" "d \<in> dom (chunks s)"
proof -
  have "a \<in> set (K d)" using trbt_liveD(6) [OF assms] by simp
  moreover have "K d = []" if "d \<in> set (addrs t)"
    using addr_entry [OF that] trbt_liveD(6) [OF assms(1)] by blast
  ultimately show "d \<notin> set (addrs t)" by auto
  show "d \<in> dom (chunks s)"
    using forest_parent_dom [of "{}" s K a d] \<open>a \<in> set (K d)\<close> trbt_liveD(1) [OF assms(1)] by (auto simp: trbt_wf_def)
qed

section \<open>Removing a node from its tree\<close>

lemma last_entry_in: "last_entry t = Some e \<Longrightarrow> e \<in> set (entries t)"
  by (induction t) (auto split: if_splits)

text \<open>Moving two nodes under the data they store changes no set of children but the removed node's.\<close>

lemma owners_after_delete:
  assumes "b \<in> set (K pd)" "pd \<noteq> a" "pd \<noteq> b" "pd \<noteq> NULL" "\<forall>p q x. x \<in> set (K p) \<longrightarrow> x \<in> set (K q) \<longrightarrow> p = q"
  shows "set (detach a (move_to pd b (move_to pd a K)) p) = set (K p) - {a}"
  using assms by (auto simp: move_to_def attach_def detach_def)

lemma delete_node_correct:
  assumes W: "trbt_wf s tr t K" and inv: "rbt_inv t" and na: "no_autofree s tr" and t: "t = plug z (Node c l k (a, d) r)"
    and own: "\<forall>(k, b, e) \<in> set (entries t). b \<in> set (K e) \<and> K b = []"
  shows "\<exists>s' K'. delete_node free a s = Some s' \<and> tree_at s' tr (delete_root z (Node c l k (a, d) r)) \<and>
    forest s' K' \<and> (\<forall>p. set (detach a K' p) = set (K p) - {a}) \<and> K' a = [] \<and> moved (insert (brk s) (set (addrs t))) tr s s'"
proof -
  have T: "tree_at s tr t" "forest s K" "set (addrs t) \<subseteq> dom (chunks s)" using W by (auto simp: trbt_wf_def)
  have Z: "zip_at s tr z (Node c l k (a, d) r)" using T(1) zip_at_plug [of s tr z] t by simp
  have i: "invc (plug z (Node c l k (a, d) r))" "invh (plug z (Node c l k (a, d) r))" using inv t by (auto simp: rbt_inv_def)
  have brk: "brk s \<notin> set (addrs t)" "brk s \<noteq> NULL" using T(3) forest_brk [OF T(2)] by auto
  have e: "set (entries (Node c l k (a, d) r)) \<subseteq> set (entries t)" by (auto simp: t entries_plug)
  have Ka: "K a = []" using own e by fastforce
  show ?thesis
  proof (cases "l = Leaf \<or> r = Leaf")
    case True
    obtain s' where s': "delete_node free a s = Some s'" "tree_at s' tr (delete_one z (Node c l k (a, d) r))"
        "within (insert (brk s) (set (addrs l @ addrs r @ zaddrs z))) tr s s'"
      using delete_node_one [OF Z True i _ _ na, of free] brk t by auto
    have "delete_root z (Node c l k (a, d) r) = delete_one z (Node c l k (a, d) r)" using True by auto
    moreover have "moved (insert (brk s) (set (addrs t))) tr s s'"
      by (rule within_moved [OF s'(3)]) (auto simp: t addrs_plug)
    moreover have "forest s' K" using T(2) within_forest [OF s'(3)] by simp
    ultimately show ?thesis using s'(1,2) Ka by (intro exI [of _ s'] exI [of _ K]) (simp add: detach_def)
  next
    case False
    obtain pk b pd where le: "last_entry l = Some (pk, b, pd)" using last_entry_Some [of l] False by auto
    then have "(pk, b, pd) \<in> set (entries t)" using last_entry_in e by fastforce
    then have pd: "b \<in> set (K pd)" "K b = []" using own by auto
    have "pd \<in> dom (chunks s)" using forest_parent_dom [OF T(2) pd(1)] .
    then obtain s' where s': "delete_node free a s = Some s'" "tree_at s' tr (delete_root z (Node c l k (a, d) r))"
        "forest s' (move_to pd b (move_to pd a K))" "moved (insert (brk s) (set (addrs t))) tr s s'"
      using delete_node_two [OF Z _ _ i T(2) _ le _ na, of free] False T(3) unfolding t by auto
    have neq: "pd \<noteq> a" "pd \<noteq> b" "pd \<noteq> NULL"
      using pd Ka forest_distinct(2) [OF T(2), of b] \<open>pd \<in> dom (chunks s)\<close> forest_NULL [OF T(2)] by (auto intro!: gr0I)
    have "move_to pd b (move_to pd a K) a = []" using neq Ka by (auto simp: move_to_def attach_def detach_def)
    moreover have "\<forall>p. set (detach a (move_to pd b (move_to pd a K)) p) = set (K p) - {a}"
      using owners_after_delete [of b K pd a, OF pd(1) neq] forest_unique [OF T(2)] by blast
    ultimately show ?thesis using s' by blast
  qed
qed

section \<open>Freeing a node\<close>

text \<open>The allocator and the other trees after a node was freed.\<close>

definition node_removed :: "ptr \<Rightarrow> ptree \<Rightarrow> ptr \<Rightarrow> trbt_heap \<Rightarrow> trbt_heap \<Rightarrow> bool" where
  "node_removed a t tr s s' \<longleftrightarrow>
     map_option block_data \<circ> chunks s' = (map_option block_data \<circ> chunks s) |` (- {a}) \<and>
     (\<forall>h. h \<noteq> a \<longrightarrow> handles s' h = handles s h) \<and> null_context s' = null_context s \<and> malloc_ok s' = malloc_ok s \<and>
     brk s' = brk s \<and>
     (\<forall>x. x \<notin> insert (brk s) (set (addrs t)) \<longrightarrow> nodes s' x = nodes s x) \<and> (\<forall>x. x \<noteq> tr \<longrightarrow> trees s' x = trees s x) \<and>
     map_option t_flags (trees s' tr) = map_option t_flags (trees s tr)"

lemma rbt_inv_delete_root:
  assumes "rbt_inv (plug z (Node c l k d r))"
  shows "rbt_inv (delete_root z (Node c l k d r))"
  using assms delete_root_inv [of z "Node c l k d r"] entries_delete_root [of z c l k d r]
  by (auto simp: rbt_inv_def entries_plug simp del: delete_root.simps)

lemma node_flags: "TALLOC_MAGIC AND TALLOC_FLAG_LOOP = 0"
  by (simp add: TALLOC_MAGIC_def TALLOC_FLAG_LOOP_def)

lemma talloc_free_node:
  assumes L: "trbt_live s tr t K" and t: "t = plug z (Node c l k (a, d) r)" and n: "2 \<le> n"
  shows "\<exists>s' K'. talloc_free trbt_dtor n a s = Some (0, s') \<and> tree_at s' tr (delete_root z (Node c l k (a, d) r)) \<and>
    forest s' K' \<and> (\<forall>p. set (K' p) = set (K p) - {a}) \<and> node_removed a t tr s s'"
proof -
  obtain m where m: "n = Suc (Suc m)" using n by (metis Suc_le_D numeral_2_eq_2 Suc_le_mono)
  have W: "tree_at s tr t" "forest s K" "tr \<in> dom (chunks s)" "set (addrs t) \<subseteq> dom (chunks s)"
    using trbt_liveD(1) [OF L] by (auto simp: trbt_wf_def)
  have e: "(k, a, d) \<in> set (entries t)" by (simp add: t entries_plug)
  obtain c0 where c0: "chunks s a = Some c0" "tc_refs c0 = NULL" "tc_destructor c0 = node_destructor_id"
      "tc_flags c0 = TALLOC_MAGIC" and Ka: "K a = []"
    using trbt_liveD(6) [OF L e] by (auto simp: node_block_def)
  have aN: "a \<noteq> NULL" "null_context s \<noteq> a"
    using c0 forest_NULL [OF W(2)] trbt_liveD(5) [OF L] by (auto simp: t addrs_plug intro!: gr0I)
  define s1 where "s1 = s\<lparr>chunks := (chunks s)(a \<mapsto> c0\<lparr>tc_destructor := D_minus1\<rparr>)\<rparr>"
  have F1: "forest s1 K" unfolding s1_def by (rule forest_upd_data [OF W(2) c0(1)]) (simp_all add: links_def c0)
  have W1: "trbt_wf s1 tr t K" using W F1 c0 by (auto simp: trbt_wf_def s1_def zip_at_def)
  have na1: "no_autofree s1 tr" using trbt_liveD(3) [OF L] by (simp add: no_autofree_def s1_def)
  have own: "\<forall>(k, b, e) \<in> set (entries t). b \<in> set (K e) \<and> K b = []" using trbt_liveD(6) [OF L] by blast
  obtain s2 K2 where s2: "delete_node (talloc_free trbt_dtor (Suc m)) a s1 = Some s2"
      "tree_at s2 tr (delete_root z (Node c l k (a, d) r))" "forest s2 K2" "\<forall>p. set (detach a K2 p) = set (K p) - {a}"
      "K2 a = []" "moved (insert (brk s1) (set (addrs t))) tr s1 s2"
    using delete_node_correct [OF W1 trbt_liveD(2) [OF L] na1 t own] by blast
  have "map_option block_data (chunks s2 a) = map_option block_data (chunks s1 a)"
    using s2(6) by (simp add: moved_def fun_eq_iff)
  then obtain c2 where c2: "chunks s2 a = Some c2" by (auto simp: s1_def)
  define s3 where "s3 = s2\<lparr>chunks := (chunks s2)(a \<mapsto> c2\<lparr>tc_destructor := D_null\<rparr>)\<rparr>"
  have F3: "forest s3 K2" unfolding s3_def
    using forest_chunk [OF s2(3) c2] by (intro forest_upd_data [OF s2(3) c2]) (simp_all add: links_def)
  have nc: "null_context s3 \<noteq> a" using s2(6) aN(2) by (simp add: s3_def moved_def s1_def)
  obtain s4 where s4: "do {
      s \<leftarrow> unlink_chunk a s3;
      s \<leftarrow> upd_chunk a (\<lambda>c. c\<lparr>tc_flags := tc_flags c OR TALLOC_FLAG_LOOP\<rparr>) s;
      s \<leftarrow> talloc_free_children trbt_dtor (Suc m) a s;
      s \<leftarrow> upd_chunk a (\<lambda>c. c\<lparr>tc_flags := tc_flags c OR TALLOC_FLAG_FREE\<rparr>) s;
      Some (0 :: int, tc_free a s) } = Some (0, s4)" "forest s4 (detach a K2)" "freed {a} s3 s4"
    using free_childless [OF F3 _ s2(5) nc, of trbt_dtor m] by (auto simp: s3_def)
  have "run_destructor trbt_dtor (talloc_free trbt_dtor (Suc m)) node_destructor_id a s1 = Some (0, s2)"
    using s2(1) by (simp add: run_destructor_def node_destructor_id_def tree_destructor_id_def trbt_dtor_def node_destructor_def)
  then have "talloc_free trbt_dtor n a s = Some (0, s4)"
    using c0 aN(1) c2 s4(1) unfolding m talloc_free.simps(2)
    by (simp add: heap_simps node_flags node_destructor_id_def s1_def s3_def)
  moreover have eq: "nodes s4 = nodes s2" "trees s4 = trees s2"
    using freed_frame(4) [OF s4(3)] more_eqD [of s4 s3] by (simp_all add: s3_def)
  moreover have "node_removed a t tr s s4"
  proof -
    have "(map_option block_data \<circ> chunks s3) |` (- {a}) = (map_option block_data \<circ> chunks s) |` (- {a})"
      using s2(6) by (auto simp: moved_def s3_def s1_def fun_eq_iff restrict_map_def)
    then show ?thesis using s4(3) s2(6) eq by (auto simp: node_removed_def freed_def moved_def s3_def s1_def)
  qed
  ultimately show ?thesis using s2(2,4) s4(2) zip_at_cong [OF eq] by auto
qed

section \<open>Removal keeps a table live\<close>

lemma node_block_cong:
  "map_option block_data (chunks s' a) = map_option block_data (chunks s a) \<Longrightarrow> node_block s' a = node_block s a"
  by (cases "chunks s a"; cases "chunks s' a") (auto simp: node_block_def block_data_def)

lemma node_removed_block:
  assumes "node_removed a t tr s s'" "p \<noteq> a"
  shows "map_option block_data (chunks s' p) = map_option block_data (chunks s p)"
  using assms by (auto simp: node_removed_def fun_eq_iff restrict_map_def)

lemma node_removed_dom: "node_removed a t tr s s' \<Longrightarrow> dom (chunks s') = dom (chunks s) - {a}"
proof -
  assume "node_removed a t tr s s'"
  then have "dom (map_option block_data \<circ> chunks s') = dom (map_option block_data \<circ> chunks s) - {a}"
    by (auto simp: node_removed_def)
  then show ?thesis by (simp add: dom_block_data)
qed

lemma addrs_distinct: "tree_at s tr t \<Longrightarrow> distinct (addrs t)"
  by (simp add: zip_at_def)

lemma trbt_live_removed:
  assumes L: "trbt_live s tr t K" and t: "t = plug z (Node c l k (a, d) r)"
    and u: "u = delete_root z (Node c l k (a, d) r)" and s': "tree_at s' tr u" "forest s' K'" "\<forall>p. set (K' p) = set (K p) - {a}"
      "node_removed a t tr s s'"
  shows "trbt_live s' tr u K'"
proof -
  have et: "entries u = before z @ entries l @ entries r @ after z" unfolding u by (rule entries_delete_root)
  have T: "tree_at s tr t" "set (addrs t) \<subseteq> dom (chunks s)" "tr \<in> dom (chunks s)"
    using trbt_liveD(1) [OF L] by (auto simp: trbt_wf_def)
  have sub: "e \<in> set (entries t)" "fst (snd e) \<noteq> a" if "e \<in> set (entries u)" for e
  proof -
    show in_t: "e \<in> set (entries t)" using that unfolding et t entries_plug by auto
    have "distinct (addrs t)" using addrs_distinct [OF T(1)] .
    then have "a \<notin> (fst \<circ> snd) ` set (entries u)" unfolding et by (auto simp: t addrs_def entries_plug)
    then show "fst (snd e) \<noteq> a" using that by auto
  qed
  have A: "set (addrs u) \<subseteq> set (addrs t)" "a \<notin> set (addrs u)" using sub by (auto simp: addrs_def) blast
  have "a \<in> set (addrs t)" by (simp add: t addrs_plug)
  then have "tr \<noteq> a" using trbt_liveD(4) [OF L] by auto
  have own: "b \<in> set (K' e) \<and> K' b = [] \<and> node_block s' b" if "(k', b, e) \<in> set (entries u)" for k' b e
  proof -
    have b: "b \<noteq> a" "(k', b, e) \<in> set (entries t)" using sub [OF that] by auto
    then have "b \<in> set (K e)" "K b = []" "node_block s b" using trbt_liveD(6) [OF L] by auto
    moreover have "node_block s' b = node_block s b"
      using node_removed_block [OF s'(4) b(1)] by (rule node_block_cong)
    moreover have "K' b = []" using s'(3) \<open>K b = []\<close> by (metis Diff_empty empty_Diff empty_set set_empty2)
    ultimately show ?thesis using b(1) s'(3) by auto
  qed
  have "rbt_inv u" unfolding u using trbt_liveD(2) [OF L] t by (intro rbt_inv_delete_root) simp
  moreover have "no_autofree s' tr"
    using no_autofree_flags [OF _ trbt_liveD(3) [OF L], of s'] s'(4) by (simp add: node_removed_def)
  moreover have "null_context s' = null_context s" using s'(4) by (simp add: node_removed_def)
  moreover have "trbt_wf s' tr u K'"
    using s'(1,2) T A node_removed_dom [OF s'(4)] \<open>tr \<noteq> a\<close> unfolding trbt_wf_def by auto
  ultimately show ?thesis
    using A trbt_liveD(4,5) [OF L] own unfolding trbt_live_def by fastforce
qed

theorem trbt_delete32_correct:
  assumes L: "trbt_live s tr t K" and n: "2 \<le> n"
  shows "\<exists>s' K'. trbt_delete32 n tr key s = Some s' \<and> trbt_live s' tr (rbt_delete key t) K' \<and>
    (case rbt_lookup t key of
       None \<Rightarrow> s' = s \<and> K' = K
     | Some (a, d) \<Rightarrow> node_removed a t tr s s' \<and> (\<forall>p. set (K' p) = set (K p) - {a}))"
proof -
  have T: "tree_at s tr t" using trbt_liveD(1) [OF L] by (simp add: trbt_wf_def)
  obtain T' where T': "trees s tr = Some T'" "t_root T' = root_ptr t" "shape (nodes s) tr NULL t"
    using T by (auto simp: zip_at_def)
  obtain z t' where sk: "seek key [] t = (z, t')" by force
  note find = find_node_correct [OF T'(3), of key]
  show ?thesis
  proof (cases t')
    case Leaf
    then have "rbt_lookup t key = None" "rbt_delete key t = t"
      using seek_lookup [OF sk] seek_plug [OF sk] sk by (simp_all add: rbt_delete_def)
    with T' find L show ?thesis by (auto simp: trbt_delete32_def)
  next
    case (Node c l k d r)
    obtain a e where d: "d = (a, e)" by (cases d)
    have look: "rbt_lookup t key = Some (a, e)" and del: "rbt_delete key t = delete_root z (Node c l k (a, e) r)"
      and t: "t = plug z (Node c l k (a, e) r)"
      using seek_lookup [OF sk] seek_plug [OF sk] sk by (simp_all add: rbt_delete_def Node d)
    obtain s' K' where s': "talloc_free trbt_dtor n a s = Some (0, s')" "tree_at s' tr (rbt_delete key t)"
        "forest s' K'" "\<forall>p. set (K' p) = set (K p) - {a}" "node_removed a t tr s s'"
      using talloc_free_node [OF L t n] unfolding del by blast
    have "a \<noteq> NULL" using shape_addrs_NULL [OF T'(3)] by (auto simp: t addrs_plug intro!: gr0I)
    then have "trbt_delete32 n tr key s = Some s'"
      using T' find look s'(1) by (simp add: trbt_delete32_def)
    moreover have "trbt_live s' tr (rbt_delete key t) K'"
      by (rule trbt_live_removed [OF L t del s'(2-5)])
    ultimately show ?thesis using s'(4,5) look by auto
  qed
qed

end
