(* ===== verification/Rbtree_Session.thy ===== *)
theory Rbtree_Session
  imports Rbtree_Insert
begin

text \<open>
  Whole sessions with a table of \<^verbatim>\<open>rbtree.c\<close>: create a tree, insert any sequence of entries,
  look any key up. The tree stays a red-black tree, and a lookup returns the data last
  inserted for the key.
\<close>

section \<open>Creating a tree\<close>

lemma trbt_create_correct:
  assumes F: "forest s K" and ctx: "context_of memctx s = NULL \<or> context_of memctx s \<in> dom (chunks s)"
    and ok: "malloc_ok s (brk s)"
  shows "\<exists>s'. trbt_create memctx flags s = Some (brk s, s') \<and>
    trbt_wf s' (brk s) Leaf (alloc_under (context_of memctx s) (brk s) K) \<and>
    trees s' = (trees s)(brk s \<mapsto> \<lparr>t_root = NULL, t_flags = flags\<rparr>) \<and> nodes s' = nodes s \<and> heap_kept s s'"
proof -
  let ?b = "brk s" and ?K = "alloc_under (context_of memctx s) (brk s) K"
  have b: "?b \<noteq> NULL" using forest_brk [OF F] by simp
  obtain s1 where s1: "talloc_named_const memctx 16 (Name ''trbt_tree_t'') s = Some (?b, s1)" "forest s1 ?K"
      "allocates ?b (NULL, D_null, Name ''trbt_tree_t'', 16, TALLOC_MAGIC) s s1"
    using talloc_named_const_forest [OF F ctx _ ok, of 16 "Name ''trbt_tree_t''"]
    by (auto simp: MAX_TALLOC_SIZE_def)
  have more: "nodes s1 = nodes s" "trees s1 = trees s" and mok: "malloc_ok s1 = malloc_ok s"
    using s1(3) more_eqD [of s1 s] by (simp_all add: allocates_def)
  have dom1: "dom (chunks s1) = insert ?b (dom (chunks s))" by (rule allocates_dom [OF s1(3)])
  then obtain c where c: "chunks s1 ?b = Some c" by auto
  have mc: "magic_ok (tc_flags c)" using forest_chunk [OF s1(2) c] by simp
  define s2 where "s2 = s1\<lparr>chunks := (chunks s1)(?b \<mapsto> c\<lparr>tc_destructor := tree_destructor_id\<rparr>),
    trees := (trees s1)(?b \<mapsto> \<lparr>t_root = NULL, t_flags = flags\<rparr>)\<rparr>"
  have "trbt_create memctx flags s = Some (?b, s2)"
    using s1(1) b c mc
    by (simp add: trbt_create_def talloc_zero_def talloc_set_destructor_def heap_simps s2_def)
  moreover have "forest s2 ?K"
  proof -
    have "forest (s1\<lparr>chunks := (chunks s1)(?b \<mapsto> c\<lparr>tc_destructor := tree_destructor_id\<rparr>)\<rparr>) ?K"
      by (rule forest_upd_data [OF s1(2) c]) (simp_all add: links_def mc)
    then show ?thesis by (simp add: s2_def)
  qed
  ultimately show ?thesis
    using more mok dom1 b by (auto simp: s2_def trbt_wf_def zip_at_def heap_kept_def)
qed

section \<open>Many insertions\<close>

fun insert_all :: "ptr \<Rightarrow> (u32 \<times> ptr) list \<Rightarrow> trbt_heap \<Rightarrow> trbt_heap option" where
  "insert_all tr [] s = Some s"
| "insert_all tr ((key, data) # kds) s = do {
     (_, s) \<leftarrow> trbt_insert32 tr key data s;
     insert_all tr kds s }"

lemma insert_all_correct:
  assumes "trbt_wf s tr t K" "rbt_inv t" "snd ` set kds \<subseteq> dom (chunks s)" "\<forall>p. malloc_ok s p"
  shows "\<exists>s' t' K'. insert_all tr kds s = Some s' \<and> trbt_wf s' tr t' K' \<and> rbt_inv t' \<and>
    dom (rbt_lookup t') = fst ` set kds \<union> dom (rbt_lookup t) \<and>
    data_of t' = (\<lambda>key. case map_of (rev kds) key of None \<Rightarrow> data_of t key | Some d \<Rightarrow> d)"
  using assms
proof (induction kds arbitrary: s t K)
  case (Cons kd kds)
  obtain key data where kd: "kd = (key, data)" by (cases kd)
  obtain s1 where s1: "trbt_insert32 tr key data s = Some (data_of t key, s1)"
      "trbt_wf s1 tr (rbt_insert key (store (brk s) data) t) (owner_after t tr key data s K)" "heap_kept s s1"
    using trbt_insert32_correct [OF Cons.prems(1), of data key] Cons.prems(3,4) by (auto simp: kd)
  have "snd ` set kds \<subseteq> dom (chunks s)" using Cons.prems(3) by simp
  also have "\<dots> \<subseteq> dom (chunks s1)" using s1(3) by (simp add: heap_kept_def)
  finally have data: "snd ` set kds \<subseteq> dom (chunks s1)" .
  have "\<forall>p. malloc_ok s1 p" using Cons.prems(4) s1(3) by (simp add: heap_kept_def)
  from Cons.IH [OF s1(2) rbt_insert_inv [OF Cons.prems(2)] data this]
  obtain s' t' K' where I: "insert_all tr kds s1 = Some s'" "trbt_wf s' tr t' K'" "rbt_inv t'"
      "dom (rbt_lookup t') = fst ` set kds \<union> dom (rbt_lookup (rbt_insert key (store (brk s) data) t))"
    and d: "data_of t' = (\<lambda>k. case map_of (rev kds) k of
      None \<Rightarrow> data_of (rbt_insert key (store (brk s) data) t) k | Some d \<Rightarrow> d)"
    by blast
  have "data_of t' = (\<lambda>k. case map_of (rev (kd # kds)) k of None \<Rightarrow> data_of t k | Some d \<Rightarrow> d)"
    unfolding d using data_of_insert [OF Cons.prems(2), of key "brk s" data]
    by (auto simp: kd map_add_def split: option.splits)
  moreover have "insert_all tr (kd # kds) s = Some s'" using s1(1) I(1) by (simp add: kd)
  moreover have "dom (rbt_lookup t') = fst ` set (kd # kds) \<union> dom (rbt_lookup t)"
    using I(4) Cons.prems(2) by (simp add: rbt_lookup_insert kd)
  ultimately show ?case using I(2,3) by blast
next
  case Nil
  then show ?case by (intro exI [of _ s] exI [of _ t] exI [of _ K]) simp
qed

section \<open>A session\<close>

text \<open>The allocator before anything is allocated.\<close>

definition empty_heap :: trbt_heap where
  "empty_heap = \<lparr>chunks = Map.empty, handles = Map.empty, null_context = NULL, malloc_ok = (\<lambda>_. True),
     brk = 1, nodes = Map.empty, trees = Map.empty\<rparr>"

lemma forest_empty_heap: "forest empty_heap (\<lambda>_. [])"
  by (simp add: forest_but_def empty_heap_def)

definition session :: "ptr \<Rightarrow> u32 \<Rightarrow> (u32 \<times> ptr) list \<Rightarrow> trbt_heap \<Rightarrow> (ptr \<times> trbt_heap) option" where
  "session memctx flags kds s = do {
     (tr, s) \<leftarrow> trbt_create memctx flags s;
     s \<leftarrow> insert_all tr kds s;
     Some (tr, s) }"

lemma session_correct:
  assumes F: "forest s K" and ctx: "context_of memctx s = NULL \<or> context_of memctx s \<in> dom (chunks s)"
    and data: "snd ` set kds \<subseteq> dom (chunks s)" and ok: "\<forall>p. malloc_ok s p"
  shows "\<exists>tr s' t K'. session memctx flags kds s = Some (tr, s') \<and> trbt_wf s' tr t K' \<and> rbt_inv t \<and>
    dom (rbt_lookup t) = fst ` set kds \<and>
    (\<forall>key. trbt_lookup32 tr key s' = Some (case map_of (rev kds) key of None \<Rightarrow> NULL | Some d \<Rightarrow> d))"
proof -
  have ok0: "malloc_ok s (brk s)" using ok by simp
  obtain s1 where s1: "trbt_create memctx flags s = Some (brk s, s1)"
      "trbt_wf s1 (brk s) Leaf (alloc_under (context_of memctx s) (brk s) K)" "heap_kept s s1"
    using trbt_create_correct [OF F ctx ok0, of flags] by blast
  have d1: "snd ` set kds \<subseteq> dom (chunks s1)" and ok1: "\<forall>p. malloc_ok s1 p"
    using subset_trans [OF data, of "dom (chunks s1)"] s1(3) ok by (simp_all add: heap_kept_def)
  have leaf: "rbt_inv (Leaf :: ptree)" by (simp add: rbt_inv_def)
  obtain s2 t K2 where s2: "insert_all (brk s) kds s1 = Some s2" "trbt_wf s2 (brk s) t K2" "rbt_inv t"
      "dom (rbt_lookup t) = fst ` set kds \<union> dom (rbt_lookup (Leaf :: ptree))"
      "data_of t = (\<lambda>key. case map_of (rev kds) key of None \<Rightarrow> data_of Leaf key | Some d \<Rightarrow> d)"
    using insert_all_correct [OF s1(2) leaf d1 ok1] by blast
  have "trbt_lookup32 (brk s) key s2 = Some (case map_of (rev kds) key of None \<Rightarrow> NULL | Some d \<Rightarrow> d)" for key
    using trbt_lookup32_correct [of s2 "brk s" t key] s2(2,5) by (simp add: trbt_wf_def data_of_def split: option.split)
  moreover have "session memctx flags kds s = Some (brk s, s2)" using s1(1) s2(1) by (simp add: session_def)
  moreover have "dom (rbt_lookup t) = fst ` set kds" using s2(4) by (simp add: dom_def)
  ultimately show ?thesis using s2(2,3) by blast
qed

text \<open>A small heap for examples: two blocks, at 1 and 2, without parent or children.\<close>

definition loose_chunk :: talloc_chunk where
  "loose_chunk = \<lparr>tc_next = NULL, tc_prev = NULL, tc_parent = NULL, tc_child = NULL, tc_refs = NULL,
     tc_destructor = D_null, tc_name = NoName, tc_size = 8, tc_flags = TALLOC_MAGIC\<rparr>"

definition two_blocks :: trbt_heap where
  "two_blocks = empty_heap\<lparr>brk := 3, chunks := [1 \<mapsto> loose_chunk, 2 \<mapsto> loose_chunk]\<rparr>"

lemma forest_two_blocks: "forest two_blocks (\<lambda>_. [])"
  by (auto simp: forest_but_def two_blocks_def empty_heap_def loose_chunk_def links_def split: if_splits)

lemma two_blocks_simps [simp]:
  "dom (chunks two_blocks) = {1, 2}" "malloc_ok two_blocks p" "null_context two_blocks = NULL" "brk two_blocks = 3"
  by (auto simp: two_blocks_def empty_heap_def)

text \<open>The number of nodes and the height of the tree a session builds.\<close>

lemma data_of_dom:
  assumes "rbt_inv t"
  shows "length (entries t) = card (dom (rbt_lookup t))"
proof -
  have "rbt_lookup t = map_of (entries t)" "distinct (map fst (entries t))"
    using assms by (auto simp: rbt_inv_def rbt_lookup_map_of sorted1_def strict_sorted_iff)
  then show ?thesis by (simp add: dom_map_of_conv_image_fst distinct_card flip: set_map)
qed

end
