(* ===== verification/Rbt_Table.thy ===== *)
theory Rbt_Table
  imports Rbt_Spec
begin

text \<open>
  What the rest of the program relies on when it uses \<open>trbt_insert32\<close> and \<open>trbt_lookup32\<close> as a
  table, as a contract, and its proof for the red-black trees.
\<close>

locale lookup_table =
  fixes empty :: 't
    and ins :: "'k \<Rightarrow> 'd \<Rightarrow> 't \<Rightarrow> 't"
    and look :: "'t \<Rightarrow> 'k \<Rightarrow> 'd option"
    and inv :: "'t \<Rightarrow> bool"
    and items :: "'t \<Rightarrow> ('k \<times> 'd) list"
  assumes inv_empty: "inv empty"
    and look_empty: "look empty k = None"
    and inv_ins: "inv t \<Longrightarrow> inv (ins k d t)"
    and look_ins: "inv t \<Longrightarrow> look (ins k d t) = (look t)(k \<mapsto> d)"
    and look_items: "inv t \<Longrightarrow> look t = map_of (items t)"
    and keys_distinct: "inv t \<Longrightarrow> distinct (map fst (items t))"
begin

lemma ran_ins: "inv t \<Longrightarrow> ran (look (ins k d t)) \<subseteq> insert d (ran (look t))"
  by (auto simp: look_ins ran_def split: if_splits)

lemma dom_ins: "inv t \<Longrightarrow> dom (look (ins k d t)) = insert k (dom (look t))"
  by (simp add: look_ins)

lemma ran_items: "inv t \<Longrightarrow> ran (look t) = snd ` set (items t)"
  using keys_distinct by (simp add: look_items ran_distinct)

text \<open>A sequence of insertions: the last value for a key wins.\<close>

lemma fold_ins:
  "inv t \<Longrightarrow> inv (fold (\<lambda>(k, d). ins k d) kds t) \<and>
     look (fold (\<lambda>(k, d). ins k d) kds t) = look t ++ map_of (rev kds)"
proof (induction kds arbitrary: t)
  case (Cons kd kds)
  obtain k d where kd: "kd = (k, d)" by (cases kd)
  show ?case using Cons.IH [OF inv_ins [OF Cons.prems, of k d]] Cons.prems
    by (simp add: kd look_ins map_add_upd_left map_add_assoc [symmetric] map_add_def fun_eq_iff split: option.splits)
qed simp

end

interpretation rbt_table: lookup_table Leaf "\<lambda>k d. rbt_insert k (\<lambda>_. d)" rbt_lookup rbt_inv entries
proof
  show "rbt_inv t \<Longrightarrow> distinct (map fst (entries t))" for t :: "'d rbt"
    by (simp add: rbt_inv_def sorted1_def strict_sorted_iff)
  show "rbt_inv t \<Longrightarrow> rbt_lookup t = map_of (entries t)" for t :: "'d rbt"
    by (auto simp: rbt_inv_def rbt_lookup_map_of)
  show "rbt_inv (Leaf :: 'd rbt)" by (simp add: rbt_inv_def)
qed (simp_all add: rbt_insert_inv rbt_lookup_insert)

end
