(* ===== verification/Rbt_Dictionary.thy ===== *)
theory Rbt_Dictionary
  imports Rbt_Table Rbt_Delete_Spec
begin

text \<open>
  The contract of a table with removal, and what any sequence of insertions and removals
  amounts to; the trees of \<open>Rbt_Spec\<close> fulfil it.
\<close>

datatype ('k, 'd) table_op = Insert 'k 'd | Delete 'k

fun op_map :: "('k, 'd) table_op \<Rightarrow> ('k \<rightharpoonup> 'd) \<Rightarrow> ('k \<rightharpoonup> 'd)" where
  "op_map (Insert k d) m = m(k \<mapsto> d)"
| "op_map (Delete k) m = m(k := None)"

fun op_tree :: "(u32, 'd) table_op \<Rightarrow> 'd rbt \<Rightarrow> 'd rbt" where
  "op_tree (Insert k d) t = rbt_insert k (\<lambda>_. d) t"
| "op_tree (Delete k) t = rbt_delete k t"

locale dictionary = lookup_table empty ins look inv items
  for empty :: 't and ins :: "'k \<Rightarrow> 'd \<Rightarrow> 't \<Rightarrow> 't" and look :: "'t \<Rightarrow> 'k \<Rightarrow> 'd option"
    and inv :: "'t \<Rightarrow> bool" and items :: "'t \<Rightarrow> ('k \<times> 'd) list" +
  fixes del :: "'k \<Rightarrow> 't \<Rightarrow> 't"
  assumes inv_del: "inv t \<Longrightarrow> inv (del k t)"
    and look_del: "inv t \<Longrightarrow> look (del k t) = (look t)(k := None)"
begin

lemma history:
  assumes "\<And>k d t. step (Insert k d) t = ins k d t" "\<And>k t. step (Delete k) t = del k t" "inv t"
  shows "inv (fold step ops t) \<and> look (fold step ops t) = fold op_map ops (look t)"
  using assms(3)
proof (induction ops arbitrary: t)
  case (Cons x ops)
  have "inv (step x t) \<and> look (step x t) = op_map x (look t)"
    using Cons.prems by (cases x) (simp_all add: assms(1,2) inv_ins look_ins inv_del look_del)
  with Cons.IH [of "step x t"] show ?case by simp
qed simp

lemma del_absent: "inv t \<Longrightarrow> look t k = None \<Longrightarrow> look (del k t) = look t"
  by (auto simp: look_del)

lemma ins_del: "inv t \<Longrightarrow> look (ins k d (del k t)) = look (ins k d t)"
  by (simp add: look_ins look_del inv_del)

end

interpretation rbt_dict: dictionary Leaf "\<lambda>k d. rbt_insert k (\<lambda>_. d)" rbt_lookup rbt_inv entries rbt_delete
  by unfold_locales (simp_all add: rbt_delete_inv rbt_lookup_delete)

lemma op_tree_history:
  assumes "rbt_inv t"
  shows "rbt_inv (fold op_tree ops t) \<and> rbt_lookup (fold op_tree ops t) = fold op_map ops (rbt_lookup t)"
  by (rule rbt_dict.history [OF _ _ assms]) simp_all

end
