(* ===== verification/Rbtree_History.thy ===== *)
theory Rbtree_History
  imports Rbtree_Remove Rbtree_Session Rbt_Dictionary
begin

text \<open>
  Any sequence of insertions and removals on a table of \<^verbatim>\<open>rbtree.c\<close>: the tree in the heap is
  at every moment the tree the specification builds from the same sequence.
\<close>

section \<open>Insertion keeps a table live\<close>

lemma entries_lookup: "rbt_inv t \<Longrightarrow> (k, d) \<in> set (entries t) \<longleftrightarrow> rbt_lookup t k = Some d"
  using rbt_table.look_items [of t] rbt_table.keys_distinct [of t] by simp

lemma owner_new:
  assumes F: "forest s K" and data: "data \<in> dom (chunks s)"
  shows "move_to data (brk s) (attach tr (brk s) K) = K(data := brk s # K data)"
proof -
  have b: "brk s \<notin> set (K p)" for p using forest_fresh [OF F] by simp
  have "data \<noteq> NULL" "data \<noteq> brk s" using data forest_NULL [OF F] forest_brk(2) [OF F] by (auto intro!: gr0I)
  moreover have "detach (brk s) (attach tr (brk s) K) = K"
    using b by (auto simp: detach_def attach_def fun_eq_iff removeAll_id)
  ultimately show ?thesis by (simp add: move_to_def attach_def)
qed

lemma node_created_block:
  assumes "node_created s s'" "p \<noteq> brk s"
  shows "map_option block_data (chunks s' p) = map_option block_data (chunks s p)"
  using assms by (auto simp: node_created_def fun_eq_iff)

lemma node_created_new: "node_created s s' \<Longrightarrow> node_block s' (brk s)"
proof -
  assume "node_created s s'"
  then have "map_option block_data (chunks s' (brk s)) = Some (NULL, node_destructor_id, Name ''trbt_node_t'', 48, TALLOC_MAGIC)"
    by (auto simp: node_created_def fun_eq_iff)
  then show ?thesis by (auto simp: node_block_def block_data_def)
qed

lemma insert_blocks_frame:
  assumes "insert_blocks t key s s'"
  shows "null_context s' = null_context s"
    "p \<noteq> brk s \<Longrightarrow> map_option block_data (chunks s' p) = map_option block_data (chunks s p)"
proof -
  have *: "node_created s s' \<or> same_blocks (s\<lparr>nodes := nodes s', trees := trees s'\<rparr>) s'"
    using assms by (cases "rbt_lookup t key") (auto simp: insert_blocks_def)
  then show "null_context s' = null_context s" by (auto simp: node_created_def same_blocks_def)
  show "map_option block_data (chunks s' p) = map_option block_data (chunks s p)" if "p \<noteq> brk s"
    using * node_created_block [of s s' p] that by (auto simp: same_blocks_def fun_eq_iff)
qed

lemma lookup_addr: "rbt_inv t \<Longrightarrow> rbt_lookup t k = Some (a, d) \<Longrightarrow> a \<in> set (addrs t)"
  using entry_addr [of k a d t] entries_lookup [of t k "(a, d)"] by simp

lemma addrs_unique:
  assumes "distinct (addrs t)" "(k, a, d) \<in> set (entries t)" "(k', a, d') \<in> set (entries t)"
  shows "k' = k"
proof -
  have "inj_on (fst \<circ> snd) (set (entries t))" using assms(1) by (simp add: addrs_def distinct_map)
  from inj_onD [OF this, of "(k, a, d)" "(k', a, d')"] show ?thesis using assms(2,3) by simp
qed

text \<open>Every entry of the tree after an insertion is the new one or an old one.\<close>

lemma insert_entry:
  assumes "rbt_inv t" "(k, a, e) \<in> set (entries (rbt_insert key (store b data) t))"
  shows "if k = key then e = data \<and> a = (case rbt_lookup t key of None \<Rightarrow> b | Some d \<Rightarrow> fst d)
    else (k, a, e) \<in> set (entries t)"
  using assms(2) rbt_insert_inv [OF assms(1)]
  by (auto simp: entries_lookup assms(1) rbt_lookup_insert store_def split: option.splits if_splits)

lemma insert_addrs:
  assumes "rbt_inv t"
  shows "set (addrs (rbt_insert key (store b data) t)) \<subseteq> insert b (set (addrs t))"
proof
  fix a assume "a \<in> set (addrs (rbt_insert key (store b data) t))"
  then obtain k d where "(k, a, d) \<in> set (entries (rbt_insert key (store b data) t))" using addr_entry by blast
  from insert_entry [OF assms this] show "a \<in> insert b (set (addrs t))"
    by (auto simp: entries_lookup assms dest: lookup_addr [OF assms] split: if_splits option.splits)
qed

lemma insert_owned:
  assumes L: "trbt_live s tr t K" and data: "data \<in> dom (chunks s)" "data \<notin> set (addrs t)"
    and ib: "insert_blocks t key s s'" and e: "(k, a, e) \<in> set (entries (rbt_insert key (store (brk s) data) t))"
  shows "a \<in> set (owner_after t tr key data s K e) \<and> owner_after t tr key data s K a = [] \<and> node_block s' a"
proof -
  have W: "forest s K" "tree_at s tr t" "set (addrs t) \<subseteq> dom (chunks s)"
    using trbt_liveD(1) [OF L] by (auto simp: trbt_wf_def)
  have old: "node_block s' x = node_block s x" if "x \<in> set (addrs t)" for x
    using insert_blocks_frame(2) [OF ib, of x] that W(3) forest_brk(2) [OF W(1)] by (intro node_block_cong) auto
  note en = insert_entry [OF trbt_liveD(2) [OF L] e]
  have keep: "x \<in> set (K y) \<and> K x = [] \<and> node_block s' x \<and> x \<noteq> data" if "(j, x, y) \<in> set (entries t)" for j x y
    using trbt_liveD(6) [OF L that] old [OF entry_addr [OF that]] entry_addr [OF that] data(2) by auto
  show ?thesis
  proof (cases "rbt_lookup t key")
    case None
    have K: "owner_after t tr key data s K = K(data := brk s # K data)"
      using None owner_new [OF W(1) data(1)] by (simp add: owner_after_def)
    show ?thesis
    proof (cases "k = key")
      case True
      have "node_created s s'" using ib None by (simp add: insert_blocks_def)
      with True en None K forest_fresh [OF W(1)] forest_brk(2) [OF W(1)] data(1) show ?thesis
        by (auto simp: node_created_new)
    next
      case False
      with en keep K show ?thesis by auto
    qed
  next
    case (Some d0)
    have d0: "(key, fst d0, snd d0) \<in> set (entries t)" using Some by (simp add: entries_lookup trbt_liveD(2) [OF L])
    have "data \<noteq> NULL" using data(1) forest_NULL [OF W(1)] by (auto intro!: gr0I)
    then have K: "owner_after t tr key data s K = attach data (fst d0) (detach (fst d0) K)"
      using Some keep [OF d0] by (auto simp: owner_after_def move_to_def)
    show ?thesis
    proof (cases "k = key")
      case True
      with en Some K keep [OF d0] show ?thesis by (auto simp: attach_def detach_def)
    next
      case False
      then have "(k, a, e) \<in> set (entries t)" using en by simp
      moreover have "a \<noteq> fst d0" using addrs_unique [OF addrs_distinct [OF W(2)] d0] False calculation by blast
      ultimately show ?thesis using keep K by (auto simp: attach_def detach_def)
    qed
  qed
qed

lemma trbt_insert32_live:
  assumes L: "trbt_live s tr t K" and data: "data \<in> dom (chunks s)" "data \<notin> set (addrs t)" and ok: "malloc_ok s (brk s)"
  shows "\<exists>s' K'. trbt_insert32 tr key data s = Some (data_of t key, s') \<and>
    trbt_live s' tr (rbt_insert key (store (brk s) data) t) K' \<and> insert_blocks t key s s'"
proof -
  let ?t = "rbt_insert key (store (brk s) data) t" and ?K = "owner_after t tr key data s K"
  have W: "trbt_wf s tr t K" "rbt_inv t" "forest s K" "tr \<in> dom (chunks s)"
    using trbt_liveD [OF L] by (auto simp: trbt_wf_def)
  obtain s' where s': "trbt_insert32 tr key data s = Some (data_of t key, s')" "trbt_wf s' tr ?t ?K"
      "inserted_frame t tr s s'" "insert_blocks t key s s'"
    using trbt_insert32_blocks [OF W(1) data(1) ok] by blast
  note A = insert_addrs [OF W(2), of key "brk s" data]
  have "null_context s \<noteq> brk s" using forest_null_context [OF W(3)] forest_brk [OF W(3)] by auto
  then have "null_context s' \<notin> set (addrs ?t)" "tr \<notin> set (addrs ?t)"
    using A trbt_liveD(4,5) [OF L] insert_blocks_frame(1) [OF s'(4)] W(4) forest_brk(2) [OF W(3)] by auto
  moreover have "no_autofree s' tr"
    using no_autofree_flags [OF _ trbt_liveD(3) [OF L], of s'] s'(3) by (simp add: inserted_frame_def)
  ultimately have "trbt_live s' tr ?t ?K"
    using s'(2) rbt_insert_inv [OF W(2)] insert_owned [OF L data s'(4)] unfolding trbt_live_def by blast
  with s'(1,4) show ?thesis by blast
qed

section \<open>Histories\<close>

fun run_op :: "nat \<Rightarrow> ptr \<Rightarrow> (u32, ptr) table_op \<Rightarrow> trbt_heap \<Rightarrow> trbt_heap option" where
  "run_op n tr (Insert k d) s = do { (_, s) \<leftarrow> trbt_insert32 tr k d s; Some s }"
| "run_op n tr (Delete k) s = trbt_delete32 n tr k s"

fun run_ops :: "nat \<Rightarrow> ptr \<Rightarrow> (u32, ptr) table_op list \<Rightarrow> trbt_heap \<Rightarrow> trbt_heap option" where
  "run_ops n tr [] s = Some s"
| "run_ops n tr (x # xs) s = do { s \<leftarrow> run_op n tr x s; run_ops n tr xs s }"

fun op_data :: "(u32, ptr) table_op \<Rightarrow> ptr set" where
  "op_data (Insert k d) = {d}"
| "op_data (Delete k) = {}"

text \<open>The client's side of the bargain: the data it inserts is allocated and is no node of the table.\<close>

definition client_data :: "ptr set \<Rightarrow> trbt_heap \<Rightarrow> ptree \<Rightarrow> bool" where
  "client_data D s t \<longleftrightarrow> D \<subseteq> dom (chunks s) \<and> D \<inter> set (addrs t) = {} \<and> (\<forall>p. malloc_ok s p)"

lemma run_op_correct:
  assumes L: "trbt_live s tr t K" and D: "client_data D s t" "op_data x \<subseteq> D" and n: "2 \<le> n"
  shows "\<exists>s' t' K'. run_op n tr x s = Some s' \<and> trbt_live s' tr t' K' \<and> client_data D s' t' \<and>
    map_rbt snd t' = op_tree x (map_rbt snd t)"
proof (cases x)
  case (Insert k d)
  have W: "forest s K" "rbt_inv t" using trbt_liveD(1,2) [OF L] by (auto simp: trbt_wf_def)
  have d: "d \<in> dom (chunks s)" "d \<notin> set (addrs t)" "malloc_ok s (brk s)" using D by (auto simp: client_data_def Insert)
  obtain s' K' where s': "trbt_insert32 tr k d s = Some (data_of t k, s')"
      "trbt_live s' tr (rbt_insert k (store (brk s) d) t) K'" "insert_blocks t k s s'"
    using trbt_insert32_live [OF L d] by blast
  have "map_rbt snd (rbt_insert k (store (brk s) d) t) = rbt_insert k (\<lambda>_. d) (map_rbt snd t)"
    by (rule map_rbt_insert) (simp_all add: store_def)
  moreover have "D \<inter> set (addrs (rbt_insert k (store (brk s) d) t)) = {}"
  proof -
    have "brk s \<notin> D" using D forest_brk(2) [OF W(1)] by (auto simp: client_data_def)
    with insert_addrs [OF W(2), of k "brk s" d] D show ?thesis by (auto simp: client_data_def)
  qed
  moreover have "D \<subseteq> dom (chunks s')"
  proof -
    have "dom (chunks s) \<subseteq> dom (chunks s')" using insert_blocks_kept [OF s'(3)] by (simp add: heap_kept_def)
    moreover have "D \<subseteq> dom (chunks s)" using D(1) by (simp add: client_data_def)
    ultimately show ?thesis by (rule subset_trans [rotated])
  qed
  moreover have "\<forall>p. malloc_ok s' p"
    using insert_blocks_kept [OF s'(3)] D(1) by (simp add: heap_kept_def client_data_def)
  ultimately have "client_data D s' (rbt_insert k (store (brk s) d) t)"
      "map_rbt snd (rbt_insert k (store (brk s) d) t) = op_tree x (map_rbt snd t)"
    by (simp_all add: Insert client_data_def)
  moreover have "run_op n tr x s = Some s'" using s'(1) by (simp add: Insert)
  ultimately show ?thesis using s'(2) by blast
next
  case (Delete k)
  obtain s' K' where s': "trbt_delete32 n tr k s = Some s'" "trbt_live s' tr (rbt_delete k t) K'"
    and c: "case rbt_lookup t k of None \<Rightarrow> s' = s \<and> K' = K
      | Some (a, d) \<Rightarrow> node_removed a t tr s s' \<and> (\<forall>p. set (K' p) = set (K p) - {a})"
    using trbt_delete32_correct [OF L n, of k] by blast
  have inv: "rbt_inv t" using trbt_liveD(2) [OF L] .
  have "set (addrs (rbt_delete k t)) \<subseteq> set (addrs t)"
    using inv by (auto simp: addrs_def entries_rbt_delete rbt_inv_def)
  moreover have "D \<subseteq> dom (chunks s') \<and> (\<forall>p. malloc_ok s' p)"
  proof (cases "rbt_lookup t k")
    case (Some ad)
    then obtain a d where ad: "rbt_lookup t k = Some (a, d)" by (cases ad) auto
    then have "node_removed a t tr s s'" using c by simp
    then have "dom (chunks s') = dom (chunks s) - {a}" "malloc_ok s' = malloc_ok s"
      by (rule node_removed_dom, simp add: node_removed_def)
    with lookup_addr [OF inv ad] D(1) show ?thesis by (auto simp: client_data_def)
  qed (use c D(1) in \<open>auto simp: client_data_def\<close>)
  moreover have "map_rbt snd (rbt_delete k t) = rbt_delete k (map_rbt snd t)" by (rule map_rbt_delete)
  ultimately have "client_data D s' (rbt_delete k t)"
      "map_rbt snd (rbt_delete k t) = op_tree x (map_rbt snd t)"
    using D(1) by (auto simp: Delete client_data_def)
  moreover have "run_op n tr x s = Some s'" using s'(1) by (simp add: Delete)
  ultimately show ?thesis using s'(2) by blast
qed

lemma run_ops_correct:
  assumes "trbt_live s tr t K" "client_data D s t" "\<Union> (op_data ` set ops) \<subseteq> D" "2 \<le> n"
  shows "\<exists>s' t' K'. run_ops n tr ops s = Some s' \<and> trbt_live s' tr t' K' \<and> client_data D s' t' \<and>
    map_rbt snd t' = fold op_tree ops (map_rbt snd t)"
  using assms
proof (induction ops arbitrary: s t K)
  case (Cons x ops)
  then obtain s1 t1 K1 where s1: "run_op n tr x s = Some s1" "trbt_live s1 tr t1 K1" "client_data D s1 t1"
      "map_rbt snd t1 = op_tree x (map_rbt snd t)"
    using run_op_correct [of s tr t K D x n] by auto
  from Cons.IH [OF s1(2,3)] Cons.prems(3,4) s1(1,4) show ?case by auto
qed auto

definition history :: "nat \<Rightarrow> ptr \<Rightarrow> u32 \<Rightarrow> (u32, ptr) table_op list \<Rightarrow> trbt_heap \<Rightarrow> (ptr \<times> trbt_heap) option" where
  "history n memctx flags ops s = do {
     (tr, s) \<leftarrow> trbt_create memctx flags s;
     s \<leftarrow> run_ops n tr ops s;
     Some (tr, s) }"

theorem history_correct:
  assumes F: "forest s K" and ctx: "context_of memctx s = NULL \<or> context_of memctx s \<in> dom (chunks s)"
    and D: "\<Union> (op_data ` set ops) \<subseteq> dom (chunks s)" and ok: "\<forall>p. malloc_ok s p"
    and fl: "flags AND TRBT_AUTOFREE = 0" and n: "2 \<le> n"
  shows "\<exists>tr s' t K'. history n memctx flags ops s = Some (tr, s') \<and> trbt_live s' tr t K' \<and>
    map_rbt snd t = fold op_tree ops Leaf \<and>
    (\<forall>key. trbt_lookup32 tr key s' = Some (case fold op_map ops Map.empty key of None \<Rightarrow> NULL | Some d \<Rightarrow> d))"
proof -
  have ok0: "malloc_ok s (brk s)" using ok by simp
  obtain s1 where s1: "trbt_create memctx flags s = Some (brk s, s1)"
      "trbt_wf s1 (brk s) Leaf (alloc_under (context_of memctx s) (brk s) K)"
      "trees s1 = (trees s)(brk s \<mapsto> \<lparr>t_root = NULL, t_flags = flags\<rparr>)" "heap_kept s s1"
    using trbt_create_correct [OF F ctx ok0, of flags] by blast
  have live: "trbt_live s1 (brk s) Leaf (alloc_under (context_of memctx s) (brk s) K)"
    using s1(2,3) fl by (simp add: trbt_live_def rbt_table.inv_empty no_autofree_def)
  have cd: "client_data (dom (chunks s)) s1 Leaf"
    using s1(4) ok by (simp add: client_data_def heap_kept_def)
  obtain s2 t K2 where s2: "run_ops n (brk s) ops s1 = Some s2" "trbt_live s2 (brk s) t K2"
      "map_rbt snd t = fold op_tree ops (map_rbt snd (Leaf :: ptree))"
    using run_ops_correct [OF live cd D n] by blast
  have t: "map_rbt snd t = fold op_tree ops Leaf" using s2(3) by simp
  have "rbt_lookup (fold op_tree ops Leaf) = fold op_map ops (rbt_lookup (Leaf :: ptr rbt))"
    using op_tree_history [OF rbt_table.inv_empty, of ops] by simp
  moreover have "rbt_lookup (Leaf :: ptr rbt) = Map.empty" by (simp add: fun_eq_iff)
  ultimately have "map_option snd (rbt_lookup t key) = fold op_map ops Map.empty key" for key
    using map_rbt_lookup [of snd t key] unfolding t by simp
  moreover have "data_of t key = (case map_option snd (rbt_lookup t key) of None \<Rightarrow> NULL | Some d \<Rightarrow> d)" for key
    by (simp add: data_of_def split: option.split)
  moreover have "tree_at s2 (brk s) t" using trbt_liveD(1) [OF s2(2)] by (simp add: trbt_wf_def)
  ultimately have "trbt_lookup32 (brk s) key s2 = Some (case fold op_map ops Map.empty key of None \<Rightarrow> NULL | Some d \<Rightarrow> d)" for key
    using trbt_lookup32_correct by metis
  then show ?thesis using s1(1) s2(1,2) t by (auto simp: history_def)
qed

end
