(* ===== verification/Rbtree_Arrays.thy ===== *)
theory Rbtree_Arrays
  imports Rbtree_History
begin

text \<open>
  The operations of \<^verbatim>\<open>rbtree.c\<close> that take a callback, or a key that is an array of words: a
  tree of trees, where the data of a node is the subtree for the rest of the key.
\<close>

section \<open>Operations\<close>

type_synonym trbt_callback = "ptr \<Rightarrow> trbt_heap \<Rightarrow> (ptr \<times> trbt_heap) option"

text \<open>
  \<open>array_insert_callback\<close> with the fields \<open>keylen\<close> and \<open>key\<close> of \<open>trbt_array_param\<close> as the list
  \<open>ks\<close> of words still to go; \<open>ins\<close> is \<open>trbt_insertarray32_callback\<close> for these words.
\<close>

definition array_insert_callback ::
  "(ptr \<Rightarrow> trbt_callback \<Rightarrow> trbt_heap \<Rightarrow> trbt_heap option) \<Rightarrow> u32 list \<Rightarrow> ptr \<Rightarrow> trbt_callback \<Rightarrow> trbt_callback" where
  "array_insert_callback ins ks tree cb data s =
     (if ks = [] then cb data s
      else do {
        (sub, s) \<leftarrow> (if data = NULL then trbt_create tree TRBT_AUTOFREE s else Some (data, s));
        s \<leftarrow> ins sub cb s;
        Some (sub, s) })"

primrec trbt_insertarray32_callback :: "u32 list \<Rightarrow> ptr \<Rightarrow> trbt_callback \<Rightarrow> trbt_heap \<Rightarrow> trbt_heap option" where
  "trbt_insertarray32_callback [] tree cb s = None"
| "trbt_insertarray32_callback (k # ks) tree cb s =
     trbt_insert32_callback tree k (array_insert_callback (trbt_insertarray32_callback ks) ks tree cb) s"

primrec trbt_lookuparray32 :: "u32 list \<Rightarrow> ptr \<Rightarrow> trbt_heap \<Rightarrow> ptr option" where
  "trbt_lookuparray32 [] tree s = None"
| "trbt_lookuparray32 (k # ks) tree s =
     (if ks = [] then trbt_lookup32 tree k s
      else do {
        tree \<leftarrow> trbt_lookup32 tree k s;
        if tree = NULL then Some NULL else trbt_lookuparray32 ks tree s })"

text \<open>The callback of a traversal gets the data; \<open>'p\<close> is what its parameter points to.\<close>

type_synonym 'p trbt_visitor = "ptr \<Rightarrow> 'p \<Rightarrow> trbt_heap \<Rightarrow> ('p \<times> trbt_heap) option"

text \<open>The walk over the nodes of one tree; \<open>visit\<close> is what is done with the data of a node.\<close>

partial_function (option) traverse_nodes ::
  "('p trbt_visitor) \<Rightarrow> ptr \<Rightarrow> 'p \<Rightarrow> trbt_heap \<Rightarrow> ('p \<times> trbt_heap) option" where
  "traverse_nodes visit node p s = do {
     n \<leftarrow> nodes s node;
     (p, s) \<leftarrow> (if n_left n \<noteq> NULL then traverse_nodes visit (n_left n) p s else Some (p, s));
     n \<leftarrow> nodes s node;
     (p, s) \<leftarrow> visit (n_data n) p s;
     n \<leftarrow> nodes s node;
     if n_right n \<noteq> NULL then traverse_nodes visit (n_right n) p s else Some (p, s) }"

text \<open>
  \<open>trbt_traversearray32_node\<close> and \<open>trbt_traversearray32\<close> call each other, one level of trees
  further down each time. The first takes the number of levels below its own; the second
  subtracts one from \<open>keylen\<close> as the code does, so that 0 wraps around.
\<close>

definition traverse_tree :: "(ptr \<Rightarrow> 'p \<Rightarrow> trbt_heap \<Rightarrow> ('p \<times> trbt_heap) option) \<Rightarrow> 'p trbt_visitor" where
  "traverse_tree walk tree p s =
     (if tree = NULL then Some (p, s)
      else do {
        t \<leftarrow> trees s tree;
        if t_root t = NULL then Some (p, s) else walk (t_root t) p s })"

primrec trbt_traversearray32_node :: "nat \<Rightarrow> 'p trbt_visitor \<Rightarrow> ptr \<Rightarrow> 'p \<Rightarrow> trbt_heap \<Rightarrow> ('p \<times> trbt_heap) option" where
  "trbt_traversearray32_node 0 cb = traverse_nodes cb"
| "trbt_traversearray32_node (Suc n) cb = traverse_nodes (traverse_tree (trbt_traversearray32_node n cb))"

definition trbt_traversearray32 :: "ptr \<Rightarrow> u32 \<Rightarrow> 'p trbt_visitor \<Rightarrow> 'p \<Rightarrow> trbt_heap \<Rightarrow> ('p \<times> trbt_heap) option" where
  "trbt_traversearray32 tree keylen cb = traverse_tree (trbt_traversearray32_node (unat (keylen - 1)) cb) tree"

partial_function (option) leftmost :: "ptr \<Rightarrow> trbt_heap \<Rightarrow> ptr option" where
  "leftmost node s = do {
     n \<leftarrow> nodes s node;
     if n_left n \<noteq> NULL then leftmost (n_left n) s else Some node }"

primrec findfirst_levels :: "nat \<Rightarrow> ptr \<Rightarrow> trbt_heap \<Rightarrow> ptr option" where
  "findfirst_levels 0 tree s = Some NULL"
| "findfirst_levels (Suc keylen) tree s =
     (if tree = NULL then Some NULL
      else do {
        t \<leftarrow> trees s tree;
        if t_root t = NULL then Some NULL
        else do {
          node \<leftarrow> leftmost (t_root t) s;
          n \<leftarrow> nodes s node;
          if keylen = 0 then Some (n_data n) else findfirst_levels keylen (n_data n) s } })"

definition trbt_findfirstarray32 :: "ptr \<Rightarrow> u32 \<Rightarrow> trbt_heap \<Rightarrow> ptr option" where
  "trbt_findfirstarray32 tree keylen = findfirst_levels (unat keylen) tree"

section \<open>Insertion with a callback\<close>

text \<open>
  On a tree the callback leaves alone, insertion with a callback is the callback, called with
  the data stored so far, followed by plain insertion of what it returns.
\<close>

lemma insert_walk_seek:
  assumes "zip_at s tr z t" "t \<noteq> Leaf" "seek key z t = (z', t')"
  shows "insert_walk key cb tr (root_ptr t) s =
    (case t' of
       Leaf \<Rightarrow> do {
         (d, s) \<leftarrow> cb NULL s;
         (new_node, s) \<leftarrow> trbt_create_node tr (ctx_parent z') key d s;
         s \<leftarrow> link_new (hd z') new_node s;
         if new_node = NULL then None else Some (new_node, s) }
     | Node c l k d r \<Rightarrow> do {
         (e, s) \<leftarrow> cb (snd d) s;
         s \<leftarrow> upd_node (fst d) (\<lambda>x. x\<lparr>n_data := e\<rparr>) s;
         (_, s) \<leftarrow> talloc_steal e (fst d) s;
         Some (NULL, s) })"
  using assms
proof (induction t arbitrary: z)
  case (Node c l k d r)
  note n = zip_at_node [OF Node.prems(1)]
  have sub: "zip_at s tr (InL c k d r # z) l" "zip_at s tr (InR c l k d # z) r"
    using Node.prems(1) by (simp_all add: zip_at_Cons)
  have lf: "root_ptr l = NULL \<longleftrightarrow> l = Leaf" "root_ptr r = NULL \<longleftrightarrow> r = Leaf"
    using Node.prems(1) shape_root_NULL by (auto simp: zip_at_def)
  consider "key = k" | "key < k" | "key \<noteq> k" "\<not> key < k" by blast
  then show ?case
  proof cases
    case 1
    with Node.prems n show ?thesis by (subst insert_walk.simps) auto
  next
    case 2
    then have ne: "key \<noteq> k" by auto
    show ?thesis
    proof (cases "l = Leaf")
      case True
      with Node.prems n 2 ne show ?thesis by (subst insert_walk.simps) (auto simp: link_new_def)
    next
      case False
      with Node.prems n 2 ne Node.IH(1) [OF sub(1)] lf show ?thesis by (subst insert_walk.simps) auto
    qed
  next
    case 3
    show ?thesis
    proof (cases "r = Leaf")
      case True
      with Node.prems n 3 show ?thesis by (subst insert_walk.simps) (auto simp: link_new_def)
    next
      case False
      with Node.prems n 3 Node.IH(2) [OF sub(2)] lf show ?thesis by (subst insert_walk.simps) auto
    qed
  qed
qed simp

lemma insert32_callback_eq:
  assumes T: "tree_at s tr t" and cb: "cb (data_of t key) s = Some (d, s1)"
    and W: "trbt_wf s1 tr t K" "d \<in> dom (chunks s1)" "malloc_ok s1 (brk s1)"
  shows "trbt_insert32_callback tr key cb s = map_option snd (trbt_insert32 tr key d s1)"
proof -
  have T1: "tree_at s1 tr t" "forest s1 K" "tr \<in> dom (chunks s1)" using W(1) by (simp_all add: trbt_wf_def)
  have b: "brk s1 \<noteq> NULL" using forest_brk [OF T1(2)] by simp
  have new: "\<exists>s2. trbt_create_node tr par key d s1 = Some (brk s1, s2)" for par
    using create_node_correct [OF T1(2,3) W(2,3)] by blast
  obtain R where R: "trees s tr = Some R" "t_root R = root_ptr t" using T by (auto simp: zip_at_def)
  obtain R1 where R1: "trees s1 tr = Some R1" "t_root R1 = root_ptr t" using T1(1) by (auto simp: zip_at_def)
  show ?thesis
  proof (cases "t = Leaf")
    case True
    then obtain s2 where "trbt_create_node tr NULL key d s1 = Some (brk s1, s2)" using new by blast
    with True R R1 cb show ?thesis
      by (auto simp: trbt_insert32_callback_def trbt_insert32_def data_of_def split: Option.bind_split)
  next
    case False
    then have rt: "root_ptr t \<noteq> NULL" using shape_root_NULL T by (auto simp: zip_at_def)
    obtain z' t' where sk: "seek key [] t = (z', t')" by force
    note w = insert_walk_seek [OF T False sk] insert32_walk_seek [OF T1(1) False sk, of d] seek_lookup [OF sk]
    show ?thesis
    proof (cases t')
      case Leaf
      obtain s2 where "trbt_create_node tr (ctx_parent z') key d s1 = Some (brk s1, s2)" using new by blast
      with Leaf w R R1 rt b cb show ?thesis
        by (auto simp: trbt_insert32_callback_def trbt_insert32_def data_of_def split: Option.bind_split)
    next
      case (Node c l k e r)
      with w R R1 rt b cb show ?thesis
        by (auto simp: trbt_insert32_callback_def trbt_insert32_def data_of_def split: Option.bind_split)
    qed
  qed
qed

theorem trbt_insert32_callback_correct:
  assumes T: "tree_at s tr t" and cb: "cb (data_of t key) s = Some (d, s1)"
    and W: "trbt_wf s1 tr t K" "d \<in> dom (chunks s1)" "malloc_ok s1 (brk s1)"
  shows "\<exists>s'. trbt_insert32_callback tr key cb s = Some s' \<and>
    trbt_wf s' tr (rbt_insert key (store (brk s1) d) t) (owner_after t tr key d s1 K) \<and>
    inserted_frame t tr s1 s' \<and> heap_kept s1 s'"
  unfolding insert32_callback_eq [where cb = cb and key = key, OF assms] using trbt_insert32_correct [OF W] by fastforce

section \<open>Arrays as keys\<close>

text \<open>
  \<open>array_level sub n s tr m F t G\<close>: the tree \<open>t\<close> at \<open>tr\<close> stores for the first word \<open>k\<close> of a key a
  table for the rest of the key (\<open>sub\<close>), which takes the nodes and trees \<open>G k\<close>. No node or
  tree belongs to two of them; together with those of \<open>t\<close> they are \<open>F\<close>.
\<close>

definition array_level ::
  "(ptr \<Rightarrow> (u32 list \<Rightarrow> ptr) \<Rightarrow> ptr set \<Rightarrow> bool) \<Rightarrow> nat \<Rightarrow> trbt_heap \<Rightarrow> ptr \<Rightarrow> (u32 list \<Rightarrow> ptr) \<Rightarrow> ptr set \<Rightarrow>
   ptree \<Rightarrow> (u32 \<Rightarrow> ptr set) \<Rightarrow> bool" where
  "array_level sub n s tr m F t G \<longleftrightarrow>
     tree_at s tr t \<and> rbt_inv t \<and>
     (\<forall>k \<in> dom (rbt_lookup t). data_of t k \<noteq> NULL \<and> sub (data_of t k) (\<lambda>ks. m (k # ks)) (G k)) \<and>
     (\<forall>k. k \<notin> dom (rbt_lookup t) \<longrightarrow> G k = {} \<and> (\<forall>ks. length ks = Suc n \<longrightarrow> m (k # ks) = NULL)) \<and>
     F = insert tr (set (addrs t)) \<union> (\<Union>k. G k) \<and>
     (\<forall>k. G k \<inter> insert tr (set (addrs t)) = {}) \<and> (\<forall>k k'. k \<noteq> k' \<longrightarrow> G k \<inter> G k' = {})"

text \<open>
  \<open>array_at n s tr m F\<close>: below the tree object \<open>tr\<close> hang \<open>n\<close> further levels of trees, which store
  \<open>m ks\<close> for every key \<open>ks\<close> of \<open>n + 1\<close> words (NULL: no entry), in the nodes and trees \<open>F\<close>.
\<close>

fun array_at :: "nat \<Rightarrow> trbt_heap \<Rightarrow> ptr \<Rightarrow> (u32 list \<Rightarrow> ptr) \<Rightarrow> ptr set \<Rightarrow> bool" where
  "array_at 0 s tr m F \<longleftrightarrow>
     (\<exists>t. tree_at s tr t \<and> rbt_inv t \<and> F = insert tr (set (addrs t)) \<and> (\<forall>k. m [k] = data_of t k))"
| "array_at (Suc n) s tr m F \<longleftrightarrow> (\<exists>t G. array_level (array_at n s) n s tr m F t G)"

lemma array_levelD:
  assumes "array_level sub n s tr m F t G"
  shows "tree_at s tr t" "rbt_inv t" "F = insert tr (set (addrs t)) \<union> (\<Union>k. G k)"
    "k \<in> dom (rbt_lookup t) \<Longrightarrow> data_of t k \<noteq> NULL \<and> sub (data_of t k) (\<lambda>ks. m (k # ks)) (G k)"
    "k \<notin> dom (rbt_lookup t) \<Longrightarrow> G k = {}" "k \<notin> dom (rbt_lookup t) \<Longrightarrow> length ks = Suc n \<Longrightarrow> m (k # ks) = NULL"
    "G k \<inter> insert tr (set (addrs t)) = {}" "k \<noteq> k' \<Longrightarrow> G k \<inter> G k' = {}"
  using assms unfolding array_level_def by blast+

lemma tree_at_frame:
  assumes "tree_at s tr t" "\<forall>x \<in> set (addrs t). nodes s' x = nodes s x" "trees s' tr = trees s tr"
  shows "tree_at s' tr t"
  using assms shape_frame [of t "nodes s'" "nodes s"] by (simp add: zip_at_def)

lemma array_frame:
  assumes "array_at n s tr m F" "\<forall>x \<in> F. nodes s' x = nodes s x \<and> trees s' x = trees s x"
  shows "array_at n s' tr m F"
  using assms
proof (induction n arbitrary: tr m F)
  case 0
  then obtain t where "tree_at s tr t" "rbt_inv t" "F = insert tr (set (addrs t))" "\<forall>k. m [k] = data_of t k"
    by auto
  moreover have "tree_at s' tr t" by (rule tree_at_frame) (use 0 calculation in auto)
  ultimately show ?case by auto
next
  case (Suc n)
  then obtain t G where L: "array_level (array_at n s) n s tr m F t G" by auto
  note D = array_levelD [OF L]
  have t: "tree_at s' tr t" by (rule tree_at_frame [OF D(1)]) (use Suc.prems(2) D(3) in auto)
  have "array_at n s' (data_of t k) (\<lambda>ks. m (k # ks)) (G k)" if "k \<in> dom (rbt_lookup t)" for k
  proof (rule Suc.IH)
    show "array_at n s (data_of t k) (\<lambda>ks. m (k # ks)) (G k)" using D(4) [OF that] by blast
    show "\<forall>x\<in>G k. nodes s' x = nodes s x \<and> trees s' x = trees s x" using Suc.prems(2) D(3) by blast
  qed
  then have "array_level (array_at n s') n s' tr m F t G"
    using t L unfolding array_level_def by simp
  then show ?case by auto
qed

lemma array_cong:
  assumes "array_at n s tr m F" "\<forall>ks. length ks = Suc n \<longrightarrow> m' ks = m ks"
  shows "array_at n s tr m' F"
  using assms
proof (induction n arbitrary: tr m m' F)
  case (Suc n)
  then obtain t G where L: "array_level (array_at n s) n s tr m F t G" by auto
  have "array_at n s d (\<lambda>ks. m' (k # ks)) G" if "array_at n s d (\<lambda>ks. m (k # ks)) G" for d k G
    using Suc.IH [OF that, of "\<lambda>ks. m' (k # ks)"] Suc.prems(2) by simp
  then have "array_level (array_at n s) n s tr m' F t G"
    using L Suc.prems(2) by (simp add: array_level_def)
  then show ?case by auto
qed auto

theorem trbt_lookuparray32_correct:
  assumes "array_at n s tr m F" "length ks = Suc n"
  shows "trbt_lookuparray32 ks tr s = Some (m ks)"
  using assms
proof (induction n arbitrary: tr m F ks)
  case 0
  then show ?case using trbt_lookup32_correct by (cases ks) auto
next
  case (Suc n)
  obtain k ks' where ks: "ks = k # ks'" "length ks' = Suc n" using Suc.prems(2) by (cases ks) auto
  from Suc.prems(1) obtain t G where L: "array_level (array_at n s) n s tr m F t G" by auto
  note D = array_levelD [OF L] and look = trbt_lookup32_correct [OF array_levelD(1) [OF L], of k]
  show ?case
  proof (cases "k \<in> dom (rbt_lookup t)")
    case True
    from D(4) [OF this] have "data_of t k \<noteq> NULL" "array_at n s (data_of t k) (\<lambda>ks. m (k # ks)) (G k)" by auto
    with Suc.IH [of "data_of t k" "\<lambda>ks. m (k # ks)" "G k" ks'] ks look show ?thesis by auto
  next
    case False
    then have "data_of t k = NULL" by (auto simp: data_of_def split: option.split)
    with D(6) [OF False ks(2)] ks look show ?thesis by auto
  qed
qed

section \<open>Insertion under an array\<close>

lemma array_root: "array_at n s tr m F \<Longrightarrow> tr \<in> F"
  by (cases n) (auto simp: array_level_def)

lemma array_fresh: "tree_at s tr Leaf \<Longrightarrow> array_at n s tr (\<lambda>_. NULL) {tr}"
proof (cases n)
  case 0
  assume "tree_at s tr Leaf"
  with 0 show ?thesis by (auto intro!: exI [of _ Leaf] simp: data_of_def rbt_table.inv_empty)
next
  case (Suc i)
  assume "tree_at s tr Leaf"
  then have "array_level (array_at i s) i s tr (\<lambda>_. NULL) {tr} Leaf (\<lambda>_. {})"
    by (simp add: array_level_def rbt_table.inv_empty dom_def)
  with Suc show ?thesis by auto
qed

text \<open>What an operation on the table \<open>F\<close> leaves alone: the nodes and trees of other tables.\<close>

definition others_kept :: "ptr set \<Rightarrow> trbt_heap \<Rightarrow> trbt_heap \<Rightarrow> bool" where
  "others_kept F s s' \<longleftrightarrow>
     heap_kept s s' \<and> (\<forall>x \<in> dom (chunks s) - F. nodes s' x = nodes s x \<and> trees s' x = trees s x)"

lemma others_keptD:
  assumes "others_kept F s s'" "x \<in> dom (chunks s)" "x \<notin> F"
  shows "nodes s' x = nodes s x" "trees s' x = trees s x"
  using assms by (auto simp: others_kept_def)

lemma others_kept_dom: "others_kept F s s' \<Longrightarrow> x \<in> dom (chunks s) \<Longrightarrow> x \<in> dom (chunks s')"
  unfolding others_kept_def heap_kept_def by blast

lemma others_kept_malloc: "others_kept F s s' \<Longrightarrow> malloc_ok s' = malloc_ok s"
  unfolding others_kept_def heap_kept_def by blast

lemma others_kept_trans:
  assumes "others_kept F s s1" "others_kept G s1 s2" "G \<inter> dom (chunks s) \<subseteq> F"
  shows "others_kept F s s2"
proof -
  have "heap_kept s s2" using assms(1,2) heap_kept_trans unfolding others_kept_def by blast
  moreover have "nodes s2 x = nodes s x \<and> trees s2 x = trees s x" if "x \<in> dom (chunks s)" "x \<notin> F" for x
  proof -
    have "x \<in> dom (chunks s1)" "x \<notin> G" using that assms(3) others_kept_dom [OF assms(1)] by auto
    with others_keptD [OF assms(1) that] others_keptD [OF assms(2)] show ?thesis by simp
  qed
  ultimately show ?thesis by (simp add: others_kept_def)
qed

lemma frame_others:
  assumes F: "forest s K" and I: "inserted_frame t tr s s'" "heap_kept s s'"
  shows "others_kept (insert tr (set (addrs t))) s s'"
  using I forest_brk(2) [OF F] by (auto simp: others_kept_def inserted_frame_def)

lemma array_kept:
  assumes "array_at n s tr m G" "others_kept F s s'" "G \<subseteq> dom (chunks s)" "G \<inter> F = {}"
  shows "array_at n s' tr m G"
proof (rule array_frame [OF assms(1)], intro ballI conjI)
  fix x assume "x \<in> G"
  with assms(3,4) have "x \<in> dom (chunks s)" "x \<notin> F" by blast+
  then show "nodes s' x = nodes s x" "trees s' x = trees s x" using others_keptD [OF assms(2)] by blast+
qed

lemma tree_kept:
  assumes "tree_at s tr t" "others_kept F s s'" "insert tr (set (addrs t)) \<subseteq> dom (chunks s)"
    "F \<inter> insert tr (set (addrs t)) = {}"
  shows "tree_at s' tr t"
proof (rule tree_at_frame [OF assms(1)])
  have "x \<in> dom (chunks s) \<and> x \<notin> F" if "x \<in> insert tr (set (addrs t))" for x using that assms(3,4) by blast
  then show "\<forall>x \<in> set (addrs t). nodes s' x = nodes s x" "trees s' tr = trees s tr"
    using others_keptD [OF assms(2)] by simp_all
qed

definition array_inserted ::
  "nat \<Rightarrow> trbt_heap \<Rightarrow> ptr \<Rightarrow> (u32 list \<Rightarrow> ptr) \<Rightarrow> ptr set \<Rightarrow> trbt_heap \<Rightarrow> bool" where
  "array_inserted n s tr m F s' \<longleftrightarrow>
     (\<exists>K' F'. forest s' K' \<and> array_at n s' tr m F' \<and> F' \<subseteq> dom (chunks s') \<and> F' \<inter> dom (chunks s) \<subseteq> F \<and>
        others_kept F s s')"

text \<open>The subtree for the first word: the one that is there, or a new one.\<close>

lemma array_subtree:
  assumes F: "forest s K" and L: "array_level (array_at n s) n s tr m F t G"
    and dom: "F \<subseteq> dom (chunks s)" and ok: "\<forall>p. malloc_ok s p"
  shows "\<exists>sub s1 H K1.
    (if data_of t k = NULL then trbt_create tr TRBT_AUTOFREE s else Some (data_of t k, s)) = Some (sub, s1) \<and>
    forest s1 K1 \<and> array_at n s1 sub (\<lambda>ks. m (k # ks)) H \<and> H \<subseteq> dom (chunks s1) \<and> H \<inter> dom (chunks s) = G k \<and>
    others_kept {} s s1"
proof (cases "k \<in> dom (rbt_lookup t)")
  case True
  note D = array_levelD [OF L]
  have "others_kept {} s s" by (simp add: others_kept_def heap_kept_def)
  moreover have "G k \<subseteq> dom (chunks s)" using D(3) dom by blast
  ultimately show ?thesis using D(4) [OF True] F by (intro exI [of _ "data_of t k"] exI [of _ s] exI [of _ "G k"] exI [of _ K]) auto
next
  case False
  note D = array_levelD [OF L]
  have dN: "data_of t k = NULL" using False by (auto simp: data_of_def split: option.split)
  have tr: "tr \<in> dom (chunks s)" using D(3) dom by blast
  then have "tr \<noteq> NULL" using forest_NULL [OF F] by (auto intro!: gr0I)
  with tr have ctx: "context_of tr s \<in> dom (chunks s)" by (simp add: context_of_def)
  have okb: "malloc_ok s (brk s)" using ok by simp
  obtain s1 where s1: "trbt_create tr TRBT_AUTOFREE s = Some (brk s, s1)"
      "trbt_wf s1 (brk s) Leaf (alloc_under (context_of tr s) (brk s) K)"
      "trees s1 = (trees s)(brk s \<mapsto> \<lparr>t_root = NULL, t_flags = TRBT_AUTOFREE\<rparr>)" "nodes s1 = nodes s" "heap_kept s s1"
    using trbt_create_correct [OF F disjI2 [OF ctx] okb] by blast
  have b: "brk s \<notin> dom (chunks s)" using forest_brk(2) [OF F] by auto
  have W: "tree_at s1 (brk s) Leaf" "forest s1 (alloc_under (context_of tr s) (brk s) K)" "brk s \<in> dom (chunks s1)"
    using s1(2) by (simp_all add: trbt_wf_def)
  have "array_at n s1 (brk s) (\<lambda>ks. m (k # ks)) {brk s}"
    using D(6) [OF False] by (intro array_cong [OF array_fresh [OF W(1)]]) auto
  moreover have "others_kept {} s s1" using s1(3,4,5) b by (auto simp: others_kept_def)
  moreover have "{brk s} \<inter> dom (chunks s) = G k" using b D(5) [OF False] by auto
  ultimately show ?thesis using dN s1(1) W by auto
qed

text \<open>Hanging the subtree, changed or not, into the tree of the level.\<close>

lemma array_relink:
  assumes L: "array_level (array_at n s) n s tr m F t G" and dom: "F \<subseteq> dom (chunks s)"
    and S: "others_kept (G k) s s2" "forest s2 K2" "array_at n s2 sub (\<lambda>ks. m' (k # ks)) H"
      "H \<subseteq> dom (chunks s2)" "H \<inter> dom (chunks s) \<subseteq> G k"
    and m: "\<forall>k' ks. k' \<noteq> k \<longrightarrow> m' (k' # ks) = m (k' # ks)" and ok: "malloc_ok s2 (brk s2)"
    and cb: "cb (data_of t k) s = Some (sub, s2)"
  shows "\<exists>s'. trbt_insert32_callback tr k cb s = Some s' \<and> array_inserted (Suc n) s tr m' F s'"
proof -
  note D = array_levelD [OF L]
  let ?A = "insert tr (set (addrs t))" and ?t = "rbt_insert k (store (brk s2) sub) t"
  have A: "?A \<subseteq> dom (chunks s)" "G k' \<subseteq> dom (chunks s)" for k' using D(3) dom by blast+
  have A2: "?A \<subseteq> dom (chunks s2)" "G k' \<subseteq> dom (chunks s2)" for k'
    using others_kept_dom [OF S(1)] A by blast+
  have HA: "H \<inter> ?A = {}" using S(5) A(1) D(7) [of k] by blast
  have HG: "H \<inter> G k' = {}" if "k' \<noteq> k" for k' using S(5) A(2) [of k'] D(8) [OF that] by blast
  have T2: "tree_at s2 tr t" using tree_kept [OF D(1) S(1) A(1) D(7)] .
  have W: "trbt_wf s2 tr t K2" using T2 S(2) A2(1) by (auto simp: trbt_wf_def)
  have sub: "sub \<in> dom (chunks s2)" using array_root [OF S(3)] S(4) by blast
  obtain s' where s': "trbt_insert32_callback tr k cb s = Some s'"
      "trbt_wf s' tr ?t (owner_after t tr k sub s2 K2)" "inserted_frame t tr s2 s'" "heap_kept s2 s'"
    using trbt_insert32_callback_correct [where cb = cb and key = k, OF D(1) cb W sub ok] by blast
  have K: "others_kept ?A s2 s'" using frame_others [OF S(2) s'(3,4)] .
  have b: "brk s2 \<notin> dom (chunks s2)" using forest_brk(2) [OF S(2)] by auto
  have sa: "set (addrs ?t) \<subseteq> insert (brk s2) (set (addrs t))" by (rule insert_addrs [OF D(2)])
  have dom_t: "dom (rbt_lookup ?t) = insert k (dom (rbt_lookup t))" using D(2) by (simp add: rbt_lookup_insert)
  have data: "data_of ?t k' = (if k' = k then sub else data_of t k')" for k' by (rule data_of_insert [OF D(2)])
  have lvl: "array_level (array_at n s') n s' tr m' (insert tr (set (addrs ?t)) \<union> (\<Union>k'. (G(k := H)) k')) ?t (G(k := H))"
    unfolding array_level_def
  proof (intro conjI ballI allI impI)
    show "tree_at s' tr ?t" using s'(2) by (simp add: trbt_wf_def)
    show "rbt_inv ?t" by (rule rbt_insert_inv [OF D(2)])
  next
    fix k' assume k': "k' \<in> dom (rbt_lookup ?t)"
    have subN: "sub \<noteq> NULL" using sub forest_NULL [OF S(2)] by (auto intro!: gr0I)
    have new: "array_at n s' sub (\<lambda>ks. m' (k # ks)) H" by (rule array_kept [OF S(3) K S(4) HA])
    have old: "data_of t k' \<noteq> NULL \<and> array_at n s' (data_of t k') (\<lambda>ks. m' (k' # ks)) (G k')" if "k' \<noteq> k"
    proof -
      have o: "data_of t k' \<noteq> NULL" "array_at n s (data_of t k') (\<lambda>ks. m (k' # ks)) (G k')"
        using D(4) [of k'] k' that dom_t by auto
      have "array_at n s2 (data_of t k') (\<lambda>ks. m (k' # ks)) (G k')"
        by (rule array_kept [OF o(2) S(1) A(2) D(8) [OF that]])
      then have "array_at n s' (data_of t k') (\<lambda>ks. m (k' # ks)) (G k')"
        by (rule array_kept [OF _ K A2(2) D(7)])
      with o(1) m that show ?thesis by simp
    qed
    show "data_of ?t k' \<noteq> NULL" using subN old by (simp add: data)
    show "array_at n s' (data_of ?t k') (\<lambda>ks. m' (k' # ks)) ((G(k := H)) k')" using new old by (simp add: data)
  next
    fix k' assume "k' \<notin> dom (rbt_lookup ?t)"
    then have k': "k' \<noteq> k" "k' \<notin> dom (rbt_lookup t)" by (auto simp: dom_t)
    show "(G(k := H)) k' = {}" using D(5) [OF k'(2)] k'(1) by simp
    show "m' (k' # ks) = NULL" if "length ks = Suc n" for ks using D(6) [OF k'(2) that] m k'(1) by simp
  next
    fix k' show "(G(k := H)) k' \<inter> insert tr (set (addrs ?t)) = {}"
      using HA D(7) [of k'] sa b S(4) A2(2) [of k'] by auto
  next
    fix k1 k2 :: u32 assume "k1 \<noteq> k2"
    then show "(G(k := H)) k1 \<inter> (G(k := H)) k2 = {}" using HG D(8) by auto
  qed simp
  have kept: "others_kept F s s'"
  proof (rule others_kept_trans [OF _ K])
    show "others_kept F s s2" using S(1) D(3) unfolding others_kept_def by blast
    show "?A \<inter> dom (chunks s) \<subseteq> F" using D(3) by blast
  qed
  let ?F = "insert tr (set (addrs ?t)) \<union> (\<Union>k'. (G(k := H)) k')"
  have "forest s' (owner_after t tr k sub s2 K2)" "insert tr (set (addrs ?t)) \<subseteq> dom (chunks s')"
    using s'(2) by (auto simp: trbt_wf_def)
  moreover have "?F \<inter> dom (chunks s) \<subseteq> F"
  proof -
    have "brk s2 \<notin> dom (chunks s)" using b others_kept_dom [OF S(1)] by blast
    moreover have "G k' \<subseteq> F" for k' using D(3) by blast
    ultimately show ?thesis using sa S(5) D(3) by (auto split: if_splits)
  qed
  moreover have "(G(k := H)) k' \<subseteq> dom (chunks s')" for k'
  proof (rule subset_trans)
    show "(G(k := H)) k' \<subseteq> dom (chunks s2)" using S(4) A2(2) [of k'] by simp
    show "dom (chunks s2) \<subseteq> dom (chunks s')" using others_kept_dom [OF K] by blast
  qed
  ultimately have "array_inserted (Suc n) s tr m' F s'"
    using lvl kept unfolding array_inserted_def by (metis Un_subset_iff UN_subset_iff array_at.simps(2))
  with s'(1) show ?thesis by blast
qed

theorem trbt_insertarray32_correct:
  assumes "array_at n s tr m F" "forest s K" "F \<subseteq> dom (chunks s)" "\<forall>p. malloc_ok s p"
    and "length ks = Suc n" "f (m ks) \<in> dom (chunks s)"
  shows "\<exists>s'. trbt_insertarray32_callback ks tr (\<lambda>old s. Some (f old, s)) s = Some s' \<and>
    array_inserted n s tr (m(ks := f (m ks))) F s'"
  using assms
proof (induction n arbitrary: tr m F ks s K)
  case 0
  let ?cb = "\<lambda>old s. Some (f old, s)"
  obtain k where ks: "ks = [k]" using 0(5) by (cases ks) auto
  obtain t where t: "tree_at s tr t" "rbt_inv t" "F = insert tr (set (addrs t))" "\<forall>k. m [k] = data_of t k"
    using 0(1) by auto
  let ?d = "f (data_of t k)" and ?t = "rbt_insert k (store (brk s) (f (data_of t k))) t"
  have W: "trbt_wf s tr t K" using t 0(2,3) by (auto simp: trbt_wf_def)
  have d: "?d \<in> dom (chunks s)" "malloc_ok s (brk s)" using 0(4,6) t(4) ks by simp_all
  have cb: "array_insert_callback (trbt_insertarray32_callback []) [] tr ?cb (data_of t k) s = Some (?d, s)"
    by (simp add: array_insert_callback_def)
  obtain s' where s': "trbt_insertarray32_callback ks tr ?cb s = Some s'"
      "trbt_wf s' tr ?t (owner_after t tr k ?d s K)" "inserted_frame t tr s s'" "heap_kept s s'"
    using trbt_insert32_callback_correct [where cb = "array_insert_callback (trbt_insertarray32_callback []) [] tr ?cb"
      and key = k, OF t(1) cb W d] ks by auto
  have "array_at 0 s' tr (m(ks := f (m ks))) (insert tr (set (addrs ?t)))"
    using s'(2) t(2,4) ks by (auto intro!: exI [of _ ?t] simp: trbt_wf_def rbt_insert_inv data_of_insert)
  moreover have "insert tr (set (addrs ?t)) \<inter> dom (chunks s) \<subseteq> F"
    using insert_addrs [OF t(2), of k "brk s" ?d] forest_brk(2) [OF 0(2)] t(3) by auto
  moreover have "others_kept F s s'" using frame_others [OF 0(2) s'(3,4)] t(3) by simp
  ultimately show ?case using s'(1,2) unfolding array_inserted_def trbt_wf_def by blast
next
  case (Suc n)
  let ?cb = "\<lambda>old s. Some (f old, s)"
  obtain k ks' where ks: "ks = k # ks'" "length ks' = Suc n" using Suc.prems(5) by (cases ks) auto
  obtain t G where L: "array_level (array_at n s) n s tr m F t G" using Suc.prems(1) by auto
  obtain sub s1 H K1 where s1: "(if data_of t k = NULL then trbt_create tr TRBT_AUTOFREE s else Some (data_of t k, s)) = Some (sub, s1)"
      "forest s1 K1" "array_at n s1 sub (\<lambda>ks. m (k # ks)) H" "H \<subseteq> dom (chunks s1)" "H \<inter> dom (chunks s) = G k"
      "others_kept {} s s1"
    using array_subtree [OF Suc.prems(2) L Suc.prems(3,4), of k] by blast
  have ok1: "\<forall>p. malloc_ok s1 p" using Suc.prems(4) others_kept_malloc [OF s1(6)] by simp
  have d1: "f (m (k # ks')) \<in> dom (chunks s1)" using Suc.prems(6) others_kept_dom [OF s1(6)] ks by blast
  let ?m = "m(ks := f (m ks))"
  obtain s2 where s2: "trbt_insertarray32_callback ks' sub ?cb s1 = Some s2"
      "array_inserted n s1 sub ((\<lambda>ks. m (k # ks))(ks' := f (m (k # ks')))) H s2"
    using Suc.IH [OF s1(3,2,4) ok1 ks(2) d1] by blast
  obtain K2 H2 where H2: "forest s2 K2" "array_at n s2 sub ((\<lambda>ks. m (k # ks))(ks' := f (m (k # ks')))) H2"
      "H2 \<subseteq> dom (chunks s2)" "H2 \<inter> dom (chunks s1) \<subseteq> H" "others_kept H s1 s2"
    using s2(2) unfolding array_inserted_def by blast
  have "(\<lambda>ks. m (k # ks))(ks' := f (m (k # ks'))) = (\<lambda>ks. ?m (k # ks))" by (auto simp: ks)
  with H2(2) have sub: "array_at n s2 sub (\<lambda>ks. ?m (k # ks)) H2" by simp
  have kept: "others_kept (G k) s s2"
  proof (rule others_kept_trans [OF _ H2(5)])
    show "others_kept (G k) s s1" using s1(6) by (simp add: others_kept_def)
    show "H \<inter> dom (chunks s) \<subseteq> G k" using s1(5) by simp
  qed
  have "H2 \<inter> dom (chunks s) \<subseteq> G k"
  proof
    fix x assume "x \<in> H2 \<inter> dom (chunks s)"
    moreover from this have "x \<in> dom (chunks s1)" using others_kept_dom [OF s1(6)] by blast
    ultimately show "x \<in> G k" using H2(4) s1(5) by blast
  qed
  moreover have "array_insert_callback (trbt_insertarray32_callback ks') ks' tr ?cb (data_of t k) s = Some (sub, s2)"
    using ks(2) s1(1) s2(1) by (auto simp: array_insert_callback_def)
  moreover have "malloc_ok s2 (brk s2)" using Suc.prems(4) others_kept_malloc [OF kept] by simp
  ultimately show ?case
    using array_relink [OF L Suc.prems(3) kept H2(1) sub H2(3)] ks by auto
qed

section \<open>Traversal\<close>

text \<open>
  \<open>array_list n s tr es\<close>: the entries of the table with \<open>n\<close> further levels at \<open>tr\<close>, in the order
  of the trees. No subtree is empty.
\<close>

fun array_list :: "nat \<Rightarrow> trbt_heap \<Rightarrow> ptr \<Rightarrow> (u32 list \<times> ptr) list \<Rightarrow> bool" where
  "array_list 0 s tr es \<longleftrightarrow> (\<exists>t. tree_at s tr t \<and> rbt_inv t \<and> es = map (\<lambda>(k, a, d). ([k], d)) (entries t))"
| "array_list (Suc n) s tr es \<longleftrightarrow>
     (\<exists>t L. tree_at s tr t \<and> rbt_inv t \<and>
        (\<forall>(k, a, d) \<in> set (entries t). d \<noteq> NULL \<and> L k \<noteq> [] \<and> array_list n s d (L k)) \<and>
        es = concat (map (\<lambda>(k, a, d). map (apfst (Cons k)) (L k)) (entries t)))"

text \<open>A walk over the nodes of a tree whose visits leave the heap alone is a fold over the entries.\<close>

definition visits :: "'p trbt_visitor \<Rightarrow> (u32 \<times> ptr \<times> ptr \<Rightarrow> 'p \<Rightarrow> 'p) \<Rightarrow> ptree \<Rightarrow> trbt_heap \<Rightarrow> bool" where
  "visits visit h t s \<longleftrightarrow> (\<forall>x \<in> set (entries t). \<forall>p. visit (snd (snd x)) p s = Some (h x p, s))"

lemma traverse_nodes_fold:
  assumes "shape (nodes s) tr par t" "t \<noteq> Leaf" "visits visit h t s"
  shows "traverse_nodes visit (root_ptr t) p s = Some (fold h (entries t) p, s)"
  using assms
proof (induction t arbitrary: par p)
  case (Node c l k d r)
  obtain a e where d: "d = (a, e)" by (cases d)
  have sh: "shape (nodes s) tr a l" "shape (nodes s) tr a r" using Node.prems(1) d by auto
  have lf: "root_ptr l = NULL \<longleftrightarrow> l = Leaf" "root_ptr r = NULL \<longleftrightarrow> r = Leaf"
    using sh shape_root_NULL by auto
  have vis: "visits visit h l s" "visits visit h r s" "visit e q s = Some (h (k, a, e) q, s)" for q
    using Node.prems(3) d by (auto simp: visits_def)
  note IHl = Node.IH(1) [OF sh(1) _ vis(1)] and IHr = Node.IH(2) [OF sh(2) _ vis(2)]
  show ?case
    using Node.prems(1) d lf vis(3) IHl IHr
    by (subst traverse_nodes.simps) (cases "l = Leaf"; cases "r = Leaf"; simp)
qed simp

lemma traverse_tree_fold:
  assumes "tree_at s tr t" "tr \<noteq> NULL" "visits visit h t s"
  shows "traverse_tree (traverse_nodes visit) tr p s = Some (fold h (entries t) p, s)"
proof -
  obtain T where T: "trees s tr = Some T" "t_root T = root_ptr t" "shape (nodes s) tr NULL t"
    using assms(1) by (auto simp: zip_at_def)
  show ?thesis
  proof (cases "t = Leaf")
    case False
    then have "root_ptr t \<noteq> NULL" using shape_root_NULL T(3) by auto
    with T traverse_nodes_fold [OF T(3) False assms(3)] assms(2) show ?thesis by (simp add: traverse_tree_def)
  qed (use T assms(2) in \<open>simp add: traverse_tree_def\<close>)
qed

lemma traverse_levels:
  assumes "array_list n s tr es" "tr \<noteq> NULL" "\<forall>d p. visit d p s = Some (g d p, s)"
  shows "traverse_tree (trbt_traversearray32_node n visit) tr p s = Some (fold g (map snd es) p, s)"
  using assms(1,2)
proof (induction n arbitrary: tr es p)
  case 0
  then obtain t where t: "tree_at s tr t" "es = map (\<lambda>(k, a, d). ([k], d)) (entries t)" by auto
  have "visits visit (\<lambda>x. g (snd (snd x))) t s" using assms(3) by (simp add: visits_def)
  from traverse_tree_fold [OF t(1) 0(2) this] show ?case
    by (simp add: t(2) fold_map comp_def case_prod_unfold)
next
  case (Suc n)
  then obtain t L where t: "tree_at s tr t"
      "\<forall>(k, a, d) \<in> set (entries t). d \<noteq> NULL \<and> L k \<noteq> [] \<and> array_list n s d (L k)"
      "es = concat (map (\<lambda>(k, a, d). map (apfst (Cons k)) (L k)) (entries t))"
    by auto
  have "visits (traverse_tree (trbt_traversearray32_node n visit)) (\<lambda>x. fold g (map snd (L (fst x)))) t s"
    using Suc.IH t(2) by (auto simp: visits_def)
  from traverse_tree_fold [OF t(1) Suc.prems(2) this]
  have "traverse_tree (trbt_traversearray32_node (Suc n) visit) tr p s =
    Some (fold (\<lambda>x. fold g (map snd (L (fst x)))) (entries t) p, s)" by simp
  moreover have "fold (\<lambda>x. fold g (map snd (L (fst x)))) xs p =
      fold g (map snd (concat (map (\<lambda>(k, a, d). map (apfst (Cons k)) (L k)) xs))) p" for xs :: "(u32 \<times> ptr \<times> ptr) list"
    by (induction xs arbitrary: p) (auto simp: comp_def)
  ultimately show ?case by (simp only: t(3))
qed

theorem trbt_traversearray32_correct:
  assumes "array_list n s tr es" "tr \<noteq> NULL" "\<forall>d p. visit d p s = Some (g d p, s)" "n < 2 ^ 32 - 1"
  shows "trbt_traversearray32 tr (of_nat (Suc n)) visit p s = Some (fold g (map snd es) p, s)"
proof -
  have "unat (of_nat (Suc n) - 1 :: u32) = n" using assms(4) by (simp add: unat_of_nat)
  with traverse_levels [where visit = visit and g = g, OF assms(1-3)] show ?thesis by (simp only: trbt_traversearray32_def)
qed

lemma entries_map_rbt: "entries (map_rbt h t) = map (\<lambda>(k, d). (k, h d)) (entries t)"
  by (induction t) auto

section \<open>The first entry\<close>

lemma leftmost_correct:
  assumes "shape (nodes s) tr par t" "entries t = (k, a, d) # es"
  shows "leftmost (root_ptr t) s = Some a \<and> (\<exists>n. nodes s a = Some n \<and> n_data n = d)"
  using assms
proof (induction t arbitrary: par es)
  case (Node c l k' d' r)
  have sh: "shape (nodes s) tr (fst d') l" using Node.prems(1) by simp
  have lf: "root_ptr l = NULL \<longleftrightarrow> l = Leaf" using sh shape_root_NULL by auto
  show ?case
  proof (cases "entries l")
    case Nil
    then have "l = Leaf" by (cases l) auto
    with Node.prems show ?thesis by (subst leftmost.simps) auto
  next
    case (Cons x xs)
    with Node.prems(2) have "entries l = (k, a, d) # xs" "l \<noteq> Leaf" by auto
    with Node.IH(1) [OF sh] lf Node.prems(1) show ?thesis by (subst leftmost.simps) auto
  qed
qed simp

lemma findfirst_correct:
  assumes "array_list n s tr es" "tr \<noteq> NULL" "es \<noteq> []"
  shows "findfirst_levels (Suc n) tr s = Some (snd (hd es))"
  using assms
proof (induction n arbitrary: tr es)
  case 0
  then obtain t where t: "tree_at s tr t" "es = map (\<lambda>(k, a, d). ([k], d)) (entries t)" by auto
  then obtain k a d xs where e: "entries t = (k, a, d) # xs" using 0(3) by (cases "entries t") auto
  obtain T where T: "trees s tr = Some T" "t_root T = root_ptr t" "shape (nodes s) tr NULL t"
    using t(1) by (auto simp: zip_at_def)
  have "t \<noteq> Leaf" using e by auto
  then have "root_ptr t \<noteq> NULL" using shape_root_NULL T(3) by auto
  with T leftmost_correct [OF T(3) e] 0(2) t(2) e show ?case by auto
next
  case (Suc n)
  then obtain t L where t: "tree_at s tr t"
      "\<forall>(k, a, d) \<in> set (entries t). d \<noteq> NULL \<and> L k \<noteq> [] \<and> array_list n s d (L k)"
      "es = concat (map (\<lambda>(k, a, d). map (apfst (Cons k)) (L k)) (entries t))"
    by auto
  then obtain k a d xs where e: "entries t = (k, a, d) # xs" using Suc.prems(3) by (cases "entries t") auto
  obtain T where T: "trees s tr = Some T" "t_root T = root_ptr t" "shape (nodes s) tr NULL t"
    using t(1) by (auto simp: zip_at_def)
  have "t \<noteq> Leaf" using e by auto
  then have rt: "root_ptr t \<noteq> NULL" using shape_root_NULL T(3) by auto
  have d: "d \<noteq> NULL" "L k \<noteq> []" "array_list n s d (L k)" using t(2) e by auto
  have "findfirst_levels (Suc (Suc n)) tr s = findfirst_levels (Suc n) d s"
    using T rt leftmost_correct [OF T(3) e] Suc.prems(2)
    by (subst findfirst_levels.simps) (auto simp del: findfirst_levels.simps)
  also have "\<dots> = Some (snd (hd (L k)))" using Suc.IH [OF d(3,1,2)] .
  also have "snd (hd (L k)) = snd (hd es)" using d(2) by (cases "L k") (simp_all add: t(3) e)
  finally show ?case .
qed

theorem trbt_findfirstarray32_correct:
  assumes "array_list n s tr es" "tr \<noteq> NULL" "es \<noteq> []" "n < 2 ^ 32 - 1"
  shows "trbt_findfirstarray32 tr (of_nat (Suc n)) s = Some (snd (hd es))"
proof -
  have "unat (of_nat (Suc n) :: u32) = Suc n" using assms(4) by (simp add: unat_of_nat del: of_nat_Suc)
  with findfirst_correct [OF assms(1-3)] show ?thesis by (simp only: trbt_findfirstarray32_def)
qed

end
