(* ===== verification/Reader.thy ===== *)
theory Reader
  imports Prelude
begin

text \<open>
  The byte level of \<^verbatim>\<open>phat.c\<close>: the dump file as a byte sequence with a position, the
  big-endian readers, the format version, and the clean-up of names.
\<close>

section \<open>The file\<close>

record infile =
  content :: "byte list"
  fpos :: nat

text \<open>\<open>getc\<close>: \<open>None\<close> is EOF.\<close>

definition getc :: "infile \<Rightarrow> byte option \<times> infile" where
  "getc f = (if fpos f < length (content f) then (Some (content f ! fpos f), f\<lparr>fpos := Suc (fpos f)\<rparr>)
             else (None, f))"

text \<open>\<open>fread(buf, 1, n, fin)\<close>: up to \<open>n\<close> bytes.\<close>

definition fread :: "nat \<Rightarrow> infile \<Rightarrow> byte list \<times> infile" where
  "fread n f = (let bs = take n (drop (fpos f) (content f)) in (bs, f\<lparr>fpos := fpos f + length bs\<rparr>))"

definition fseek_cur :: "nat \<Rightarrow> infile \<Rightarrow> infile" where
  "fseek_cur n f = f\<lparr>fpos := fpos f + n\<rparr>"

definition fseek_set :: "nat \<Rightarrow> infile \<Rightarrow> infile" where
  "fseek_set n f = f\<lparr>fpos := n\<rparr>"

section \<open>Integers\<close>

text \<open>
  The readers return \<open>None\<close> for the return code -1, when \<open>*input\<close> is left as it was.
  The byte order test compares with the undefined macro \<open>__BIGENDIAN\<close>, so the second
  branch is the one compiled on a little-endian machine. \<open>sb[0] << 8 | sb[1]\<close> is
  computed in \<open>int\<close>, 32 bits wide.
\<close>

definition readUshort :: "infile \<Rightarrow> u16 option \<times> infile" where
  "readUshort f = (case fread 2 f of (sb, f) \<Rightarrow>
     if length sb \<noteq> 2 then (None, f)
     else (Some (ucast (push_bit 8 (ucast (sb ! 0)) OR ucast (sb ! 1) :: u32)), f))"

definition readUint :: "infile \<Rightarrow> u32 option \<times> infile" where
  "readUint f = (case fread 4 f of (sb, f) \<Rightarrow>
     if length sb \<noteq> 4 then (None, f)
     else (Some (push_bit 8 (push_bit 8 (push_bit 8 (ucast (sb ! 0)) OR ucast (sb ! 1)) OR ucast (sb ! 2))
                 OR ucast (sb ! 3)), f))"

text \<open>
  \<open>readUlong\<close>: the first half is an \<open>int\<close> widened with its sign; in the second
  statement \<open>+\<close> binds tighter than \<open><<\<close>, which binds tighter than \<open>|\<close>.
\<close>

definition readUlong :: "infile \<Rightarrow> u64 option \<times> infile" where
  "readUlong f = (case fread 8 f of (sb, f) \<Rightarrow>
     if length sb \<noteq> 8 then (None, f)
     else
       let val = (scast (push_bit 8 (push_bit 8 (push_bit 8 (ucast (sb ! 0)) OR ucast (sb ! 1)) OR ucast (sb ! 2))
                   OR ucast (sb ! 3) :: u32) :: u64);
           mid = (push_bit 8 (push_bit 8 (ucast (sb ! 4)) OR ucast (sb ! 5)) OR ucast (sb ! 6) :: u64)
       in (Some (push_bit 8 (push_bit 32 val + mid) OR ucast (sb ! 7)), f))"

text \<open>
  \<open>readIdent\<close> ignores the return code: on a short read its result is the value of an
  uninitialised variable, here \<open>None\<close>.
\<close>

definition readIdent :: "u32 \<Rightarrow> infile \<Rightarrow> u64 option \<times> infile" where
  "readIdent identsz f =
     (if identsz = 4 then (case readUint f of (v, f) \<Rightarrow> (map_option ucast v, f))
      else readUlong f)"

text \<open>A loop that reads \<open>n\<close> values one after the other.\<close>

fun get_many :: "(infile \<Rightarrow> 'v \<times> infile) \<Rightarrow> nat \<Rightarrow> infile \<Rightarrow> 'v list \<times> infile" where
  "get_many get 0 f = ([], f)"
| "get_many get (Suc n) f =
     (case get f of (v, f) \<Rightarrow> (case get_many get n f of (vs, f) \<Rightarrow> (v # vs, f)))"

section \<open>Version and signatures\<close>

text \<open>
  The loop of \<open>readVersion\<close> over the bytes left, with the part of \<open>sb[40]\<close> written
  so far. When the buffer is nearly full it stores to \<open>sb[1+len]\<close>, which is \<open>sb[40]\<close>:
  one past the end.
\<close>

fun readVersion_loop :: "byte list \<Rightarrow> byte list \<Rightarrow> byte list option" where
  "readVersion_loop [] sb = Some sb"
| "readVersion_loop (ch # rest) sb =
     (if ch = 0 then Some (sb @ [ch])
      else if 40 < length (sb @ [ch]) + 2 then None
      else readVersion_loop rest (sb @ [ch]))"

text \<open>\<open>strcmp(sb, lit) == 0\<close>; reading past the initialised part of \<open>sb\<close> is \<open>None\<close>.\<close>

fun strcmp_eq :: "byte list \<Rightarrow> byte list \<Rightarrow> bool option" where
  "strcmp_eq [] ys = None"
| "strcmp_eq (x # xs) [] = Some (x = 0)"
| "strcmp_eq (x # xs) (y # ys) = (if x \<noteq> y then Some False else strcmp_eq xs ys)"

definition bytes_of :: "string \<Rightarrow> byte list" where
  "bytes_of s = map of_char s"

definition readVersion :: "infile \<Rightarrow> (int \<times> infile) option" where
  "readVersion f = do {
     sb \<leftarrow> readVersion_loop (drop (fpos f) (content f)) [];
     let f = f\<lparr>fpos := fpos f + length sb\<rparr>;
     if 0 < length sb then do {
       e2 \<leftarrow> strcmp_eq sb (bytes_of '' PROFILE 1.0.2'');
       if e2 then Some (2, f)
       else do {
         e1 \<leftarrow> strcmp_eq sb (bytes_of '' PROFILE 1.0.1'');
         if e1 then Some (1, f)
         else do {
           e0 \<leftarrow> strcmp_eq sb (bytes_of '' PROFILE 1.0'');
           if e0 then Some (0, f) else Some (-1, f) } }
     } else Some (-1, f) }"

definition sigFromType :: "byte \<Rightarrow> byte" where
  "sigFromType otype =
     (if otype = 2 then of_char (CHR ''L'')
      else if otype = 4 then of_char (CHR ''Z'')
      else if otype = 5 then of_char (CHR ''C'')
      else if otype = 6 then of_char (CHR ''F'')
      else if otype = 7 then of_char (CHR ''D'')
      else if otype = 8 then of_char (CHR ''B'')
      else if otype = 9 then of_char (CHR ''S'')
      else if otype = 10 then of_char (CHR ''I'')
      else if otype = 11 then of_char (CHR ''J'')
      else of_char (CHR ''U''))"

section \<open>Names\<close>

text \<open>
  \<open>hideSpecials\<close> walks a NUL-terminated string; \<open>char\<close> is signed, so every byte from
  0x80 up compares below 0x20.
\<close>

fun hideSpecials :: "byte list \<Rightarrow> byte list" where
  "hideSpecials [] = []"
| "hideSpecials (c # cs) =
     (if c = 0 then c # cs
      else (if c = 10 \<or> c = 13 \<or> sint c < 0x20 then of_char (CHR ''.'') else c) # hideSpecials cs)"

text \<open>The C string in a zero-filled buffer.\<close>

definition c_string :: "byte list \<Rightarrow> byte list" where
  "c_string bs = takeWhile (\<lambda>b. b \<noteq> 0) bs"

end
