(* ===== verification/Dump.thy ===== *)
theory Dump
  imports Reader Rbt_Spec Talloc
begin

text \<open>
  The state of \<^verbatim>\<open>phat.c\<close> and the operations that fill it from a class or array record.

  The tables (\<open>trbt_tree_t\<close>) are the search trees of \<open>Rbt_Spec\<close>, which the pointer code of
  \<^verbatim>\<open>rbtree.c\<close> implements; as in the C code a 64-bit key is cut to 32 bits when it is passed to
  \<open>trbt_insert32\<close> and \<open>trbt_lookup32\<close>. Class and object records are cells of two stores,
  because the code shares and mutates them through pointers. Strings are never changed
  once they are in a table and are kept by value. A field that the code has not yet
  written is \<open>None\<close>, and using it has no result. Allocation of a fixed-size cell always
  succeeds at this level; \<open>debug\<close> is 0.
\<close>

section \<open>Data\<close>

datatype hvalue = V_ident u64 | V_b byte | V_c u16 | V_i u32 | V_j u64 | V_f | V_d

text \<open>\<open>hvalues\<close>: an array of the union, or the same memory filled with raw bytes.\<close>

datatype hstore = Vals "hvalue option list" | Raw "byte list"

abbreviation (input) H_INSTANCE :: int where "H_INSTANCE \<equiv> 1"
abbreviation (input) H_VARRAY :: int where "H_VARRAY \<equiv> 2"
abbreviation (input) H_OARRAY :: int where "H_OARRAY \<equiv> 3"

record hobject =
  htype :: int
  instId :: u64
  classId :: u64
  hfpos :: nat
  xclassId :: u64
  hresolved :: bool
  visit :: bool
  hcount :: "u32 option"
  hsize :: u32
  osize :: "u64 option"
  csize :: u64
  hvalues :: "hstore option"

record finfo =
  fident :: "u64 option"
  fname :: "byte list option option"
  ftype :: byte
  fresolved :: bool
  offset :: "nat option"

text \<open>An entry of \<open>values\<close> points to a field of the class itself or to a copy.\<close>

datatype fref = Own nat | Copied finfo

text \<open>A static of a class: the part of its \<open>hobject\<close> the code fills.\<close>

record static =
  sinstId :: "u64 option"
  shtype :: int
  sresolved :: bool
  svalue :: "hvalue option"

record cinfo =
  cident :: u64
  nident :: u64
  cname :: "byte list option"
  ccount :: u64
  superId :: "u64 option"
  loaderId :: "u64 option"
  signerId :: "u64 option"
  domainId :: "u64 option"
  cstats :: "u16 option"
  cfields :: "u16 option"
  tfields :: int
  cresolved :: bool
  statics :: "static list option"
  cfinfo :: "finfo list option"   \<comment> \<open>\<open>fields\<close>\<close>
  cvalues :: "fref option list option"   \<comment> \<open>\<open>values\<close>\<close>
  cisize :: "u64 option"   \<comment> \<open>\<open>size\<close>\<close>
  parents :: "ptr option"
  children :: "ptr option"

record arc =
  aparent :: ptr
  achild :: ptr
  next_parent :: ptr
  next_child :: ptr
  acount :: int
  achild_size :: int

datatype root_entry = Rinfo u64 u64 nat "byte list" | Monitor u32

abbreviation (input) ROOT_NATIVE_STATIC :: nat where "ROOT_NATIVE_STATIC \<equiv> 1"
abbreviation (input) ROOT_NATIVE_LOCAL :: nat where "ROOT_NATIVE_LOCAL \<equiv> 2"
abbreviation (input) ROOT_JAVA_LOCAL :: nat where "ROOT_JAVA_LOCAL \<equiv> 3"
abbreviation (input) ROOT_NATIVE_STACK :: nat where "ROOT_NATIVE_STACK \<equiv> 4"
abbreviation (input) ROOT_SYSTEM_CLASS :: nat where "ROOT_SYSTEM_CLASS \<equiv> 5"
abbreviation (input) ROOT_THREAD_BLOCK :: nat where "ROOT_THREAD_BLOCK \<equiv> 6"

text \<open>What the program prints: one constructor for each format it uses.\<close>

datatype event =
    Dump_created u64
  | Frame u64 "byte list option" "byte list option" u32 "byte list option" "byte list option" u32
  | Trace u32 u32 u32
  | Bad_bool byte
  | Bad_type_sig int
  | Root_unknown
  | Unknown_heap_type byte
  | Heap_summary "int list"
  | Class_line u64 u64 u64 "byte list option"
  | Instance_line u64 u64 u64 "byte list option"
  | Class_not_found "byte list"
  | Arc_null
  | P_recursive u64 u64 "u64 option" "u64 option"
  | P_value_array u64 u64 u64 u32 "u64 option"
  | P_elem u64 | P_char byte | P_more u32 | P_tabs nat | P_newline
  | P_object_array u64 u64 u32 "u64 option"
  | P_elements nat | P_null bool | P_unknown bool u64
  | P_instance u64 u64 "byte list option" "u64 option" "u64 option"
  | P_enter nat | P_leave nat
  | P_field nat nat byte "byte list option" | P_value u64 | P_zero
  | P_begin ptr | P_end ptr
  | P_string u64 u64 "byte list option"
  | P_opt byte

record jdump =
  fin :: infile
  fVersion :: int
  identsz :: u32
  sbTable :: "byte list rbt"
  cTable :: "ptr rbt"
  hTable :: "ptr rbt"
  rcTable :: "ptr rbt"
  scTable :: "ptr rbt"
  roots :: "root_entry rbt"
  javaLangClass :: ptr
  javaLangString :: ptr
  javaLangClassLoader :: ptr
  fclass :: "byte list option"
  plimit :: int
  fakeClass :: u64
  cinfos :: "ptr \<rightharpoonup> cinfo"
  hobjs :: "ptr \<rightharpoonup> hobject"
  arc_cells :: "ptr \<rightharpoonup> arc"
  arcs :: "ptr list"
  arcs_max :: int
  next_ptr :: ptr
  out :: "event list"

section \<open>Access\<close>

definition emit :: "event \<Rightarrow> jdump \<Rightarrow> jdump" where
  "emit e jf = jf\<lparr>out := out jf @ [e]\<rparr>"

text \<open>\<open>trbt_lookup32\<close> and \<open>trbt_insert32\<close> on a table of pointers; a missing key gives NULL.\<close>

definition lookup32 :: "ptr rbt \<Rightarrow> u64 \<Rightarrow> ptr" where
  "lookup32 tab key = (case rbt_lookup tab (ucast key) of None \<Rightarrow> NULL | Some p \<Rightarrow> p)"

definition insert32 :: "u64 \<Rightarrow> 'd \<Rightarrow> 'd rbt \<Rightarrow> 'd rbt" where
  "insert32 key d tab = rbt_insert (ucast key) (\<lambda>_. d) tab"

definition upd_ci :: "ptr \<Rightarrow> (cinfo \<Rightarrow> cinfo) \<Rightarrow> jdump \<Rightarrow> jdump option" where
  "upd_ci p f jf = do { h \<leftarrow> upd_cell p f (cinfos jf); Some (jf\<lparr>cinfos := h\<rparr>) }"

definition upd_ho :: "ptr \<Rightarrow> (hobject \<Rightarrow> hobject) \<Rightarrow> jdump \<Rightarrow> jdump option" where
  "upd_ho p f jf = do { h \<leftarrow> upd_cell p f (hobjs jf); Some (jf\<lparr>hobjs := h\<rparr>) }"

definition upd_arc :: "ptr \<Rightarrow> (arc \<Rightarrow> arc) \<Rightarrow> jdump \<Rightarrow> jdump option" where
  "upd_arc p f jf = do { h \<leftarrow> upd_cell p f (arc_cells jf); Some (jf\<lparr>arc_cells := h\<rparr>) }"

text \<open>The readers, on the file of the dump.\<close>

definition on_file :: "(infile \<Rightarrow> 'v \<times> infile) \<Rightarrow> jdump \<Rightarrow> 'v \<times> jdump" where
  "on_file get jf = (case get (fin jf) of (v, f) \<Rightarrow> (v, jf\<lparr>fin := f\<rparr>))"

abbreviation (input) ident :: "jdump \<Rightarrow> u64 option \<times> jdump" where
  "ident jf \<equiv> on_file (readIdent (identsz jf)) jf"

text \<open>\<open>getc\<close> stored to an \<open>unsigned char\<close>: EOF is 0xff.\<close>

definition getc_uchar :: "infile \<Rightarrow> byte \<times> infile" where
  "getc_uchar f = (case getc f of (None, f) \<Rightarrow> (0xff, f) | (Some b, f) \<Rightarrow> (b, f))"

text \<open>\<open>getc\<close> stored to a wider integer: EOF is -1.\<close>

definition getc_int :: "infile \<Rightarrow> int \<times> infile" where
  "getc_int f = (case getc f of (None, f) \<Rightarrow> (-1, f) | (Some b, f) \<Rightarrow> (uint b, f))"

text \<open>A counted loop.\<close>

fun for_range :: "nat \<Rightarrow> nat \<Rightarrow> (nat \<Rightarrow> 's \<Rightarrow> 's option) \<Rightarrow> 's \<Rightarrow> 's option" where
  "for_range i 0 body s = Some s"
| "for_range i (Suc n) body s = do { s \<leftarrow> body i s; for_range (Suc i) n body s }"

fun for_each :: "('a \<Rightarrow> 's \<Rightarrow> 's option) \<Rightarrow> 'a list \<Rightarrow> 's \<Rightarrow> 's option" where
  "for_each body [] s = Some s"
| "for_each body (x # xs) s = do { s \<leftarrow> body x s; for_each body xs s }"

section \<open>Constructors\<close>

definition mkrinfo :: "u64 \<Rightarrow> u64 \<Rightarrow> nat \<Rightarrow> byte list \<Rightarrow> root_entry" where
  "mkrinfo rid refid rtype desc = Rinfo rid refid rtype desc"

definition new_cinfo :: "u64 \<Rightarrow> u64 \<Rightarrow> byte list option \<Rightarrow> cinfo" where
  "new_cinfo cid nid nm =
     \<lparr>cident = cid, nident = nid, cname = nm, ccount = 0, superId = None, loaderId = None,
      signerId = None, domainId = None, cstats = None, cfields = None, tfields = 0,
      cresolved = False, statics = None, cfinfo = None, cvalues = None, cisize = None,
      parents = None, children = None\<rparr>"

definition mkcinfo :: "u64 \<Rightarrow> u64 \<Rightarrow> byte list option \<Rightarrow> jdump \<Rightarrow> ptr \<times> jdump" where
  "mkcinfo cid nid nm jf =
     (next_ptr jf, jf\<lparr>cinfos := (cinfos jf)(next_ptr jf \<mapsto> new_cinfo cid nid nm), next_ptr := Suc (next_ptr jf)\<rparr>)"

definition new_hobject :: "int \<Rightarrow> u64 \<Rightarrow> u64 \<Rightarrow> hobject" where
  "new_hobject ht iid cid =
     \<lparr>htype = ht, instId = iid, classId = cid, hfpos = 0, xclassId = 0, hresolved = False,
      visit = False, hcount = None, hsize = 0, osize = None, csize = 0, hvalues = None\<rparr>"

definition makeObj :: "int \<Rightarrow> u64 \<Rightarrow> u64 \<Rightarrow> jdump \<Rightarrow> ptr \<times> jdump" where
  "makeObj ht iid cid jf =
     (next_ptr jf, jf\<lparr>hobjs := (hobjs jf)(next_ptr jf \<mapsto> new_hobject ht iid cid), next_ptr := Suc (next_ptr jf)\<rparr>)"

section \<open>Names\<close>

text \<open>
  \<open>crc\<close> stands for zlib's \<open>crc32\<close>; a buffer of \<open>None\<close> is \<open>Z_NULL\<close>.
\<close>

type_synonym crc32 = "u64 \<Rightarrow> byte list option \<Rightarrow> u64"

definition hashKey :: "crc32 \<Rightarrow> byte list \<Rightarrow> u64" where
  "hashKey crc key = (let ckey = crc 0 None in crc ckey (Some key))"

definition findClass :: "crc32 \<Rightarrow> jdump \<Rightarrow> byte list \<Rightarrow> ptr" where
  "findClass crc jf nm = lookup32 (rcTable jf) (hashKey crc nm)"

section \<open>Values and classes\<close>

text \<open>
  \<open>readValue\<close>: the type, the value stored in \<open>hvalues[0]\<close> (if it is determined) and the
  number the caller subtracts from \<open>hsize\<close>, an \<open>int\<close> converted to \<open>unsigned\<close>.
\<close>

definition readValue :: "jdump \<Rightarrow> (int \<times> hvalue option \<times> u32) \<times> jdump" where
  "readValue jf =
    (let (ht, jf) = on_file getc_int jf;
         ht = (if 1 \<le> fVersion jf then uint (sigFromType (word_of_int ht)) else ht)
     in if ht = of_char (CHR ''['') \<or> ht = of_char (CHR ''L'') then
          (let (v, jf) = ident jf in ((ht, map_option V_ident v, identsz jf), jf))
        else if ht = of_char (CHR ''Z'') then
          (let (b, jf) = on_file getc_uchar jf
           in if b \<noteq> 0 \<and> b \<noteq> 1 then ((ht, Some (V_b b), -1), emit (Bad_bool b) jf)
              else ((ht, Some (V_b b), 1), jf))
        else if ht = of_char (CHR ''B'') then
          (let (b, jf) = on_file getc_uchar jf in ((ht, Some (V_b b), 1), jf))
        else if ht = of_char (CHR ''S'') then
          (let (c, jf) = on_file readUshort jf in ((ht, map_option V_c c, 2), jf))
        else if ht = of_char (CHR ''C'') then
          (let (c, jf) = on_file readUshort jf in ((ht, map_option V_c c, 2), jf))
        else if ht = of_char (CHR ''I'') then
          (let (i, jf) = on_file readUint jf in ((ht, map_option V_i i, 4), jf))
        else if ht = of_char (CHR ''J'') then
          (let (j, jf) = on_file readUlong jf in ((ht, map_option V_j j, 8), jf))
        else if ht = of_char (CHR ''F'') then
          ((ht, Some V_f, 4), jf\<lparr>fin := fseek_cur 4 (fin jf)\<rparr>)
        else if ht = of_char (CHR ''D'') then
          ((ht, Some V_d, 8), jf\<lparr>fin := fseek_cur 8 (fin jf)\<rparr>)
        else ((ht, None, 0), emit (Bad_type_sig ht) jf))"

text \<open>The three loops of \<open>readClass\<close>: constant pool, statics, fields.\<close>

fun read_cpool :: "nat \<Rightarrow> u32 \<Rightarrow> jdump \<Rightarrow> u32 \<times> jdump" where
  "read_cpool 0 hs jf = (hs, jf)"
| "read_cpool (Suc n) hs jf =
     (let (entry, jf) = on_file readUshort jf;
          ((ht, v, sz), jf) = readValue jf
      in read_cpool n (hs - 2 - sz) jf)"

fun read_statics :: "nat \<Rightarrow> u32 \<Rightarrow> jdump \<Rightarrow> (static list \<times> u32) \<times> jdump" where
  "read_statics 0 hs jf = (([], hs), jf)"
| "read_statics (Suc n) hs jf =
     (let (iid, jf) = ident jf;
          ((ht, v, sz), jf) = readValue jf;
          ((ss, hs), jf) = read_statics n (hs - identsz jf - (1 + sz)) jf
      in ((\<lparr>sinstId = iid, shtype = ht, sresolved = False, svalue = v\<rparr> # ss, hs), jf))"

fun read_fields :: "nat \<Rightarrow> u32 \<Rightarrow> jdump \<Rightarrow> (finfo list \<times> u32) \<times> jdump" where
  "read_fields 0 hs jf = (([], hs), jf)"
| "read_fields (Suc n) hs jf =
     (let (iid, jf) = ident jf;
          (ft, jf) = on_file getc_uchar jf;
          ft = (if 1 \<le> fVersion jf then sigFromType ft else ft);
          ((fs, hs), jf) = read_fields n (hs - (1 + identsz jf)) jf
      in ((\<lparr>fident = iid, fname = None, ftype = ft, fresolved = False, offset = None\<rparr> # fs, hs), jf))"

text \<open>
  \<open>readClass\<close> writes to the class it looks up, which has to be there. The counts are used
  as loop bounds, so they have to have been read.
\<close>

definition readClass :: "jdump \<Rightarrow> u32 \<Rightarrow> (u32 \<times> jdump) option" where
  "readClass jf hs = do {
     let (idt, jf) = ident jf;
     idt \<leftarrow> idt;
     let ci = lookup32 (cTable jf) idt;
     let (stackId, jf) = on_file readUint jf;
     let (v, jf) = ident jf;
     jf \<leftarrow> upd_ci ci (\<lambda>c. c\<lparr>superId := v\<rparr>) jf;
     let (v, jf) = ident jf;
     jf \<leftarrow> upd_ci ci (\<lambda>c. c\<lparr>loaderId := v\<rparr>) jf;
     let (v, jf) = ident jf;
     jf \<leftarrow> upd_ci ci (\<lambda>c. c\<lparr>signerId := v\<rparr>) jf;
     let (v, jf) = ident jf;
     jf \<leftarrow> upd_ci ci (\<lambda>c. c\<lparr>domainId := v\<rparr>) jf;
     let (res1, jf) = ident jf;
     let (res2, jf) = ident jf;
     let (instsz, jf) = on_file readUint jf;
     let hs = hs - ((7 * identsz jf) + 8);
     let (cpool, jf) = on_file readUshort jf;
     cpool \<leftarrow> cpool;
     let (hs, jf) = read_cpool (unat cpool) (hs - 2) jf;
     let (n, jf) = on_file readUshort jf;
     n \<leftarrow> n;
     jf \<leftarrow> upd_ci ci (\<lambda>c. c\<lparr>cstats := Some n\<rparr>) jf;
     let ((ss, hs), jf) = read_statics (unat n) (hs - 2) jf;
     jf \<leftarrow> (if 0 < n then upd_ci ci (\<lambda>c. c\<lparr>statics := Some ss\<rparr>) jf else Some jf);
     let (n, jf) = on_file readUshort jf;
     n \<leftarrow> n;
     jf \<leftarrow> upd_ci ci (\<lambda>c. c\<lparr>cfields := Some n\<rparr>) jf;
     let ((fs, hs), jf) = read_fields (unat n) (hs - 2) jf;
     jf \<leftarrow> (if 0 < n then upd_ci ci (\<lambda>c. c\<lparr>cfinfo := Some fs\<rparr>) jf else Some jf);
     Some (hs, jf) }"

section \<open>Arrays\<close>

text \<open>The signature and size of a primitive element type.\<close>

definition prim_type :: "u64 \<Rightarrow> (char \<times> u32) option" where
  "prim_type t =
     (if t = 4 then Some (CHR ''Z'', 1)
      else if t = 5 then Some (CHR ''C'', 2)
      else if t = 6 then Some (CHR ''F'', 4)
      else if t = 7 then Some (CHR ''D'', 8)
      else if t = 8 then Some (CHR ''B'', 1)
      else if t = 9 then Some (CHR ''S'', 2)
      else if t = 10 then Some (CHR ''I'', 4)
      else if t = 11 then Some (CHR ''J'', 8)
      else None)"

text \<open>
  The class of an array: found by name, or made up. \<open>fakeClass\<close> is incremented by the
  argument of \<open>mkcinfo\<close> and used again, incremented, as the key of \<open>cTable\<close>.
\<close>

definition array_class :: "crc32 \<Rightarrow> u64 \<Rightarrow> byte list \<Rightarrow> jdump \<Rightarrow> ptr \<times> jdump" where
  "array_class crc elemClassId nm jf =
     (let ci = findClass crc jf nm
      in if ci \<noteq> NULL then (ci, jf)
         else
           (let fc = fakeClass jf;
                jf = jf\<lparr>fakeClass := fc + 1\<rparr>;
                (ci, jf) = mkcinfo fc elemClassId (Some nm) jf
            in (ci, jf\<lparr>sbTable := insert32 elemClassId nm (sbTable jf),
                       cTable := insert32 (fakeClass jf) ci (cTable jf),
                       rcTable := insert32 (hashKey crc nm) ci (rcTable jf)\<rparr>)))"

text \<open>
  The part both branches share: the object with its class, file position, element size
  and count, and the skip over the elements; \<open>elsz * isz\<close> is computed in 32 bits.
\<close>

definition array_object :: "int \<Rightarrow> u64 \<Rightarrow> ptr \<Rightarrow> u32 \<Rightarrow> u32 \<Rightarrow> jdump \<Rightarrow> (ptr \<times> jdump) option" where
  "array_object ht ide ci elsz isz jf = do {
     c \<leftarrow> cinfos jf ci;
     let (ho, jf) = makeObj ht ide (cident c) jf;
     jf \<leftarrow> upd_ho ho (\<lambda>h. h\<lparr>hfpos := fpos (fin jf), hsize := elsz, hcount := Some isz\<rparr>) jf;
     Some (ho, jf\<lparr>fin := fseek_cur (unat (elsz * isz)) (fin jf)\<rparr>) }"

definition readArray :: "crc32 \<Rightarrow> jdump \<Rightarrow> u32 \<Rightarrow> bool \<Rightarrow> (u32 \<times> jdump) option" where
  "readArray crc jf hs prim = do {
     let (ide, jf) = ident jf;
     let (stackId, jf) = on_file readUint jf;
     let (isz, jf) = on_file readUint jf;
     let hs = hs - (8 + identsz jf);
     (elemClassId, hs, jf) \<leftarrow>
       (if prim then (let (t, jf) = on_file getc_int jf in Some (word_of_int t, hs - 1, jf))
        else (let (t, jf) = ident jf in do { t \<leftarrow> t; Some (t, hs - identsz jf, jf) }));
     ide \<leftarrow> ide;
     isz \<leftarrow> isz;
     (case (if prim then prim_type elemClassId else None) of
        Some (primSig, elsz) \<Rightarrow> do {
          let (ci, jf) = array_class crc elemClassId [of_char (CHR ''[''), of_char primSig] jf;
          let hs = hs - elsz * isz;
          (ho, jf) \<leftarrow> array_object H_VARRAY ide ci elsz isz jf;
          Some (hs, jf\<lparr>hTable := insert32 ide ho (hTable jf)\<rparr>) }
      | None \<Rightarrow> do {
          c \<leftarrow> cinfos jf (lookup32 (cTable jf) elemClassId);
          nm \<leftarrow> cname c;
          _ \<leftarrow> (if array_too_big 1 (2 + of_nat (length nm)) then None else Some ());
          let (ci, jf) = array_class crc elemClassId nm jf;
          let hs = hs - identsz jf * isz;
          (ho, jf) \<leftarrow> array_object H_OARRAY ide ci (identsz jf) isz jf;
          Some (hs, jf\<lparr>hTable := insert32 ide ho (hTable jf)\<rparr>) }) }"

end
