(* ===== verification/Resolve.thy ===== *)
theory Resolve
  imports Dump
begin

text \<open>
  The second half of \<^verbatim>\<open>phat.c\<close>: laying out the fields of classes, decoding the objects of
  the heap, the class graph (\<open>arc_add\<close>), and printing. The recursive functions take the
  number of nested calls the stack still allows; at 0 the call does not return.
\<close>

section \<open>Arcs between classes\<close>

partial_function (option) arc_walk :: "(ptr \<rightharpoonup> arc) \<Rightarrow> ptr \<Rightarrow> ptr \<Rightarrow> ptr option" where
  "arc_walk cells c a =
     (if a = NULL then Some NULL
      else do {
        x \<leftarrow> cells a;
        if achild x = c then Some a else arc_walk cells c (next_child x) })"

definition arc_lookup :: "jdump \<Rightarrow> ptr \<Rightarrow> ptr \<Rightarrow> (ptr \<times> jdump) option" where
  "arc_lookup jf par c =
     (if par = NULL \<or> c = NULL then Some (NULL, emit Arc_null jf)
      else do {
        p \<leftarrow> cinfos jf par;
        first \<leftarrow> children p;
        a \<leftarrow> arc_walk (arc_cells jf) c first;
        Some (a, jf) })"

text \<open>
  \<open>arcs\<close> grows by ten entries when it is full; an array of more than \<open>MAX_TALLOC_SIZE\<close>
  bytes cannot be allocated, and copying to NULL has no result.
\<close>

definition arcs_push :: "ptr \<Rightarrow> jdump \<Rightarrow> jdump option" where
  "arcs_push a jf = do {
     jf \<leftarrow> (if int (length (arcs jf)) = arcs_max jf then
              (if uint MAX_TALLOC_SIZE \<le> 8 * (arcs_max jf + 10) then None
               else Some (jf\<lparr>arcs_max := arcs_max jf + 10\<rparr>))
            else Some jf);
     Some (jf\<lparr>arcs := arcs jf @ [a]\<rparr>) }"

definition arc_add :: "jdump \<Rightarrow> ptr \<Rightarrow> ptr \<Rightarrow> int \<Rightarrow> jdump option" where
  "arc_add jf hop hoc cnt = do {
     hp \<leftarrow> hobjs jf hop;
     hc \<leftarrow> hobjs jf hoc;
     let par = lookup32 (cTable jf) (classId hp);
     let c = lookup32 (cTable jf) (classId hc);
     (a, jf) \<leftarrow> arc_lookup jf par c;
     if a \<noteq> NULL then
       upd_arc a (\<lambda>x. x\<lparr>acount := acount x + cnt, achild_size := achild_size x + sint (hsize hc)\<rparr>) jf
     else do {
       let a = next_ptr jf;
       let jf = jf\<lparr>next_ptr := Suc a\<rparr>;
       jf \<leftarrow> (if par \<noteq> c then arcs_push a jf else Some jf);
       p \<leftarrow> cinfos jf par;
       nc \<leftarrow> children p;
       jf \<leftarrow> upd_ci par (\<lambda>x. x\<lparr>children := Some a\<rparr>) jf;
       q \<leftarrow> cinfos jf c;
       np \<leftarrow> parents q;
       jf \<leftarrow> upd_ci c (\<lambda>x. x\<lparr>parents := Some a\<rparr>) jf;
       Some (jf\<lparr>arc_cells := (arc_cells jf)(a \<mapsto>
         \<lparr>aparent = par, achild = c, next_parent = np, next_child = nc, acount = cnt,
          achild_size = sint (hsize hc)\<rparr>)\<rparr>) } }"

definition arc_init :: "ptr \<Rightarrow> jdump \<Rightarrow> jdump option" where
  "arc_init ci jf = upd_ci ci (\<lambda>c. c\<lparr>parents := Some NULL, children := Some NULL\<rparr>) jf"

section \<open>Class layout\<close>

fun resolveSClassSize :: "nat \<Rightarrow> jdump \<Rightarrow> ptr \<Rightarrow> int option" where
  "resolveSClassSize 0 jf ci = None"
| "resolveSClassSize (Suc d) jf ci = do {
     c \<leftarrow> cinfos jf ci;
     sup \<leftarrow> superId c;
     if sup = 0 then Some 0
     else do {
       n \<leftarrow> cfields c;
       m \<leftarrow> resolveSClassSize d jf (lookup32 (cTable jf) sup);
       Some (uint n + m) } }"

definition getSuperClass :: "jdump \<Rightarrow> ptr \<Rightarrow> ptr option" where
  "getSuperClass jf ci = do {
     c \<leftarrow> cinfos jf ci;
     sup \<leftarrow> superId c;
     Some (lookup32 (cTable jf) sup) }"

definition resolveField :: "static \<Rightarrow> static" where
  "resolveField fi = (if sresolved fi then fi else fi\<lparr>sresolved := True\<rparr>)"

text \<open>The size a field takes in an instance record; types the switch does not list take none.\<close>

definition field_size :: "u32 \<Rightarrow> byte \<Rightarrow> nat" where
  "field_size isz ft =
     (if ft = of_char (CHR ''L'') \<or> ft = of_char (CHR ''['') then unat isz
      else if ft = of_char (CHR ''Z'') \<or> ft = of_char (CHR ''B'') then 1
      else if ft = of_char (CHR ''S'') \<or> ft = of_char (CHR ''C'') then 2
      else if ft = of_char (CHR ''F'') \<or> ft = of_char (CHR ''I'') then 4
      else if ft = of_char (CHR ''D'') \<or> ft = of_char (CHR ''J'') then 8
      else 0)"

text \<open>
  The inner \<open>while\<close>: go to the next superclass that has a field left. A class without a
  superclass ends in the dereference of NULL.
\<close>

partial_function (option) next_field :: "jdump \<Rightarrow> ptr \<Rightarrow> int \<Rightarrow> nat \<Rightarrow> (ptr \<times> int \<times> nat) option" where
  "next_field jf cc target fieldNo = do {
     c \<leftarrow> cinfos jf cc;
     n \<leftarrow> cfields c;
     if unat n \<le> fieldNo then do {
       sup \<leftarrow> superId c;
       let cc = lookup32 (cTable jf) sup;
       c \<leftarrow> cinfos jf cc;
       m \<leftarrow> cfields c;
       next_field jf cc (target - uint m) 0 }
     else Some (cc, target, fieldNo) }"

text \<open>
  The field a class contributes: its own field, with the name looked up, or a copy
  (\<open>copyField\<close>) of a superclass's field.
\<close>

definition place_field :: "ptr \<Rightarrow> ptr \<Rightarrow> nat \<Rightarrow> nat \<Rightarrow> nat \<Rightarrow> jdump \<Rightarrow> (byte \<times> jdump) option" where
  "place_field ci cc fieldNo idx slot jf = do {
     c \<leftarrow> cinfos jf cc;
     fs \<leftarrow> cfinfo c;
     (if length fs \<le> fieldNo then None
      else do {
        let f = (fs ! fieldNo)\<lparr>offset := Some idx\<rparr>;
        jf \<leftarrow> (if cc = ci then do {
                  i \<leftarrow> fident f;
                  let f = f\<lparr>fname := Some (rbt_lookup (sbTable jf) (ucast i))\<rparr>;
                  upd_ci ci (\<lambda>c. c\<lparr>cfinfo := Some (fs[fieldNo := f]),
                    cvalues := map_option (\<lambda>vs. vs[slot := Some (Own fieldNo)]) (cvalues c)\<rparr>) jf }
                else upd_ci ci (\<lambda>c. c\<lparr>cvalues := map_option (\<lambda>vs. vs[slot := Some (Copied f)]) (cvalues c)\<rparr>) jf);
        Some (ftype f, jf) }) }"

text \<open>The loop over \<open>i\<close>, here by the number of rounds left.\<close>

fun layout_loop :: "nat \<Rightarrow> ptr \<Rightarrow> int \<Rightarrow> ptr \<Rightarrow> int \<Rightarrow> nat \<Rightarrow> nat \<Rightarrow> jdump \<Rightarrow> (nat \<times> jdump) option" where
  "layout_loop 0 ci tf cc target fieldNo idx jf = Some (idx, jf)"
| "layout_loop (Suc n) ci tf cc target fieldNo idx jf = do {
     (cc, target, fieldNo) \<leftarrow> next_field jf cc target fieldNo;
     let slot = target + int fieldNo;
     if slot < 0 \<or> tf \<le> slot then None
     else do {
       (ft, jf) \<leftarrow> place_field ci cc fieldNo idx (nat slot) jf;
       layout_loop n ci tf cc target (Suc fieldNo) (idx + field_size (identsz jf) ft) jf } }"

fun resolveClassNode :: "nat \<Rightarrow> jdump \<Rightarrow> ptr \<Rightarrow> jdump option" where
  "resolveClassNode 0 jf ci = None"
| "resolveClassNode (Suc d) jf ci = do {
     c \<leftarrow> cinfos jf ci;
     if cresolved c then Some jf
     else do {
       t \<leftarrow> resolveSClassSize d jf ci;
       jf \<leftarrow> upd_ci ci (\<lambda>c. c\<lparr>tfields := t\<rparr>) jf;
       k \<leftarrow> cstats c;
       jf \<leftarrow> (if 0 < k then do {
                ss \<leftarrow> statics c;
                upd_ci ci (\<lambda>c. c\<lparr>statics := Some (map resolveField ss)\<rparr>) jf }
              else Some jf);
       super \<leftarrow> getSuperClass jf ci;
       jf \<leftarrow> (if super \<noteq> NULL then resolveClassNode d jf super else Some jf);
       jf \<leftarrow> (if 0 < t then
                (if array_too_big 8 (word_of_int t) then None
                 else do {
                   jf \<leftarrow> upd_ci ci (\<lambda>c. c\<lparr>cvalues := Some (replicate (nat t) None)\<rparr>) jf;
                   n \<leftarrow> cfields c;
                   (idx, jf) \<leftarrow> layout_loop (nat t) ci t ci (t - uint n) 0 0 jf;
                   upd_ci ci (\<lambda>c. c\<lparr>cisize := Some (of_nat idx)\<rparr>) jf })
              else Some jf);
       upd_ci ci (\<lambda>c. c\<lparr>cresolved := True\<rparr>) jf } }"

fun resolveClass :: "nat \<Rightarrow> jdump \<Rightarrow> ptr rbt \<Rightarrow> jdump option" where
  "resolveClass d jf Leaf = Some jf"
| "resolveClass d jf (Node _ l k p r) = do {
     jf \<leftarrow> resolveClass d jf l;
     jf \<leftarrow> resolveClassNode d jf p;
     resolveClass d jf r }"

section \<open>Objects\<close>

fun deref_field :: "cinfo \<Rightarrow> fref \<Rightarrow> finfo option" where
  "deref_field c (Own k) = do { fs \<leftarrow> cfinfo c; if k < length fs then Some (fs ! k) else None }"
| "deref_field c (Copied f) = Some f"

text \<open>\<open>*(ci->values + i)\<close>.\<close>

definition value_info :: "cinfo \<Rightarrow> nat \<Rightarrow> finfo option" where
  "value_info c i = do {
     vs \<leftarrow> cvalues c;
     r \<leftarrow> (if i < length vs then vs ! i else None);
     deref_field c r }"

fun set_val :: "nat \<Rightarrow> hvalue option \<Rightarrow> hstore option \<Rightarrow> hstore option" where
  "set_val i v (Some (Vals vs)) = Some (Vals (vs[i := v]))"
| "set_val i v hs = hs"

fun get_val :: "nat \<Rightarrow> hstore option \<Rightarrow> hvalue option" where
  "get_val i (Some (Vals vs)) = (if i < length vs then vs ! i else None)"
| "get_val i hs = None"

text \<open>
  Set \<open>osize\<close> of the object and \<open>size\<close> of its class.
\<close>

definition set_sizes :: "ptr \<Rightarrow> ptr \<Rightarrow> u64 \<Rightarrow> jdump \<Rightarrow> jdump option" where
  "set_sizes ho ci sz jf = do {
     jf \<leftarrow> upd_ci ci (\<lambda>c. c\<lparr>cisize := Some sz\<rparr>) jf;
     upd_ho ho (\<lambda>h. h\<lparr>osize := Some sz\<rparr>) jf }"

text \<open>The element type from the second character of the class name (0 if none matches).\<close>

definition sig_xclass :: "byte \<Rightarrow> u64" where
  "sig_xclass b =
     (if b = of_char (CHR ''B'') then 8
      else if b = of_char (CHR ''Z'') then 8
      else if b = of_char (CHR ''C'') then 9
      else if b = of_char (CHR ''S'') then 9
      else if b = of_char (CHR ''F'') then 6
      else if b = of_char (CHR ''D'') then 7
      else if b = of_char (CHR ''I'') then 10
      else if b = of_char (CHR ''J'') then 11
      else 0)"

text \<open>\<open>*(name + 1)\<close>.\<close>

definition second_char :: "byte list \<Rightarrow> byte option" where
  "second_char nm = (if nm = [] then None else Some (if length nm = 1 then 0 else nm ! 1))"

text \<open>Bytes per element and whether they are read, by element type.\<close>

definition elem_kind :: "u64 \<Rightarrow> (u32 \<times> bool) option" where
  "elem_kind t =
     (if t = 4 \<or> t = 8 then Some (1, True)
      else if t = 5 \<or> t = 9 then Some (2, True)
      else if t = 6 then Some (4, False)
      else if t = 7 then Some (8, False)
      else if t = 10 then Some (4, True)
      else if t = 11 then Some (8, True)
      else None)"

definition elem_type :: "hobject \<Rightarrow> u64" where
  "elem_type h = (if xclassId h \<noteq> 0 then xclassId h else classId h)"

definition resolve_varray :: "ptr \<Rightarrow> ptr \<Rightarrow> jdump \<Rightarrow> (u64 \<times> jdump) option" where
  "resolve_varray ho ci jf = do {
     h \<leftarrow> hobjs jf ho;
     cnt \<leftarrow> hcount h;
     let buf = (if array_too_big 8 cnt then None else Some (Vals (replicate (unat cnt) None)));
     jf \<leftarrow> upd_ho ho (\<lambda>h. h\<lparr>hvalues := buf\<rparr>) jf;
     if cnt = 0 then Some (0, jf)
     else do {
       let jf = jf\<lparr>fin := fseek_set (hfpos h) (fin jf)\<rparr>;
       jf \<leftarrow> (if 12 < sint (classId h) then do {
                c \<leftarrow> cinfos jf ci;
                nm \<leftarrow> cname c;
                ch \<leftarrow> second_char nm;
                (if sig_xclass ch \<noteq> 0 then upd_ho ho (\<lambda>h. h\<lparr>xclassId := sig_xclass ch\<rparr>) jf else Some jf) }
              else Some jf);
       h \<leftarrow> hobjs jf ho;
       (sz, jf) \<leftarrow> (case elem_kind (elem_type h) of
            None \<Rightarrow> Some (0, jf)
          | Some (n, False) \<Rightarrow> Some (n * cnt, jf)
          | Some (n, True) \<Rightarrow> do {
              let (bs, jf) = on_file (fread (unat n * unat cnt)) jf;
              (if bs = [] then Some (n * cnt, jf)
               else if buf = None then None
               else do {
                 jf \<leftarrow> upd_ho ho (\<lambda>h. h\<lparr>hvalues := Some (Raw bs)\<rparr>) jf;
                 Some (n * cnt, jf) }) });
       jf \<leftarrow> set_sizes ho ci (ucast sz) jf;
       Some (ucast sz, jf) } }"

text \<open>
  What both kinds of references do: \<open>again\<close> is the recursive call.
\<close>

definition follow_ref ::
  "(jdump \<Rightarrow> ptr \<Rightarrow> (u64 \<times> jdump) option) \<Rightarrow> ptr \<Rightarrow> u64 \<Rightarrow> jdump \<Rightarrow> jdump option" where
  "follow_ref again ho v jf =
     (let dref = lookup32 (hTable jf) v
      in if dref = NULL then Some jf
         else do {
           (n, jf) \<leftarrow> again jf dref;
           jf \<leftarrow> upd_ho ho (\<lambda>h. h\<lparr>csize := csize h + n\<rparr>) jf;
           arc_add jf ho dref 1 })"

definition resolve_oarray ::
  "(jdump \<Rightarrow> ptr \<Rightarrow> (u64 \<times> jdump) option) \<Rightarrow> ptr \<Rightarrow> ptr \<Rightarrow> jdump \<Rightarrow> (u64 \<times> jdump) option" where
  "resolve_oarray again ho ci jf = do {
     h \<leftarrow> hobjs jf ho;
     cnt \<leftarrow> hcount h;
     if cnt = 0 then Some (0, jf)
     else if array_too_big 8 cnt then None
     else do {
       let jf = jf\<lparr>fin := fseek_set (hfpos h) (fin jf)\<rparr>;
       let (vs, jf) = on_file (get_many (readIdent (identsz jf)) (unat cnt)) jf;
       jf \<leftarrow> upd_ho ho (\<lambda>h. h\<lparr>hvalues := Some (Vals (map (map_option V_ident) vs))\<rparr>) jf;
       jf \<leftarrow> for_each (\<lambda>v jf. do { v \<leftarrow> v; follow_ref again ho v jf }) vs jf;
       let sz = ucast (cnt * identsz jf);
       jf \<leftarrow> set_sizes ho ci sz jf;
       h \<leftarrow> hobjs jf ho;
       Some (sz + csize h, jf) } }"

text \<open>One round of the loop over the fields of an instance.\<close>

definition resolve_field ::
  "(jdump \<Rightarrow> ptr \<Rightarrow> (u64 \<times> jdump) option) \<Rightarrow> ptr \<Rightarrow> ptr \<Rightarrow> nat \<Rightarrow> u64 \<times> jdump \<Rightarrow> (u64 \<times> jdump) option" where
  "resolve_field again ho ci i st = (case st of (sz, jf) \<Rightarrow> do {
     c \<leftarrow> cinfos jf ci;
     info \<leftarrow> value_info c i;
     h \<leftarrow> hobjs jf ho;
     off \<leftarrow> offset info;
     let jf = jf\<lparr>fin := fseek_cur off (fseek_set (hfpos h) (fin jf))\<rparr>;
     let ft = ftype info;
     let put = (\<lambda>v. upd_ho ho (\<lambda>h. h\<lparr>hvalues := set_val i v (hvalues h)\<rparr>));
     if ft = of_char (CHR ''['') \<or> ft = of_char (CHR ''L'') then do {
       let (v, jf) = ident jf;
       jf \<leftarrow> put (map_option V_ident v) jf;
       v \<leftarrow> v;
       jf \<leftarrow> follow_ref again ho v jf;
       Some (sz + ucast (identsz jf), jf) }
     else if ft = of_char (CHR ''Z'') \<or> ft = of_char (CHR ''B'') then do {
       let (b, jf) = on_file getc_uchar jf;
       jf \<leftarrow> put (Some (V_b b)) jf;
       Some (sz + 1, jf) }
     else if ft = of_char (CHR ''S'') \<or> ft = of_char (CHR ''C'') then do {
       let (v, jf) = on_file readUshort jf;
       jf \<leftarrow> put (map_option V_c v) jf;
       Some (sz + 2, jf) }
     else if ft = of_char (CHR ''I'') then do {
       let (v, jf) = on_file readUint jf;
       jf \<leftarrow> put (map_option V_i v) jf;
       Some (sz + 4, jf) }
     else if ft = of_char (CHR ''J'') then do {
       let (v, jf) = on_file readUlong jf;
       jf \<leftarrow> put (map_option V_j v) jf;
       Some (sz + 8, jf) }
     else Some (sz, jf) })"

definition resolve_fields ::
  "(jdump \<Rightarrow> ptr \<Rightarrow> (u64 \<times> jdump) option) \<Rightarrow> ptr \<Rightarrow> ptr \<Rightarrow> jdump \<Rightarrow> (u64 \<times> jdump) option" where
  "resolve_fields again ho ci jf = do {
     c \<leftarrow> cinfos jf ci;
     jf \<leftarrow> (if tfields c \<noteq> 0 then
              (if array_too_big 8 (word_of_int (tfields c)) then None
               else upd_ho ho (\<lambda>h. h\<lparr>hvalues := Some (Vals (replicate (nat (tfields c)) None))\<rparr>) jf)
            else Some jf);
     (sz, jf) \<leftarrow> for_range 0 (nat (tfields c)) (resolve_field again ho ci) (0, jf);
     jf \<leftarrow> set_sizes ho ci sz jf;
     h \<leftarrow> hobjs jf ho;
     Some (sz + csize h, jf) }"

fun resolveInstance :: "nat \<Rightarrow> jdump \<Rightarrow> ptr \<Rightarrow> (u64 \<times> jdump) option" where
  "resolveInstance 0 jf ho = None"
| "resolveInstance (Suc d) jf ho = do {
     h \<leftarrow> hobjs jf ho;
     if hresolved h then do { sz \<leftarrow> osize h; Some (sz + csize h, jf) }
     else do {
       jf \<leftarrow> upd_ho ho (\<lambda>h. h\<lparr>hresolved := True\<rparr>) jf;
       let ci = lookup32 (cTable jf) (classId h);
       c \<leftarrow> cinfos jf ci;
       jf \<leftarrow> (if cresolved c then Some jf else resolveClassNode d jf ci);
       if htype h = H_VARRAY then resolve_varray ho ci jf
       else if htype h = H_OARRAY then resolve_oarray (\<lambda>jf p. resolveInstance d jf p) ho ci jf
       else resolve_fields (\<lambda>jf p. resolveInstance d jf p) ho ci jf } }"

fun resolveInstances :: "nat \<Rightarrow> jdump \<Rightarrow> ptr rbt \<Rightarrow> jdump option" where
  "resolveInstances d jf Leaf = Some jf"
| "resolveInstances d jf (Node _ l k p r) = do {
     jf \<leftarrow> resolveInstances d jf l;
     (_, jf) \<leftarrow> resolveInstance d jf p;
     resolveInstances d jf r }"

definition resolveClasses :: "crc32 \<Rightarrow> nat \<Rightarrow> jdump \<Rightarrow> jdump option" where
  "resolveClasses crc d jf = do {
     let jf = jf\<lparr>javaLangClass := findClass crc jf (bytes_of ''java/lang/Class'')\<rparr>;
     let jf = jf\<lparr>javaLangClassLoader := findClass crc jf (bytes_of ''java/lang/ClassLoader'')\<rparr>;
     jf \<leftarrow> resolveClass d jf (cTable jf);
     resolveInstances d jf (hTable jf) }"

end
