(* ===== verification/Printer.thy ===== *)
theory Printer
  imports Resolve
begin

text \<open>
  The printing functions of \<^verbatim>\<open>phat.c\<close>. Output is the list of events \<open>out\<close>; a number that the
  code prints without having set it is \<open>None\<close> in the event.
\<close>

section \<open>Classes\<close>

fun printClass_r :: "ptr rbt \<Rightarrow> jdump \<Rightarrow> jdump option" where
  "printClass_r Leaf jf = Some jf"
| "printClass_r (Node _ l k p r) jf = do {
     jf \<leftarrow> printClass_r l jf;
     c \<leftarrow> cinfos jf p;
     let jf = emit (Class_line (cident c) (nident c) (ccount c) (cname c)) jf;
     printClass_r r jf }"

text \<open>\<open>printClass\<close>: the same without recursion, on a stack of right subtrees.\<close>

function (sequential) printClass :: "ptr rbt \<Rightarrow> ptr rbt list \<Rightarrow> jdump \<Rightarrow> jdump option" where
  "printClass Leaf stk jf = Some jf"
| "printClass (Node _ l k p r) stk jf = do {
     c \<leftarrow> cinfos jf p;
     let jf = emit (Instance_line (cident c) (nident c) (ccount c) (cname c)) jf;
     let stk = (if r \<noteq> Leaf then r # stk else stk);
     if l \<noteq> Leaf then printClass l stk jf
     else (case stk of [] \<Rightarrow> Some jf | t # stk' \<Rightarrow> printClass t stk' jf) }"
  by pat_completeness auto
termination
  by (relation "measure (\<lambda>(t, stk, jf). size t + sum_list (map size stk))") (auto split: if_splits)

section \<open>Objects\<close>

definition total_size :: "hobject \<Rightarrow> u64 option" where
  "total_size h = map_option (\<lambda>s. s + csize h) (osize h)"

text \<open>\<open>n\<close> raw bytes at element \<open>i\<close>, as the little-endian machine reads them.\<close>

definition raw_elem :: "hstore option \<Rightarrow> nat \<Rightarrow> nat \<Rightarrow> byte list option" where
  "raw_elem hv n i =
     (case hv of Some (Raw bs) \<Rightarrow> if n * i + n \<le> length bs then Some (take n (drop (n * i) bs)) else None
      | _ \<Rightarrow> None)"

definition le_word :: "byte list \<Rightarrow> u64" where
  "le_word bs = foldr (\<lambda>b a. push_bit 8 a OR ucast b) bs 0"

definition print_elem :: "hobject \<Rightarrow> bool \<Rightarrow> nat \<Rightarrow> jdump \<Rightarrow> jdump option" where
  "print_elem h inString i jf =
     (let t = elem_type h in
      if t = 4 \<or> t = 8 then do {
        bs \<leftarrow> raw_elem (hvalues h) 1 i;
        Some (emit (P_elem (ucast (scast (hd bs) :: u32))) jf) }
      else if t = 5 then do {
        bs \<leftarrow> raw_elem (hvalues h) 2 i;
        Some (emit (P_char (bs ! 1)) jf) }
      else if t = 9 then do {
        bs \<leftarrow> raw_elem (hvalues h) 2 i;
        Some (emit (if \<not> inString then P_elem (le_word bs) else P_char (bs ! 1)) jf) }
      else if t = 10 then do {
        bs \<leftarrow> raw_elem (hvalues h) 4 i;
        Some (emit (P_elem (le_word bs)) jf) }
      else if t = 11 then do {
        bs \<leftarrow> raw_elem (hvalues h) 8 i;
        Some (emit (P_elem (le_word bs)) jf) }
      else Some jf)"

definition print_varray :: "hobject \<Rightarrow> nat \<Rightarrow> bool \<Rightarrow> jdump \<Rightarrow> jdump option" where
  "print_varray h indent inString jf = do {
     cnt \<leftarrow> hcount h;
     let jf = emit (P_value_array (instId h) (classId h) (xclassId h) cnt (osize h)) jf;
     jf \<leftarrow> (if cnt = 0 then Some jf
            else do {
              let jf = (if indent \<noteq> 0 then emit (P_tabs 2) jf else jf);
              jf \<leftarrow> for_range 0 (min 101 (unat cnt)) (print_elem h inString) jf;
              Some (if 101 < unat cnt then emit (P_more (cnt - 101)) jf else jf) });
     Some (emit P_newline jf) }"

text \<open>
  One round over an object array; \<open>again\<close> prints the object referred to. The state is
  \<open>last_cnt\<close>, \<open>last_pid\<close> and the dump.
\<close>

definition flush_cnt :: "nat \<Rightarrow> jdump \<Rightarrow> jdump" where
  "flush_cnt n jf = (if n \<noteq> 0 then emit (P_elements n) jf else jf)"

definition print_ref ::
  "(jdump \<Rightarrow> ptr \<Rightarrow> jdump option) \<Rightarrow> hobject \<Rightarrow> nat \<Rightarrow> bool \<Rightarrow> nat \<Rightarrow>
   nat \<times> u64 \<times> jdump \<Rightarrow> (nat \<times> u64 \<times> jdump) option" where
  "print_ref again h indent pshort i st = (case st of (last_cnt, last_pid, jf) \<Rightarrow> do {
     v \<leftarrow> get_val i (hvalues h);
     pid \<leftarrow> (case v of V_ident p \<Rightarrow> Some p | _ \<Rightarrow> None);
     let dref = lookup32 (hTable jf) pid;
     if pshort \<and> pid = 0 then Some (last_cnt, last_pid, jf)
     else if pid \<noteq> 0 \<and> dref \<noteq> NULL then do {
       jf \<leftarrow> again (flush_cnt last_cnt jf) dref;
       Some (0, last_pid, jf) }
     else if last_pid \<noteq> pid then
       (let jf = flush_cnt last_cnt jf;
            jf = (if indent \<noteq> 0 then emit (P_tabs 3) jf else jf);
            jf = emit (if pid = 0 then P_null False else P_unknown False pid) jf
        in Some (1, pid, jf))
     else Some (Suc last_cnt, last_pid, jf) })"

definition print_oarray ::
  "(jdump \<Rightarrow> ptr \<Rightarrow> jdump option) \<Rightarrow> hobject \<Rightarrow> nat \<Rightarrow> bool \<Rightarrow> jdump \<Rightarrow> jdump option" where
  "print_oarray again h indent pshort jf = do {
     cnt \<leftarrow> hcount h;
     let jf = emit (P_object_array (instId h) (classId h) cnt (osize h)) jf;
     (n, _, jf) \<leftarrow> for_range 0 (unat cnt) (print_ref again h indent pshort) (0, -1, jf);
     Some (flush_cnt n jf) }"

definition print_scalar :: "byte \<Rightarrow> hvalue option \<Rightarrow> jdump \<Rightarrow> jdump option" where
  "print_scalar ft v jf =
     (if ft = of_char (CHR ''B'') \<or> ft = of_char (CHR ''Z'') then
        (case v of Some (V_b b) \<Rightarrow> Some (emit (P_value (ucast b)) jf) | _ \<Rightarrow> None)
      else if ft = of_char (CHR ''C'') \<or> ft = of_char (CHR ''S'') then
        (case v of Some (V_c c) \<Rightarrow> Some (emit (P_value (ucast c)) jf) | _ \<Rightarrow> None)
      else if ft = of_char (CHR ''I'') then
        (case v of Some (V_i i) \<Rightarrow> Some (emit (P_value (ucast i)) jf) | _ \<Rightarrow> None)
      else if ft = of_char (CHR ''J'') then
        (case v of Some (V_j j) \<Rightarrow> Some (emit (P_value j) jf) | _ \<Rightarrow> None)
      else Some (emit P_zero jf))"

text \<open>One round over the fields of an instance.\<close>

definition print_field ::
  "(jdump \<Rightarrow> ptr \<Rightarrow> jdump option) \<Rightarrow> ptr \<Rightarrow> ptr \<Rightarrow> nat \<Rightarrow> nat \<Rightarrow> jdump \<Rightarrow> jdump option" where
  "print_field again ho ci indent i jf = do {
     c \<leftarrow> cinfos jf ci;
     h \<leftarrow> hobjs jf ho;
     info \<leftarrow> value_info c i;
     off \<leftarrow> offset info;
     nm \<leftarrow> fname info;
     let v = get_val i (hvalues h);
     let jf = (if indent \<noteq> 0 then emit (P_tabs 1) jf else jf);
     let jf = emit (P_field i off (ftype info) nm) jf;
     if ftype info = of_char (CHR ''['') \<or> ftype info = of_char (CHR ''L'') then do {
       v \<leftarrow> v;
       pid \<leftarrow> (case v of V_ident p \<Rightarrow> Some p | _ \<Rightarrow> None);
       let dref = lookup32 (hTable jf) pid;
       if pid \<noteq> 0 \<and> dref \<noteq> NULL then again jf dref
       else if pid = 0 then Some (emit (P_null True) jf)
       else Some (emit (P_unknown True pid) jf) }
     else print_scalar (ftype info) v jf }"

fun printInstance :: "nat \<Rightarrow> jdump \<Rightarrow> ptr \<Rightarrow> nat \<Rightarrow> bool \<Rightarrow> bool \<Rightarrow> jdump option" where
  "printInstance 0 jf ho indent pshort inString = None"
| "printInstance (Suc d) jf ho indent pshort inString = do {
     h \<leftarrow> hobjs jf ho;
     if visit h then Some (emit (P_recursive (instId h) (classId h) (osize h) (total_size h)) jf)
     else if 1 < indent \<and> 0 \<noteq> plimit jf \<and> plimit jf < int indent then Some jf
     else if htype h = H_VARRAY then print_varray h indent inString jf
     else if htype h = H_OARRAY then
       print_oarray (\<lambda>jf p. printInstance d jf p (1 + indent) False False) h indent pshort jf
     else do {
       let ci = lookup32 (cTable jf) (classId h);
       c \<leftarrow> cinfos jf ci;
       let jf = emit (P_instance (instId h) (classId h) (cname c) (osize h) (total_size h)) jf;
       if pshort then Some jf
       else do {
         jf \<leftarrow> upd_ho ho (\<lambda>h. h\<lparr>visit := True\<rparr>) jf;
         let jf = (if indent \<noteq> 0 then emit (P_enter indent) jf else jf);
         let isString = (ci = javaLangString jf);
         jf \<leftarrow> for_range 0 (nat (tfields c))
                 (print_field (\<lambda>jf p. printInstance d jf p (1 + indent) False isString) ho ci indent) jf;
         Some (if indent \<noteq> 0 then emit (P_leave indent) jf else jf) } } }"

text \<open>
  \<open>printString\<close> prints the fields the way \<open>printInstance\<close> does at indentation 0; the objects they
  refer to are printed in short form.
\<close>

definition printString :: "nat \<Rightarrow> jdump \<Rightarrow> ptr \<Rightarrow> jdump option" where
  "printString d jf ho = do {
     h \<leftarrow> hobjs jf ho;
     let ci = lookup32 (cTable jf) (classId h);
     c \<leftarrow> cinfos jf ci;
     let jf = emit (P_string (instId h) (classId h) (cname c)) jf;
     for_range 0 (nat (tfields c)) (print_field (\<lambda>jf p. printInstance d jf p 1 True True) ho ci 0) jf }"

fun printInstances :: "nat \<Rightarrow> jdump \<Rightarrow> ptr rbt \<Rightarrow> jdump option" where
  "printInstances d jf Leaf = Some jf"
| "printInstances d jf (Node _ l k p r) = do {
     jf \<leftarrow> printInstances d jf l;
     let jf = emit (P_begin p) jf;
     jf \<leftarrow> printInstance d jf p 0 False False;
     let jf = emit (P_end p) jf;
     printInstances d jf r }"

fun collectStats :: "nat \<Rightarrow> jdump \<Rightarrow> ptr rbt \<Rightarrow> u64 \<Rightarrow> jdump option" where
  "collectStats d jf Leaf ckey = Some jf"
| "collectStats d jf (Node _ l k p r) ckey = do {
     jf \<leftarrow> collectStats d jf l ckey;
     h \<leftarrow> hobjs jf p;
     jf \<leftarrow> (if ckey = classId h then do {
              (_, jf) \<leftarrow> resolveInstance d jf p;
              printInstance d jf p 0 False False }
            else Some jf);
     collectStats d jf r ckey }"

end
