(* ===== verification/Heap_Dump.thy ===== *)
theory Heap_Dump
  imports Printer "HOL-Library.While_Combinator"
begin

text \<open>
  The two record loops of \<^verbatim>\<open>phat.c\<close>: \<open>readHeap\<close> over the records of a heap dump and
  \<open>readDump\<close> over the records of the file. A loop is a \<open>while_option\<close> over the state, or
  over \<open>None\<close> once a record had no defined result: the outer \<open>None\<close> is a loop that does
  not end.
\<close>

section \<open>A heap dump\<close>

text \<open>\<open>countbytes\<close>: the bytes up to \<open>sz\<close> or EOF that are not 0.\<close>

fun countbytes :: "byte list \<Rightarrow> nat \<Rightarrow> u32" where
  "countbytes [] sz = 0"
| "countbytes (b # bs) 0 = 0"
| "countbytes (b # bs) (Suc sz) = (if b \<noteq> 0 then 1 else 0) + countbytes bs sz"

text \<open>The counters of \<open>readHeap\<close>, in the order of the summary.\<close>

abbreviation (input) "roott \<equiv> 0 :: nat"
abbreviation (input) "rootg \<equiv> 1 :: nat"
abbreviation (input) "rootl \<equiv> 2 :: nat"
abbreviation (input) "frame_c \<equiv> 3 :: nat"
abbreviation (input) "stack_c \<equiv> 4 :: nat"
abbreviation (input) "sclass \<equiv> 5 :: nat"
abbreviation (input) "tblock \<equiv> 6 :: nat"
abbreviation (input) "monitor_c \<equiv> 7 :: nat"
abbreviation (input) "cclass \<equiv> 8 :: nat"
abbreviation (input) "inst_c \<equiv> 9 :: nat"
abbreviation (input) "oarr \<equiv> 10 :: nat"
abbreviation (input) "parr \<equiv> 11 :: nat"

type_synonym heap_state = "int list \<times> u32 \<times> jdump"

definition bump :: "nat \<Rightarrow> int list \<Rightarrow> int list" where
  "bump k cs = cs[k := cs ! k + 1]"

text \<open>
  The root records that are entered in \<open>roots\<close>: the identifier, \<open>n\<close> further integers that
  are read and dropped, and the bytes taken off \<open>hsize\<close>.
\<close>

definition root_record :: "nat \<Rightarrow> nat \<Rightarrow> nat \<Rightarrow> heap_state \<Rightarrow> heap_state option" where
  "root_record rt k n st = (case st of (cs, hs, jf) \<Rightarrow> do {
     let (i, jf) = ident jf;
     let (_, jf) = on_file (get_many readUint n) jf;
     let hs = hs - (identsz jf + 4 * of_nat n);
     i \<leftarrow> i;
     let jf = jf\<lparr>roots := insert32 i (mkrinfo i 0 rt []) (roots jf)\<rparr>;
     Some (bump k cs, hs, jf) })"

definition instance_record :: "heap_state \<Rightarrow> heap_state option" where
  "instance_record st = (case st of (cs, hs, jf) \<Rightarrow> do {
     let (ide, jf) = ident jf;
     let (stackId, jf) = on_file readUint jf;
     let (cid, jf) = ident jf;
     let (isz, jf) = on_file readUint jf;
     isz \<leftarrow> isz;
     cid \<leftarrow> cid;
     let hs = hs - (isz + 8 + identsz jf + identsz jf);
     let ci = lookup32 (cTable jf) cid;
     jf \<leftarrow> upd_ci ci (\<lambda>c. c\<lparr>ccount := ccount c + 1\<rparr>) jf;
     c \<leftarrow> cinfos jf ci;
     keep \<leftarrow> (if ccount c < 50000 then Some True
              else do { s \<leftarrow> cinfos jf (javaLangString jf); Some (cid = cident s) });
     jf \<leftarrow> (if keep then do {
              ide \<leftarrow> ide;
              let (ho, jf) = makeObj H_INSTANCE ide cid jf;
              jf \<leftarrow> upd_ho ho (\<lambda>h. h\<lparr>hfpos := fpos (fin jf)\<rparr>) jf;
              Some (jf\<lparr>hTable := insert32 ide ho (hTable jf)\<rparr>) }
            else Some jf);
     Some (bump inst_c cs, hs, jf\<lparr>fin := fseek_cur (unat isz) (fin jf)\<rparr>) })"

text \<open>
  The body of the loop. \<open>rtype\<close> is an \<open>unsigned char\<close>, so at the end of the file it is
  0xff, and the test against \<open>EOF\<close> in the loop condition always passes.
\<close>

definition heap_step :: "crc32 \<Rightarrow> heap_state \<Rightarrow> heap_state option" where
  "heap_step crc st = (case st of (cs, hs, jf) \<Rightarrow>
     (let (rtype, jf) = on_file getc_uchar jf;
          hs = hs - 1
      in if rtype = 0xff then
           (let (i, jf) = ident jf in Some (cs, hs - identsz jf, emit Root_unknown jf))
         else if rtype = 0x08 then
           (let (i, jf) = ident jf;
                (_, jf) = on_file (get_many readUint 2) jf
            in Some (bump roott cs, hs - (identsz jf + 8), jf))
         else if rtype = 0x01 then do {
           let (i, jf) = ident jf;
           let (gid, jf) = ident jf;
           let hs = hs - (identsz jf + identsz jf);
           i \<leftarrow> i;
           let jf = jf\<lparr>roots := insert32 i (mkrinfo i 0 ROOT_NATIVE_STATIC []) (roots jf)\<rparr>;
           Some (bump rootg cs, hs, jf) }
         else if rtype = 0x02 then root_record ROOT_NATIVE_LOCAL rootl 2 (cs, hs, jf)
         else if rtype = 0x03 then root_record ROOT_JAVA_LOCAL frame_c 2 (cs, hs, jf)
         else if rtype = 0x04 then root_record ROOT_NATIVE_STACK stack_c 1 (cs, hs, jf)
         else if rtype = 0x05 then root_record ROOT_SYSTEM_CLASS sclass 0 (cs, hs, jf)
         else if rtype = 0x06 then root_record ROOT_THREAD_BLOCK tblock 1 (cs, hs, jf)
         else if rtype = 0x07 then do {
           let (i, jf) = ident jf;
           i \<leftarrow> i;
           Some (bump monitor_c cs, hs - identsz jf,
                 jf\<lparr>roots := insert32 i (Monitor (ucast i)) (roots jf)\<rparr>) }
         else if rtype = 0x20 then do {
           (hs, jf) \<leftarrow> readClass jf hs;
           Some (bump cclass cs, hs, jf) }
         else if rtype = 0x21 then instance_record (cs, hs, jf)
         else if rtype = 0x22 then do {
           (hs, jf) \<leftarrow> readArray crc jf hs False;
           Some (bump oarr cs, hs, jf) }
         else if rtype = 0x23 then do {
           (hs, jf) \<leftarrow> readArray crc jf hs True;
           Some (bump parr cs, hs, jf) }
         else Some (cs, 0, emit (Unknown_heap_type rtype) (jf\<lparr>fin := fseek_cur (unat hs) (fin jf)\<rparr>))))"

definition heap_more :: "heap_state option \<Rightarrow> bool" where
  "heap_more st = (case st of None \<Rightarrow> False | Some (cs, hs, jf) \<Rightarrow> 0 < hs)"

definition heap_loop :: "crc32 \<Rightarrow> heap_state \<Rightarrow> heap_state option option" where
  "heap_loop crc st = while_option heap_more (\<lambda>s. Option.bind s (heap_step crc)) (Some st)"

text \<open>What \<open>readHeap\<close> does after the loop: the summary and the report asked for.\<close>

definition heap_report :: "crc32 \<Rightarrow> nat \<Rightarrow> int list \<Rightarrow> jdump \<Rightarrow> jdump option" where
  "heap_report crc d cs jf = do {
     let jf = emit (Heap_summary cs) jf;
     jf \<leftarrow> printClass_r (cTable jf) jf;
     case fclass jf of
       None \<Rightarrow> Some jf
     | Some nm \<Rightarrow>
         if take 1 nm = bytes_of ''*'' then do {
           jf \<leftarrow> resolveInstances d jf (hTable jf);
           printInstances d jf (hTable jf) }
         else (let ci = findClass crc jf nm
               in if ci \<noteq> NULL then do {
                    c \<leftarrow> cinfos jf ci;
                    collectStats d jf (hTable jf) (cident c) }
                  else Some (emit (Class_not_found nm) jf)) }"

definition readHeap :: "crc32 \<Rightarrow> nat \<Rightarrow> jdump \<Rightarrow> u32 \<Rightarrow> jdump option" where
  "readHeap crc d jf hs = do {
     let jf = jf\<lparr>javaLangString := findClass crc jf (bytes_of ''java/lang/String'')\<rparr>;
     st \<leftarrow> heap_loop crc (replicate 12 0, hs, jf);
     (cs, _, jf) \<leftarrow> st;
     heap_report crc d cs jf }"

section \<open>A dump file\<close>

abbreviation (input) MAGIC_HEADER :: u32 where "MAGIC_HEADER \<equiv> 0x4a415641"

datatype dump_state = Going jdump | Ended jdump | Exited nat

text \<open>HPROF_UTF8.\<close>

definition utf8_record :: "u32 \<Rightarrow> jdump \<Rightarrow> jdump option" where
  "utf8_record rlen jf = do {
     let (i, jf) = ident jf;
     if rlen < identsz jf \<or> array_too_big 1 (1 + rlen - identsz jf) then None
     else do {
       let (bs, jf) = on_file (fread (unat (rlen - identsz jf))) jf;
       let usb = hideSpecials (bs @ replicate (1 + unat (rlen - identsz jf) - length bs) 0);
       i \<leftarrow> i;
       Some (jf\<lparr>sbTable := insert32 i (c_string usb) (sbTable jf)\<rparr>) } }"

text \<open>HPROF_LOAD_CLASS.\<close>

definition load_class_record :: "crc32 \<Rightarrow> jdump \<Rightarrow> jdump option" where
  "load_class_record crc jf = do {
     let (serial, jf) = on_file readUint jf;
     let (cid, jf) = ident jf;
     let (stackNum, jf) = on_file readUint jf;
     let (nid, jf) = ident jf;
     serial \<leftarrow> serial;
     cid \<leftarrow> cid;
     nid \<leftarrow> nid;
     let (ci, jf) = mkcinfo cid nid (rbt_lookup (sbTable jf) (ucast nid)) jf;
     let jf = jf\<lparr>cTable := insert32 cid ci (cTable jf), scTable := insert32 (ucast serial) ci (scTable jf)\<rparr>;
     nm \<leftarrow> rbt_lookup (sbTable jf) (ucast nid);
     Some (jf\<lparr>rcTable := insert32 (hashKey crc nm) ci (rcTable jf)\<rparr>) }"

text \<open>HPROF_FRAME.\<close>

definition frame_record :: "jdump \<Rightarrow> jdump option" where
  "frame_record jf = do {
     let (i, jf) = ident jf;
     let (mName, jf) = ident jf;
     let (mSig, jf) = ident jf;
     let (srcFile, jf) = ident jf;
     let (serial, jf) = on_file readUint jf;
     let (lineno, jf) = on_file readUint jf;
     i \<leftarrow> i;
     mName \<leftarrow> mName;
     mSig \<leftarrow> mSig;
     srcFile \<leftarrow> srcFile;
     serial \<leftarrow> serial;
     lineno \<leftarrow> lineno;
     c \<leftarrow> cinfos jf (lookup32 (scTable jf) (ucast serial));
     Some (emit (Frame i (rbt_lookup (sbTable jf) (ucast mName)) (rbt_lookup (sbTable jf) (ucast mSig))
                   serial (cname c) (rbt_lookup (sbTable jf) (ucast srcFile)) lineno) jf) }"

text \<open>HPROF_TRACE; the number of frames is an \<open>int\<close>.\<close>

definition trace_record :: "jdump \<Rightarrow> jdump option" where
  "trace_record jf = do {
     let (serial, jf) = on_file readUint jf;
     let (threadSeq, jf) = on_file readUint jf;
     let (frames, jf) = on_file readUint jf;
     serial \<leftarrow> serial;
     threadSeq \<leftarrow> threadSeq;
     frames \<leftarrow> frames;
     let jf = emit (Trace serial threadSeq frames) jf;
     let (_, jf) = on_file (get_many (readIdent (identsz jf)) (nat (sint frames))) jf;
     Some jf }"

text \<open>
  One round of \<open>readDump\<close>'s loop. \<open>rtype\<close> is a (signed) \<open>char\<close>, so the byte 0xff compares
  equal to \<open>EOF\<close>.
\<close>

definition dump_step :: "crc32 \<Rightarrow> nat \<Rightarrow> jdump \<Rightarrow> dump_state option" where
  "dump_step crc d jf =
     (let (rtype, jf) = on_file getc_uchar jf
      in if rtype = 0xff then Some (Ended (emit P_newline jf))
         else
           (let (ts, jf) = on_file readUint jf;
                (rlen, jf') = on_file readUint jf
            in case (ts, rlen) of
                 (Some ts, Some rlen) \<Rightarrow>
                   map_option Going
                     (if rtype = 0x01 then utf8_record rlen jf'
                      else if rtype = 0x02 then load_class_record crc jf'
                      else if rtype = 0x04 then frame_record jf'
                      else if rtype = 0x05 then trace_record jf'
                      else if rtype = 0x0c then readHeap crc d jf' rlen
                      else Some (jf'\<lparr>fin := fseek_cur (unat rlen) (fin jf')\<rparr>))
               | _ \<Rightarrow> Some (Exited 2)))"

definition dump_more :: "dump_state option \<Rightarrow> bool" where
  "dump_more st = (case st of Some (Going jf) \<Rightarrow> True | _ \<Rightarrow> False)"

fun dump_next :: "crc32 \<Rightarrow> nat \<Rightarrow> dump_state \<Rightarrow> dump_state option" where
  "dump_next crc d (Going jf) = dump_step crc d jf"
| "dump_next crc d st = Some st"

definition dump_loop :: "crc32 \<Rightarrow> nat \<Rightarrow> jdump \<Rightarrow> dump_state option option" where
  "dump_loop crc d jf = while_option dump_more (\<lambda>s. Option.bind s (dump_next crc d)) (Some (Going jf))"

text \<open>The global variables and the \<open>struct jdump\<close> when the loop starts.\<close>

definition new_jdump :: "infile \<Rightarrow> int \<Rightarrow> u32 \<Rightarrow> byte list option \<Rightarrow> int \<Rightarrow> jdump" where
  "new_jdump f v isz fc pl =
     \<lparr>fin = f, fVersion = v, identsz = isz, sbTable = Leaf, cTable = Leaf, hTable = Leaf,
      rcTable = Leaf, scTable = Leaf, roots = Leaf, javaLangClass = NULL, javaLangString = NULL,
      javaLangClassLoader = NULL, fclass = fc, plimit = pl, fakeClass = 1000, cinfos = Map.empty,
      hobjs = Map.empty, arc_cells = Map.empty, arcs = [], arcs_max = 0, next_ptr = 1, out = []\<rparr>"

text \<open>
  The header: a file that cannot be opened is \<open>None\<close>. The result is the exit status or the
  state at the start of the loop.
\<close>

definition readHeader :: "byte list option \<Rightarrow> int \<Rightarrow> byte list option \<Rightarrow> dump_state option" where
  "readHeader fc pl dumpfile = (case dumpfile of
     None \<Rightarrow> Some (Exited 1)
   | Some bytes \<Rightarrow>
       (case readUint \<lparr>content = bytes, fpos = 0\<rparr> of
          (None, f) \<Rightarrow> Some (Exited 2)
        | (Some magic, f) \<Rightarrow>
            if magic \<noteq> MAGIC_HEADER then Some (Exited 2)
            else do {
              (v, f) \<leftarrow> readVersion f;
              if v = -1 then Some (Exited 3)
              else (case readUint f of
                  (None, f) \<Rightarrow> Some (Exited 2)
                | (Some isz, f) \<Rightarrow>
                    if isz \<noteq> 4 \<and> isz \<noteq> 8 then Some (Exited 4)
                    else (case readUlong f of
                        (None, f) \<Rightarrow> Some (Exited 2)
                      | (Some date, f) \<Rightarrow>
                          Some (Going (emit (Dump_created (date div 1000)) (new_jdump f v isz fc pl))))) }))"

definition readDump :: "crc32 \<Rightarrow> nat \<Rightarrow> byte list option \<Rightarrow> int \<Rightarrow> byte list option \<Rightarrow> dump_state option" where
  "readDump crc d fc pl dumpfile = do {
     st \<leftarrow> readHeader fc pl dumpfile;
     case st of
       Going jf \<Rightarrow> Option.bind (dump_loop crc d jf) id
     | _ \<Rightarrow> Some st }"

end
