(* ===== verification/Reader_Codec.thy ===== *)
theory Reader_Codec
  imports Reader
begin

text \<open>
  What the byte readers of \<^verbatim>\<open>phat.c\<close> compute: big-endian values, the contract
  \<open>codec\<close> every fixed-width reader meets (interpreted for \<open>readUshort\<close>, \<open>readUint\<close>,
  \<open>readUlong\<close> and both widths of \<open>readIdent\<close>), the versions \<open>readVersion\<close> accepts, and
  the names \<open>hideSpecials\<close> produces.
\<close>

section \<open>Big-endian values\<close>

definition be :: "byte list \<Rightarrow> int" where
  "be bs = foldl (\<lambda>a b. a * 256 + uint b) 0 bs"

definition shift_in :: "'a::len word \<Rightarrow> byte \<Rightarrow> 'a word" where
  "shift_in x b = push_bit 8 x OR ucast b"

lemma byte_bounds: "0 \<le> uint (b::byte)" "uint (b::byte) < 256"
  using uint_lt2p [of b] by auto

lemma shift_in_plus: "shift_in x b = push_bit 8 x + ucast b"
  unfolding shift_in_def
  by (rule disjunctive_add_eq_or [symmetric]) (auto simp: bit_eq_iff bit_simps dest: bit_imp_le_length)

lemma shift_in_of_int:
  "shift_in (word_of_int x :: 'a::len word) b = word_of_int (x * 256 + uint b)"
  unfolding shift_in_plus
  by (simp add: push_bit_eq_mult)

lemma shift_in_ucast_0: "ucast b = shift_in 0 b"
  by (simp add: shift_in_def)

lemma foldl_shift_in:
  "foldl shift_in (word_of_int x) bs = word_of_int (foldl (\<lambda>a b. a * 256 + uint b) x bs)"
  by (induction bs arbitrary: x) (simp_all add: shift_in_of_int del: of_int_add of_int_mult)

lemma foldl_shift_in_be: "foldl shift_in 0 bs = word_of_int (be bs)"
  using foldl_shift_in [of 0 bs] by (simp add: be_def)

lemma foldl_be: "foldl (\<lambda>a b. a * 256 + uint b) x ys = x * 256 ^ length ys + be ys"
proof (induction ys arbitrary: x)
  case (Cons y ys)
  have "be (y # ys) = uint y * 256 ^ length ys + be ys"
    using Cons.IH [of "uint y"] by (simp only: be_def foldl_Cons) simp
  then show ?case using Cons.IH [of "x * 256 + uint y"] by (simp add: algebra_simps)
qed (simp add: be_def)

lemma be_append: "be (xs @ ys) = be xs * 256 ^ length ys + be ys"
  using foldl_be [of "be xs" ys] by (simp add: be_def)

lemma be_bounds: "0 \<le> be bs \<and> be bs < 256 ^ length bs"
proof (induction bs rule: rev_induct)
  case (snoc b bs)
  then show ?case using byte_bounds [of b] by (simp add: be_append) (simp add: be_def)
qed (simp add: be_def)

lemma uint_word_of_be:
  assumes "8 * length bs \<le> LENGTH('a::len)"
  shows "uint (word_of_int (be bs) :: 'a word) = be bs"
proof -
  have "(256::int) ^ length bs \<le> 2 ^ LENGTH('a)"
    using assms power_increasing [of "8 * length bs" "LENGTH('a)" "2::int"] by (simp add: power_mult)
  then show ?thesis using be_bounds [of bs]
    by (simp add: uint_word_of_int)
qed

lemma shift_or_4:
  "length sb = 4 \<Longrightarrow>
   (push_bit 8 (push_bit 8 (push_bit 8 (ucast (sb ! 0)) OR ucast (sb ! 1)) OR ucast (sb ! 2)) OR ucast (sb ! 3)
     :: 'a::len word) = word_of_int (be sb)"
  unfolding foldl_shift_in_be [symmetric]
  by (auto simp: numeral_eq_Suc length_Suc_conv shift_in_def)

lemma shift_or_2:
  "length sb = 2 \<Longrightarrow> (push_bit 8 (ucast (sb ! 0)) OR ucast (sb ! 1) :: 'a::len word) = word_of_int (be sb)"
  unfolding foldl_shift_in_be [symmetric]
  by (auto simp: numeral_eq_Suc length_Suc_conv shift_in_def)

lemma readUlong_word:
  fixes sb :: "byte list" and hi :: u32
  assumes "length sb = 4"
  shows "push_bit 8 (push_bit 32 (scast hi :: u64) +
     (push_bit 8 (push_bit 8 (ucast (sb ! 0)) OR ucast (sb ! 1)) OR ucast (sb ! 2))) OR ucast (sb ! 3)
   = push_bit 40 (ucast hi) + (word_of_int (be sb) :: u64)"
proof -
  let ?m = "push_bit 8 (push_bit 8 (ucast (sb ! 0)) OR ucast (sb ! 1)) OR ucast (sb ! 2) :: u64"
  have 1: "push_bit 32 (scast hi :: u64) = push_bit 32 (ucast hi)"
    by (rule bit_word_eqI) (auto simp: bit_simps)
  have 2: "push_bit 8 x OR ucast (sb ! 3) = push_bit 8 x + ucast (sb ! 3)" for x :: u64
    using shift_in_plus [of x "sb ! 3"] by (simp add: shift_in_def)
  have 3: "push_bit 8 (push_bit 32 h + m) = push_bit 40 h + push_bit 8 m" for h m :: u64
    by (simp add: push_bit_eq_mult algebra_simps)
  have 4: "push_bit 8 ?m + ucast (sb ! 3) = (word_of_int (be sb) :: u64)"
    unfolding 2 [symmetric] using assms by (rule shift_or_4)
  have "push_bit 8 (push_bit 32 (scast hi :: u64) + ?m) OR ucast (sb ! 3) =
        push_bit 40 (ucast hi) + (push_bit 8 ?m + ucast (sb ! 3))"
    unfolding 2 by (simp only: 1 3 add.assoc)
  then show ?thesis unfolding 4 .
qed

lemma readUlong_right_iff:
  fixes hi lo :: u32
  shows "push_bit 40 (ucast hi) + (ucast lo :: u64) = push_bit 32 (ucast hi) + ucast lo \<longleftrightarrow> hi = 0"
proof
  assume "push_bit 40 (ucast hi) + (ucast lo :: u64) = push_bit 32 (ucast hi) + ucast lo"
  then have eq: "push_bit 40 (ucast hi :: u64) = push_bit 32 (ucast hi)" by simp
  have "\<not> bit hi n" for n
  proof (induction n rule: less_induct)
    case (less n)
    have "bit (push_bit 40 (ucast hi :: u64)) (32 + n) = bit (push_bit 32 (ucast hi :: u64)) (32 + n)"
      by (simp only: eq)
    then show ?case using less [of "n - 8"] by (auto simp: bit_simps dest: bit_imp_le_length)
  qed
  then show "hi = 0" by (simp add: bit_eq_iff)
qed simp

definition rest :: "infile \<Rightarrow> byte list" where
  "rest f = drop (fpos f) (content f)"

lemma fread_rest: "fread n f = (take n (rest f), f\<lparr>fpos := fpos f + min n (length (rest f))\<rparr>)"
  by (simp add: fread_def rest_def Let_def min.commute)

lemma ucast_word_of_int:
  "LENGTH('b::len) \<le> LENGTH('a::len) \<Longrightarrow> ucast (word_of_int x :: 'a word) = (word_of_int x :: 'b word)"
  by (rule bit_word_eqI) (auto simp: bit_simps)

lemma readUshort_eq:
  "readUshort f = (if 2 \<le> length (rest f)
     then (Some (word_of_int (be (take 2 (rest f)))), f\<lparr>fpos := fpos f + 2\<rparr>)
     else (None, f\<lparr>fpos := fpos f + length (rest f)\<rparr>))"
proof (cases "2 \<le> length (rest f)")
  case True
  then show ?thesis
    using shift_or_2 [of "take 2 (rest f)", where 'a = 32] by (simp add: readUshort_def fread_rest ucast_word_of_int)
qed (simp add: readUshort_def fread_rest)

lemma readUint_eq:
  "readUint f = (if 4 \<le> length (rest f)
     then (Some (word_of_int (be (take 4 (rest f)))), f\<lparr>fpos := fpos f + 4\<rparr>)
     else (None, f\<lparr>fpos := fpos f + length (rest f)\<rparr>))"
proof (cases "4 \<le> length (rest f)")
  case True
  then show ?thesis
    using shift_or_4 [of "take 4 (rest f)", where 'a = 32] by (simp add: readUint_def fread_rest)
qed (simp add: readUint_def fread_rest)

lemma readUlong_eq:
  "readUlong f = (if 8 \<le> length (rest f)
     then (Some (push_bit 40 (word_of_int (be (take 4 (rest f)))) + word_of_int (be (take 4 (drop 4 (rest f))))),
           f\<lparr>fpos := fpos f + 8\<rparr>)
     else (None, f\<lparr>fpos := fpos f + length (rest f)\<rparr>))"
proof (cases "8 \<le> length (rest f)")
  case True
  then have len: "length (take 4 (rest f)) = 4" "length (take 4 (drop 4 (rest f))) = 4" by simp_all
  have hi: "ucast (word_of_int (be (take 4 (rest f))) :: u32) = (word_of_int (be (take 4 (rest f))) :: u64)"
    using len(1) be_bounds [of "take 4 (rest f)"]
    by (intro word_uint_eqI) (simp add: unsigned_ucast_eq uint_word_of_be take_bit_int_eq_self_iff)
  show ?thesis
    using True shift_or_4 [OF len(1), where 'a = 32] readUlong_word [OF len(2), of "word_of_int (be (take 4 (rest f)))"]
    by (simp add: readUlong_def fread_rest hi)
qed (simp add: readUlong_def fread_rest)


fun put_be :: "nat \<Rightarrow> int \<Rightarrow> byte list" where
  "put_be 0 v = []"
| "put_be (Suc n) v = put_be n (v div 256) @ [word_of_int v]"

lemma length_put_be [simp]: "length (put_be n v) = n"
  by (induction n arbitrary: v) auto

lemma be_put_be: "be (put_be n v) = v mod 256 ^ n"
proof (induction n arbitrary: v)
  case (Suc n)
  have "be (put_be (Suc n) v) = (v div 256 mod 256 ^ n) * 256 + v mod 256"
    by (simp add: be_append Suc) (simp add: be_def uint_word_of_int)
  also have "\<dots> = v mod 256 ^ Suc n"
    using mod_mult2_eq' [of v 256 "256 ^ n"] by (simp add: zmod_zmult2_eq)
  finally show ?case .
qed (simp add: be_def)

text \<open>
  The contract of a reader: the values that fit an encoding of fixed width are read back
  from their encoding, and a short read consumes what is left and yields nothing.
\<close>

locale codec =
  fixes width :: nat
    and fits :: "'v \<Rightarrow> bool"
    and encode :: "'v \<Rightarrow> byte list"
    and val :: "byte list \<Rightarrow> 'v"
    and get :: "infile \<Rightarrow> 'v option \<times> infile"
  assumes get_eq: "get f = (if width \<le> length (rest f)
      then (Some (val (take width (rest f))), f\<lparr>fpos := fpos f + width\<rparr>)
      else (None, f\<lparr>fpos := fpos f + length (rest f)\<rparr>))"
    and length_encode: "length (encode v) = width"
    and val_encode: "fits v \<Longrightarrow> val (encode v) = v"
begin

lemma get_encode:
  "rest f = encode v @ bs \<Longrightarrow> fits v \<Longrightarrow> get f = (Some v, f\<lparr>fpos := fpos f + width\<rparr>)"
  by (simp add: get_eq length_encode val_encode)

lemma get_content: "content (snd (get f)) = content f"
  by (simp add: get_eq)

lemma get_fpos: "fpos f \<le> fpos (snd (get f)) \<and> fpos (snd (get f)) \<le> max (fpos f) (length (content f))"
  by (auto simp: get_eq rest_def)

lemma get_None_iff: "fst (get f) = None \<longleftrightarrow> length (rest f) < width"
  by (auto simp: get_eq)

lemma get_many_encode:
  "rest f = concat (map encode vs) @ bs \<Longrightarrow> list_all fits vs \<Longrightarrow>
   get_many get (length vs) f = (map Some vs, f\<lparr>fpos := fpos f + width * length vs\<rparr>)"
proof (induction vs arbitrary: f)
  case (Cons v vs)
  let ?f = "f\<lparr>fpos := fpos f + width\<rparr>"
  have "get f = (Some v, ?f)" using Cons.prems by (intro get_encode) auto
  moreover have "rest ?f = concat (map encode vs) @ bs"
    using arg_cong [OF Cons.prems(1), of "drop width"] length_encode [of v] by (simp add: rest_def add.commute)
  ultimately show ?case using Cons.IH [of ?f] Cons.prems(2) by (simp add: algebra_simps)
qed simp

end

definition be_word :: "byte list \<Rightarrow> 'a::len word" where
  "be_word bs = word_of_int (be bs)"

text \<open>The value \<open>readUlong\<close> computes: the first half lands eight bits too high.\<close>

definition ulong_val :: "byte list \<Rightarrow> u64" where
  "ulong_val bs = push_bit 40 (be_word (take 4 bs)) + be_word (take 4 (drop 4 bs))"

definition ident_val :: "nat \<Rightarrow> byte list \<Rightarrow> u64" where
  "ident_val n bs = (if n = 4 then be_word bs else ulong_val bs)"

lemma be_word_put:
  assumes "8 * n \<le> LENGTH('a::len)" "uint (v :: 'a word) < 256 ^ n"
  shows "be_word (put_be n (uint v)) = v"
  using assms by (simp add: be_word_def be_put_be)

lemma put_be_8_small:
  assumes "0 \<le> v" "v < 2 ^ 32"
  shows "put_be 8 v = replicate 4 0 @ put_be 4 v"
proof -
  have "v div 4294967296 = 0" using assms by simp
  then show ?thesis by (simp add: numeral_eq_Suc flip: zdiv_zmult2_eq)
qed

interpretation u16r: codec 2 "\<lambda>_. True" "\<lambda>v :: u16. put_be 2 (uint v)" be_word readUshort
proof unfold_locales
  show "be_word (put_be 2 (uint v)) = v" for v :: u16
    using uint_lt2p [of v] by (intro be_word_put) simp_all
qed (simp_all add: readUshort_eq be_word_def)

interpretation u32r: codec 4 "\<lambda>_. True" "\<lambda>v :: u32. put_be 4 (uint v)" be_word readUint
proof unfold_locales
  show "be_word (put_be 4 (uint v)) = v" for v :: u32
    using uint_lt2p [of v] by (intro be_word_put) simp_all
qed (simp_all add: readUint_eq be_word_def)

interpretation u64r: codec 8 "\<lambda>v. v < 2 ^ 32" "\<lambda>v :: u64. put_be 8 (uint v)" ulong_val readUlong
proof unfold_locales
  show "ulong_val (put_be 8 (uint v)) = v" if "v < 2 ^ 32" for v :: u64
  proof -
    have v: "uint v < 2 ^ 32" using that by (simp add: word_less_def)
    have "be_word (put_be 4 (uint v)) = v" using v by (intro be_word_put) simp_all
    moreover have "be_word (replicate 4 0) = (0 :: u64)" by (simp add: be_word_def be_def numeral_eq_Suc)
    ultimately show ?thesis using v by (simp add: ulong_val_def put_be_8_small)
  qed
qed (simp_all add: readUlong_eq be_word_def ulong_val_def drop_take)

lemma ident_codec:
  assumes "sz = 4 \<or> sz = 8"
  shows "codec (unat sz) (\<lambda>v. v < 2 ^ 32) (\<lambda>v. put_be (unat sz) (uint v)) (ident_val (unat sz)) (readIdent sz)"
proof (cases "sz = 4")
  case True
  show ?thesis
  proof
    fix v :: u64 assume "v < 2 ^ 32"
    then have "uint v < 2 ^ 32" by (simp add: word_less_def)
    then show "ident_val (unat sz) (put_be (unat sz) (uint v)) = v"
      using True by (simp add: ident_val_def be_word_put)
  next
    fix f
    have "ucast (be_word (take 4 (rest f)) :: u32) = (be_word (take 4 (rest f)) :: u64)" if "4 \<le> length (rest f)"
      using that be_bounds [of "take 4 (rest f)"] unfolding be_word_def
      by (intro word_uint_eqI) (simp add: unsigned_ucast_eq uint_word_of_be take_bit_int_eq_self_iff)
    then show "readIdent sz f = (if unat sz \<le> length (rest f)
      then (Some (ident_val (unat sz) (take (unat sz) (rest f))), f\<lparr>fpos := fpos f + unat sz\<rparr>)
      else (None, f\<lparr>fpos := fpos f + length (rest f)\<rparr>))"
      using True by (simp add: readIdent_def u32r.get_eq ident_val_def)
  qed simp
next
  case False
  then have sz: "sz = 8" using assms by simp
  show ?thesis
    using u64r.codec_axioms by (simp add: sz readIdent_def [abs_def] ident_val_def [abs_def])
qed

interpretation ident4: codec 4 "\<lambda>v. v < 2 ^ 32" "\<lambda>v. put_be 4 (uint v)" "ident_val 4" "readIdent 4"
  using ident_codec [of 4] by simp

interpretation ident8: codec 8 "\<lambda>v. v < 2 ^ 32" "\<lambda>v. put_be 8 (uint v)" "ident_val 8" "readIdent 8"
  using ident_codec [of 8] by simp


text \<open>When \<open>readUlong\<close> is right.\<close>

lemma be_nonneg: "0 \<le> be bs" using be_bounds [of bs] by simp

lemma be_eq_0_iff: "be bs = 0 \<longleftrightarrow> bs = replicate (length bs) 0"
proof (induction bs)
  case (Cons b bs)
  have "be (b # bs) = uint b * 256 ^ length bs + be bs"
    using be_append [of "[b]" bs] by (simp add: be_def)
  moreover have "0 \<le> uint b * 256 ^ length bs" by simp
  ultimately have "be (b # bs) = 0 \<longleftrightarrow> uint b * 256 ^ length bs = 0 \<and> be bs = 0"
    using be_nonneg [of bs] by linarith
  then show ?case using Cons by (auto simp: uint_0_iff)
qed (simp add: be_def)

lemma readUlong_exact:
  assumes "8 \<le> length (rest f)"
  shows "fst (readUlong f) = Some (be_word (take 8 (rest f))) \<longleftrightarrow> take 4 (rest f) = replicate 4 0"
proof -
  let ?a = "take 4 (rest f)" and ?b = "take 4 (drop 4 (rest f))"
  have len: "length ?a = 4" "length ?b = 4" using assms by simp_all
  have split: "take 8 (rest f) = ?a @ ?b" using take_add [of 4 4 "rest f"] by simp
  have cast: "ucast (be_word bs :: u32) = (be_word bs :: u64)" if "length bs = 4" for bs
    using that be_bounds [of bs] unfolding be_word_def
    by (intro word_uint_eqI) (simp add: unsigned_ucast_eq uint_word_of_be take_bit_int_eq_self_iff)
  have "(be_word (?a @ ?b) :: u64) = push_bit 32 (be_word ?a) + be_word ?b"
    using len by (simp add: be_word_def be_append push_bit_eq_mult)
  then have "fst (readUlong f) = Some (be_word (take 8 (rest f))) \<longleftrightarrow>
      push_bit 40 (be_word ?a :: u64) + be_word ?b = push_bit 32 (be_word ?a) + be_word ?b"
    using assms by (simp add: readUlong_eq split be_word_def)
  also have "\<dots> \<longleftrightarrow> (be_word ?a :: u32) = 0"
    using readUlong_right_iff [of "be_word ?a" "be_word ?b"] by (simp add: cast [OF len(1)] cast [OF len(2)])
  also have "\<dots> \<longleftrightarrow> be ?a = 0"
    using uint_word_of_be [of ?a, where 'a = 32] len by (simp add: be_word_def flip: uint_0_iff)
  also have "\<dots> \<longleftrightarrow> ?a = replicate 4 0" using be_eq_0_iff [of ?a] len by simp
  finally show ?thesis .
qed

section \<open>Version and names\<close>

lemma readVersion_loop_terminated:
  "0 \<notin> set v \<Longrightarrow> length sb + length v < 39 \<Longrightarrow> readVersion_loop (v @ 0 # bs) sb = Some (sb @ v @ [0])"
  by (induction v arbitrary: sb) auto

lemma readVersion_loop_overflow:
  "39 \<le> length sb + length (takeWhile (\<lambda>b. b \<noteq> 0) bs) \<Longrightarrow> length sb < 39 \<Longrightarrow> readVersion_loop bs sb = None"
  by (induction bs sb rule: readVersion_loop.induct) (auto split: if_splits)

lemma strcmp_eq_terminated:
  "0 \<notin> set lit \<Longrightarrow> 0 \<notin> set v \<Longrightarrow> strcmp_eq (v @ [0]) lit = Some (v = lit)"
proof (induction v lit rule: strcmp_eq.induct)
  case (1 ys)
  then show ?case by (cases ys) auto
qed auto

definition version_code :: "byte list \<Rightarrow> int" where
  "version_code v =
     (if v = bytes_of '' PROFILE 1.0.2'' then 2
      else if v = bytes_of '' PROFILE 1.0.1'' then 1
      else if v = bytes_of '' PROFILE 1.0'' then 0 else -1)"

lemma readVersion_terminated:
  assumes "rest f = v @ 0 # bs" "0 \<notin> set v" "length v < 39"
  shows "readVersion f = Some (version_code v, f\<lparr>fpos := fpos f + length v + 1\<rparr>)"
proof -
  have lits: "0 \<notin> set (bytes_of '' PROFILE 1.0.2'')" "0 \<notin> set (bytes_of '' PROFILE 1.0.1'')"
    "0 \<notin> set (bytes_of '' PROFILE 1.0'')"
    by (simp_all add: bytes_of_def of_char_def)
  have "readVersion_loop (drop (fpos f) (content f)) [] = Some (v @ [0])"
    using readVersion_loop_terminated [of v "[]" bs] assms by (simp add: rest_def)
  then show ?thesis
    using assms(2) by (simp add: readVersion_def strcmp_eq_terminated lits version_code_def)
qed

lemma readVersion_overflow:
  "39 \<le> length (takeWhile (\<lambda>b. b \<noteq> 0) (rest f)) \<Longrightarrow> readVersion f = None"
  using readVersion_loop_overflow [of "[]" "rest f"] by (simp add: readVersion_def rest_def)

definition printable :: "byte \<Rightarrow> bool" where
  "printable b \<longleftrightarrow> 0x20 \<le> b \<and> b < 0x80"

lemma sint_byte: "sint (b :: byte) = (if uint b < 128 then uint b else uint b - 256)"
proof -
  have "bit (uint b) 7 \<longleftrightarrow> 128 \<le> uint b"
    using byte_bounds [of b] by (cases "uint b < 128") (simp_all add: bit_iff_odd div_pos_geq)
  then show ?thesis
    using byte_bounds [of b]
    by (auto simp: sint_uint signed_take_bit_eq_take_bit_minus take_bit_int_eq_self_iff)
qed

lemma sint_byte_less: "sint (b :: byte) < 0x20 \<longleftrightarrow> \<not> printable b"
  using byte_bounds [of b] by (auto simp: printable_def word_le_def word_less_def sint_byte)

lemma printable_ranges [simp]: "\<not> printable 10" "\<not> printable 13" "\<not> printable 0" "printable 46"
  by (simp_all add: printable_def)

lemma length_hideSpecials [simp]: "length (hideSpecials s) = length s"
  by (induction s) auto

definition clean :: "byte \<Rightarrow> byte" where
  "clean b = (if printable b then b else of_char (CHR ''.''))"

lemma hideSpecials_step: "(if c = 10 \<or> c = 13 \<or> sint c < 0x20 then of_char (CHR ''.'') else c) = clean c"
  unfolding sint_byte_less clean_def by auto

lemma printable_clean [simp]: "printable (clean b)"
  by (simp add: clean_def of_char_def)

lemma clean_id: "printable b \<Longrightarrow> clean b = b"
  by (simp add: clean_def)

lemma hideSpecials_split:
  "hideSpecials s = map clean (takeWhile (\<lambda>b. b \<noteq> 0) s) @ dropWhile (\<lambda>b. b \<noteq> 0) s"
  by (induction s) (simp_all only: hideSpecials.simps hideSpecials_step, simp_all)

lemma clean_nonzero: "clean b \<noteq> 0"
  using printable_clean [of b] printable_ranges(3) by metis

lemma c_string_hideSpecials: "c_string (hideSpecials s) = map clean (c_string s)"
proof -
  have "takeWhile (\<lambda>b. b \<noteq> 0) (dropWhile (\<lambda>b. b \<noteq> (0::byte)) s) = []"
    by (induction s) auto
  then show ?thesis
    by (simp add: hideSpecials_split c_string_def takeWhile_append2 clean_nonzero takeWhile_append)
qed
end
