(* ===== verification/Progress.thy ===== *)
theory Progress
  imports Heap_Dump Reader_Codec
begin

text \<open>
  The readers and record handlers of \<^verbatim>\<open>phat.c\<close> only move forward in the file, so both record
  loops end: \<open>readHeap\<close>'s on every input, also where the file is cut short, and
  \<open>readDump\<close>'s when no report is asked for.
\<close>

section \<open>Readers move forward\<close>

definition forward :: "(infile \<Rightarrow> 'v \<times> infile) \<Rightarrow> bool" where
  "forward get \<longleftrightarrow> (\<forall>f v f'. get f = (v, f') \<longrightarrow> content f' = content f \<and> fpos f \<le> fpos f')"

lemma forwardD: "forward get \<Longrightarrow> get f = (v, f') \<Longrightarrow> content f' = content f \<and> fpos f \<le> fpos f'"
  by (simp add: forward_def)

lemma forward_ushort: "forward readUshort"
  unfolding forward_def using u16r.get_content u16r.get_fpos by (metis snd_conv)

lemma forward_uint: "forward readUint"
  unfolding forward_def using u32r.get_content u32r.get_fpos by (metis snd_conv)

lemma forward_ulong: "forward readUlong"
  unfolding forward_def using u64r.get_content u64r.get_fpos by (metis snd_conv)

lemma forward_ident: "forward (readIdent sz)"
  using forward_uint forward_ulong by (auto simp: forward_def readIdent_def split: prod.splits)

lemma forward_getc_uchar: "forward getc_uchar"
  by (auto simp: forward_def getc_uchar_def getc_def)

lemma forward_getc_int: "forward getc_int"
  by (auto simp: forward_def getc_int_def getc_def)

lemma forward_fread: "forward (fread n)"
  by (auto simp: forward_def fread_rest)

lemma forward_many: "forward get \<Longrightarrow> forward (get_many get n)"
proof (induction n)
  case (Suc n)
  show ?case unfolding forward_def
  proof (intro allI impI)
    fix f v f' assume "get_many get (Suc n) f = (v, f')"
    then obtain v1 f1 vs where 1: "get f = (v1, f1)" and 2: "get_many get n f1 = (vs, f')"
      by (auto split: prod.splits)
    show "content f' = content f \<and> fpos f \<le> fpos f'"
      using forwardD [OF Suc.prems 1] forwardD [OF Suc.IH [OF Suc.prems] 2] by simp
  qed
qed (simp add: forward_def)

section \<open>Record handlers move forward\<close>

definition fwd :: "jdump \<Rightarrow> jdump \<Rightarrow> bool" where
  "fwd jf jf' \<longleftrightarrow> content (fin jf') = content (fin jf) \<and> identsz jf' = identsz jf \<and>
     fclass jf' = fclass jf \<and> fpos (fin jf) \<le> fpos (fin jf')"

lemma fwd_refl [simp]: "fwd jf jf"
  by (simp add: fwd_def)

lemma fwd_trans: "fwd a b \<Longrightarrow> fwd b c \<Longrightarrow> fwd a c"
  by (simp add: fwd_def)

lemma fwd_on_file: "forward get \<Longrightarrow> on_file get a = (v, b) \<Longrightarrow> fwd a b"
  by (auto simp: on_file_def fwd_def split: prod.splits dest: forwardD)

lemmas fwd_readers =
  fwd_on_file [OF forward_ushort] fwd_on_file [OF forward_uint] fwd_on_file [OF forward_ulong]
  fwd_on_file [OF forward_ident] fwd_on_file [OF forward_getc_uchar] fwd_on_file [OF forward_getc_int]
  fwd_on_file [OF forward_fread] fwd_on_file [OF forward_many [OF forward_uint]]
  fwd_on_file [OF forward_many [OF forward_ident]]

lemma fwd_upd_ci: "upd_ci p f a = Some b \<Longrightarrow> fwd a b"
  by (auto simp: upd_ci_def fwd_def split: Option.bind_splits)

lemma fwd_upd_ho: "upd_ho p f a = Some b \<Longrightarrow> fwd a b"
  by (auto simp: upd_ho_def fwd_def split: Option.bind_splits)

lemma fwd_mkcinfo: "mkcinfo c n nm a = (p, b) \<Longrightarrow> fwd a b"
  by (auto simp: mkcinfo_def fwd_def)

lemma fwd_makeObj: "makeObj ht i cl a = (p, b) \<Longrightarrow> fwd a b"
  by (auto simp: makeObj_def fwd_def)

lemma fwd_array_class: "array_class crc e nm a = (p, b) \<Longrightarrow> fwd a b"
  by (auto simp: array_class_def Let_def mkcinfo_def fwd_def split: if_splits)

lemmas fwd_basic = fwd_readers fwd_upd_ci fwd_upd_ho fwd_mkcinfo fwd_makeObj fwd_array_class

lemma fwd_field_updates [simp]:
  "fwd j (emit e a) = fwd j a"
  "fwd j (a\<lparr>sbTable := t1\<rparr>) = fwd j a" "fwd j (a\<lparr>cTable := t2\<rparr>) = fwd j a"
  "fwd j (a\<lparr>hTable := t2\<rparr>) = fwd j a" "fwd j (a\<lparr>rcTable := t2\<rparr>) = fwd j a"
  "fwd j (a\<lparr>scTable := t2\<rparr>) = fwd j a" "fwd j (a\<lparr>roots := t3\<rparr>) = fwd j a"
  "fwd j (a\<lparr>javaLangString := p\<rparr>) = fwd j a"
  by (simp_all add: fwd_def emit_def)

lemma fwd_seek: "fwd j a \<Longrightarrow> fwd j (a\<lparr>fin := fseek_cur n (fin a)\<rparr>)"
  by (simp add: fwd_def fseek_cur_def)

lemma fwd_array_object: "array_object ht i ci e n a = Some (p, b) \<Longrightarrow> fwd a b"
  unfolding array_object_def Let_def
  by (auto elim!: bind_SomeE case_prod_eqE dest!: fwd_basic intro!: fwd_seek elim: fwd_trans)

lemma fwd_readValue: "readValue a = (r, b) \<Longrightarrow> fwd a b"
  unfolding readValue_def Let_def
  by (auto elim!: case_prod_eqE split: if_splits dest!: fwd_basic simp: fwd_def fseek_cur_def emit_def)

lemma fwd_read_cpool: "read_cpool n hs a = (hs', b) \<Longrightarrow> fwd a b"
  by (induction n arbitrary: hs a)
     (auto simp: Let_def elim!: case_prod_eqE dest!: fwd_basic fwd_readValue intro: fwd_trans)

lemma fwd_read_statics: "read_statics n hs a = (r, b) \<Longrightarrow> fwd a b"
  by (induction n arbitrary: hs a r)
     (auto simp: Let_def elim!: case_prod_eqE dest!: fwd_basic fwd_readValue intro: fwd_trans)

lemma fwd_read_fields: "read_fields n hs a = (r, b) \<Longrightarrow> fwd a b"
  by (induction n arbitrary: hs a r)
     (auto simp: Let_def elim!: case_prod_eqE dest!: fwd_basic intro: fwd_trans)

lemmas fwd_class = fwd_basic fwd_read_cpool fwd_read_statics fwd_read_fields fwd_array_object

lemma fwd_readClass: "readClass a hs = Some (hs', b) \<Longrightarrow> fwd a b"
  unfolding readClass_def Let_def
  by (auto elim!: bind_SomeE case_prod_eqE split: if_splits prod.split_asm dest!: fwd_class simp: fwd_def)

lemma fwd_readArray: "readArray crc a hs prim = Some (hs', b) \<Longrightarrow> fwd a b"
  unfolding readArray_def Let_def
  by (auto elim!: bind_SomeE case_prod_eqE split: if_splits option.splits prod.split_asm
      dest!: fwd_class simp: fwd_def)

section \<open>The loop over heap records ends\<close>

lemma fwd_root_record: "root_record rt k n (cs, hs, a) = Some (cs', hs', b) \<Longrightarrow> fwd a b"
  unfolding root_record_def Let_def
  by (auto elim!: bind_SomeE case_prod_eqE dest!: fwd_basic simp: fwd_def)

lemma fwd_instance_record: "instance_record (cs, hs, a) = Some (cs', hs', b) \<Longrightarrow> fwd a b"
  unfolding instance_record_def Let_def
  by (auto elim!: bind_SomeE case_prod_eqE split: if_splits dest!: fwd_basic simp: fwd_def fseek_cur_def)

lemma getc_uchar_step:
  assumes "on_file getc_uchar a = (r, b)"
  shows "fwd a b" "fpos (fin a) < length (content (fin a)) \<Longrightarrow> fpos (fin a) < fpos (fin b)"
    "length (content (fin a)) \<le> fpos (fin a) \<Longrightarrow> r = 0xff \<and> b = a"
  using assms by (auto simp: on_file_def getc_uchar_def getc_def fwd_def split: if_splits)

lemma heap_step_fwd:
  assumes "heap_step crc (cs, hs, a) = Some (cs', hs', b)"
  shows "fwd a b" "fpos (fin a) < length (content (fin a)) \<Longrightarrow> fpos (fin a) < fpos (fin b)"
proof -
  obtain r jf where g: "on_file getc_uchar a = (r, jf)" by force
  have "fwd jf b"
    using assms unfolding heap_step_def Let_def
    by (auto simp: g elim!: bind_SomeE case_prod_eqE split: if_splits
        dest!: fwd_basic fwd_root_record fwd_instance_record fwd_readClass fwd_readArray
        simp: fwd_def emit_def fseek_cur_def)
  with getc_uchar_step [OF g] show "fwd a b" "fpos (fin a) < length (content (fin a)) \<Longrightarrow> fpos (fin a) < fpos (fin b)"
    by (auto simp: fwd_def)
qed

lemma ident_at_eof:
  assumes "length (content (fin a)) \<le> fpos (fin a)" "identsz a = 4 \<or> identsz a = 8"
  shows "ident a = (None, a)"
proof -
  have r: "rest (fin a) = []" using assms(1) by (simp add: rest_def)
  then have "readIdent (identsz a) (fin a) = (None, fin a)"
    using assms(2) ident4.get_eq [of "fin a"] ident8.get_eq [of "fin a"] by auto
  then show ?thesis by (simp add: on_file_def)
qed

lemma heap_step_eof:
  assumes "length (content (fin a)) \<le> fpos (fin a)" "identsz a = 4 \<or> identsz a = 8"
  shows "heap_step crc (cs, hs, a) = Some (cs, hs - (1 + identsz a), emit Root_unknown a)"
proof -
  obtain r jf where g: "on_file getc_uchar a = (r, jf)" by force
  show ?thesis using getc_uchar_step(3) [OF g assms(1)] ident_at_eof [OF assms]
    by (simp add: heap_step_def g algebra_simps)
qed

text \<open>
  At the end of the file every round takes \<open>1 + identsz\<close> off \<open>hsize\<close>, modulo 2^32. That is an
  odd number, so \<open>hsize\<close> does reach 0: after \<open>hsize * eof_inv\<close> rounds.
\<close>

definition eof_inv :: "u32 \<Rightarrow> u32" where
  "eof_inv isz = (if isz = 4 then 0xCCCCCCCD else 0x38E38E39)"

definition eof_rounds :: "u32 \<Rightarrow> u32 \<Rightarrow> nat" where
  "eof_rounds isz hs = unat (hs * eof_inv isz)"

lemma eof_inv: "isz = 4 \<or> isz = 8 \<Longrightarrow> (1 + isz) * eof_inv isz = 1"
  by (auto simp: eof_inv_def)

lemma eof_rounds_0: "isz = 4 \<or> isz = 8 \<Longrightarrow> eof_rounds isz hs = 0 \<longleftrightarrow> hs = 0"
proof -
  assume "isz = 4 \<or> isz = 8"
  then have "hs * ((1 + isz) * eof_inv isz) = hs" by (simp add: eof_inv)
  then have "hs * eof_inv isz * (1 + isz) = hs" by (simp only: ac_simps)
  then show ?thesis by (auto simp: eof_rounds_def unat_eq_0)
qed

lemma eof_rounds_step:
  assumes "isz = 4 \<or> isz = 8" "hs \<noteq> 0"
  shows "eof_rounds isz hs = Suc (eof_rounds isz (hs - (1 + isz)))"
proof -
  have "(hs - (1 + isz)) * eof_inv isz = hs * eof_inv isz - 1"
    using eof_inv [OF assms(1)] by (simp add: left_diff_distrib)
  moreover have "0 < unat (hs * eof_inv isz)"
    using eof_rounds_0 [OF assms(1), of hs] assms(2) by (simp add: eof_rounds_def)
  ultimately show ?thesis
    using unat_gt_0 [of "hs * eof_inv isz"] by (simp add: eof_rounds_def unat_minus_one)
qed

definition heap_measure :: "heap_state option \<Rightarrow> nat" where
  "heap_measure st = (case st of None \<Rightarrow> 0
     | Some (cs, hs, jf) \<Rightarrow> (length (content (fin jf)) - fpos (fin jf)) * 2 ^ 32 + eof_rounds (identsz jf) hs)"

definition heap_ok :: "heap_state option \<Rightarrow> bool" where
  "heap_ok st = (case st of None \<Rightarrow> True | Some (cs, hs, jf) \<Rightarrow> identsz jf = 4 \<or> identsz jf = 8)"

lemma heap_step_decreases:
  assumes ok: "heap_ok (Some (cs, hs, a))" and more: "hs \<noteq> 0"
  shows "heap_ok (heap_step crc (cs, hs, a)) \<and>
         heap_measure (heap_step crc (cs, hs, a)) < heap_measure (Some (cs, hs, a))"
proof (cases "heap_step crc (cs, hs, a)")
  case None
  then show ?thesis using eof_rounds_0 [of "identsz a" hs] ok more by (simp add: heap_ok_def heap_measure_def)
next
  case (Some st')
  obtain cs' hs' b where st': "st' = (cs', hs', b)" by (cases st')
  have F: "fwd a b" using heap_step_fwd(1) Some st' by blast
  show ?thesis
  proof (cases "fpos (fin a) < length (content (fin a))")
    case True
    have lt: "length (content (fin b)) - fpos (fin b) < length (content (fin a)) - fpos (fin a)"
      using heap_step_fwd(2) [of crc cs hs a cs' hs' b] Some st' True F by (auto simp: fwd_def)
    have "eof_rounds (identsz b) hs' < 2 ^ 32"
      using unsigned_less [of "hs' * eof_inv (identsz b)"] by (simp add: eof_rounds_def)
    with lt show ?thesis using F Some st' ok by (simp add: heap_ok_def heap_measure_def fwd_def)
  next
    case False
    then show ?thesis
      using heap_step_eof [of a crc cs hs] eof_rounds_step [of "identsz a" hs] ok more
      by (auto simp: heap_ok_def heap_measure_def emit_def)
  qed
qed

lemma heap_loop_ends:
  assumes "identsz jf = 4 \<or> identsz jf = 8"
  shows "\<exists>r. heap_loop crc (cs, hs, jf) = Some r"
  unfolding heap_loop_def
proof (rule measure_while_option_Some [where P = heap_ok and f = heap_measure])
  show "heap_ok (Some (cs, hs, jf))" using assms by (simp add: heap_ok_def)
  fix s assume "heap_ok s" "heap_more s"
  then show "heap_ok (Option.bind s (heap_step crc)) \<and> heap_measure (Option.bind s (heap_step crc)) < heap_measure s"
    using heap_step_decreases by (auto simp: heap_more_def split: option.splits)
qed

lemma heap_loop_unfold:
  "heap_loop crc (cs, hs, jf) = (if hs = 0 then Some (Some (cs, hs, jf))
     else (case heap_step crc (cs, hs, jf) of None \<Rightarrow> Some None | Some st \<Rightarrow> heap_loop crc st))"
  unfolding heap_loop_def
  by (subst while_option_unfold)
     (auto simp: heap_more_def word_gt_0 while_option_unfold [of _ _ None] split: option.splits)

lemma heap_loop_at_eof:
  assumes "length (content (fin jf)) \<le> fpos (fin jf)" "identsz jf = 4 \<or> identsz jf = 8"
  shows "heap_loop crc (cs, hs, jf) =
    Some (Some (cs, 0, jf\<lparr>out := out jf @ replicate (eof_rounds (identsz jf) hs) Root_unknown\<rparr>))"
  using assms
proof (induction "eof_rounds (identsz jf) hs" arbitrary: hs jf)
  case 0
  then show ?case using eof_rounds_0 [of "identsz jf" hs] by (simp add: heap_loop_unfold)
next
  case (Suc n)
  have hs: "hs \<noteq> 0" using Suc.hyps(2) eof_rounds_0 [OF Suc.prems(2), of hs] by auto
  let ?jf = "emit Root_unknown jf"
  have n: "n = eof_rounds (identsz ?jf) (hs - (1 + identsz jf))"
    using Suc.hyps(2) eof_rounds_step [OF Suc.prems(2) hs] by (simp add: emit_def)
  have "heap_loop crc (cs, hs, jf) = heap_loop crc (cs, hs - (1 + identsz jf), ?jf)"
    using hs heap_step_eof [OF Suc.prems, of crc cs hs] by (subst heap_loop_unfold) simp
  also have "\<dots> = Some (Some (cs, 0, ?jf\<lparr>out := out ?jf @ replicate n Root_unknown\<rparr>))"
    unfolding n using Suc.prems by (intro Suc.hyps(1) n) (simp_all add: emit_def)
  finally show ?case by (simp add: emit_def Suc.hyps(2) [symmetric])
qed

section \<open>The loop over the records of the file ends\<close>

lemma heap_loop_fwd:
  assumes "heap_loop crc (cs, hs, jf) = Some (Some (cs', hs', jf'))"
  shows "fwd jf jf' \<and> hs' = 0"
proof -
  let ?P = "\<lambda>st :: heap_state option. case st of None \<Rightarrow> True | Some (cs, hs, a) \<Rightarrow> fwd jf a"
  have "?P (Some (cs', hs', jf'))"
  proof (rule while_option_rule [where P = ?P, OF _ assms [unfolded heap_loop_def]])
    fix st assume "?P st"
    then show "?P (Option.bind st (heap_step crc))"
      by (cases st) (auto split: option.split dest: heap_step_fwd(1) intro: fwd_trans)
  qed simp
  moreover have "\<not> heap_more (Some (cs', hs', jf'))"
    by (rule while_option_stop [OF assms [unfolded heap_loop_def]])
  ultimately show ?thesis by (simp add: heap_more_def word_gt_0)
qed

lemma fwd_printClass_r: "printClass_r t a = Some b \<Longrightarrow> fwd a b"
proof (induction t arbitrary: a b)
  case (Node c l k p r)
  then obtain a1 x where 1: "printClass_r l a = Some a1" "cinfos a1 p = Some x"
    and 2: "printClass_r r (emit (Class_line (cident x) (nident x) (ccount x) (cname x)) a1) = Some b"
    by (auto elim!: bind_SomeE simp: Let_def)
  from Node.IH(1) [OF 1(1)] Node.IH(2) [OF 2] show ?case by (simp add: fwd_def emit_def)
qed simp

lemma fwd_readHeap:
  assumes "readHeap crc d a hs = Some b" "fclass a = None"
  shows "fwd a b"
proof -
  let ?a = "a\<lparr>javaLangString := findClass crc a (bytes_of ''java/lang/String'')\<rparr>"
  obtain cs hs' a1 where 1: "heap_loop crc (replicate 12 0, hs, ?a) = Some (Some (cs, hs', a1))"
    and 2: "heap_report crc d cs a1 = Some b"
    using assms(1) unfolding readHeap_def Let_def by (auto elim!: bind_SomeE case_prod_eqE)
  have F1: "fwd ?a a1" using heap_loop_fwd [OF 1] by simp
  have "fclass a1 = None" using F1 assms(2) by (simp add: fwd_def)
  then have "fwd a1 b"
    using 2 unfolding heap_report_def Let_def
    by (auto elim!: bind_SomeE split: option.splits dest!: fwd_printClass_r simp: fwd_def emit_def)
  with F1 show ?thesis by (simp add: fwd_def)
qed

lemma fwd_utf8_record: "utf8_record rlen a = Some b \<Longrightarrow> fwd a b"
  unfolding utf8_record_def Let_def
  by (auto elim!: bind_SomeE case_prod_eqE split: if_splits dest!: fwd_basic simp: fwd_def)

lemma fwd_load_class_record: "load_class_record crc a = Some b \<Longrightarrow> fwd a b"
  unfolding load_class_record_def Let_def
  by (auto elim!: bind_SomeE case_prod_eqE split: if_splits dest!: fwd_basic simp: fwd_def)

lemma fwd_frame_record: "frame_record a = Some b \<Longrightarrow> fwd a b"
  unfolding frame_record_def Let_def
  by (auto elim!: bind_SomeE case_prod_eqE split: if_splits dest!: fwd_basic simp: fwd_def emit_def)

lemma fwd_trace_record: "trace_record a = Some b \<Longrightarrow> fwd a b"
  unfolding trace_record_def Let_def
  by (auto elim!: bind_SomeE case_prod_eqE split: if_splits dest!: fwd_basic simp: fwd_def emit_def)

lemmas fwd_records = fwd_utf8_record fwd_load_class_record fwd_frame_record fwd_trace_record

lemma dump_step_fwd:
  assumes "dump_step crc d a = Some (Going b)" "fclass a = None"
  shows "fwd a b \<and> fpos (fin a) < length (content (fin a)) \<and> fpos (fin a) < fpos (fin b)"
proof -
  obtain r a1 where g: "on_file getc_uchar a = (r, a1)" by force
  obtain ts a2 where t: "on_file readUint a1 = (ts, a2)" by force
  obtain rl a3 where l: "on_file readUint a2 = (rl, a3)" by force
  have r: "r \<noteq> 0xff" using assms(1) by (auto simp: dump_step_def g Let_def)
  then have pos: "fpos (fin a) < length (content (fin a))" using getc_uchar_step(3) [OF g] by fastforce
  have F: "fwd a a1" "fwd a1 a2" "fwd a2 a3" using getc_uchar_step(1) [OF g] fwd_readers(2) t l by blast+
  then have fc: "fclass a3 = None" using assms(2) by (simp add: fwd_def)
  have "fwd a3 b"
    using assms(1) r fc unfolding dump_step_def Let_def
    by (auto simp: g t l fwd_seek split: option.splits if_splits dest!: fwd_records fwd_readHeap)
  with F pos getc_uchar_step(2) [OF g pos] show ?thesis by (simp add: fwd_def)
qed

definition dump_measure :: "dump_state option \<Rightarrow> nat" where
  "dump_measure st = (case st of Some (Going jf) \<Rightarrow> Suc (length (content (fin jf)) - fpos (fin jf)) | _ \<Rightarrow> 0)"

definition no_report :: "dump_state option \<Rightarrow> bool" where
  "no_report st = (case st of Some (Going jf) \<Rightarrow> fclass jf = None | _ \<Rightarrow> True)"

lemma dump_loop_ends:
  assumes "fclass jf = None"
  shows "\<exists>r. dump_loop crc d jf = Some r"
  unfolding dump_loop_def
proof (rule measure_while_option_Some [where P = no_report and f = dump_measure])
  show "no_report (Some (Going jf))" using assms by (simp add: no_report_def)
  fix s assume s: "no_report s" "dump_more s"
  then obtain a where a: "s = Some (Going a)" by (auto simp: dump_more_def split: option.splits dump_state.splits)
  then have fc: "fclass a = None" using s(1) by (simp add: no_report_def)
  show "no_report (Option.bind s (dump_next crc d)) \<and>
        dump_measure (Option.bind s (dump_next crc d)) < dump_measure s"
  proof (cases "\<exists>b. dump_step crc d a = Some (Going b)")
    case True
    then obtain b where b: "dump_step crc d a = Some (Going b)" by blast
    from dump_step_fwd [OF b fc] fc show ?thesis
      by (auto simp: a b no_report_def dump_measure_def fwd_def)
  next
    case False
    then show ?thesis
      by (auto simp: a no_report_def dump_measure_def split: option.splits dump_state.splits)
  qed
qed

end
