(* ===== verification/Jdump_Inv.thy ===== *)
theory Jdump_Inv
  imports Rbt_Table Progress
begin

text \<open>
  The invariant of the state of \<^verbatim>\<open>phat.c\<close>: every table is a red-black search tree whose
  pointers lead to live cells, and the allocator never hands out a cell twice. Every
  operation keeps it (\<open>safe\<close>), so it holds in every state \<open>readDump\<close> reaches; the class
  summary therefore always prints, and in key order.
\<close>

section \<open>The invariant\<close>

definition tables_inv :: "jdump \<Rightarrow> bool" where
  "tables_inv jf \<longleftrightarrow> rbt_inv (sbTable jf) \<and> rbt_inv (cTable jf) \<and> rbt_inv (hTable jf) \<and>
     rbt_inv (rcTable jf) \<and> rbt_inv (scTable jf) \<and> rbt_inv (roots jf)"

definition class_ptrs :: "jdump \<Rightarrow> ptr set" where
  "class_ptrs jf = ran (rbt_lookup (cTable jf)) \<union> ran (rbt_lookup (rcTable jf)) \<union> ran (rbt_lookup (scTable jf))"

definition live :: "jdump \<Rightarrow> ptr set" where
  "live jf = dom (cinfos jf) \<union> dom (hobjs jf) \<union> dom (arc_cells jf)"

definition wf_jdump :: "jdump \<Rightarrow> bool" where
  "wf_jdump jf \<longleftrightarrow> tables_inv jf \<and> class_ptrs jf \<subseteq> dom (cinfos jf) \<and>
     ran (rbt_lookup (hTable jf)) \<subseteq> dom (hobjs jf) \<and>
     0 < next_ptr jf \<and> live jf \<subseteq> {0<..<next_ptr jf}"

lemma live_simps [simp]:
  "live (a\<lparr>sbTable := t1\<rparr>) = live a" "live (a\<lparr>cTable := t2\<rparr>) = live a" "live (a\<lparr>hTable := t2\<rparr>) = live a"
  "live (a\<lparr>rcTable := t2\<rparr>) = live a" "live (a\<lparr>scTable := t2\<rparr>) = live a" "live (a\<lparr>roots := t3\<rparr>) = live a"
  "live (a\<lparr>fin := f\<rparr>) = live a" "live (a\<lparr>out := l\<rparr>) = live a" "live (a\<lparr>javaLangString := p\<rparr>) = live a"
  "live (a\<lparr>javaLangClass := p\<rparr>) = live a" "live (a\<lparr>javaLangClassLoader := p\<rparr>) = live a"
  "live (a\<lparr>fakeClass := v\<rparr>) = live a" "live (a\<lparr>arcs := ps\<rparr>) = live a" "live (a\<lparr>arcs_max := m\<rparr>) = live a"
  "live (a\<lparr>next_ptr := p\<rparr>) = live a"
  by (simp_all add: live_def)

lemma wf_grow:
  assumes "wf_jdump a"
    and "sbTable b = sbTable a" "cTable b = cTable a" "hTable b = hTable a" "rcTable b = rcTable a"
      "scTable b = scTable a" "roots b = roots a"
    and "dom (cinfos a) \<subseteq> dom (cinfos b)" "dom (hobjs a) \<subseteq> dom (hobjs b)"
    and "live b \<subseteq> insert (next_ptr a) (live a)" "next_ptr b = Suc (next_ptr a)"
  shows "wf_jdump b"
proof -
  have "live b \<subseteq> {0<..<next_ptr b}"
    using assms(1,10,11) unfolding wf_jdump_def by fastforce
  then show ?thesis using assms(1-9,11) unfolding wf_jdump_def tables_inv_def class_ptrs_def by simp blast
qed

lemma wf_same:
  assumes "wf_jdump a"
    and "sbTable b = sbTable a" "cTable b = cTable a" "hTable b = hTable a" "rcTable b = rcTable a"
      "scTable b = scTable a" "roots b = roots a"
    and "dom (cinfos b) = dom (cinfos a)" "dom (hobjs b) = dom (hobjs a)" "dom (arc_cells b) = dom (arc_cells a)"
      "next_ptr b = next_ptr a"
  shows "wf_jdump b"
  using assms unfolding wf_jdump_def tables_inv_def class_ptrs_def live_def by simp

text \<open>\<open>safe a b\<close>: a run from \<open>a\<close> to \<open>b\<close> keeps the invariant and frees nothing.\<close>

definition safe :: "jdump \<Rightarrow> jdump \<Rightarrow> bool" where
  "safe a b \<longleftrightarrow> (wf_jdump a \<longrightarrow> wf_jdump b) \<and> dom (cinfos a) \<subseteq> dom (cinfos b) \<and> dom (hobjs a) \<subseteq> dom (hobjs b)"

lemma safe_refl [simp]: "safe a a"
  by (simp add: safe_def)

lemma safe_trans: "safe a b \<Longrightarrow> safe b c \<Longrightarrow> safe a c"
  unfolding safe_def by blast

lemma safe_wf: "safe a b \<Longrightarrow> wf_jdump a \<Longrightarrow> wf_jdump b"
  by (simp add: safe_def)

lemma safe_fin [simp]: "safe j (a\<lparr>fin := f\<rparr>) = safe j a"
  and safe_string [simp]: "safe j (a\<lparr>javaLangString := p\<rparr>) = safe j a"
  and safe_lclass [simp]: "safe j (a\<lparr>javaLangClass := p\<rparr>) = safe j a"
  and safe_loader [simp]: "safe j (a\<lparr>javaLangClassLoader := p\<rparr>) = safe j a"
  and safe_fake [simp]: "safe j (a\<lparr>fakeClass := v\<rparr>) = safe j a"
  and safe_arcs [simp]: "safe j (a\<lparr>arcs := l\<rparr>) = safe j a"
  and safe_arcs_max [simp]: "safe j (a\<lparr>arcs_max := m\<rparr>) = safe j a"
  and safe_emit [simp]: "safe j (emit e a) = safe j a"
  by (simp_all add: safe_def emit_def wf_jdump_def tables_inv_def class_ptrs_def)

lemma safe_emit_left [simp]: "safe (emit e a) b = safe a b"
  by (simp add: safe_def emit_def wf_jdump_def tables_inv_def class_ptrs_def)

lemma safe_string_left [simp]: "safe (a\<lparr>javaLangString := p\<rparr>) b = safe a b"
  by (simp add: safe_def wf_jdump_def tables_inv_def class_ptrs_def)

lemma safe_on_file: "on_file get a = (v, b) \<Longrightarrow> safe a b"
  by (auto simp: on_file_def split: prod.splits)

lemma safe_upd_ci: "upd_ci p f a = Some b \<Longrightarrow> safe a b"
proof -
  assume "upd_ci p f a = Some b"
  then obtain c where c: "cinfos a p = Some c" "b = a\<lparr>cinfos := (cinfos a)(p \<mapsto> f c)\<rparr>"
    by (auto simp: upd_ci_def upd_cell_eq_Some_iff elim!: bind_SomeE)
  then have "dom (cinfos b) = dom (cinfos a)" by auto
  with wf_same [of a b] c(2) show ?thesis unfolding safe_def by simp
qed

lemma safe_upd_ho: "upd_ho p f a = Some b \<Longrightarrow> safe a b"
proof -
  assume "upd_ho p f a = Some b"
  then obtain c where c: "hobjs a p = Some c" "b = a\<lparr>hobjs := (hobjs a)(p \<mapsto> f c)\<rparr>"
    by (auto simp: upd_ho_def upd_cell_eq_Some_iff elim!: bind_SomeE)
  then have "dom (hobjs b) = dom (hobjs a)" by auto
  with wf_same [of a b] c(2) show ?thesis unfolding safe_def by simp
qed

lemma safe_upd_arc: "upd_arc p f a = Some b \<Longrightarrow> safe a b"
proof -
  assume "upd_arc p f a = Some b"
  then obtain c where c: "arc_cells a p = Some c" "b = a\<lparr>arc_cells := (arc_cells a)(p \<mapsto> f c)\<rparr>"
    by (auto simp: upd_arc_def upd_cell_eq_Some_iff elim!: bind_SomeE)
  then have "dom (arc_cells b) = dom (arc_cells a)" by auto
  with wf_same [of a b] c(2) show ?thesis unfolding safe_def by simp
qed

lemma safe_mkcinfo: "mkcinfo c n nm a = (p, b) \<Longrightarrow> safe a b"
  unfolding safe_def by (auto simp: mkcinfo_def live_def intro: wf_grow)

lemma mkcinfo_dom: "mkcinfo c n nm a = (p, b) \<Longrightarrow> p \<in> dom (cinfos b)"
  by (auto simp: mkcinfo_def)

lemma safe_makeObj: "makeObj ht i cl a = (p, b) \<Longrightarrow> safe a b"
  unfolding safe_def by (auto simp: makeObj_def live_def intro: wf_grow)

lemma makeObj_dom: "makeObj ht i cl a = (p, b) \<Longrightarrow> p \<in> dom (hobjs b)"
  by (auto simp: makeObj_def)

lemma rbt_inv_insert32: "rbt_inv t \<Longrightarrow> rbt_inv (insert32 k d t)"
  by (simp add: insert32_def rbt_insert_inv)

lemma ran_insert32: "rbt_inv t \<Longrightarrow> ran (rbt_lookup (insert32 k d t)) \<subseteq> insert d (ran (rbt_lookup t))"
  unfolding insert32_def by (rule rbt_table.ran_ins)

lemma safe_insert_sb [simp]: "safe j a \<Longrightarrow> safe j (a\<lparr>sbTable := insert32 k s (sbTable a)\<rparr>)"
  by (auto simp: safe_def wf_jdump_def tables_inv_def class_ptrs_def rbt_inv_insert32)

lemma safe_insert_roots [simp]: "safe j a \<Longrightarrow> safe j (a\<lparr>roots := insert32 k s (roots a)\<rparr>)"
  by (auto simp: safe_def wf_jdump_def tables_inv_def class_ptrs_def rbt_inv_insert32)

lemma wf_insert_tables:
  assumes "wf_jdump a"
  shows "p \<in> dom (cinfos a) \<Longrightarrow> wf_jdump (a\<lparr>cTable := insert32 k p (cTable a)\<rparr>)"
    and "p \<in> dom (cinfos a) \<Longrightarrow> wf_jdump (a\<lparr>scTable := insert32 k p (scTable a)\<rparr>)"
    and "p \<in> dom (cinfos a) \<Longrightarrow> wf_jdump (a\<lparr>rcTable := insert32 k p (rcTable a)\<rparr>)"
    and "p \<in> dom (hobjs a) \<Longrightarrow> wf_jdump (a\<lparr>hTable := insert32 k p (hTable a)\<rparr>)"
  using assms ran_insert32 [of "cTable a" k p] ran_insert32 [of "scTable a" k p]
    ran_insert32 [of "rcTable a" k p] ran_insert32 [of "hTable a" k p]
  unfolding wf_jdump_def tables_inv_def class_ptrs_def
  by (auto simp: rbt_inv_insert32)

lemma safe_insert_tables:
  assumes "safe j a"
  shows "p \<in> dom (cinfos a) \<Longrightarrow> safe j (a\<lparr>cTable := insert32 k p (cTable a)\<rparr>)"
    and "p \<in> dom (cinfos a) \<Longrightarrow> safe j (a\<lparr>scTable := insert32 k p (scTable a)\<rparr>)"
    and "p \<in> dom (cinfos a) \<Longrightarrow> safe j (a\<lparr>rcTable := insert32 k p (rcTable a)\<rparr>)"
    and "p \<in> dom (hobjs a) \<Longrightarrow> safe j (a\<lparr>hTable := insert32 k p (hTable a)\<rparr>)"
  using assms by (auto simp: safe_def intro: wf_insert_tables)

lemma lookup32_dom:
  assumes "wf_jdump a"
  shows "lookup32 (cTable a) k \<noteq> NULL \<Longrightarrow> lookup32 (cTable a) k \<in> dom (cinfos a)"
    and "lookup32 (rcTable a) k \<noteq> NULL \<Longrightarrow> lookup32 (rcTable a) k \<in> dom (cinfos a)"
    and "lookup32 (scTable a) k \<noteq> NULL \<Longrightarrow> lookup32 (scTable a) k \<in> dom (cinfos a)"
    and "lookup32 (hTable a) k \<noteq> NULL \<Longrightarrow> lookup32 (hTable a) k \<in> dom (hobjs a)"
  using assms unfolding wf_jdump_def class_ptrs_def lookup32_def
  by (auto split: option.splits intro: ranI)

lemma safe_array_class:
  assumes "array_class crc e nm a = (p, b)"
  shows "safe a b" and "wf_jdump a \<Longrightarrow> p \<in> dom (cinfos b)"
proof -
  let ?a1 = "a\<lparr>fakeClass := fakeClass a + 1\<rparr>"
  obtain q c where q: "mkcinfo (fakeClass a) e (Some nm) ?a1 = (q, c)" by force
  have c: "safe a c" "q \<in> dom (cinfos c)" using safe_mkcinfo [OF q] mkcinfo_dom [OF q]
    by (auto simp: safe_def wf_jdump_def tables_inv_def class_ptrs_def)
  let ?c1 = "c\<lparr>sbTable := insert32 e nm (sbTable c)\<rparr>"
  let ?c2 = "?c1\<lparr>cTable := insert32 (fakeClass c) q (cTable ?c1)\<rparr>"
  let ?c3 = "?c2\<lparr>rcTable := insert32 (hashKey crc nm) q (rcTable ?c2)\<rparr>"
  have *: "findClass crc a nm = NULL \<Longrightarrow> (p, b) = (q, ?c3)"
    using assms by (auto simp: array_class_def Let_def q)
  have "safe a ?c3"
    by (intro safe_insert_tables safe_insert_sb c) (use c in simp_all)
  with * assms show "safe a b"
    by (cases "findClass crc a nm = NULL") (auto simp: array_class_def Let_def)
  show "p \<in> dom (cinfos b)" if "wf_jdump a"
    using * assms c lookup32_dom(2) [OF that, of "hashKey crc nm"]
    by (cases "findClass crc a nm = NULL") (auto simp: array_class_def Let_def findClass_def)
qed

lemmas safe_basic = safe_on_file safe_upd_ci safe_upd_ho safe_upd_arc safe_mkcinfo safe_makeObj safe_array_class(1)

lemma safe_readValue: "readValue a = (r, b) \<Longrightarrow> safe a b"
  unfolding readValue_def Let_def
  by (auto elim!: case_prod_eqE split: if_splits dest!: safe_basic) (erule (1) safe_trans)+

lemma safe_read_cpool: "read_cpool n hs a = (hs', b) \<Longrightarrow> safe a b"
  by (induction n arbitrary: hs a)
     (auto simp: Let_def elim!: case_prod_eqE dest!: safe_basic safe_readValue intro: safe_trans)

lemma safe_read_statics: "read_statics n hs a = (r, b) \<Longrightarrow> safe a b"
  by (induction n arbitrary: hs a r)
     (auto simp: Let_def elim!: case_prod_eqE dest!: safe_basic safe_readValue intro: safe_trans)

lemma safe_read_fields: "read_fields n hs a = (r, b) \<Longrightarrow> safe a b"
  by (induction n arbitrary: hs a r)
     (auto simp: Let_def elim!: case_prod_eqE dest!: safe_basic intro: safe_trans)

text \<open>The same facts as rules that extend a run by its last step.\<close>

lemmas safe_ext = safe_basic [THEN safe_trans [rotated]] safe_read_cpool [THEN safe_trans [rotated]]
  safe_read_statics [THEN safe_trans [rotated]] safe_read_fields [THEN safe_trans [rotated]]

lemma safe_readClass: "readClass a hs = Some (hs', b) \<Longrightarrow> safe a b"
  unfolding readClass_def Let_def
  by (auto elim!: bind_SomeE case_prod_eqE split: if_splits prod.split_asm)
     ((erule safe_ext)+, rule safe_refl)+

section \<open>Records of a heap dump\<close>

lemma safe_array_object:
  assumes "array_object ht i ci e n a = Some (p, b)"
  shows "safe a b" "p \<in> dom (hobjs b)"
  using assms unfolding array_object_def Let_def
   apply (auto elim!: bind_SomeE case_prod_eqE)
    apply ((erule safe_ext)+, rule safe_refl)
  apply (auto simp: makeObj_def upd_ho_def upd_cell_def elim!: bind_SomeE)
  done

lemma safe_array_insert:
  assumes "array_object ht i ci e n a = Some (p, b)" "safe j a"
  shows "safe j (b\<lparr>hTable := insert32 k p (hTable b)\<rparr>)"
  using assms safe_array_object [OF assms(1)] by (intro safe_insert_tables) (auto intro: safe_trans)

lemma safe_readArray: "readArray crc a hs prim = Some (hs', b) \<Longrightarrow> safe a b"
  unfolding readArray_def Let_def
  by (auto elim!: bind_SomeE case_prod_eqE split: if_splits option.splits prod.split_asm)
     (erule safe_array_insert, (erule safe_ext)+, rule safe_refl)+

lemma safe_root_record: "root_record rt k n (cs, hs, a) = Some (cs', hs', b) \<Longrightarrow> safe a b"
  unfolding root_record_def Let_def
  by (auto elim!: bind_SomeE case_prod_eqE intro!: safe_insert_roots)
     ((erule safe_ext)+, rule safe_refl)

lemma safe_obj_insert:
  assumes "makeObj ht i c a = (p, j1)" "upd_ho p f j1 = Some b" "safe j a"
  shows "safe j (b\<lparr>hTable := insert32 k p (hTable b)\<rparr>)"
proof (rule safe_insert_tables)
  show "safe j b" using safe_makeObj [OF assms(1)] safe_upd_ho [OF assms(2)] assms(3) by (blast intro: safe_trans)
  show "p \<in> dom (hobjs b)" using makeObj_dom [OF assms(1)] safe_upd_ho [OF assms(2)] by (auto simp: safe_def)
qed

lemma safe_instance_record: "instance_record (cs, hs, a) = Some (cs', hs', b) \<Longrightarrow> safe a b"
  unfolding instance_record_def Let_def
  by (auto elim!: bind_SomeE case_prod_eqE split: if_splits)
     ((erule (1) safe_obj_insert)?, (erule safe_ext)+, rule safe_refl)+

lemma safe_heap_step:
  assumes "heap_step crc (cs, hs, a) = Some (cs', hs', b)"
  shows "safe a b"
proof -
  obtain r jf where g: "on_file getc_uchar a = (r, jf)" by force
  have "safe jf b"
    using assms unfolding heap_step_def Let_def
    by (auto simp: g elim!: bind_SomeE case_prod_eqE split: if_splits intro!: safe_insert_roots
        dest!: safe_basic safe_root_record safe_instance_record safe_readClass safe_readArray
        elim: safe_trans)
  with safe_on_file [OF g] show ?thesis by (rule safe_trans)
qed

lemma safe_heap_loop:
  assumes "heap_loop crc (cs, hs, jf) = Some (Some (cs', hs', jf'))"
  shows "safe jf jf'"
proof -
  let ?P = "\<lambda>st :: heap_state option. case st of None \<Rightarrow> True | Some (cs, hs, a) \<Rightarrow> safe jf a"
  have "?P (Some (cs', hs', jf'))"
  proof (rule while_option_rule [where P = ?P, OF _ assms [unfolded heap_loop_def]])
    fix st assume "?P st"
    then show "?P (Option.bind st (heap_step crc))"
      by (cases st) (auto split: option.split dest: safe_heap_step intro: safe_trans)
  qed simp
  then show ?thesis by simp
qed

section \<open>Resolving\<close>

lemma safe_for_range:
  assumes "for_range i n body s = Some s'" and "\<And>k t t'. body k t = Some t' \<Longrightarrow> safe (g t) (g t')"
  shows "safe (g s) (g s')"
  using assms(1)
  by (induction n arbitrary: i s) (auto elim!: bind_SomeE intro: safe_trans dest!: assms(2))

lemma safe_for_each:
  assumes "for_each body xs s = Some s'" and "\<And>x t t'. body x t = Some t' \<Longrightarrow> safe t t'"
  shows "safe s s'"
  using assms(1)
  by (induction xs arbitrary: s) (auto elim!: bind_SomeE intro: safe_trans dest!: assms(2))

lemma safe_arcs_push: "arcs_push p a = Some b \<Longrightarrow> safe a b"
  unfolding arcs_push_def by (auto elim!: bind_SomeE split: if_splits)

lemma arcs_push_next: "arcs_push p a = Some b \<Longrightarrow> next_ptr b = next_ptr a"
  unfolding arcs_push_def by (auto elim!: bind_SomeE split: if_splits)

lemma upd_ci_next: "upd_ci p f a = Some b \<Longrightarrow> next_ptr b = next_ptr a"
  unfolding upd_ci_def by (auto elim!: bind_SomeE)

lemma safe_next: "safe j a \<Longrightarrow> safe j (a\<lparr>next_ptr := Suc (next_ptr a)\<rparr>)"
  unfolding safe_def by (auto simp: live_def intro: wf_grow)

lemma safe_new_arc:
  assumes "safe j a" "wf_jdump j \<Longrightarrow> p \<noteq> NULL" "p < next_ptr a"
  shows "safe j (a\<lparr>arc_cells := (arc_cells a)(p \<mapsto> x)\<rparr>)"
  using assms unfolding safe_def wf_jdump_def tables_inv_def class_ptrs_def live_def by auto

lemma safe_arc_lookup: "arc_lookup a par c = Some (p, b) \<Longrightarrow> safe a b"
  unfolding arc_lookup_def by (auto elim!: bind_SomeE split: if_splits)

lemma safe_arc_add:
  assumes "arc_add a hop hoc n = Some b"
  shows "safe a b"
proof -
  obtain hp hc p a1 where h: "hobjs a hop = Some hp" "hobjs a hoc = Some hc"
    and l: "arc_lookup a (lookup32 (cTable a) (classId hp)) (lookup32 (cTable a) (classId hc)) = Some (p, a1)"
    using assms unfolding arc_add_def Let_def by (auto elim!: bind_SomeE)
  have a1: "safe a a1" by (rule safe_arc_lookup [OF l])
  show ?thesis
  proof (cases "p = NULL")
    case False
    then have "safe a1 b"
      using assms unfolding arc_add_def Let_def by (auto simp: h l dest: safe_upd_arc)
    with a1 show ?thesis by (rule safe_trans)
  next
    case True
    let ?q = "next_ptr a1"
    obtain a2 a3 a4 x where
        2: "a2 = a1\<lparr>next_ptr := Suc ?q\<rparr> \<or> arcs_push ?q (a1\<lparr>next_ptr := Suc ?q\<rparr>) = Some a2"
      and 3: "upd_ci (lookup32 (cTable a) (classId hp)) (\<lambda>x. x\<lparr>children := Some ?q\<rparr>) a2 = Some a3"
      and 4: "upd_ci (lookup32 (cTable a) (classId hc)) (\<lambda>x. x\<lparr>parents := Some ?q\<rparr>) a3 = Some a4"
      and b: "b = a4\<lparr>arc_cells := (arc_cells a4)(?q \<mapsto> x)\<rparr>"
      using assms unfolding arc_add_def Let_def
      by (auto simp: h l True elim!: bind_SomeE split: if_splits)
    have s2: "safe a a2" "next_ptr a2 = Suc ?q"
      using 2 safe_next [OF a1] arcs_push_next safe_arcs_push by (auto intro: safe_trans)
    have s4: "safe a a4" "next_ptr a4 = Suc ?q"
      using s2 safe_upd_ci [OF 3] safe_upd_ci [OF 4] upd_ci_next [OF 3] upd_ci_next [OF 4]
      by (auto intro: safe_trans)
    have "?q \<noteq> NULL" if "wf_jdump a" using safe_wf [OF a1 that] by (simp add: wf_jdump_def)
    with s4 show ?thesis unfolding b by (intro safe_new_arc) auto
  qed
qed

lemma safe_place_field: "place_field ci cc n idx slot a = Some (ft, b) \<Longrightarrow> safe a b"
  unfolding place_field_def Let_def by (auto elim!: bind_SomeE split: if_splits dest: safe_upd_ci)

lemma safe_layout_loop: "layout_loop n ci tf cc target k idx a = Some (i, b) \<Longrightarrow> safe a b"
proof (induction n arbitrary: cc target k idx a)
  case (Suc n)
  note ext = safe_ext Suc.IH [THEN safe_trans [rotated]] safe_place_field [THEN safe_trans [rotated]]
  from Suc.prems show ?case
    by (auto simp: Let_def elim!: bind_SomeE split: if_splits) ((erule ext)+, rule safe_refl)
qed simp

lemma safe_resolveClassNode: "resolveClassNode d a ci = Some b \<Longrightarrow> safe a b"
proof (induction d arbitrary: a ci b)
  case (Suc d)
  note ext = safe_ext Suc.IH [THEN safe_trans [rotated]] safe_layout_loop [THEN safe_trans [rotated]]
  from Suc.prems show ?case
    by (auto elim!: bind_SomeE split: if_splits) ((erule ext)+, rule safe_refl)+
qed simp

lemma safe_resolveClass: "resolveClass d a t = Some b \<Longrightarrow> safe a b"
proof (induction t arbitrary: a b)
  case (Node c l k p r)
  note ext = safe_resolveClassNode [THEN safe_trans [rotated]] Node.IH [THEN safe_trans [rotated]]
  from Node.prems show ?case by (auto elim!: bind_SomeE) ((erule ext)+, rule safe_refl)
qed simp

lemma safe_set_sizes: "set_sizes ho ci sz a = Some b \<Longrightarrow> safe a b"
  unfolding set_sizes_def by (auto elim!: bind_SomeE dest!: safe_basic intro: safe_trans)

lemmas safe_ext2 = safe_ext safe_resolveClassNode [THEN safe_trans [rotated]]
  safe_set_sizes [THEN safe_trans [rotated]] safe_arc_add [THEN safe_trans [rotated]]

lemma safe_resolve_varray: "resolve_varray ho ci a = Some (n, b) \<Longrightarrow> safe a b"
  unfolding resolve_varray_def Let_def
  apply (auto elim!: bind_SomeE case_prod_eqE split: if_splits option.splits bool.splits prod.split_asm)
  apply ((erule safe_ext2)+, simp?)+
  done

lemma safe_follow_ref:
  assumes "follow_ref again ho v a = Some b" and again: "\<And>j p n j'. again j p = Some (n, j') \<Longrightarrow> safe j j'"
  shows "safe a b"
  using assms(1) unfolding follow_ref_def Let_def
  by (auto elim!: bind_SomeE split: if_splits)
     ((erule safe_ext2 again [THEN safe_trans [rotated]])+, rule safe_refl)

lemma safe_resolve_oarray:
  assumes "resolve_oarray again ho ci a = Some (n, b)" and again: "\<And>j p n j'. again j p = Some (n, j') \<Longrightarrow> safe j j'"
  shows "safe a b"
proof -
  have each: "safe j j'" if "for_each (\<lambda>v jf. v \<bind> (\<lambda>v. follow_ref again ho v jf)) vs j = Some j'" for j j' vs
    by (rule safe_for_each [OF that]) (auto elim!: bind_SomeE intro: safe_follow_ref [OF _ again])
  show ?thesis
    using assms(1) unfolding resolve_oarray_def Let_def
    by (auto elim!: bind_SomeE case_prod_eqE split: if_splits)
       ((erule safe_ext2 each [THEN safe_trans [rotated]])+, simp)
qed

lemma safe_resolve_field:
  assumes "resolve_field again ho ci i (sz, a) = Some (sz', b)" and again: "\<And>j p n j'. again j p = Some (n, j') \<Longrightarrow> safe j j'"
  shows "safe a b"
proof -
  have ref: "safe j j'" if "follow_ref again ho v j = Some j'" for j j' v
    by (rule safe_follow_ref [OF that again])
  show ?thesis
    using assms(1) unfolding resolve_field_def Let_def
    by (auto elim!: bind_SomeE case_prod_eqE split: if_splits)
       ((erule safe_ext2 ref [THEN safe_trans [rotated]])+, simp)+
qed

lemma safe_resolve_fields:
  assumes "resolve_fields again ho ci a = Some (n, b)" and again: "\<And>j p n j'. again j p = Some (n, j') \<Longrightarrow> safe j j'"
  shows "safe a b"
proof -
  have loop: "safe j j'" if "for_range i k (resolve_field again ho ci) (sz, j) = Some (sz', j')" for i k sz sz' j j'
    using safe_for_range [OF that, of snd] safe_resolve_field [OF _ again] by fastforce
  show ?thesis
    using assms(1) unfolding resolve_fields_def
    by (auto elim!: bind_SomeE split: if_splits)
       ((erule safe_ext2 loop [THEN safe_trans [rotated]])+, rule safe_refl)+
qed

lemma safe_resolveInstance: "resolveInstance d a p = Some (n, b) \<Longrightarrow> safe a b"
proof (induction d arbitrary: a p n b)
  case (Suc d)
  have oa: "safe j j'" if "resolve_oarray (resolveInstance d) ho ci j = Some (k, j')" for ho ci j k j'
    by (rule safe_resolve_oarray [OF that]) (rule Suc.IH)
  have fs: "safe j j'" if "resolve_fields (resolveInstance d) ho ci j = Some (k, j')" for ho ci j k j'
    by (rule safe_resolve_fields [OF that]) (rule Suc.IH)
  note ext = safe_ext2 safe_resolve_varray [THEN safe_trans [rotated]]
    oa [THEN safe_trans [rotated]] fs [THEN safe_trans [rotated]]
  from Suc.prems show ?case
    by (auto simp: Let_def elim!: bind_SomeE split: if_splits) ((erule ext)+, rule safe_refl)+
qed simp

lemma safe_resolveInstances: "resolveInstances d a t = Some b \<Longrightarrow> safe a b"
proof (induction t arbitrary: a b)
  case (Node c l k p r)
  note ext = safe_resolveInstance [THEN safe_trans [rotated]] Node.IH [THEN safe_trans [rotated]]
  from Node.prems show ?case by (auto elim!: bind_SomeE) ((erule ext)+, rule safe_refl)
qed simp

section \<open>Printing\<close>

lemma safe_flush_cnt [simp]: "safe j (flush_cnt n a) = safe j a" "safe (flush_cnt n a) b = safe a b"
  by (simp_all add: flush_cnt_def)

lemma safe_print_elem: "print_elem h s i a = Some b \<Longrightarrow> safe a b"
  unfolding print_elem_def Let_def by (auto elim!: bind_SomeE split: if_splits)

lemma safe_print_varray: "print_varray h n s a = Some b \<Longrightarrow> safe a b"
proof -
  have loop: "safe j j'" if "for_range i k (print_elem h s) j = Some j'" for i k j j'
    by (rule safe_for_range [OF that]) (rule safe_print_elem)
  assume "print_varray h n s a = Some b"
  then show ?thesis
    unfolding print_varray_def Let_def by (auto elim!: bind_SomeE split: if_splits dest!: loop)
qed

lemma safe_print_ref:
  assumes "print_ref again h n s i (k, v, a) = Some (k', v', b)" and again: "\<And>j p j'. again j p = Some j' \<Longrightarrow> safe j j'"
  shows "safe a b"
  using assms(1) unfolding print_ref_def Let_def
  by (auto elim!: bind_SomeE split: if_splits dest!: again)

lemma safe_print_oarray:
  assumes "print_oarray again h n s a = Some b" and again: "\<And>j p j'. again j p = Some j' \<Longrightarrow> safe j j'"
  shows "safe a b"
proof -
  have loop: "safe j j'" if "for_range i m (print_ref again h n s) (k, v, j) = Some (k', v', j')" for i m k v j k' v' j'
    using safe_for_range [OF that, of "\<lambda>x. snd (snd x)"] safe_print_ref [OF _ again] by fastforce
  show ?thesis using assms(1) unfolding print_oarray_def Let_def by (auto elim!: bind_SomeE dest!: loop)
qed

lemma safe_print_field:
  assumes "print_field again ho ci n i a = Some b" and again: "\<And>j p j'. again j p = Some j' \<Longrightarrow> safe j j'"
  shows "safe a b"
  using assms(1) unfolding print_field_def print_scalar_def Let_def
  by (auto elim!: bind_SomeE split: if_splits option.splits hvalue.splits dest!: again)

lemma safe_printInstance: "printInstance d a p n s t = Some b \<Longrightarrow> safe a b"
proof (induction d arbitrary: a p n s t b)
  case (Suc d)
  have oa: "safe j j'" if "print_oarray (\<lambda>jf p. printInstance d jf p k False False) h m s j = Some j'" for k h m s j j'
    by (rule safe_print_oarray [OF that]) (rule Suc.IH)
  have fs: "safe j j'" if "for_range i m (print_field (\<lambda>jf p. printInstance d jf p k False str) ho ci ind) j = Some j'"
    for i m k str ho ci ind j j'
    by (rule safe_for_range [OF that]) (auto intro: safe_print_field [OF _ Suc.IH])
  from Suc.prems show ?case
    by (auto simp: Let_def elim!: bind_SomeE split: if_splits
        dest!: oa fs safe_print_varray safe_upd_ho) (meson safe_trans)+
qed simp

lemma safe_printString:
  assumes "printString d a ho = Some b"
  shows "safe a b"
proof -
  have fs: "safe j j'" if "for_range i m (print_field (\<lambda>jf p. printInstance d jf p k True True) ho ci 0) j = Some j'"
    for i m k ho ci j j'
    by (rule safe_for_range [OF that]) (auto intro: safe_print_field [OF _ safe_printInstance])
  from assms show ?thesis
    by (auto simp: printString_def Let_def elim!: bind_SomeE dest!: fs)
qed

lemma safe_printInstances: "printInstances d a t = Some b \<Longrightarrow> safe a b"
proof (induction t arbitrary: a b)
  case (Node c l k p r)
  from Node.prems show ?case
    by (auto simp: Let_def elim!: bind_SomeE dest!: safe_printInstance Node.IH) (meson safe_trans)
qed simp

lemma safe_collectStats: "collectStats d a t ckey = Some b \<Longrightarrow> safe a b"
proof (induction t arbitrary: a b ckey)
  case (Node c l k p r)
  note ext = safe_resolveInstance [THEN safe_trans [rotated]] safe_printInstance [THEN safe_trans [rotated]]
    Node.IH [THEN safe_trans [rotated]]
  from Node.prems show ?case
    by (auto elim!: bind_SomeE split: if_splits) ((erule ext)+, rule safe_refl)+
qed simp

lemma safe_printClass_r: "printClass_r t a = Some b \<Longrightarrow> safe a b"
proof (induction t arbitrary: a b)
  case (Node c l k p r)
  from Node.prems show ?case
    by (auto simp: Let_def elim!: bind_SomeE dest!: Node.IH) (meson safe_trans)
qed simp

section \<open>Both loops\<close>

lemma safe_heap_report: "heap_report crc d cs a = Some b \<Longrightarrow> safe a b"
proof -
  note ext = safe_printClass_r [THEN safe_trans [rotated]] safe_resolveInstances [THEN safe_trans [rotated]]
    safe_printInstances [THEN safe_trans [rotated]] safe_collectStats [THEN safe_trans [rotated]]
  assume "heap_report crc d cs a = Some b"
  then show ?thesis
    unfolding heap_report_def Let_def
    by (auto elim!: bind_SomeE split: if_splits option.splits) ((erule ext)+, simp)+
qed

lemma safe_readHeap: "readHeap crc d a hs = Some b \<Longrightarrow> safe a b"
  unfolding readHeap_def Let_def
  by (auto elim!: bind_SomeE dest!: safe_heap_loop safe_heap_report) (meson safe_trans)

lemma safe_utf8_record: "utf8_record rlen a = Some b \<Longrightarrow> safe a b"
  unfolding utf8_record_def Let_def
  by (auto elim!: bind_SomeE case_prod_eqE split: if_splits dest!: safe_basic intro!: safe_insert_sb)
     (meson safe_trans)

lemma safe_load_class_record:
  assumes "load_class_record crc a = Some b"
  shows "safe a b"
proof -
  obtain serial cid nid nm a1 ci a2 where a1: "safe a a1"
    and ci: "mkcinfo cid nid (rbt_lookup (sbTable a1) (ucast nid)) a1 = (ci, a2)"
    and b: "b = a2\<lparr>cTable := insert32 cid ci (cTable a2), scTable := insert32 serial ci (scTable a2),
      rcTable := insert32 (hashKey crc nm) ci (rcTable a2)\<rparr>"
  proof -
    from assms show ?thesis
      unfolding load_class_record_def Let_def
      apply (elim bind_SomeE case_prod_eqE)
      apply (rule that)
        prefer 2 apply assumption
       apply ((erule safe_ext)+, rule safe_refl)
      apply (simp, erule sym)
      done
  qed
  have s: "safe a a2" "ci \<in> dom (cinfos a2)" using a1 safe_mkcinfo [OF ci] mkcinfo_dom [OF ci] by (auto intro: safe_trans)
  let ?c1 = "a2\<lparr>cTable := insert32 cid ci (cTable a2)\<rparr>"
  let ?c2 = "?c1\<lparr>scTable := insert32 serial ci (scTable ?c1)\<rparr>"
  have "safe a (?c2\<lparr>rcTable := insert32 (hashKey crc nm) ci (rcTable ?c2)\<rparr>)"
    by (intro safe_insert_tables s) (use s in simp_all)
  then show ?thesis unfolding b by simp
qed

lemma safe_frame_record: "frame_record a = Some b \<Longrightarrow> safe a b"
  unfolding frame_record_def Let_def
  by (auto elim!: bind_SomeE case_prod_eqE) ((erule safe_ext)+, rule safe_refl)

lemma safe_trace_record: "trace_record a = Some b \<Longrightarrow> safe a b"
  unfolding trace_record_def Let_def
  by (auto elim!: bind_SomeE case_prod_eqE) ((erule safe_ext | simp)+)

definition state_of :: "dump_state \<Rightarrow> jdump option" where
  "state_of st = (case st of Going jf \<Rightarrow> Some jf | Ended jf \<Rightarrow> Some jf | Exited n \<Rightarrow> None)"

lemma safe_dump_step:
  assumes "dump_step crc d a = Some st" "state_of st = Some b"
  shows "safe a b"
proof -
  obtain r a1 where g: "on_file getc_uchar a = (r, a1)" by force
  obtain ts a2 where t: "on_file readUint a1 = (ts, a2)" by force
  obtain rl a3 where l: "on_file readUint a2 = (rl, a3)" by force
  have s: "safe a a1" "safe a a3" using g t l by (meson safe_on_file safe_trans)+
  show ?thesis
  proof (cases "r = 0xff")
    case True
    then show ?thesis using assms s by (auto simp: dump_step_def g state_of_def)
  next
    case False
    have "safe a3 b"
      using assms False unfolding dump_step_def Let_def
      by (auto simp: g t l state_of_def split: option.splits if_splits
          dest!: safe_utf8_record safe_load_class_record safe_frame_record safe_trace_record safe_readHeap)
    with s(2) show ?thesis by (rule safe_trans)
  qed
qed

lemma safe_dump_loop:
  assumes "dump_loop crc d a = Some (Some st)" "state_of st = Some b"
  shows "safe a b"
proof -
  let ?P = "\<lambda>s. case s of None \<Rightarrow> True | Some st \<Rightarrow> (\<forall>b. state_of st = Some b \<longrightarrow> safe a b)"
  have "?P (Some st)"
  proof (rule while_option_rule [where P = ?P, OF _ assms(1) [unfolded dump_loop_def]])
    fix s assume P: "?P s" and more: "dump_more s"
    then obtain j where j: "s = Some (Going j)" by (auto simp: dump_more_def split: option.splits dump_state.splits)
    then have "safe a j" using P by (simp add: state_of_def)
    then show "?P (Option.bind s (dump_next crc d))"
      by (auto simp: j split: option.split intro: safe_trans dest: safe_dump_step)
  qed (simp add: state_of_def)
  with assms(2) show ?thesis by simp
qed

lemma wf_new_jdump: "wf_jdump (new_jdump f v isz fc pl)"
proof -
  have "ran (rbt_lookup (Leaf :: ptr rbt)) = {}" by (simp add: ran_def)
  then show ?thesis
    by (simp add: new_jdump_def wf_jdump_def tables_inv_def class_ptrs_def live_def rbt_table.inv_empty)
qed

lemma readHeader_Going:
  assumes "readHeader fc pl file = Some (Going jf)"
  shows "wf_jdump jf" "identsz jf = 4 \<or> identsz jf = 8" "fclass jf = fc"
proof -
  obtain f v isz date where jf: "jf = emit (Dump_created date) (new_jdump f v isz fc pl)" and isz: "isz = 4 \<or> isz = 8"
    using assms by (auto simp: readHeader_def elim!: bind_SomeE split: option.splits prod.splits if_splits)
  have "safe (new_jdump f v isz fc pl) jf" by (simp add: jf)
  then show "wf_jdump jf" by (rule safe_wf) (rule wf_new_jdump)
  show "identsz jf = 4 \<or> identsz jf = 8" "fclass jf = fc"
    using isz by (simp_all add: jf emit_def new_jdump_def)
qed

lemma readDump_wf:
  assumes "readDump crc d fc pl file = Some st" "state_of st = Some jf"
  shows "wf_jdump jf"
proof -
  obtain st0 where h: "readHeader fc pl file = Some st0"
    using assms(1) by (auto simp: readDump_def elim!: bind_SomeE)
  show ?thesis
  proof (cases st0)
    case (Going j)
    then have "dump_loop crc d j = Some (Some st)"
      using assms(1) h by (auto simp: readDump_def elim!: bind_SomeE)
    from safe_wf [OF safe_dump_loop [OF this assms(2)]] readHeader_Going(1) h Going show ?thesis by blast
  qed (use assms h in \<open>auto simp: readDump_def state_of_def readHeader_def elim!: bind_SomeE
      split: option.splits prod.splits if_splits\<close>)
qed

section \<open>The class summary\<close>

definition class_line :: "cinfo \<Rightarrow> event" where
  "class_line c = Class_line (cident c) (nident c) (ccount c) (cname c)"

lemma printClass_r_entries:
  "snd ` set (entries t) \<subseteq> dom (cinfos jf) \<Longrightarrow>
   printClass_r t jf = Some (jf\<lparr>out := out jf @ map (\<lambda>(k, p). class_line (the (cinfos jf p))) (entries t)\<rparr>)"
  by (induction t arbitrary: jf) (auto simp: emit_def class_line_def [symmetric] image_Un)

lemma printClass_r_wf:
  assumes "wf_jdump jf"
  shows "printClass_r (cTable jf) jf =
    Some (jf\<lparr>out := out jf @ map (\<lambda>(k, p). class_line (the (cinfos jf p))) (entries (cTable jf))\<rparr>)"
proof (rule printClass_r_entries)
  show "snd ` set (entries (cTable jf)) \<subseteq> dom (cinfos jf)"
    using assms rbt_table.ran_items [of "cTable jf"] by (simp add: wf_jdump_def tables_inv_def class_ptrs_def)
qed

end
