(* ===== verification/Header.thy ===== *)
theory Header
  imports Jdump_Inv
begin

text \<open>
  The header of a dump and its errors (\<open>readHeader\<close>, the first half of \<open>readDump\<close>), and the
  record loop unfolded one record at a time.
\<close>

text \<open>The header of a dump.\<close>

definition header_bytes :: "byte list \<Rightarrow> u32 \<Rightarrow> u64 \<Rightarrow> byte list" where
  "header_bytes v isz date = put_be 4 (uint (0x4a415641 :: u32)) @ v @ 0 # put_be 4 (uint isz) @ put_be 8 (uint date)"

lemma length_header_bytes: "length (header_bytes v isz date) = length v + 17"
  by (simp add: header_bytes_def)

lemma readHeader_magic:
  assumes "bytes = put_be 4 (uint m) @ bs"
  shows "readUint \<lparr>content = bytes, fpos = 0\<rparr> = (Some m, \<lparr>content = bytes, fpos = 4\<rparr>)"
  using u32r.get_encode [of "\<lparr>content = bytes, fpos = 0\<rparr>" m bs] assms by (simp add: rest_def)

lemma readHeader_ok:
  assumes v: "version_code v \<noteq> -1" and isz: "isz = 4 \<or> isz = 8" and date: "date < 2 ^ 32"
  shows "readHeader fc pl (Some (header_bytes v isz date @ bs)) =
    Some (Going (emit (Dump_created (date div 1000))
      (new_jdump \<lparr>content = header_bytes v isz date @ bs, fpos = length v + 17\<rparr> (version_code v) isz fc pl)))"
proof -
  let ?bytes = "header_bytes v isz date @ bs"
  have v0: "0 \<notin> set v" "length v < 39"
    using v by (auto simp: version_code_def bytes_of_def of_char_def split: if_splits)
  have 1: "readUint \<lparr>content = ?bytes, fpos = 0\<rparr> = (Some 0x4a415641, \<lparr>content = ?bytes, fpos = 4\<rparr>)"
    by (rule readHeader_magic) (simp add: header_bytes_def)
  have 2: "readVersion \<lparr>content = ?bytes, fpos = 4\<rparr> = Some (version_code v, \<lparr>content = ?bytes, fpos = length v + 5\<rparr>)"
    using readVersion_terminated [of "\<lparr>content = ?bytes, fpos = 4\<rparr>" v] v0
    by (simp add: rest_def header_bytes_def)
  have 3: "readUint \<lparr>content = ?bytes, fpos = length v + 5\<rparr> = (Some isz, \<lparr>content = ?bytes, fpos = length v + 9\<rparr>)"
    using u32r.get_encode [of "\<lparr>content = ?bytes, fpos = length v + 5\<rparr>" isz "put_be 8 (uint date) @ bs"]
    by (simp add: rest_def header_bytes_def)
  have 4: "readUlong \<lparr>content = ?bytes, fpos = length v + 9\<rparr> = (Some date, \<lparr>content = ?bytes, fpos = length v + 17\<rparr>)"
    using u64r.get_encode [of "\<lparr>content = ?bytes, fpos = length v + 9\<rparr>" date bs] date
    by (simp add: rest_def header_bytes_def)
  show ?thesis using v isz by (auto simp: readHeader_def 1 2 3 4)
qed

lemma readHeader_errors:
  "readHeader fc pl None = Some (Exited 1)"
  "length bytes < 4 \<Longrightarrow> readHeader fc pl (Some bytes) = Some (Exited 2)"
  "4 \<le> length bytes \<Longrightarrow> be (take 4 bytes) \<noteq> 0x4a415641 \<Longrightarrow> readHeader fc pl (Some bytes) = Some (Exited 2)"
proof -
  show "readHeader fc pl None = Some (Exited 1)" by (simp add: readHeader_def)
  show "length bytes < 4 \<Longrightarrow> readHeader fc pl (Some bytes) = Some (Exited 2)"
    by (simp add: readHeader_def u32r.get_eq rest_def)
  assume a: "4 \<le> length bytes" "be (take 4 bytes) \<noteq> 0x4a415641"
  have "uint (be_word (take 4 bytes) :: u32) = be (take 4 bytes)"
    unfolding be_word_def by (rule uint_word_of_be) (use a in simp)
  with a(2) have "be_word (take 4 bytes) \<noteq> (0x4a415641 :: u32)" by auto
  with a(1) show "readHeader fc pl (Some bytes) = Some (Exited 2)"
    by (simp add: readHeader_def u32r.get_eq rest_def)
qed

lemma readHeader_version_error:
  assumes "bytes = put_be 4 (uint (0x4a415641 :: u32)) @ v @ 0 # bs" "0 \<notin> set v" "length v < 39" "version_code v = -1"
  shows "readHeader fc pl (Some bytes) = Some (Exited 3)"
proof -
  have 1: "readUint \<lparr>content = bytes, fpos = 0\<rparr> = (Some 0x4a415641, \<lparr>content = bytes, fpos = 4\<rparr>)"
    by (rule readHeader_magic [OF assms(1)])
  have 2: "readVersion \<lparr>content = bytes, fpos = 4\<rparr> = Some (-1, \<lparr>content = bytes, fpos = length v + 5\<rparr>)"
    using readVersion_terminated [of "\<lparr>content = bytes, fpos = 4\<rparr>" v bs] assms by (simp add: rest_def)
  show ?thesis by (simp add: readHeader_def 1 2)
qed

lemma readHeader_ident_error:
  assumes "bytes = put_be 4 (uint (0x4a415641 :: u32)) @ v @ 0 # put_be 4 (uint (isz :: u32)) @ bs"
    and v: "version_code v \<noteq> -1" and isz: "isz \<noteq> 4" "isz \<noteq> 8"
  shows "readHeader fc pl (Some bytes) = Some (Exited 4)"
proof -
  have v0: "0 \<notin> set v" "length v < 39"
    using v by (auto simp: version_code_def bytes_of_def of_char_def split: if_splits)
  have 1: "readUint \<lparr>content = bytes, fpos = 0\<rparr> = (Some 0x4a415641, \<lparr>content = bytes, fpos = 4\<rparr>)"
    by (rule readHeader_magic [OF assms(1)])
  have 2: "readVersion \<lparr>content = bytes, fpos = 4\<rparr> = Some (version_code v, \<lparr>content = bytes, fpos = length v + 5\<rparr>)"
    using readVersion_terminated [of "\<lparr>content = bytes, fpos = 4\<rparr>" v] v0 assms(1) by (simp add: rest_def)
  have 3: "readUint \<lparr>content = bytes, fpos = length v + 5\<rparr> = (Some isz, \<lparr>content = bytes, fpos = length v + 9\<rparr>)"
    using u32r.get_encode [of "\<lparr>content = bytes, fpos = length v + 5\<rparr>" isz bs] assms(1) by (simp add: rest_def)
  show ?thesis using v isz by (simp add: readHeader_def 1 2 3)
qed

lemma dump_loop_unfold:
  "dump_loop crc d jf = (case dump_step crc d jf of
     None \<Rightarrow> Some None
   | Some (Going jf') \<Rightarrow> dump_loop crc d jf'
   | Some st \<Rightarrow> Some (Some st))"
  unfolding dump_loop_def
  by (subst while_option_unfold)
     (simp add: dump_more_def while_option_unfold [of _ _ None] while_option_unfold [of _ _ "Some (Ended _)"]
       while_option_unfold [of _ _ "Some (Exited _)"] split: option.split dump_state.split)

lemma dump_step_eof:
  assumes "length (content (fin jf)) \<le> fpos (fin jf)"
  shows "dump_step crc d jf = Some (Ended (emit P_newline jf))"
proof -
  obtain r a1 where g: "on_file getc_uchar jf = (r, a1)" by force
  show ?thesis using getc_uchar_step(3) [OF g assms] by (simp add: dump_step_def g)
qed

lemma readDump_header_only:
  assumes "version_code v \<noteq> -1" "isz = 4 \<or> isz = 8" "date < 2 ^ 32"
  shows "\<exists>jf. readDump crc d fc pl (Some (header_bytes v isz date)) = Some (Ended jf)"
  using readHeader_ok [OF assms, of fc pl "[]"]
  by (simp add: readDump_def dump_loop_unfold dump_step_eof emit_def new_jdump_def length_header_bytes)

end
