(* ===== verification/Class_Graph.thy ===== *)
theory Class_Graph
  imports Printer
begin

text \<open>
  The class graph of \<^verbatim>\<open>phat.c\<close>: the functions that \<open>mg_assemble\<close> is made of. They number the
  classes depth first, collapse cycles, hand sizes and flags along the arcs and print the
  result. The call of \<open>mg_assemble\<close> in \<open>readHeap\<close> is commented out; the functions are modelled
  as they stand, including the loops that do not end.
\<close>

section \<open>State\<close>

text \<open>
  The fields of \<open>struct _cinfo\<close> and \<open>struct _arc\<close> that only this part uses. In a class they are
  first written by \<open>arc_init\<close>; \<open>arc->size\<close> is not written when an arc is made.
\<close>

record gcinfo = cinfo +
  cindex :: int
  child_size :: u64
  cyc_num :: int
  cyc_head :: ptr
  cyc_next :: ptr
  top_order :: int
  print_flag :: byte

record garc = arc +
  asize :: "int option"

abbreviation (input) MG_DFN_NAN :: int where "MG_DFN_NAN \<equiv> 0"
abbreviation (input) MG_DFN_BUSY :: int where "MG_DFN_BUSY \<equiv> -1"

datatype graph_event =
    No_cycle_head | Not_to_head | Bad_root u64 | Bad_class u64 | Topo_botched
  | Arc_line "int option" int int | Name_line "byte list option"
  | Graph_line int u64 "u64 option" u64

text \<open>
  The classes and arcs and the global variables. \<open>dfn_stack\<close> is an array of \<open>dfn_maxdepth\<close>
  entries (\<open>obj\<close>, \<open>cyctop\<close>), each of them indeterminate until it is written.
\<close>

record graph =
  gclasses :: "ptr \<rightharpoonup> gcinfo"
  garcs :: "ptr \<rightharpoonup> garc"
  dfn_depth :: int
  dfn_counter :: int
  dfn_stack :: "(ptr \<times> int) option list"
  num_cycles :: int
  num_objs :: int
  old_head :: ptr
  print_size :: int
  cyctab :: "ptr rbt"
  topotab :: "ptr rbt"
  sizetab :: "ptr rbt"
  gout :: "graph_event list"

definition upd_class :: "ptr \<Rightarrow> (gcinfo \<Rightarrow> gcinfo) \<Rightarrow> graph \<Rightarrow> graph option" where
  "upd_class p f s = do { h \<leftarrow> upd_cell p f (gclasses s); Some (s\<lparr>gclasses := h\<rparr>) }"

definition upd_garc :: "ptr \<Rightarrow> (garc \<Rightarrow> garc) \<Rightarrow> graph \<Rightarrow> graph option" where
  "upd_garc p f s = do { h \<leftarrow> upd_cell p f (garcs s); Some (s\<lparr>garcs := h\<rparr>) }"

definition say :: "graph_event \<Rightarrow> graph \<Rightarrow> graph" where
  "say e s = s\<lparr>gout := gout s @ [e]\<rparr>"

text \<open>\<open>arc_init\<close>: the class \<open>ci\<close> enters the graph, without arcs.\<close>

definition graph_init :: "jdump \<Rightarrow> ptr \<Rightarrow> graph \<Rightarrow> graph option" where
  "graph_init jf ci s = do {
     c \<leftarrow> cinfos jf ci;
     let c = c\<lparr>parents := Some NULL, children := Some NULL\<rparr>;
     Some (s\<lparr>gclasses := (gclasses s)(ci \<mapsto> cinfo.extend c
       \<lparr>cindex = 0, child_size = 0, cyc_num = 0, cyc_head = ci, cyc_next = NULL, top_order = MG_DFN_NAN,
        print_flag = 0\<rparr>)\<rparr>) }"

section \<open>Loops over arcs\<close>

partial_function (option) child_loop :: "(ptr \<Rightarrow> graph \<Rightarrow> graph option) \<Rightarrow> ptr \<Rightarrow> graph \<Rightarrow> graph option" where
  "child_loop body arc s =
     (if arc = NULL then Some s
      else do {
        s \<leftarrow> body arc s;
        a \<leftarrow> garcs s arc;
        child_loop body (next_child a) s })"

partial_function (option) parent_loop :: "(ptr \<Rightarrow> graph \<Rightarrow> graph option) \<Rightarrow> ptr \<Rightarrow> graph \<Rightarrow> graph option" where
  "parent_loop body arc s =
     (if arc = NULL then Some s
      else do {
        s \<leftarrow> body arc s;
        a \<leftarrow> garcs s arc;
        parent_loop body (next_parent a) s })"

text \<open>A loop over the members of a cycle: \<open>for (memb = p; memb; memb = memb->cyc_next)\<close>.\<close>

partial_function (option) member_loop :: "(ptr \<Rightarrow> graph \<Rightarrow> graph option) \<Rightarrow> ptr \<Rightarrow> graph \<Rightarrow> graph option" where
  "member_loop body memb s =
     (if memb = NULL then Some s
      else do {
        s \<leftarrow> body memb s;
        m \<leftarrow> gclasses s memb;
        member_loop body (cyc_next m) s })"

section \<open>Depth-first numbering\<close>

text \<open>
  \<open>sizeof(dfstack)\<close> is 16; \<open>talloc_realloc\<close> refuses an array of \<open>MAX_TALLOC_SIZE / 16\<close> entries or
  more, and the store to the stack then has no result.
\<close>

definition grow_stack :: "graph \<Rightarrow> graph option" where
  "grow_stack s =
     (if int (length (dfn_stack s)) \<le> dfn_depth s then
        (if uint MAX_TALLOC_SIZE div 16 \<le> int (length (dfn_stack s)) + 16 then None
         else Some (s\<lparr>dfn_stack := dfn_stack s @ replicate 16 None\<rparr>))
      else Some s)"

definition put_stack :: "int \<Rightarrow> ptr \<times> int \<Rightarrow> graph \<Rightarrow> graph option" where
  "put_stack i e s =
     (if 0 \<le> i \<and> i < int (length (dfn_stack s)) then Some (s\<lparr>dfn_stack := (dfn_stack s)[nat i := Some e]\<rparr>)
      else None)"

definition get_stack :: "int \<Rightarrow> graph \<Rightarrow> (ptr \<times> int) option" where
  "get_stack i s = (if 0 \<le> i \<and> i < int (length (dfn_stack s)) then dfn_stack s ! nat i else None)"

definition mg_previsit :: "ptr \<Rightarrow> graph \<Rightarrow> graph option" where
  "mg_previsit ho s = do {
     let s = s\<lparr>dfn_depth := dfn_depth s + 1\<rparr>;
     s \<leftarrow> grow_stack s;
     s \<leftarrow> put_stack (dfn_depth s) (ho, dfn_depth s) s;
     upd_class ho (\<lambda>c. c\<lparr>top_order := MG_DFN_BUSY\<rparr>) s }"

text \<open>The loop runs over \<open>ho\<close> but writes to \<open>memb\<close>, which stays the head of the cycle.\<close>

definition mg_postvisit :: "ptr \<Rightarrow> graph \<Rightarrow> graph option" where
  "mg_postvisit ho s = do {
     c \<leftarrow> gclasses s ho;
     s \<leftarrow> (if cyc_head c = ho then do {
              let s = s\<lparr>dfn_counter := dfn_counter s + 1\<rparr>;
              member_loop (\<lambda>_ s. upd_class ho (\<lambda>c. c\<lparr>top_order := dfn_counter s\<rparr>) s) ho s
            } else Some s);
     Some (s\<lparr>dfn_depth := dfn_depth s - 1\<rparr>) }"

text \<open>The search for the head of the cycle: from \<open>cycle_top\<close> down the stack.\<close>

fun find_top :: "ptr \<Rightarrow> graph \<Rightarrow> nat \<Rightarrow> nat option" where
  "find_top ho s 0 = Some 0"
| "find_top ho s (Suc i) = do {
     (head, _) \<leftarrow> get_stack (int (Suc i)) s;
     if ho = head then Some (Suc i)
     else do {
       c \<leftarrow> gclasses s ho;
       if cyc_head c \<noteq> ho \<and> cyc_head c \<noteq> head then Some (Suc i) else find_top ho s i } }"

partial_function (option) find_tail :: "ptr \<Rightarrow> graph \<Rightarrow> ptr option" where
  "find_tail tail s = do {
     c \<leftarrow> gclasses s tail;
     if cyc_next c = NULL then Some tail else find_tail (cyc_next c) s }"

text \<open>The members behind a new member get the new head; the result is the last of them.\<close>

partial_function (option) take_members :: "ptr \<Rightarrow> ptr \<Rightarrow> graph \<Rightarrow> (ptr \<times> graph) option" where
  "take_members head tail s = do {
     c \<leftarrow> gclasses s tail;
     if cyc_next c = NULL then Some (tail, s)
     else do {
       s \<leftarrow> upd_class (cyc_next c) (\<lambda>m. m\<lparr>cyc_head := head\<rparr>) s;
       c \<leftarrow> gclasses s tail;
       take_members head (cyc_next c) s } }"

text \<open>The loop over the stack entries above the head, \<open>n\<close> of them from \<open>index\<close> on.\<close>

fun capture :: "ptr \<Rightarrow> nat \<Rightarrow> int \<Rightarrow> ptr \<Rightarrow> graph \<Rightarrow> graph option" where
  "capture head 0 index tail s = Some s"
| "capture head (Suc n) index tail s = do {
     (ho, _) \<leftarrow> get_stack index s;
     c \<leftarrow> gclasses s ho;
     if cyc_head c = ho then do {
       s \<leftarrow> upd_class tail (\<lambda>c. c\<lparr>cyc_next := ho\<rparr>) s;
       s \<leftarrow> upd_class ho (\<lambda>c. c\<lparr>cyc_head := head\<rparr>) s;
       (tail, s) \<leftarrow> take_members head ho s;
       capture head n (index + 1) tail s
     }
     else if cyc_head c \<noteq> head then Some (say Not_to_head s)
     else capture head n (index + 1) tail s }"

definition find_cycle :: "ptr \<Rightarrow> graph \<Rightarrow> graph option" where
  "find_cycle ho s = do {
     cycle_top \<leftarrow> find_top ho s (nat (dfn_depth s));
     if cycle_top = 0 then Some (say No_cycle_head s)
     else if int cycle_top \<noteq> dfn_depth s then do {
       (head, _) \<leftarrow> get_stack (int cycle_top) s;
       tail \<leftarrow> find_tail head s;
       h \<leftarrow> gclasses s head;
       capture (cyc_head h) (nat (dfn_depth s - int cycle_top)) (int cycle_top + 1) tail s
     } else Some s }"

primrec mg_dfn :: "nat \<Rightarrow> ptr \<Rightarrow> graph \<Rightarrow> graph option" where
  "mg_dfn 0 ho s = None"
| "mg_dfn (Suc d) ho s = do {
     c \<leftarrow> gclasses s ho;
     if top_order c \<noteq> MG_DFN_NAN \<and> top_order c \<noteq> MG_DFN_BUSY then Some s
     else if top_order c \<noteq> MG_DFN_NAN then find_cycle ho s
     else do {
       s \<leftarrow> mg_previsit ho s;
       c \<leftarrow> gclasses s ho;
       arc \<leftarrow> children c;
       s \<leftarrow> child_loop (\<lambda>arc s. do { a \<leftarrow> garcs s arc; mg_dfn d (achild a) s }) arc s;
       mg_postvisit ho s } }"

text \<open>The first field of a root entry is its identifier; the entry of a monitor holds only half of it.\<close>

definition mg_dfn_lup :: "nat \<Rightarrow> jdump \<Rightarrow> root_entry \<Rightarrow> graph \<Rightarrow> graph option" where
  "mg_dfn_lup d jf r s = (case r of
      Monitor i \<Rightarrow> None
    | Rinfo idp ref rtype desc \<Rightarrow>
        (let ho = lookup32 (hTable jf) idp in
         if ho = NULL then Some (say (Bad_root idp) s)
         else do {
           h \<leftarrow> hobjs jf ho;
           let ci = lookup32 (cTable jf) (classId h);
           if ci = NULL then Some (say (Bad_class idp) s) else mg_dfn d ci s }))"

section \<open>Walking the tables\<close>

fun arc_iter :: "('d \<Rightarrow> 's \<Rightarrow> 's option) \<Rightarrow> 'd rbt \<Rightarrow> 's \<Rightarrow> 's option" where
  "arc_iter func Leaf s = Some s"
| "arc_iter func (Node _ l k d r) s = do {
     s \<leftarrow> arc_iter func l s;
     s \<leftarrow> func d s;
     arc_iter func r s }"

text \<open>Only the outermost call goes from right to left: it recurses into \<open>arc_iter\<close>.\<close>

fun arc_rev_iter :: "('d \<Rightarrow> 's \<Rightarrow> 's option) \<Rightarrow> 'd rbt \<Rightarrow> 's \<Rightarrow> 's option" where
  "arc_rev_iter func Leaf s = Some s"
| "arc_rev_iter func (Node _ l k d r) s = do {
     s \<leftarrow> arc_iter func r s;
     s \<leftarrow> func d s;
     arc_iter func l s }"

section \<open>Cycles\<close>

text \<open>A \<open>for\<close> whose step is \<open>memb->cyc_next\<close> or \<open>arc->next_parent\<close> without an assignment.\<close>

partial_function (option) stuck_loop :: "(ptr \<Rightarrow> graph \<Rightarrow> graph option) \<Rightarrow> ptr \<Rightarrow> graph \<Rightarrow> graph option" where
  "stuck_loop body p s =
     (if p = NULL then Some s
      else do {
        s \<leftarrow> body p s;
        stuck_loop body p s })"

text \<open>\<open>%d\<close> of a number that is not negative.\<close>

fun decimal :: "nat \<Rightarrow> byte list" where
  "decimal n = (if n < 10 then [of_nat (48 + n)] else decimal (n div 10) @ [of_nat (48 + n mod 10)])"

text \<open>
  \<open>cyc_iter\<close>; \<open>cycobj\<close> is the local variable of that name, which is never assigned. The class made
  for the cycle is inserted under \<open>fakeClass\<close> after its increment. Its fields that are not
  written are 0 here; the loop that follows does not end.
\<close>

definition cyc_iter :: "crc32 \<Rightarrow> ptr \<Rightarrow> ptr \<Rightarrow> jdump \<times> graph \<Rightarrow> (jdump \<times> graph) option" where
  "cyc_iter crc cycobj ci st = (case st of (jf, s) \<Rightarrow> do {
     c \<leftarrow> gclasses s ci;
     if \<not> (cyc_head c = ci \<and> cyc_next c \<noteq> NULL) then Some (jf, s)
     else do {
       let s = s\<lparr>num_cycles := num_cycles s + 1\<rparr>;
       let nm = map of_char ''<Cycle '' @ decimal (nat (num_cycles s)) @ map of_char ''>'';
       let fc = fakeClass jf;
       let (nci, jf) = mkcinfo fc 16 (Some nm) (jf\<lparr>fakeClass := fc + 1\<rparr>);
       let jf = jf\<lparr>cTable := insert32 (fc + 1) nci (cTable jf),
                   rcTable := insert32 (hashKey crc nm) nci (rcTable jf)\<rparr>;
       let s = s\<lparr>gclasses := (gclasses s)(nci \<mapsto> cinfo.extend (new_cinfo fc 16 (Some nm))
         \<lparr>cindex = 0, child_size = 0, cyc_num = num_cycles s, cyc_head = cycobj, cyc_next = ci,
          top_order = MG_DFN_NAN, print_flag = 0\<rparr>)\<rparr>;
       s \<leftarrow> stuck_loop (\<lambda>memb s. upd_class memb (\<lambda>m. m\<lparr>cyc_num := num_cycles s, cyc_head := cycobj\<rparr>) s) ci s;
       Some (jf, s\<lparr>cyctab := rbt_insert (word_of_int (num_cycles s)) (\<lambda>_. cycobj) (cyctab s)\<rparr>) } })"

definition cycle_link :: "crc32 \<Rightarrow> ptr \<Rightarrow> jdump \<times> graph \<Rightarrow> (jdump \<times> graph) option" where
  "cycle_link crc cycobj st = (case st of (jf, s) \<Rightarrow>
     arc_iter (cyc_iter crc cycobj) (hTable jf) (jf, s\<lparr>num_cycles := 0\<rparr>))"

text \<open>\<open>cycle_size\<close>: the size of a cycle is the sum of the sizes of its members.\<close>

definition cycle_size :: "ptr \<Rightarrow> graph \<Rightarrow> graph option" where
  "cycle_size ho s = do {
     c \<leftarrow> gclasses s ho;
     member_loop (\<lambda>memb s. do {
       c \<leftarrow> gclasses s ho;
       sz \<leftarrow> cisize c;
       m \<leftarrow> gclasses s memb;
       msz \<leftarrow> cisize m;
       upd_class ho (\<lambda>c. c\<lparr>cisize := Some (sz + msz)\<rparr>) s }) (cyc_next c) s }"

section \<open>Sorting by topological order and by size\<close>

definition topo_sort :: "ptr \<Rightarrow> graph \<Rightarrow> graph option" where
  "topo_sort ci s = do {
     c \<leftarrow> gclasses s ci;
     Some (s\<lparr>topotab := rbt_insert (word_of_int (top_order c)) (\<lambda>_. ci) (topotab s)\<rparr>) }"

definition size_sort :: "ptr \<Rightarrow> graph \<Rightarrow> graph option" where
  "size_sort ci s = do {
     c \<leftarrow> gclasses s ci;
     sz \<leftarrow> cisize c;
     Some (s\<lparr>sizetab := insert32 (sz + child_size c) ci (sizetab s)\<rparr>) }"

section \<open>Flags and sizes along the arcs\<close>

definition or_flag :: "ptr \<Rightarrow> ptr \<Rightarrow> graph \<Rightarrow> graph option" where
  "or_flag ho from_class s = do {
     p \<leftarrow> gclasses s from_class;
     upd_class ho (\<lambda>c. c\<lparr>print_flag := print_flag c OR print_flag p\<rparr>) s }"

definition flag_from_parents :: "ptr \<Rightarrow> graph \<Rightarrow> graph option" where
  "flag_from_parents ho s = do {
     s \<leftarrow> upd_class ho (\<lambda>c. c\<lparr>print_flag := 0\<rparr>) s;
     c \<leftarrow> gclasses s ho;
     arc \<leftarrow> parents c;
     parent_loop (\<lambda>arc s. do {
       a \<leftarrow> garcs s arc;
       if ho = aparent a then Some s else or_flag ho (aparent a) s }) arc s }"

definition flag_of_cycle :: "ptr \<Rightarrow> graph \<Rightarrow> graph option" where
  "flag_of_cycle head s = do {
     s \<leftarrow> upd_class head (\<lambda>c. c\<lparr>print_flag := 0\<rparr>) s;
     h \<leftarrow> gclasses s head;
     s \<leftarrow> member_loop (\<lambda>memb s. do {
            m \<leftarrow> gclasses s memb;
            arc \<leftarrow> parents m;
            parent_loop (\<lambda>arc s. do {
              a \<leftarrow> garcs s arc;
              p \<leftarrow> gclasses s (aparent a);
              if cyc_head p = head then Some s else or_flag head (aparent a) s }) arc s }) (cyc_next h) s;
     h \<leftarrow> gclasses s head;
     member_loop (\<lambda>memb s. do {
       h \<leftarrow> gclasses s head;
       upd_class memb (\<lambda>m. m\<lparr>print_flag := print_flag h\<rparr>) s }) head s }"

definition prop_flags :: "ptr \<Rightarrow> graph \<Rightarrow> graph option" where
  "prop_flags ho s = do {
     c \<leftarrow> gclasses s ho;
     s \<leftarrow> (if cyc_head c \<noteq> old_head s then
              (let s = s\<lparr>old_head := cyc_head c\<rparr>
               in if ho = cyc_head c then flag_from_parents ho s else flag_of_cycle (cyc_head c) s)
            else Some s);
     c \<leftarrow> gclasses s ho;
     s \<leftarrow> (if print_flag c = 0 then upd_class ho (\<lambda>c. c\<lparr>print_flag := 1\<rparr>) s else Some s);
     c \<leftarrow> gclasses s ho;
     sz \<leftarrow> cisize c;
     Some (s\<lparr>print_size := print_size s + sint sz\<rparr>) }"

text \<open>The end of a round of \<open>prop_size\<close>: the arc takes over the sizes of \<open>child\<close>, and hands them on.\<close>

definition prop_arc :: "ptr \<Rightarrow> ptr \<Rightarrow> ptr \<Rightarrow> graph \<Rightarrow> graph option" where
  "prop_arc ho arc child s = do {
     c \<leftarrow> gclasses s child;
     sz \<leftarrow> cisize c;
     let csz = child_size c;
     s \<leftarrow> upd_garc arc (\<lambda>a. a\<lparr>asize := Some (sint sz), achild_size := sint csz\<rparr>) s;
     s \<leftarrow> upd_class ho (\<lambda>h. h\<lparr>child_size := child_size h + (sz + csz)\<rparr>) s;
     h \<leftarrow> gclasses s ho;
     if cyc_head h \<noteq> ho then upd_class (cyc_head h) (\<lambda>h. h\<lparr>child_size := child_size h + (sz + csz)\<rparr>) s
     else Some s }"

definition prop_child :: "ptr \<Rightarrow> ptr \<Rightarrow> graph \<Rightarrow> graph option" where
  "prop_child ho arc s = do {
     a \<leftarrow> garcs s arc;
     let child = achild a;
     if acount a = 0 \<or> child = ho then Some s
     else do {
       h \<leftarrow> gclasses s ho;
       c \<leftarrow> gclasses s child;
       if cyc_head c \<noteq> child then
         (if cyc_num h = cyc_num c then Some s
          else prop_arc ho arc (cyc_head c) (if top_order h \<le> top_order c then say Topo_botched s else s))
       else if top_order h \<le> top_order c then Some (say Topo_botched s)
       else prop_arc ho arc child s } }"

definition prop_size :: "ptr \<Rightarrow> graph \<Rightarrow> graph option" where
  "prop_size ho s = do {
     c \<leftarrow> gclasses s ho;
     sz \<leftarrow> cisize c;
     if sz = 0 then Some s
     else do {
       arc \<leftarrow> children c;
       child_loop (prop_child ho) arc s } }"

section \<open>Sorting the arcs of a class\<close>

text \<open>
  \<open>cmp_arc\<close>. The difference of two \<open>long\<close> values is cut to an \<open>int\<close>.
\<close>

definition same_cycle :: "gcinfo \<Rightarrow> gcinfo \<Rightarrow> bool" where
  "same_cycle p c \<longleftrightarrow> cyc_num p \<noteq> 0 \<and> cyc_num c \<noteq> 0 \<and> cyc_num p = cyc_num c"

definition int_of_long :: "int \<Rightarrow> int" where
  "int_of_long n = sint (word_of_int n :: u32)"

definition cmp_arc :: "graph \<Rightarrow> ptr \<Rightarrow> ptr \<Rightarrow> int option" where
  "cmp_arc s left right = do {
     l \<leftarrow> garcs s left;
     if aparent l = achild l then Some (-1)
     else do {
       r \<leftarrow> garcs s right;
       if aparent r = achild r then Some 1
       else do {
         lp \<leftarrow> gclasses s (aparent l);
         lc \<leftarrow> gclasses s (achild l);
         rp \<leftarrow> gclasses s (aparent r);
         rc \<leftarrow> gclasses s (achild r);
         if same_cycle lp lc then
           (if same_cycle rp rc then Some (int_of_long (acount l - acount r)) else Some (-1))
         else if same_cycle rp rc then Some 1
         else do {
           lsz \<leftarrow> asize l;
           rsz \<leftarrow> asize r;
           let size = int_of_long (lsz - rsz);
           Some (if size \<noteq> 0 then size else int_of_long (acount l - acount r)) } } } }"

text \<open>
  \<open>sort_parents\<close> and \<open>sort_children\<close> differ in the link they follow and in the sign of the
  comparison. The local \<open>sorted\<close> is the anchor of the sorted list: \<open>first\<close> is its link, and \<open>prev\<close> is
  \<open>None\<close> while it points to the anchor. The first loop looks for the place of \<open>arc\<close>.
\<close>

partial_function (option) find_place ::
  "(garc \<Rightarrow> ptr) \<Rightarrow> (int \<Rightarrow> bool) \<Rightarrow> graph \<Rightarrow> ptr \<Rightarrow> ptr option \<Rightarrow> ptr \<Rightarrow> (ptr option \<times> ptr) option" where
  "find_place link stop s arc prev p =
     (if p = NULL then Some (prev, p)
      else do {
        r \<leftarrow> cmp_arc s arc p;
        if stop r then Some (prev, p)
        else do {
          a \<leftarrow> garcs s p;
          find_place link stop s arc (Some p) (link a) } })"

partial_function (option) sort_arcs ::
  "(garc \<Rightarrow> ptr) \<Rightarrow> (ptr \<Rightarrow> garc \<Rightarrow> garc) \<Rightarrow> (int \<Rightarrow> bool) \<Rightarrow> ptr \<Rightarrow> ptr \<Rightarrow> graph \<Rightarrow> (ptr \<times> graph) option" where
  "sort_arcs link set_link stop arc first s =
     (if arc = NULL then Some (first, s)
      else do {
        a \<leftarrow> garcs s arc;
        (prev, p) \<leftarrow> find_place link stop s arc None first;
        s \<leftarrow> upd_garc arc (set_link p) s;
        (first, s) \<leftarrow> (case prev of
            None \<Rightarrow> Some (arc, s)
          | Some q \<Rightarrow> do { s \<leftarrow> upd_garc q (set_link arc) s; Some (first, s) });
        sort_arcs link set_link stop (link a) first s })"

definition sort_parents :: "ptr \<Rightarrow> graph \<Rightarrow> graph option" where
  "sort_parents ho s = do {
     c \<leftarrow> gclasses s ho;
     arc \<leftarrow> parents c;
     (first, s) \<leftarrow> sort_arcs next_parent (\<lambda>p a. a\<lparr>next_parent := p\<rparr>) (\<lambda>r. 0 \<ge> r) arc NULL s;
     upd_class ho (\<lambda>c. c\<lparr>parents := Some first\<rparr>) s }"

definition sort_children :: "ptr \<Rightarrow> graph \<Rightarrow> graph option" where
  "sort_children ho s = do {
     c \<leftarrow> gclasses s ho;
     arc \<leftarrow> children c;
     (first, s) \<leftarrow> sort_arcs next_child (\<lambda>p a. a\<lparr>next_child := p\<rparr>) (\<lambda>r. 0 \<le> r) arc NULL s;
     upd_class ho (\<lambda>c. c\<lparr>children := Some first\<rparr>) s }"

section \<open>Printing\<close>

definition print_name :: "ptr \<Rightarrow> graph \<Rightarrow> graph option" where
  "print_name ci s = do { c \<leftarrow> gclasses s ci; Some (say (Name_line (cname c)) s) }"

text \<open>Both branches of the \<open>if\<close> in the loops of \<open>print_parents\<close> and \<open>print_children\<close> print the same.\<close>

definition print_arc :: "ptr \<Rightarrow> ptr \<Rightarrow> graph \<Rightarrow> graph option" where
  "print_arc ho arc s = do {
     a \<leftarrow> garcs s arc;
     print_name ho (say (Arc_line (asize a) (achild_size a) (acount a)) s) }"

definition print_parents :: "ptr \<Rightarrow> graph \<Rightarrow> graph option" where
  "print_parents ho s = do {
     c \<leftarrow> gclasses s ho;
     arc \<leftarrow> parents c;
     if arc = NULL then Some s
     else do {
       s \<leftarrow> sort_parents ho s;
       c \<leftarrow> gclasses s ho;
       arc \<leftarrow> parents c;
       stuck_loop (print_arc ho) arc s } }"

definition print_children :: "ptr \<Rightarrow> graph \<Rightarrow> graph option" where
  "print_children ho s = do {
     c \<leftarrow> gclasses s ho;
     arc \<leftarrow> children c;
     if arc = NULL then Some s
     else do {
       s \<leftarrow> sort_children ho s;
       c \<leftarrow> gclasses s ho;
       arc \<leftarrow> children c;
       stuck_loop (print_arc ho) arc s } }"

text \<open>The percentage is an unsigned quotient, with no result when \<open>print_size\<close> is 0.\<close>

definition mg_print :: "ptr \<Rightarrow> graph \<Rightarrow> graph option" where
  "mg_print ho s = do {
     s \<leftarrow> upd_class ho (\<lambda>c. c\<lparr>cindex := num_objs s\<rparr>) (s\<lparr>num_objs := num_objs s + 1\<rparr>);
     s \<leftarrow> print_parents ho s;
     c \<leftarrow> gclasses s ho;
     sz \<leftarrow> cisize c;
     let total = (word_of_int (print_size s) :: u64);
     s \<leftarrow> (if total = 0 then None
            else Some (say (Graph_line (cindex c) (100 * (sz + child_size c) div total) (Some sz) (child_size c)) s));
     s \<leftarrow> print_name ho s;
     print_children ho s }"

section \<open>The whole pass\<close>

text \<open>
  \<open>topo_sort\<close> and \<open>size_sort\<close> are given the entries of \<open>roots\<close>, which are no classes.
\<close>

definition as_class :: "root_entry \<Rightarrow> ptr option" where
  "as_class r = (case r of Rinfo i f t d \<Rightarrow> None | Monitor i \<Rightarrow> None)"

definition new_graph :: "jdump \<Rightarrow> graph" where
  "new_graph jf = \<lparr>gclasses = Map.empty,
     garcs = (\<lambda>p. map_option (\<lambda>a. arc.extend a \<lparr>asize = None\<rparr>) (arc_cells jf p)),
     dfn_depth = 0, dfn_counter = MG_DFN_NAN, dfn_stack = [], num_cycles = 0, num_objs = 0,
     old_head = NULL, print_size = 0,
     cyctab = Leaf, topotab = Leaf, sizetab = Leaf, gout = []\<rparr>"

definition mg_assemble :: "crc32 \<Rightarrow> ptr \<Rightarrow> nat \<Rightarrow> jdump \<Rightarrow> (jdump \<times> graph) option" where
  "mg_assemble crc cycobj d jf = do {
     s \<leftarrow> arc_iter (graph_init jf) (cTable jf) (new_graph jf);
     s \<leftarrow> arc_iter (mg_dfn_lup d jf) (roots jf) s;
     (jf, s) \<leftarrow> cycle_link crc cycobj (jf, s);
     s \<leftarrow> arc_iter (\<lambda>r s. do { ci \<leftarrow> as_class r; topo_sort ci s }) (roots jf) s;
     s \<leftarrow> arc_rev_iter prop_flags (topotab s) s;
     s \<leftarrow> arc_iter cycle_size (cyctab s) s;
     s \<leftarrow> arc_iter prop_size (topotab s) s;
     s \<leftarrow> arc_iter (\<lambda>r s. do { ci \<leftarrow> as_class r; size_sort ci s }) (roots jf) s;
     s \<leftarrow> arc_iter size_sort (cyctab s) s;
     s \<leftarrow> arc_iter mg_print (sizetab s) s;
     Some (jf, s) }"

end
