(* ===== verification/Class_Graph_Arcs.thy ===== *)
theory Class_Graph_Arcs
  imports Class_Graph "HOL-Library.Multiset"
begin

text \<open>What the functions of the class graph do, and where they do not end.\<close>

section \<open>Lists in the heap\<close>

text \<open>\<open>chain h link p xs\<close>: the cells \<open>xs\<close> are linked by \<open>link\<close> from \<open>p\<close> up to NULL.\<close>

primrec chain :: "(ptr \<rightharpoonup> 'c) \<Rightarrow> ('c \<Rightarrow> ptr) \<Rightarrow> ptr \<Rightarrow> ptr list \<Rightarrow> bool" where
  "chain h link p [] \<longleftrightarrow> p = NULL"
| "chain h link p (x # xs) \<longleftrightarrow> p = x \<and> x \<noteq> NULL \<and> (\<exists>a. h x = Some a \<and> chain h link (link a) xs)"

definition heads :: "ptr list \<Rightarrow> ptr \<Rightarrow> ptr" where
  "heads xs q = (case xs of [] \<Rightarrow> q | x # _ \<Rightarrow> x)"

lemma heads_simps [simp]: "heads [] q = q" "heads (x # xs) q = x"
  by (simp_all add: heads_def)

lemma chain_heads: "chain h link p xs \<Longrightarrow> p = heads xs NULL"
  by (cases xs) simp_all

lemma chain_frame: "\<forall>x \<in> set xs. h' x = h x \<Longrightarrow> chain h' link p xs = chain h link p xs"
  by (induction xs arbitrary: p) auto

text \<open>A segment from \<open>p\<close> that ends in \<open>q\<close>.\<close>

primrec segment :: "(ptr \<rightharpoonup> 'c) \<Rightarrow> ('c \<Rightarrow> ptr) \<Rightarrow> ptr \<Rightarrow> ptr list \<Rightarrow> ptr \<Rightarrow> bool" where
  "segment h link p [] q \<longleftrightarrow> p = q"
| "segment h link p (x # xs) q \<longleftrightarrow> p = x \<and> x \<noteq> NULL \<and> (\<exists>a. h x = Some a \<and> segment h link (link a) xs q)"

lemma segment_frame: "\<forall>x \<in> set xs. h' x = h x \<Longrightarrow> segment h' link p xs q = segment h link p xs q"
  by (induction xs arbitrary: p) auto

lemma chain_append: "chain h link p (xs @ ys) \<longleftrightarrow> (\<exists>q. segment h link p xs q \<and> chain h link q ys)"
  by (induction xs arbitrary: p) auto

lemma segment_snoc: "segment h link p (xs @ [x]) q \<longleftrightarrow> segment h link p xs x \<and> x \<noteq> NULL \<and> (\<exists>a. h x = Some a \<and> link a = q)"
  by (induction xs arbitrary: p) (simp, fastforce)

lemma chain_dom: "chain h link p xs \<Longrightarrow> set xs \<subseteq> dom h"
  by (induction xs arbitrary: p) auto

lemma chain_NULL: "chain h link p xs \<Longrightarrow> NULL \<notin> set xs"
  by (induction xs arbitrary: p) auto

section \<open>Insertion sort, on lists\<close>

fun place :: "('a \<Rightarrow> 'a \<Rightarrow> bool) \<Rightarrow> 'a \<Rightarrow> 'a list \<Rightarrow> 'a list" where
  "place le a [] = [a]"
| "place le a (x # xs) = (if le a x then a # x # xs else x # place le a xs)"

lemma place_mset [simp]: "mset (place le a xs) = add_mset a (mset xs)"
  by (induction xs) simp_all

lemma place_split: "place le a xs = takeWhile (\<lambda>x. \<not> le a x) xs @ a # dropWhile (\<lambda>x. \<not> le a x) xs"
  by (induction xs) simp_all

lemma fold_place_mset: "mset (fold (place le) xs ys) = mset xs + mset ys"
  by (induction xs arbitrary: ys) simp_all

text \<open>
  Neighbours are in order, when of any two cells one may stand before the other. Transitivity is
  not needed.
\<close>

lemma place_successively:
  assumes "successively le xs" "\<forall>x \<in> set xs. le a x \<or> le x a"
  shows "successively le (place le a xs)"
  using assms
proof (induction xs)
  case (Cons x xs)
  then have IH: "successively le (place le a xs)" by (cases xs) simp_all
  show ?case
  proof (cases "le a x")
    case False
    then have "le x a" using Cons.prems(2) by simp
    moreover have "hd (place le a xs) = a \<or> (xs \<noteq> [] \<and> hd (place le a xs) = hd xs)"
      by (cases xs) simp_all
    moreover have "xs \<noteq> [] \<Longrightarrow> le x (hd xs)" using Cons.prems(1) by (cases xs) simp_all
    moreover have "place le a xs \<noteq> []" by (cases xs) simp_all
    ultimately show ?thesis using IH False by (auto simp: successively_Cons)
  qed (use Cons.prems(1) in simp)
qed simp

lemma fold_place_successively:
  assumes "successively le ys" "distinct (xs @ ys)" "\<forall>x \<in> set (xs @ ys). \<forall>y \<in> set (xs @ ys). x \<noteq> y \<longrightarrow> le x y \<or> le y x"
  shows "successively le (fold (place le) xs ys)"
  using assms
proof (induction xs arbitrary: ys)
  case (Cons a xs)
  have eq: "set (place le a ys) = insert a (set ys)" using place_mset [of le a ys] by (metis set_mset_add_mset_insert set_mset_mset)
  have "distinct (place le a ys)" using Cons.prems(2) by (metis distinct.simps(2) distinct_append append_Cons mset_eq_imp_distinct_iff place_mset mset.simps(2) Un_iff set_append disjoint_iff list.set_intros(1))
  moreover have "successively le (place le a ys)"
    using Cons.prems by (intro place_successively) auto
  ultimately have "successively le (fold (place le) xs (place le a ys))"
    using Cons.prems eq by (intro Cons.IH) auto
  then show ?case by simp
qed simp

section \<open>Sorting the arcs of a class\<close>

text \<open>What \<open>cmp_arc\<close> reads of an arc: everything but the links.\<close>

definition arc_core :: "garc \<Rightarrow> ptr \<times> ptr \<times> int \<times> int option" where
  "arc_core a = (aparent a, achild a, acount a, asize a)"

definition same_arcs :: "graph \<Rightarrow> graph \<Rightarrow> bool" where
  "same_arcs s s' \<longleftrightarrow> gclasses s' = gclasses s \<and> map_option arc_core \<circ> garcs s' = map_option arc_core \<circ> garcs s"

lemma same_arcs_refl [simp]: "same_arcs s s"
  by (simp add: same_arcs_def)

lemma same_arcs_trans: "same_arcs a b \<Longrightarrow> same_arcs b c \<Longrightarrow> same_arcs a c"
  by (simp add: same_arcs_def)

definition cmp_core :: "(ptr \<rightharpoonup> gcinfo) \<Rightarrow> (ptr \<times> ptr \<times> int \<times> int option) option \<Rightarrow>
    (ptr \<times> ptr \<times> int \<times> int option) option \<Rightarrow> int option" where
  "cmp_core g left right = do {
     (lp, lc, ln, ls) \<leftarrow> left;
     if lp = lc then Some (-1)
     else do {
       (rp, rc, rn, rs) \<leftarrow> right;
       if rp = rc then Some 1
       else do {
         p \<leftarrow> g lp;
         c \<leftarrow> g lc;
         p' \<leftarrow> g rp;
         c' \<leftarrow> g rc;
         if same_cycle p c then
           (if same_cycle p' c' then Some (int_of_long (ln - rn)) else Some (-1))
         else if same_cycle p' c' then Some 1
         else do {
           lsz \<leftarrow> ls;
           rsz \<leftarrow> rs;
           let size = int_of_long (lsz - rsz);
           Some (if size \<noteq> 0 then size else int_of_long (ln - rn)) } } } }"

lemma cmp_arc_core:
  "cmp_arc s x y = cmp_core (gclasses s) (map_option arc_core (garcs s x)) (map_option arc_core (garcs s y))"
proof (cases "garcs s x")
  case l: (Some l)
  show ?thesis
  proof (cases "garcs s y")
    case (Some r)
    show ?thesis unfolding cmp_arc_def cmp_core_def l Some arc_core_def option.map by simp
  next
    case None
    show ?thesis unfolding cmp_arc_def cmp_core_def l None arc_core_def option.map by simp
  qed
next
  case None
  show ?thesis unfolding cmp_arc_def cmp_core_def None option.map by simp
qed

lemma cmp_arc_same:
  assumes "same_arcs s s'"
  shows "cmp_arc s' = cmp_arc s"
proof -
  have "map_option arc_core (garcs s' x) = map_option arc_core (garcs s x)" for x
    using assms by (simp add: same_arcs_def fun_eq_iff)
  moreover have "gclasses s' = gclasses s" using assms by (simp add: same_arcs_def)
  ultimately show ?thesis by (intro ext) (simp add: cmp_arc_core)
qed

text \<open>The links of the two sorted lists.\<close>

locale arc_link =
  fixes link :: "garc \<Rightarrow> ptr" and set_link :: "ptr \<Rightarrow> garc \<Rightarrow> garc"
  assumes link_set [simp]: "link (set_link p a) = p"
    and core_set [simp]: "arc_core (set_link p a) = arc_core a"
begin

lemma upd_same:
  assumes "garcs s x = Some a"
  shows "\<exists>s'. upd_garc x (set_link p) s = Some s' \<and> same_arcs s s' \<and> garcs s' = (garcs s)(x \<mapsto> set_link p a) \<and>
    s' = s\<lparr>garcs := garcs s'\<rparr>"
  using assms by (auto simp: upd_garc_def upd_cell_def same_arcs_def fun_eq_iff)

lemma find_place_correct:
  assumes "chain (garcs s) link p ys" "\<forall>y \<in> set ys. cmp_arc s arc y = Some (c y)"
  shows "find_place link stop s arc prev p =
    Some (let us = takeWhile (\<lambda>y. \<not> stop (c y)) ys in if us = [] then prev else Some (last us),
          heads (dropWhile (\<lambda>y. \<not> stop (c y)) ys) NULL)"
  using assms
proof (induction ys arbitrary: p prev)
  case Nil
  then show ?case by (subst find_place.simps) simp
next
  case (Cons y ys)
  then obtain a where a: "p = y" "y \<noteq> NULL" "garcs s y = Some a" "chain (garcs s) link (link a) ys" by auto
  show ?case
  proof (cases "stop (c y)")
    case True
    with a Cons.prems(2) show ?thesis by (subst find_place.simps) simp
  next
    case False
    have "find_place link stop s arc (Some y) (link a) =
      Some (let us = takeWhile (\<lambda>y. \<not> stop (c y)) ys in if us = [] then Some y else Some (last us),
          heads (dropWhile (\<lambda>y. \<not> stop (c y)) ys) NULL)"
      using Cons.IH [OF a(4)] Cons.prems(2) by simp
    with False a Cons.prems(2) show ?thesis by (subst find_place.simps) (simp add: Let_def)
  qed
qed

text \<open>Putting \<open>arc\<close> between \<open>us\<close> and \<open>vs\<close>.\<close>

lemma link_in:
  assumes ys: "chain (garcs s) link first (us @ vs)" and a: "garcs s arc = Some a" "arc \<noteq> NULL"
    and d: "arc \<notin> set (us @ vs)" "distinct (us @ vs)"
  shows "\<exists>s1 s2. upd_garc arc (set_link (heads vs NULL)) s = Some s1 \<and>
    (case if us = [] then None else Some (last us) of
       None \<Rightarrow> Some (arc, s1)
     | Some q \<Rightarrow> do { s \<leftarrow> upd_garc q (set_link arc) s1; Some (first, s) }) = Some (if us = [] then arc else first, s2) \<and>
    chain (garcs s2) link (if us = [] then arc else first) (us @ arc # vs) \<and> same_arcs s s2 \<and>
    (\<forall>x. x \<notin> insert arc (set us) \<longrightarrow> garcs s2 x = garcs s x) \<and> s2 = s\<lparr>garcs := garcs s2\<rparr>"
proof -
  obtain s1 where s1: "upd_garc arc (set_link (heads vs NULL)) s = Some s1" "same_arcs s s1"
      "garcs s1 = (garcs s)(arc \<mapsto> set_link (heads vs NULL) a)" "s1 = s\<lparr>garcs := garcs s1\<rparr>"
    using upd_same [OF a(1)] by blast
  obtain q where q: "segment (garcs s) link first us q" "chain (garcs s) link q vs"
    using ys by (auto simp: chain_append)
  have vs: "chain (garcs s1) link (heads vs NULL) vs"
    using q(2) chain_heads [OF q(2)] d(1) by (subst chain_frame [where h = "garcs s"]) (auto simp: s1(3))
  then have avs: "chain (garcs s1) link arc (arc # vs)" using a(2) by (simp add: s1(3))
  show ?thesis
  proof (cases us rule: rev_cases)
    case Nil
    with s1 avs show ?thesis by (auto simp: s1(3))
  next
    case (snoc us' l)
    have l: "segment (garcs s) link first us' l" "l \<noteq> NULL" "\<exists>b. garcs s l = Some b \<and> link b = q"
      using q(1) by (simp_all add: snoc segment_snoc)
    then obtain b where b: "garcs s1 l = Some b" using d(1) by (auto simp: s1(3) snoc)
    obtain s2 where s2: "upd_garc l (set_link arc) s1 = Some s2" "same_arcs s1 s2"
        "garcs s2 = (garcs s1)(l \<mapsto> set_link arc b)" "s2 = s1\<lparr>garcs := garcs s2\<rparr>"
      using upd_same [OF b] by blast
    have "segment (garcs s2) link first us' l"
      using l(1) d by (subst segment_frame [where h = "garcs s"]) (auto simp: s2(3) s1(3) snoc)
    then have "segment (garcs s2) link first us arc" using l(2) by (simp add: snoc segment_snoc s2(3))
    moreover have "chain (garcs s2) link arc (arc # vs)"
      using d by (subst chain_frame [where h = "garcs s1"]) (use avs in \<open>auto simp: s2(3) snoc\<close>)
    ultimately have "chain (garcs s2) link first (us @ arc # vs)" by (auto simp: chain_append)
    moreover have "s2 = s\<lparr>garcs := garcs s2\<rparr>" using s1(4) s2(4) by (metis graph.update_convs(2) graph.surjective)
    moreover have "same_arcs s s2" using same_arcs_trans [OF s1(2) s2(2)] .
    ultimately show ?thesis using s1(1) s2(1,3) by (auto simp: snoc s1(3))
  qed
qed

theorem sort_arcs_correct:
  assumes "chain (garcs s) link arc xs" "chain (garcs s) link first ys" "distinct (xs @ ys)"
    and "\<forall>x \<in> set (xs @ ys). \<forall>y \<in> set (xs @ ys). cmp_arc s x y = Some (c x y)"
  shows "\<exists>s' p. sort_arcs link set_link stop arc first s = Some (p, s') \<and>
    chain (garcs s') link p (fold (place (\<lambda>a x. stop (c a x))) xs ys) \<and> same_arcs s s' \<and>
    (\<forall>x. x \<notin> set (xs @ ys) \<longrightarrow> garcs s' x = garcs s x) \<and> s' = s\<lparr>garcs := garcs s'\<rparr>"
  using assms
proof (induction xs arbitrary: arc first ys s)
  case Nil
  then show ?case by (subst sort_arcs.simps) (auto intro!: exI [of _ s])
next
  case (Cons x xs)
  then obtain a where a: "arc = x" "x \<noteq> NULL" "garcs s x = Some a" "chain (garcs s) link (link a) xs" by auto
  let ?us = "takeWhile (\<lambda>y. \<not> stop (c x y)) ys" and ?vs = "dropWhile (\<lambda>y. \<not> stop (c x y)) ys"
  let ?zs = "?us @ x # ?vs"
  have find: "find_place link stop s x None first =
      Some (if ?us = [] then None else Some (last ?us), heads ?vs NULL)"
    using find_place_correct [OF Cons.prems(2), of x "c x" stop None] Cons.prems(4) by (simp add: Let_def)
  have ys: "?us @ ?vs = ys" by simp
  obtain s1 s2 where s2: "upd_garc x (set_link (heads ?vs NULL)) s = Some s1"
    "(case if ?us = [] then None else Some (last ?us) of
       None \<Rightarrow> Some (x, s1)
     | Some q \<Rightarrow> do { s \<leftarrow> upd_garc q (set_link x) s1; Some (first, s) }) = Some (if ?us = [] then x else first, s2)"
    "chain (garcs s2) link (if ?us = [] then x else first) ?zs" "same_arcs s s2"
    "\<forall>z. z \<notin> insert x (set ?us) \<longrightarrow> garcs s2 z = garcs s z" "s2 = s\<lparr>garcs := garcs s2\<rparr>"
    using link_in [of s first ?us ?vs x a] a(2,3) Cons.prems(2,3) unfolding ys by auto
  have zs: "set (us @ x # vs) = insert x (set ys)" "distinct (us @ x # vs)" if "us @ vs = ys" for us vs
    using that Cons.prems(3) by auto
  note zs = zs [OF ys]
  have sub: "set ?us \<subseteq> set ys" by (auto dest: set_takeWhileD)
  have ch: "chain (garcs s2) link (link a) xs"
    using a(4) s2(5) sub Cons.prems(3) by (subst chain_frame [where h = "garcs s"]) auto
  have dist: "distinct (xs @ ?zs)" using Cons.prems(3) zs by auto
  have cmp: "\<forall>u \<in> set (xs @ ?zs). \<forall>v \<in> set (xs @ ?zs). cmp_arc s2 u v = Some (c u v)"
    using Cons.prems(4) zs(1) by (simp add: cmp_arc_same [OF s2(4)])
  obtain s' p where I: "sort_arcs link set_link stop (link a) (if ?us = [] then x else first) s2 = Some (p, s')"
      "chain (garcs s') link p (fold (place (\<lambda>a x. stop (c a x))) xs ?zs)" "same_arcs s2 s'"
      "\<forall>z. z \<notin> set (xs @ ?zs) \<longrightarrow> garcs s' z = garcs s2 z" "s' = s2\<lparr>garcs := garcs s'\<rparr>"
    using Cons.IH [OF ch s2(3) dist cmp] by blast
  have "sort_arcs link set_link stop arc first s = Some (p, s')"
    unfolding a(1) using a(2,3) find s2(1,2) I(1)
    by (subst sort_arcs.simps) (simp split: option.splits if_splits)
  moreover have "fold (place (\<lambda>a x. stop (c a x))) (x # xs) ys = fold (place (\<lambda>a x. stop (c a x))) xs ?zs"
    by (simp add: place_split)
  moreover have "\<forall>z. z \<notin> set ((x # xs) @ ys) \<longrightarrow> garcs s' z = garcs s z" using I(4) s2(5) sub zs(1) by auto
  moreover have "s' = s\<lparr>garcs := garcs s'\<rparr>" using s2(6) I(5) by (metis graph.update_convs(2) graph.surjective)
  ultimately show ?case using I(2) same_arcs_trans [OF s2(4) I(3)] by metis
qed

end

interpretation parent_link: arc_link next_parent "\<lambda>p a. a\<lparr>next_parent := p\<rparr>"
  by unfold_locales (simp_all add: arc_core_def)

interpretation child_link: arc_link next_child "\<lambda>p a. a\<lparr>next_child := p\<rparr>"
  by unfold_locales (simp_all add: arc_core_def)

text \<open>The list before and after.\<close>

definition sorted_arcs :: "(int \<Rightarrow> bool) \<Rightarrow> (ptr \<Rightarrow> ptr \<Rightarrow> int) \<Rightarrow> ptr list \<Rightarrow> ptr list" where
  "sorted_arcs stop c xs = fold (place (\<lambda>a x. stop (c a x))) xs []"

lemma sorted_arcs_mset: "mset (sorted_arcs stop c xs) = mset xs"
  by (simp add: sorted_arcs_def fold_place_mset)

lemma sorted_arcs_Nil [simp]: "sorted_arcs stop c xs = [] \<longleftrightarrow> xs = []"
  using sorted_arcs_mset [of stop c xs] by (metis mset_zero_iff)

lemma sorted_arcs_successively:
  assumes "distinct xs" "\<forall>x \<in> set xs. \<forall>y \<in> set xs. x \<noteq> y \<longrightarrow> stop (c x y) \<or> stop (c y x)"
  shows "successively (\<lambda>a x. stop (c a x)) (sorted_arcs stop c xs)"
  unfolding sorted_arcs_def using assms by (intro fold_place_successively) auto

theorem sort_parents_correct:
  assumes "gclasses s ho = Some i" "parents i = Some arc" "chain (garcs s) next_parent arc xs" "distinct xs"
    and "\<forall>x \<in> set xs. \<forall>y \<in> set xs. cmp_arc s x y = Some (c x y)"
  shows "\<exists>s' p. sort_parents ho s = Some s' \<and>
    gclasses s' = (gclasses s)(ho \<mapsto> i\<lparr>parents := Some p\<rparr>) \<and>
    chain (garcs s') next_parent p (sorted_arcs (\<lambda>r. 0 \<ge> r) c xs) \<and>
    map_option arc_core \<circ> garcs s' = map_option arc_core \<circ> garcs s"
proof -
  obtain s1 p where s1: "sort_arcs next_parent (\<lambda>p a. a\<lparr>next_parent := p\<rparr>) (\<lambda>r. 0 \<ge> r) arc NULL s = Some (p, s1)"
      "chain (garcs s1) next_parent p (sorted_arcs (\<lambda>r. 0 \<ge> r) c xs)" "same_arcs s s1"
    using parent_link.sort_arcs_correct [of s arc xs NULL "[]" c "\<lambda>r. 0 \<ge> r"] assms(3-5)
    by (auto simp: sorted_arcs_def)
  with assms(1,2) show ?thesis by (auto simp: sort_parents_def upd_class_def upd_cell_def same_arcs_def)
qed

theorem sort_children_correct:
  assumes "gclasses s ho = Some i" "children i = Some arc" "chain (garcs s) next_child arc xs" "distinct xs"
    and "\<forall>x \<in> set xs. \<forall>y \<in> set xs. cmp_arc s x y = Some (c x y)"
  shows "\<exists>s' p. sort_children ho s = Some s' \<and>
    gclasses s' = (gclasses s)(ho \<mapsto> i\<lparr>children := Some p\<rparr>) \<and>
    chain (garcs s') next_child p (sorted_arcs (\<lambda>r. 0 \<le> r) c xs) \<and>
    map_option arc_core \<circ> garcs s' = map_option arc_core \<circ> garcs s"
proof -
  obtain s1 p where s1: "sort_arcs next_child (\<lambda>p a. a\<lparr>next_child := p\<rparr>) (\<lambda>r. 0 \<le> r) arc NULL s = Some (p, s1)"
      "chain (garcs s1) next_child p (sorted_arcs (\<lambda>r. 0 \<le> r) c xs)" "same_arcs s s1"
    using child_link.sort_arcs_correct [of s arc xs NULL "[]" c "\<lambda>r. 0 \<le> r"] assms(3-5)
    by (auto simp: sorted_arcs_def)
  with assms(1,2) show ?thesis by (auto simp: sort_children_def upd_class_def upd_cell_def same_arcs_def)
qed

text \<open>
  When the neighbours are in order: sizes and counts below 2^30, so that no difference wraps
  around in an \<open>int\<close>, and for the children of a class at most one arc to itself.
\<close>

definition small_arc :: "graph \<Rightarrow> ptr \<Rightarrow> bool" where
  "small_arc s x \<longleftrightarrow> (\<exists>a n. garcs s x = Some a \<and> asize a = Some n \<and> \<bar>n\<bar> < 2 ^ 30 \<and> \<bar>acount a\<bar> < 2 ^ 30 \<and>
     aparent a \<in> dom (gclasses s) \<and> achild a \<in> dom (gclasses s))"

definition self_arc :: "graph \<Rightarrow> ptr \<Rightarrow> bool" where
  "self_arc s x \<longleftrightarrow> (\<exists>a. garcs s x = Some a \<and> aparent a = achild a)"

lemma int_of_long_small:
  assumes "\<bar>n\<bar> < 2 ^ 31"
  shows "int_of_long n = n"
  using assms by (simp add: int_of_long_def signed_take_bit_int_eq_self sint_sbintrunc')

lemma cmp_arc_small:
  assumes "small_arc s x" "small_arc s y"
  shows "\<exists>r q. cmp_arc s x y = Some r \<and> cmp_arc s y x = Some q \<and> (r > 0 \<longrightarrow> q \<le> 0) \<and>
    (\<not> (self_arc s x \<and> self_arc s y) \<longrightarrow> q < 0 \<longrightarrow> r \<ge> 0)"
proof -
  obtain a n where a: "garcs s x = Some a" "asize a = Some n" "\<bar>n\<bar> < 2 ^ 30" "\<bar>acount a\<bar> < 2 ^ 30"
      "aparent a \<in> dom (gclasses s)" "achild a \<in> dom (gclasses s)"
    using assms(1) unfolding small_arc_def by blast
  obtain b m where b: "garcs s y = Some b" "asize b = Some m" "\<bar>m\<bar> < 2 ^ 30" "\<bar>acount b\<bar> < 2 ^ 30"
      "aparent b \<in> dom (gclasses s)" "achild b \<in> dom (gclasses s)"
    using assms(2) unfolding small_arc_def by blast
  have i: "int_of_long (n - m) = n - m" "int_of_long (m - n) = m - n"
      "int_of_long (acount a - acount b) = acount a - acount b" "int_of_long (acount b - acount a) = acount b - acount a"
    using a(3,4) b(3,4) by (auto intro!: int_of_long_small)
  obtain ap ac bp bc where g: "gclasses s (aparent a) = Some ap" "gclasses s (achild a) = Some ac"
      "gclasses s (aparent b) = Some bp" "gclasses s (achild b) = Some bc"
    using a(5,6) b(5,6) by blast
  show ?thesis
    using a(1,2) b(1,2) g by (auto simp: cmp_arc_def self_arc_def Let_def i)
qed

end
