(* ===== verification/Class_Graph_Order.thy ===== *)
theory Class_Graph_Order
  imports Class_Graph_Arcs
begin

text \<open>
  Three more results on the class graph of \<^verbatim>\<open>phat.c\<close>: the loops that do not end, the
  depth-first numbering of a graph without cycles, and the sizes handed along its arcs.
\<close>

section \<open>Loops that do not end\<close>

lemma stuck_loop_Some:
  assumes "stuck_loop body p s = Some s'"
  shows "p = NULL"
  by (rule stuck_loop.raw_induct [of "\<lambda>body p s r. p = NULL", OF _ assms])
    (auto split: if_splits simp: bind_eq_Some_conv)

lemma stuck_loop_None: "p \<noteq> NULL \<Longrightarrow> stuck_loop body p s = None"
  using stuck_loop_Some [of body p s] by (cases "stuck_loop body p s") auto

lemma find_place_NULL [simp]: "find_place link stop s arc prev NULL = Some (prev, NULL)"
  by (subst find_place.simps) simp

lemma sort_arcs_first:
  assumes "sort_arcs link set_link stop arc first s = Some (p, s')" "arc \<noteq> NULL \<or> first \<noteq> NULL"
  shows "p \<noteq> NULL"
proof -
  let ?P = "\<lambda>link set_link stop arc first s r. arc \<noteq> NULL \<or> first \<noteq> NULL \<longrightarrow> fst r \<noteq> NULL"
  have "?P link set_link stop arc first s (p, s')"
  proof (rule sort_arcs.raw_induct [of ?P, OF _ assms(1)])
    fix f :: "(garc \<Rightarrow> ptr) \<Rightarrow> (ptr \<Rightarrow> garc \<Rightarrow> garc) \<Rightarrow> (int \<Rightarrow> bool) \<Rightarrow> ptr \<Rightarrow> ptr \<Rightarrow> graph \<Rightarrow> (ptr \<times> graph) option"
      and link set_link stop arc first s r
    assume IH: "\<And>link set_link stop arc first s r. f link set_link stop arc first s = Some r \<Longrightarrow> ?P link set_link stop arc first s r"
    show "(if arc = NULL then Some (first, s)
      else do {
        a \<leftarrow> garcs s arc;
        (prev, p) \<leftarrow> find_place link stop s arc None first;
        s \<leftarrow> upd_garc arc (set_link p) s;
        (first, s) \<leftarrow> (case prev of
            None \<Rightarrow> Some (arc, s)
          | Some q \<Rightarrow> do { s \<leftarrow> upd_garc q (set_link arc) s; Some (first, s) });
        f link set_link stop (link a) first s }) = Some r \<Longrightarrow> ?P link set_link stop arc first s r"
      by (cases "arc = NULL"; cases "first = NULL")
        (auto simp: bind_eq_Some_conv split: option.splits dest!: IH)
  qed
  then show ?thesis using assms(2) by auto
qed

theorem print_parents_stuck:
  assumes "gclasses s ho = Some c" "parents c = Some arc" "arc \<noteq> NULL"
  shows "print_parents ho s = None"
proof (cases "sort_parents ho s")
  case (Some s1)
  then obtain p s2 where "sort_arcs next_parent (\<lambda>p a. a\<lparr>next_parent := p\<rparr>) (\<lambda>r. 0 \<ge> r) arc NULL s = Some (p, s2)"
      "upd_class ho (\<lambda>c. c\<lparr>parents := Some p\<rparr>) s2 = Some s1"
    using assms(1,2) by (auto simp: sort_parents_def bind_eq_Some_conv)
  moreover have "p \<noteq> NULL" by (rule sort_arcs_first [OF calculation(1)]) (simp add: assms(3))
  ultimately show ?thesis
    using assms Some
    by (auto simp: print_parents_def upd_class_def upd_cell_def bind_eq_Some_conv stuck_loop_None split: option.splits)
qed (use assms in \<open>simp add: print_parents_def\<close>)

theorem print_children_stuck:
  assumes "gclasses s ho = Some c" "children c = Some arc" "arc \<noteq> NULL"
  shows "print_children ho s = None"
proof (cases "sort_children ho s")
  case (Some s1)
  then obtain p s2 where "sort_arcs next_child (\<lambda>p a. a\<lparr>next_child := p\<rparr>) (\<lambda>r. 0 \<le> r) arc NULL s = Some (p, s2)"
      "upd_class ho (\<lambda>c. c\<lparr>children := Some p\<rparr>) s2 = Some s1"
    using assms(1,2) by (auto simp: sort_children_def bind_eq_Some_conv)
  moreover have "p \<noteq> NULL" by (rule sort_arcs_first [OF calculation(1)]) (simp add: assms(3))
  ultimately show ?thesis
    using assms Some
    by (auto simp: print_children_def upd_class_def upd_cell_def bind_eq_Some_conv stuck_loop_None split: option.splits)
qed (use assms in \<open>simp add: print_children_def\<close>)

theorem cyc_iter_stuck:
  assumes "gclasses s ci = Some c" "cyc_head c = ci" "cyc_next c \<noteq> NULL" "ci \<noteq> NULL"
  shows "cyc_iter crc cycobj ci (jf, s) = None"
  unfolding cyc_iter_def by (simp add: assms Let_def stuck_loop_None split_beta)

section \<open>Walking the tables\<close>

lemma for_each_append: "for_each f (xs @ ys) = (\<lambda>s. do { s \<leftarrow> for_each f xs s; for_each f ys s })"
proof (induction xs)
  case (Cons x xs)
  show ?case by (rule ext) (simp add: Cons.IH)
qed (rule ext, simp)

lemma arc_iter_for_each: "arc_iter f t = for_each f (map snd (entries t))"
proof (induction t)
  case (Node c l k d r)
  show ?case by (rule ext) (simp add: Node.IH for_each_append)
qed (rule ext, simp)

lemma arc_rev_iter_for_each:
  "arc_rev_iter f t s = for_each f (case t of Leaf \<Rightarrow> [] | Node c l k d r \<Rightarrow>
     map snd (entries r) @ d # map snd (entries l)) s"
  by (cases t) (simp_all add: for_each_append arc_iter_for_each)

section \<open>Numbering one class\<close>

lemma member_loop_head:
  assumes "chain (gclasses s) cyc_next p ms" "gclasses s ho = Some c"
  shows "\<exists>s'. member_loop (\<lambda>_ s. upd_class ho (\<lambda>c. c\<lparr>top_order := dfn_counter s\<rparr>) s) p s = Some s' \<and>
    s' = s\<lparr>gclasses := (if ms = [] then gclasses s else (gclasses s)(ho \<mapsto> c\<lparr>top_order := dfn_counter s\<rparr>))\<rparr>"
  using assms
proof (induction ms arbitrary: p s c)
  case Nil
  then show ?case by (subst member_loop.simps) simp
next
  case (Cons m ms)
  let ?s = "s\<lparr>gclasses := (gclasses s)(ho \<mapsto> c\<lparr>top_order := dfn_counter s\<rparr>)\<rparr>"
  obtain cm where m: "p = m" "m \<noteq> NULL" "gclasses s m = Some cm" "chain (gclasses s) cyc_next (cyc_next cm) ms"
    using Cons.prems(1) by auto
  obtain cm' where m': "gclasses ?s m = Some cm'" "cyc_next cm' = cyc_next cm"
    using m(3) Cons.prems(2) by (cases "m = ho") auto
  have eq: "chain (gclasses ?s) cyc_next q ns = chain (gclasses s) cyc_next q ns" for q ns
    using Cons.prems(2) by (induction ns arbitrary: q) auto
  have "chain (gclasses ?s) cyc_next (cyc_next cm') ms" using m(4) m'(2) eq by simp
  from Cons.IH [OF this, of "c\<lparr>top_order := dfn_counter s\<rparr>"]
  have "member_loop (\<lambda>_ s. upd_class ho (\<lambda>c. c\<lparr>top_order := dfn_counter s\<rparr>) s) (cyc_next cm') ?s = Some ?s"
    by (auto split: if_splits)
  then show ?case
    using m m'(1) Cons.prems(2) by (subst member_loop.simps) (simp add: upd_class_def upd_cell_def)
qed

theorem mg_postvisit_correct:
  assumes "gclasses s ho = Some c" "cyc_head c = ho" "chain (gclasses s) cyc_next ho (ho # ms)"
  shows "mg_postvisit ho s = Some (s\<lparr>dfn_counter := dfn_counter s + 1, dfn_depth := dfn_depth s - 1,
    gclasses := (gclasses s)(ho \<mapsto> c\<lparr>top_order := dfn_counter s + 1\<rparr>)\<rparr>)"
proof -
  let ?s = "s\<lparr>dfn_counter := dfn_counter s + 1\<rparr>"
  show ?thesis using member_loop_head [of ?s ho "ho # ms" ho c] assms by (auto simp: mg_postvisit_def)
qed

section \<open>Depth-first numbering of a graph without cycles\<close>

text \<open>The number of a class, the arcs between classes, and graphs in which \<open>rank\<close> falls along every arc.\<close>

definition order_of :: "graph \<Rightarrow> ptr \<Rightarrow> int" where
  "order_of s p = (case gclasses s p of None \<Rightarrow> MG_DFN_NAN | Some c \<Rightarrow> top_order c)"

definition arc_between :: "graph \<Rightarrow> ptr \<Rightarrow> ptr \<Rightarrow> bool" where
  "arc_between s p q \<longleftrightarrow> (\<exists>c arc xs x a. gclasses s p = Some c \<and> children c = Some arc \<and>
     chain (garcs s) next_child arc xs \<and> x \<in> set xs \<and> garcs s x = Some a \<and> achild a = q)"

definition ranked :: "(ptr \<Rightarrow> nat) \<Rightarrow> graph \<Rightarrow> bool" where
  "ranked rank s \<longleftrightarrow> (\<forall>p c. gclasses s p = Some c \<longrightarrow>
     p \<noteq> NULL \<and> cyc_head c = p \<and> cyc_next c = NULL \<and>
     (\<exists>arc xs. children c = Some arc \<and> chain (garcs s) next_child arc xs \<and>
        (\<forall>x \<in> set xs. \<exists>a. garcs s x = Some a \<and> achild a \<in> dom (gclasses s) \<and> rank (achild a) < rank p)))"

text \<open>Everything that is numbered is numbered after what it points to.\<close>

definition numbered :: "graph \<Rightarrow> bool" where
  "numbered s \<longleftrightarrow> 0 \<le> dfn_counter s \<and> (\<forall>p. -1 \<le> order_of s p \<and> order_of s p \<le> dfn_counter s) \<and>
     (\<forall>p q. 0 < order_of s p \<longrightarrow> arc_between s p q \<longrightarrow> 0 < order_of s q \<and> order_of s q < order_of s p)"

text \<open>Only numbers are written.\<close>

definition same_shape :: "graph \<Rightarrow> graph \<Rightarrow> bool" where
  "same_shape s s' \<longleftrightarrow> garcs s' = garcs s \<and>
     (\<forall>p. map_option (top_order_update (\<lambda>_. 0)) (gclasses s' p) = map_option (top_order_update (\<lambda>_. 0)) (gclasses s p))"

definition dfs_step :: "graph \<Rightarrow> graph \<Rightarrow> bool" where
  "dfs_step s s' \<longleftrightarrow> same_shape s s' \<and> dfn_depth s' = dfn_depth s \<and>
     length (dfn_stack s) \<le> length (dfn_stack s') \<and> dfn_counter s \<le> dfn_counter s' \<and>
     (\<forall>p. if order_of s p = 0 then 0 \<le> order_of s' p else order_of s' p = order_of s p)"

text \<open>Room on the stack for \<open>n\<close> more classes.\<close>

definition stack_room :: "nat \<Rightarrow> graph \<Rightarrow> bool" where
  "stack_room n s \<longleftrightarrow> 0 \<le> dfn_depth s \<and> dfn_depth s \<le> int (length (dfn_stack s)) \<and>
     dfn_depth s + int n + 16 < uint MAX_TALLOC_SIZE div 16"

lemma same_shape_refl [simp]: "same_shape s s"
  by (simp add: same_shape_def)

lemma same_shape_trans: "same_shape a b \<Longrightarrow> same_shape b c \<Longrightarrow> same_shape a c"
  by (simp add: same_shape_def)

lemma same_shape_class:
  assumes "same_shape s s'" "gclasses s p = Some c"
  shows "\<exists>n. gclasses s' p = Some (c\<lparr>top_order := n\<rparr>)"
proof -
  have "map_option (top_order_update (\<lambda>_. 0)) (gclasses s' p) = Some (c\<lparr>top_order := 0\<rparr>)"
    using assms by (simp add: same_shape_def)
  then obtain c' where c': "gclasses s' p = Some c'" "c'\<lparr>top_order := 0\<rparr> = c\<lparr>top_order := 0\<rparr>" by auto
  have "c' = (c'\<lparr>top_order := 0\<rparr>)\<lparr>top_order := top_order c'\<rparr>" by simp
  also have "\<dots> = c\<lparr>top_order := top_order c'\<rparr>" by (simp add: c'(2))
  finally show ?thesis using c'(1) by metis
qed

lemma same_shape_sym: "same_shape s s' \<Longrightarrow> same_shape s' s"
  by (simp add: same_shape_def)

lemma same_shape_dom: "same_shape s s' \<Longrightarrow> dom (gclasses s') = dom (gclasses s)"
  using same_shape_class same_shape_sym by (blast intro: domI)

lemma same_shape_garcs: "same_shape s s' \<Longrightarrow> garcs s' = garcs s"
  by (simp add: same_shape_def)

lemma arc_between_same:
  assumes "same_shape s s'"
  shows "arc_between s' = arc_between s"
proof -
  have "arc_between b p q" if ab: "same_shape a b" "arc_between a p q" for a b p q
  proof -
    obtain c arc xs x e where "gclasses a p = Some c" "children c = Some arc" "chain (garcs a) next_child arc xs"
        "x \<in> set xs" "garcs a x = Some e" "achild e = q"
      using ab(2) unfolding arc_between_def by blast
    moreover obtain n where "gclasses b p = Some (c\<lparr>top_order := n\<rparr>)"
      using same_shape_class [OF ab(1) calculation(1)] by blast
    ultimately show ?thesis
      unfolding arc_between_def same_shape_garcs [OF ab(1)] by fastforce
  qed
  with assms same_shape_sym show ?thesis by blast
qed

lemma ranked_same:
  assumes "same_shape s s'" "ranked rank s"
  shows "ranked rank s'"
  unfolding ranked_def
proof (intro allI impI)
  fix p c' assume "gclasses s' p = Some c'"
  moreover obtain c where c: "gclasses s p = Some c" using same_shape_dom [OF assms(1)] calculation by blast
  ultimately obtain n where n: "c' = c\<lparr>top_order := n\<rparr>" using same_shape_class [OF assms(1) c] by auto
  show "p \<noteq> NULL \<and> cyc_head c' = p \<and> cyc_next c' = NULL \<and>
     (\<exists>arc xs. children c' = Some arc \<and> chain (garcs s') next_child arc xs \<and>
        (\<forall>x \<in> set xs. \<exists>a. garcs s' x = Some a \<and> achild a \<in> dom (gclasses s') \<and> rank (achild a) < rank p))"
    unfolding same_shape_dom [OF assms(1)] same_shape_garcs [OF assms(1)] n
    using assms(2) c unfolding ranked_def by simp
qed

lemma dfs_step_refl [simp]: "numbered s \<Longrightarrow> dfs_step s s"
  by (auto simp: dfs_step_def)

lemma dfs_step_trans:
  assumes "dfs_step a b" "dfs_step b c"
  shows "dfs_step a c"
proof -
  have "if order_of a p = 0 then 0 \<le> order_of c p else order_of c p = order_of a p" for p
  proof -
    have "if order_of a p = 0 then 0 \<le> order_of b p else order_of b p = order_of a p"
        "if order_of b p = 0 then 0 \<le> order_of c p else order_of c p = order_of b p"
      using assms by (auto simp: dfs_step_def)
    then show ?thesis by (auto split: if_splits)
  qed
  then show ?thesis using assms same_shape_trans by (auto simp: dfs_step_def)
qed

lemma stack_room_step: "dfs_step s s' \<Longrightarrow> stack_room n s \<Longrightarrow> stack_room n s'"
  by (auto simp: dfs_step_def stack_room_def)

lemma busy_step: "dfs_step s s' \<Longrightarrow> order_of s' p = -1 \<Longrightarrow> order_of s p = -1"
  unfolding dfs_step_def by (metis neg_0_le_iff_le not_one_le_zero)

lemma done_step: "dfs_step s s' \<Longrightarrow> 0 < order_of s p \<Longrightarrow> order_of s' p = order_of s p"
  unfolding dfs_step_def by (metis less_irrefl)

lemma chain_unique: "chain h link p xs \<Longrightarrow> chain h link p ys \<Longrightarrow> xs = ys"
proof (induction xs arbitrary: p ys)
  case (Cons x xs)
  then show ?case by (cases ys) auto
next
  case Nil
  then show ?case by (cases ys) auto
qed

lemma order_of_upd: "gclasses s p = Some c \<Longrightarrow>
    order_of (s\<lparr>gclasses := (gclasses s)(p \<mapsto> c\<lparr>top_order := n\<rparr>)\<rparr>) q = (if q = p then n else order_of s q)"
  by (simp add: order_of_def)

lemma previsit_correct:
  assumes "gclasses s ho = Some c" "top_order c = 0" "numbered s" "stack_room (Suc n) s"
  shows "\<exists>s'. mg_previsit ho s = Some s' \<and> gclasses s' = (gclasses s)(ho \<mapsto> c\<lparr>top_order := -1\<rparr>) \<and>
    garcs s' = garcs s \<and> dfn_depth s' = dfn_depth s + 1 \<and> dfn_counter s' = dfn_counter s \<and>
    length (dfn_stack s) \<le> length (dfn_stack s') \<and> stack_room n s'"
  using assms
  by (auto simp: mg_previsit_def grow_stack_def put_stack_def upd_class_def upd_cell_def stack_room_def Let_def)

lemma child_loop_correct:
  assumes go: "\<And>q t. \<lbrakk>ranked rank t; numbered t; q \<in> dom (gclasses t); rank q < r;
      \<forall>p. order_of t p = -1 \<longrightarrow> r \<le> rank p; stack_room r t\<rbrakk> \<Longrightarrow>
      \<exists>t'. go q t = Some t' \<and> dfs_step t t' \<and> numbered t' \<and> 0 < order_of t' q"
    and "ranked rank s" "numbered s" "\<forall>p. order_of s p = -1 \<longrightarrow> r \<le> rank p" "stack_room r s"
    and "chain (garcs s) next_child arc xs"
    and "\<forall>x \<in> set xs. \<exists>a. garcs s x = Some a \<and> achild a \<in> dom (gclasses s) \<and> rank (achild a) < r"
  shows "\<exists>s'. child_loop (\<lambda>arc s. do { a \<leftarrow> garcs s arc; go (achild a) s }) arc s = Some s' \<and>
    dfs_step s s' \<and> numbered s' \<and> (\<forall>x \<in> set xs. \<forall>a. garcs s x = Some a \<longrightarrow> 0 < order_of s' (achild a))"
  using assms(2-)
proof (induction xs arbitrary: arc s)
  case Nil
  then show ?case by (subst child_loop.simps) simp
next
  case (Cons x xs)
  from Cons.prems(5) obtain a where a: "arc = x" "x \<noteq> NULL" "garcs s x = Some a"
      "chain (garcs s) next_child (next_child a) xs"
    by auto
  then have q: "achild a \<in> dom (gclasses s)" "rank (achild a) < r" using Cons.prems(6) by simp_all
  obtain s1 where s1: "go (achild a) s = Some s1" "dfs_step s s1" "numbered s1" "0 < order_of s1 (achild a)"
    using go [OF Cons.prems(1,2) q Cons.prems(3,4)] by blast
  have sh: "same_shape s s1" using s1(2) by (simp add: dfs_step_def)
  have g: "garcs s1 = garcs s" by (rule same_shape_garcs [OF sh])
  have busy: "\<forall>p. order_of s1 p = -1 \<longrightarrow> r \<le> rank p" using Cons.prems(3) busy_step [OF s1(2)] by blast
  have ch: "chain (garcs s1) next_child (next_child a) xs" using a(4) g by simp
  have kids: "\<forall>x \<in> set xs. \<exists>a. garcs s1 x = Some a \<and> achild a \<in> dom (gclasses s1) \<and> rank (achild a) < r"
    using Cons.prems(6) g same_shape_dom [OF sh] by auto
  obtain s2 where s2: "child_loop (\<lambda>arc s. do { a \<leftarrow> garcs s arc; go (achild a) s }) (next_child a) s1 = Some s2"
      "dfs_step s1 s2" "numbered s2" "\<forall>x \<in> set xs. \<forall>a. garcs s1 x = Some a \<longrightarrow> 0 < order_of s2 (achild a)"
    using Cons.IH [OF ranked_same [OF sh Cons.prems(1)] s1(3) busy stack_room_step [OF s1(2) Cons.prems(4)] ch kids] by blast
  have "child_loop (\<lambda>arc s. do { a \<leftarrow> garcs s arc; go (achild a) s }) arc s = Some s2"
    using a(1,2,3) s1(1) s2(1) g by (subst child_loop.simps) simp
  moreover have "0 < order_of s2 (achild a)" using done_step [OF s2(2) s1(4)] s1(4) by simp
  ultimately show ?case using dfs_step_trans [OF s1(2) s2(2)] s2(3,4) a(3) g by auto
qed

theorem mg_dfn_correct:
  assumes "ranked rank s" "numbered s" "ho \<in> dom (gclasses s)" "rank ho < d"
    and "\<forall>p. order_of s p = -1 \<longrightarrow> rank ho < rank p" "stack_room (Suc (rank ho)) s"
  shows "\<exists>s'. mg_dfn d ho s = Some s' \<and> dfs_step s s' \<and> numbered s' \<and> 0 < order_of s' ho"
  using assms
proof (induction d arbitrary: ho s)
  case (Suc d)
  obtain c where c: "gclasses s ho = Some c" using Suc.prems(3) by auto
  have o: "order_of s ho = top_order c" using c by (simp add: order_of_def)
  have "order_of s ho \<noteq> -1" using Suc.prems(5) by auto
  moreover have "-1 \<le> order_of s ho" using Suc.prems(2) by (simp add: numbered_def)
  ultimately consider "0 < top_order c" | "top_order c = 0" using o by linarith
  then show ?case
  proof cases
    case 1
    then have "mg_dfn (Suc d) ho s = Some s" using c by simp
    with 1 o Suc.prems(2) show ?thesis by auto
  next
    case 2
    let ?r = "rank ho"
    obtain arc xs where xs: "children c = Some arc" "chain (garcs s) next_child arc xs" "ho \<noteq> NULL"
        "cyc_head c = ho" "cyc_next c = NULL"
        "\<forall>x \<in> set xs. \<exists>a. garcs s x = Some a \<and> achild a \<in> dom (gclasses s) \<and> rank (achild a) < ?r"
      using Suc.prems(1) c unfolding ranked_def by blast
    obtain s1 where s1: "mg_previsit ho s = Some s1" "gclasses s1 = (gclasses s)(ho \<mapsto> c\<lparr>top_order := -1\<rparr>)"
        "garcs s1 = garcs s" "dfn_depth s1 = dfn_depth s + 1" "dfn_counter s1 = dfn_counter s"
        "length (dfn_stack s) \<le> length (dfn_stack s1)" "stack_room ?r s1"
      using previsit_correct [OF c 2 Suc.prems(2,6)] by blast
    have o1: "order_of s1 p = (if p = ho then -1 else order_of s p)" for p
      using s1(2) by (simp add: order_of_def)
    have sh1: "same_shape s s1" using c by (auto simp: same_shape_def s1(2,3))
    have "\<not> arc_between s p ho" if "0 < order_of s p" for p
      using Suc.prems(2) o 2 that unfolding numbered_def by (metis less_irrefl)
    then have n1: "numbered s1"
      using Suc.prems(2) o 2 unfolding numbered_def arc_between_same [OF sh1] o1 s1(5) by auto
    have busy: "\<forall>p. order_of s1 p = -1 \<longrightarrow> ?r \<le> rank p" using Suc.prems(5) by (auto simp: o1)
    have go: "\<exists>t'. mg_dfn d q t = Some t' \<and> dfs_step t t' \<and> numbered t' \<and> 0 < order_of t' q"
      if "ranked rank t" "numbered t" "q \<in> dom (gclasses t)" "rank q < ?r"
        "\<forall>p. order_of t p = -1 \<longrightarrow> ?r \<le> rank p" "stack_room ?r t" for q t
    proof (rule Suc.IH [OF that(1-3)])
      show "rank q < d" using that(4) Suc.prems(4) by simp
      show "\<forall>p. order_of t p = -1 \<longrightarrow> rank q < rank p" using that(4,5) by auto
      show "stack_room (Suc (rank q)) t" using that(4,6) by (simp add: stack_room_def)
    qed
    have kids: "\<forall>x \<in> set xs. \<exists>a. garcs s1 x = Some a \<and> achild a \<in> dom (gclasses s1) \<and> rank (achild a) < ?r"
      using xs(6) by (auto simp: s1(3) same_shape_dom [OF sh1])
    have ch: "chain (garcs s1) next_child arc xs" using xs(2) s1(3) by simp
    obtain s2 where s2: "child_loop (\<lambda>arc s. do { a \<leftarrow> garcs s arc; mg_dfn d (achild a) s }) arc s1 = Some s2"
        "dfs_step s1 s2" "numbered s2" "\<forall>x \<in> set xs. \<forall>a. garcs s1 x = Some a \<longrightarrow> 0 < order_of s2 (achild a)"
      using child_loop_correct [OF go ranked_same [OF sh1 Suc.prems(1)] n1 busy s1(7) ch kids] by blast
    have sh2: "same_shape s1 s2" using s2(2) by (simp add: dfs_step_def)
    then obtain k where "gclasses s2 ho = Some (c\<lparr>top_order := -1, top_order := k\<rparr>)"
      using same_shape_class [OF sh2, of ho] s1(2) by fastforce
    then have c2: "gclasses s2 ho = Some (c\<lparr>top_order := k\<rparr>)" by simp
    let ?n = "dfn_counter s2 + 1"
    let ?s = "s2\<lparr>dfn_counter := ?n, dfn_depth := dfn_depth s2 - 1,
      gclasses := (gclasses s2)(ho \<mapsto> c\<lparr>top_order := ?n\<rparr>)\<rparr>"
    have post: "mg_postvisit ho s2 = Some ?s"
      using mg_postvisit_correct [OF c2, of "[]"] xs(3,4,5) c2 by simp
    have "mg_dfn (Suc d) ho s = Some ?s"
      using c 2 s1(1,2) s2(1) xs(1) post by simp
    moreover have os: "order_of ?s p = (if p = ho then ?n else order_of s2 p)" for p
      by (simp add: order_of_def)
    moreover have sh: "same_shape s ?s"
    proof -
      have "same_shape s2 ?s" using c2 by (auto simp: same_shape_def)
      with sh1 sh2 show ?thesis using same_shape_trans by blast
    qed
    moreover have cnt: "0 \<le> dfn_counter s" "dfn_counter s \<le> dfn_counter s2"
      using Suc.prems(2) s2(2) s1(5) by (auto simp: numbered_def dfs_step_def)
    moreover have "numbered ?s"
      unfolding numbered_def
    proof (intro conjI allI impI)
      show "-1 \<le> order_of ?s p" "order_of ?s p \<le> dfn_counter ?s" for p
        using s2(3) cnt by (simp_all add: os numbered_def add_increasing2)
      show "0 \<le> dfn_counter ?s" using cnt by simp
      fix p q assume p: "0 < order_of ?s p" "arc_between ?s p q"
      then have pq: "arc_between s2 p q" "arc_between s p q"
        using arc_between_same [OF sh] arc_between_same [OF same_shape_trans [OF sh1 sh2]] by auto
      have "0 < order_of s2 q \<and> (p = ho \<or> order_of s2 q < order_of s2 p)"
      proof (cases "p = ho")
        case True
        obtain c' arc' ys y a where y: "gclasses s ho = Some c'" "children c' = Some arc'"
            "chain (garcs s) next_child arc' ys" "y \<in> set ys" "garcs s y = Some a" "achild a = q"
          using pq(2) True unfolding arc_between_def by blast
        then have "chain (garcs s) next_child arc ys" using c xs(1) by simp
        then have "ys = xs" using xs(2) chain_unique by blast
        with y s2(4) s1(3) True show ?thesis by auto
      next
        case False
        with p(1) pq(1) s2(3) show ?thesis by (auto simp: os numbered_def)
      qed
      moreover have "order_of s2 q \<le> dfn_counter s2" using s2(3) by (simp add: numbered_def)
      moreover have "q \<noteq> ho"
      proof -
        have "order_of s2 ho = -1" using s2(2) o1 [of ho] unfolding dfs_step_def by (metis zero_neq_neg_one)
        with calculation(1) show ?thesis by auto
      qed
      ultimately show "0 < order_of ?s q" "order_of ?s q < order_of ?s p" by (auto simp: os)
    qed
    moreover have "dfs_step s ?s"
      unfolding dfs_step_def
    proof (intro conjI allI)
      show "dfn_depth ?s = dfn_depth s" using s2(2) s1(4) by (simp add: dfs_step_def)
      show "length (dfn_stack s) \<le> length (dfn_stack ?s)" using s2(2) s1(6) by (simp add: dfs_step_def)
      show "dfn_counter s \<le> dfn_counter ?s" using cnt by simp
      fix p
      have "if order_of s1 p = 0 then 0 \<le> order_of s2 p else order_of s2 p = order_of s1 p"
        using s2(2) by (simp add: dfs_step_def)
      with o 2 cnt show "if order_of s p = 0 then 0 \<le> order_of ?s p else order_of ?s p = order_of s p"
        by (auto simp: os o1 split: if_splits)
    qed (rule sh)
    ultimately show ?thesis by auto
  qed
qed simp

section \<open>Sizes along the arcs\<close>

text \<open>What a class takes over along the arc \<open>x\<close>, and when \<open>x\<close> is an arc to an earlier class that is in no cycle.\<close>

definition inherited :: "graph \<Rightarrow> ptr \<Rightarrow> u64" where
  "inherited s x = (case garcs s x of
      None \<Rightarrow> 0
    | Some a \<Rightarrow> if acount a = 0 then 0
        else (case gclasses s (achild a) of None \<Rightarrow> 0 | Some c \<Rightarrow> the (cisize c) + child_size c))"

definition down_arc :: "graph \<Rightarrow> ptr \<Rightarrow> gcinfo \<Rightarrow> ptr \<Rightarrow> bool" where
  "down_arc s ho h x \<longleftrightarrow> (\<exists>a c sz. garcs s x = Some a \<and> achild a \<noteq> ho \<and> gclasses s (achild a) = Some c \<and>
     cyc_head c = achild a \<and> cisize c = Some sz \<and> top_order c < top_order h)"

lemma prop_child_correct:
  assumes "gclasses s ho = Some h" "cyc_head h = ho" "down_arc s ho h x"
  shows "\<exists>s'. prop_child ho x s = Some s' \<and>
    gclasses s' = (gclasses s)(ho \<mapsto> h\<lparr>child_size := child_size h + inherited s x\<rparr>) \<and>
    (\<exists>a b. garcs s x = Some a \<and> garcs s' = (garcs s)(x \<mapsto> b) \<and> next_child b = next_child a \<and>
       achild b = achild a \<and> acount b = acount a)"
proof -
  obtain a c sz where a: "garcs s x = Some a" "achild a \<noteq> ho" "gclasses s (achild a) = Some c"
      "cyc_head c = achild a" "cisize c = Some sz" "top_order c < top_order h"
    using assms(3) unfolding down_arc_def by blast
  show ?thesis
  proof (cases "acount a = 0")
    case True
    then have "prop_child ho x s = Some s" "inherited s x = 0" using a(1) by (simp_all add: prop_child_def inherited_def)
    then show ?thesis using assms(1) a(1) by (auto simp: fun_upd_idem intro!: exI [of _ a])
  next
    case False
    then have "inherited s x = sz + child_size c" using a by (simp add: inherited_def)
    with False a assms(1,2) show ?thesis
      by (auto simp: prop_child_def prop_arc_def upd_garc_def upd_class_def upd_cell_def Let_def
        intro!: exI [of _ "a\<lparr>asize := Some (sint sz), achild_size := sint (child_size c)\<rparr>"])
  qed
qed

lemma prop_loop_correct:
  assumes "gclasses s ho = Some h" "cyc_head h = ho" "chain (garcs s) next_child arc xs" "distinct xs"
    and "\<forall>x \<in> set xs. down_arc s ho h x"
  shows "\<exists>s'. child_loop (prop_child ho) arc s = Some s' \<and>
    gclasses s' = (gclasses s)(ho \<mapsto> h\<lparr>child_size := child_size h + sum_list (map (inherited s) xs)\<rparr>)"
  using assms
proof (induction xs arbitrary: arc s h)
  case Nil
  then show ?case by (subst child_loop.simps) (auto simp: fun_upd_idem)
next
  case (Cons x xs)
  obtain s1 a b where s1: "prop_child ho x s = Some s1"
      "gclasses s1 = (gclasses s)(ho \<mapsto> h\<lparr>child_size := child_size h + inherited s x\<rparr>)"
      "garcs s x = Some a" "garcs s1 = (garcs s)(x \<mapsto> b)" "next_child b = next_child a"
    using prop_child_correct [OF Cons.prems(1,2)] Cons.prems(5) by (meson list.set_intros(1))
  let ?h = "h\<lparr>child_size := child_size h + inherited s x\<rparr>"
  have x: "arc = x" "x \<noteq> NULL" "chain (garcs s) next_child (next_child a) xs" using Cons.prems(3) s1(3) by auto
  have ch: "chain (garcs s1) next_child (next_child b) xs"
    using x(3) Cons.prems(4) s1(4,5) chain_frame [of xs "garcs s1" "garcs s"] by auto
  have keep: "inherited s1 y = inherited s y \<and> down_arc s1 ho ?h y" if "y \<in> set xs" for y
  proof -
    have y: "garcs s1 y = garcs s y" using that Cons.prems(4) s1(4) by auto
    obtain a' c sz where "garcs s y = Some a'" "achild a' \<noteq> ho" "gclasses s (achild a') = Some c"
        "cyc_head c = achild a'" "cisize c = Some sz" "top_order c < top_order h"
      using Cons.prems(5) \<open>y \<in> set xs\<close> unfolding down_arc_def by auto
    then show ?thesis by (simp add: inherited_def down_arc_def y s1(2))
  qed
  have h1: "gclasses s1 ho = Some ?h" "cyc_head ?h = ho" using s1(2) Cons.prems(2) by simp_all
  obtain s2 where s2: "child_loop (prop_child ho) (next_child b) s1 = Some s2"
      "gclasses s2 = (gclasses s1)(ho \<mapsto> ?h\<lparr>child_size := child_size ?h + sum_list (map (inherited s1) xs)\<rparr>)"
    using Cons.IH [OF h1 ch] Cons.prems(4) keep by (metis distinct.simps(2))
  have "map (inherited s1) xs = map (inherited s) xs" using keep by simp
  then have "gclasses s2 = (gclasses s)(ho \<mapsto> h\<lparr>child_size := child_size h + sum_list (map (inherited s) (x # xs))\<rparr>)"
    using s2(2) by (simp add: s1(2) add.assoc del: map_eq_conv)
  moreover have "child_loop (prop_child ho) arc s = Some s2"
    unfolding x(1) using x(2) s1(1,4) s2(1) by (subst child_loop.simps) simp
  ultimately show ?case by blast
qed

text \<open>In a numbered graph without cycles every arc of a numbered class is such an arc.\<close>

theorem prop_size_correct:
  assumes "ranked rank s" "numbered s" "gclasses s ho = Some h" "0 < top_order h"
    and "children h = Some arc" "chain (garcs s) next_child arc xs" "distinct xs"
    and "\<forall>p c. gclasses s p = Some c \<longrightarrow> cisize c \<noteq> None" "cisize h \<noteq> Some 0"
  shows "\<exists>s'. prop_size ho s = Some s' \<and>
    gclasses s' = (gclasses s)(ho \<mapsto> h\<lparr>child_size := child_size h + sum_list (map (inherited s) xs)\<rparr>)"
proof -
  have R: "cyc_head h = ho" using assms(1,3) unfolding ranked_def by blast
  obtain arc' xs' where K: "children h = Some arc'" "chain (garcs s) next_child arc' xs'"
      "\<forall>x \<in> set xs'. \<exists>a. garcs s x = Some a \<and> achild a \<in> dom (gclasses s) \<and> rank (achild a) < rank ho"
    using assms(1,3) unfolding ranked_def by blast
  then have xs': "xs' = xs" using assms(5,6) chain_unique by (metis option.inject)
  have "down_arc s ho h x" if x: "x \<in> set xs" for x
  proof -
    obtain a c where a: "garcs s x = Some a" "gclasses s (achild a) = Some c" "rank (achild a) < rank ho"
      using K(3) x xs' by fastforce
    have "arc_between s ho (achild a)" unfolding arc_between_def using assms(3,5,6) x a(1) by blast
    moreover have "0 < order_of s ho" using assms(3,4) by (simp add: order_of_def)
    ultimately have "order_of s (achild a) < order_of s ho" using assms(2) unfolding numbered_def by blast
    then have "top_order c < top_order h" using a(2) assms(3) by (simp add: order_of_def)
    moreover have "cyc_head c = achild a" using assms(1) a(2) unfolding ranked_def by blast
    moreover obtain sz where "cisize c = Some sz" using assms(8) a(2) by blast
    ultimately show ?thesis unfolding down_arc_def using a by blast
  qed
  then obtain s' where s': "child_loop (prop_child ho) arc s = Some s'"
      "gclasses s' = (gclasses s)(ho \<mapsto> h\<lparr>child_size := child_size h + sum_list (map (inherited s) xs)\<rparr>)"
    using prop_loop_correct [OF assms(3) R assms(6,7)] by blast
  obtain sz where "cisize h = Some sz" "sz \<noteq> 0" using assms(3,8,9) by fastforce
  with s' assms(3,5) show ?thesis by (simp add: prop_size_def)
qed

end
