(* ===== verification/Main_Program.thy ===== *)
theory Main_Program
  imports Heap_Dump Jdump_Inv
begin

text \<open>
  \<open>main\<close> of \<^verbatim>\<open>phat.c\<close>. The C library's \<open>getopt\<close> is the list of what it returns, option by option,
  with \<open>optarg\<close>; \<open>files\<close> maps the names of the files that can be opened to their contents.
\<close>

section \<open>Options\<close>

text \<open>
  \<open>atoi\<close>: white space, a sign, digits. A value that does not fit an \<open>int\<close> has no result.
\<close>

definition is_space :: "byte \<Rightarrow> bool" where
  "is_space b \<longleftrightarrow> b = 32 \<or> (9 \<le> b \<and> b \<le> 13)"

definition is_digit :: "byte \<Rightarrow> bool" where
  "is_digit b \<longleftrightarrow> 48 \<le> b \<and> b \<le> 57"

definition digits_value :: "byte list \<Rightarrow> int" where
  "digits_value bs = foldl (\<lambda>n b. 10 * n + (uint b - 48)) 0 (takeWhile is_digit bs)"

definition atoi :: "byte list \<Rightarrow> int option" where
  "atoi bs = (let bs = dropWhile is_space bs;
       n = (case bs of
           [] \<Rightarrow> 0
         | b # ds \<Rightarrow> if b = of_char (CHR ''-'') then - digits_value ds
             else if b = of_char (CHR ''+'') then digits_value ds
             else digits_value bs)
     in if - (2 ^ 31) \<le> n \<and> n < 2 ^ 31 then Some n else None)"

record options =
  o_limit :: int
  o_baseline :: "byte list option"
  o_findclass :: "byte list option"
  o_debug :: int
  o_out :: "event list"

definition no_options :: options where
  "no_options = \<lparr>o_limit = 0, o_baseline = None, o_findclass = None, o_debug = 0, o_out = []\<rparr>"

text \<open>One round of the \<open>switch\<close>; \<open>strdup(optarg)\<close> and \<open>atoi(optarg)\<close> need an argument.\<close>

definition read_option :: "byte \<times> byte list option \<Rightarrow> options \<Rightarrow> options option" where
  "read_option oa o' = (case oa of (opt, arg) \<Rightarrow>
     if opt = of_char (CHR ''a'') then Some (o'\<lparr>o_findclass := Some [of_char (CHR ''*'')]\<rparr>)
     else if opt = of_char (CHR ''b'') then do { a \<leftarrow> arg; Some (o'\<lparr>o_baseline := Some a\<rparr>) }
     else if opt = of_char (CHR ''d'') then Some (o'\<lparr>o_debug := o_debug o' + 1\<rparr>)
     else if opt = of_char (CHR ''C'') then do { a \<leftarrow> arg; Some (o'\<lparr>o_findclass := Some a\<rparr>) }
     else if opt = of_char (CHR ''l'') then do { a \<leftarrow> arg; n \<leftarrow> atoi a; Some (o'\<lparr>o_limit := n\<rparr>) }
     else Some (o'\<lparr>o_out := o_out o' @ [P_opt opt]\<rparr>))"

section \<open>The program\<close>

text \<open>The second dump starts with the global variables the first one left behind.\<close>

definition with_globals :: "jdump \<Rightarrow> jdump \<Rightarrow> jdump" where
  "with_globals df jf = jf\<lparr>fakeClass := fakeClass df, arcs := arcs df, arcs_max := arcs_max df\<rparr>"

definition readDump_again :: "crc32 \<Rightarrow> nat \<Rightarrow> jdump \<Rightarrow> byte list option \<Rightarrow> int \<Rightarrow> byte list option \<Rightarrow> dump_state option" where
  "readDump_again crc d df fc pl dumpfile = do {
     st \<leftarrow> readHeader fc pl dumpfile;
     case st of
       Going jf \<Rightarrow> Option.bind (dump_loop crc d (with_globals df jf)) id
     | _ \<Rightarrow> Some st }"

text \<open>
  \<open>argv\<close> is the list of arguments that are no options; without one, \<open>fopen\<close> is given NULL. The
  result is the exit status. The options \<open>-d\<close> only make the program print more.
\<close>

definition main :: "crc32 \<Rightarrow> nat \<Rightarrow> (byte list \<Rightarrow> byte list option) \<Rightarrow> (byte \<times> byte list option) list \<Rightarrow> byte list list \<Rightarrow>
    nat option" where
  "main crc d files opts argv = do {
     o' \<leftarrow> for_each read_option opts no_options;
     file \<leftarrow> (case argv of [] \<Rightarrow> None | a # _ \<Rightarrow> Some a);
     df \<leftarrow> readDump crc d (o_findclass o') (o_limit o') (files file);
     case df of
       Exited n \<Rightarrow> Some n
     | Going jf \<Rightarrow> None
     | Ended jf \<Rightarrow>
         (case o_baseline o' of
            None \<Rightarrow> Some 0
          | Some b \<Rightarrow> do {
              bf \<leftarrow> readDump_again crc d jf None (o_limit o') (files b);
              case bf of Exited n \<Rightarrow> Some n | Going jf \<Rightarrow> None | Ended jf \<Rightarrow> Some 0 }) }"

section \<open>Exit statuses\<close>

lemma readHeader_Exited: "readHeader fc pl file = Some (Exited n) \<Longrightarrow> n \<in> {1, 2, 3, 4}"
  by (auto simp: readHeader_def elim!: bind_SomeE split: option.splits prod.splits if_splits)

lemma readHeader_not_Ended: "readHeader fc pl file \<noteq> Some (Ended jf)"
  by (auto simp: readHeader_def elim!: bind_SomeE split: option.splits prod.splits if_splits)

lemma dump_step_Exited: "dump_step crc d jf = Some (Exited n) \<Longrightarrow> n = 2"
  by (auto simp: dump_step_def split: prod.splits option.splits if_splits)

lemma dump_loop_result:
  assumes "dump_loop crc d jf = Some (Some st)"
  shows "(\<exists>j. st = Ended j) \<or> st = Exited 2"
proof -
  let ?P = "\<lambda>s :: dump_state option. \<forall>n. s = Some (Exited n) \<longrightarrow> n = 2"
  have "?P (Some st)"
  proof (rule while_option_rule [OF _ assms [unfolded dump_loop_def]])
    fix s assume "?P s" "dump_more s"
    then show "?P (Option.bind s (dump_next crc d))"
      by (auto simp: dump_more_def dest: dump_step_Exited split: option.splits dump_state.splits)
  qed simp
  moreover have "\<not> dump_more (Some st)" by (rule while_option_stop [OF assms [unfolded dump_loop_def]])
  ultimately show ?thesis by (cases st) (auto simp: dump_more_def)
qed

lemma readDump_result:
  "readDump crc d fc pl file = Some st \<Longrightarrow> (\<exists>j. st = Ended j) \<or> (\<exists>n \<in> {1, 2, 3, 4}. st = Exited n)"
  using readHeader_Exited [of fc pl "file"] readHeader_not_Ended [of fc pl "file"] dump_loop_result [of crc d _ st]
  by (fastforce simp: readDump_def elim!: bind_SomeE split: dump_state.splits)

lemma readDump_again_result:
  "readDump_again crc d df fc pl file = Some st \<Longrightarrow> (\<exists>j. st = Ended j) \<or> (\<exists>n \<in> {1, 2, 3, 4}. st = Exited n)"
  using readHeader_Exited [of fc pl "file"] readHeader_not_Ended [of fc pl "file"] dump_loop_result [of crc d _ st]
  by (fastforce simp: readDump_again_def elim!: bind_SomeE split: dump_state.splits)

theorem main_correct:
  assumes o': "for_each read_option opts no_options = Some o'" and m: "main crc d files opts (file # args) = Some n"
  shows "n \<le> 4 \<and> (n = 0 \<longleftrightarrow> (\<exists>df. readDump crc d (o_findclass o') (o_limit o') (files file) = Some (Ended df) \<and>
    (\<forall>b. o_baseline o' = Some b \<longrightarrow> (\<exists>bf. readDump_again crc d df None (o_limit o') (files b) = Some (Ended bf)))))"
proof -
  obtain st where st: "readDump crc d (o_findclass o') (o_limit o') (files file) = Some st"
    using o' m by (auto simp: main_def elim!: bind_SomeE)
  from readDump_result [OF st] show ?thesis
  proof (elim disjE bexE exE)
    fix k assume k: "k \<in> {1, 2, 3, 4 :: nat}" "st = Exited k"
    with o' m st have "n = k" by (simp add: main_def)
    with k st show ?thesis by auto
  next
    fix df assume df: "st = Ended df"
    show ?thesis
    proof (cases "o_baseline o'")
      case None
      with o' m st df show ?thesis by (simp add: main_def)
    next
      case (Some b)
      with o' m st df obtain bt where bt: "readDump_again crc d df None (o_limit o') (files b) = Some bt"
          "n = (case bt of Exited n \<Rightarrow> n | _ \<Rightarrow> 0)"
        by (auto simp: main_def elim!: bind_SomeE split: dump_state.splits)
      with readDump_again_result [OF bt(1)] Some st df show ?thesis by auto
    qed
  qed
qed

end
