(* ===== verification/Talloc_Realloc.thy ===== *)
theory Talloc_Realloc
  imports Talloc_Free
begin

text \<open>
  \<open>_talloc_realloc\<close> of \<^verbatim>\<open>talloc.c\<close> and the two functions built on it (\<open>ALWAYS_REALLOC\<close> is 0). A block
  that moves takes its place in the forest with it: the lemmas show that the links of the
  neighbours are exactly the ones the code sets.
\<close>

section \<open>Changing the size of a block\<close>

text \<open>
  \<open>tc_realloc\<close>: it fails when \<open>malloc\<close> would; otherwise \<open>stay\<close> says whether the block keeps its
  address, which is the C library's choice.
\<close>

definition tc_realloc :: "bool \<Rightarrow> ptr \<Rightarrow> 'a talloc_heap_scheme \<Rightarrow> ptr \<times> 'a talloc_heap_scheme" where
  "tc_realloc stay tc s =
     (if \<not> malloc_ok s (brk s) then (NULL, s\<lparr>brk := Suc (brk s)\<rparr>)
      else if stay then (tc, s\<lparr>brk := Suc (brk s)\<rparr>)
      else (brk s, s\<lparr>brk := Suc (brk s), chunks := (chunks s)(tc := None, brk s := chunks s tc),
              handles := (handles s)(tc := None, brk s := handles s tc)\<rparr>))"

text \<open>The neighbours of a block that may have moved are linked to its new address.\<close>

definition relink_chunk :: "ptr \<Rightarrow> 'a talloc_heap_scheme \<Rightarrow> 'a talloc_heap_scheme option" where
  "relink_chunk tc s = do {
     c \<leftarrow> chunks s tc;
     s \<leftarrow> (if tc_parent c \<noteq> NULL then upd_chunk (tc_parent c) (\<lambda>x. x\<lparr>tc_child := tc\<rparr>) s else Some s);
     s \<leftarrow> (if tc_child c \<noteq> NULL then upd_chunk (tc_child c) (\<lambda>x. x\<lparr>tc_parent := tc\<rparr>) s else Some s);
     s \<leftarrow> (if tc_prev c \<noteq> NULL then upd_chunk (tc_prev c) (\<lambda>x. x\<lparr>tc_next := tc\<rparr>) s else Some s);
     if tc_next c \<noteq> NULL then upd_chunk (tc_next c) (\<lambda>x. x\<lparr>tc_prev := tc\<rparr>) s else Some s }"

definition talloc_realloc ::
  "'a talloc_heap_scheme client_dtor \<Rightarrow> nat \<Rightarrow> bool \<Rightarrow> ptr \<Rightarrow> ptr \<Rightarrow> u64 \<Rightarrow> chunk_name \<Rightarrow>
   'a talloc_heap_scheme \<Rightarrow> (ptr \<times> 'a talloc_heap_scheme) option" where
  "talloc_realloc D n stay context p sz name s =
     (if sz = 0 then do {
        (_, s) \<leftarrow> talloc_free D n p s;
        Some (NULL, s) }
      else if MAX_TALLOC_SIZE \<le> sz then Some (NULL, s)
      else if p = NULL then talloc_named_const context sz name s
      else do {
        tc \<leftarrow> talloc_chunk_from_ptr p s;
        if tc_refs tc \<noteq> NULL then Some (NULL, s)
        else do {
          s \<leftarrow> upd_chunk p (\<lambda>c. c\<lparr>tc_flags := tc_flags c OR TALLOC_FLAG_FREE\<rparr>) s;
          let (new_ptr, s) = tc_realloc stay p s;
          if new_ptr = NULL then do {
            s \<leftarrow> upd_chunk p (\<lambda>c. c\<lparr>tc_flags := tc_flags c AND NOT TALLOC_FLAG_FREE\<rparr>) s;
            Some (NULL, s) }
          else do {
            s \<leftarrow> upd_chunk new_ptr (\<lambda>c. c\<lparr>tc_flags := tc_flags c AND NOT TALLOC_FLAG_FREE\<rparr>) s;
            s \<leftarrow> relink_chunk new_ptr s;
            s \<leftarrow> upd_chunk new_ptr (\<lambda>c. c\<lparr>tc_size := sz\<rparr>) s;
            s \<leftarrow> talloc_set_name_const new_ptr name s;
            Some (new_ptr, s) } } })"

definition talloc_realloc_array ::
  "'a talloc_heap_scheme client_dtor \<Rightarrow> nat \<Rightarrow> bool \<Rightarrow> ptr \<Rightarrow> ptr \<Rightarrow> u64 \<Rightarrow> u32 \<Rightarrow> chunk_name \<Rightarrow>
   'a talloc_heap_scheme \<Rightarrow> (ptr \<times> 'a talloc_heap_scheme) option" where
  "talloc_realloc_array D n stay ctx p el_size count name s =
     (if el_size = 0 then None
      else if array_too_big el_size count then Some (NULL, s)
      else talloc_realloc D n stay ctx p (el_size * ucast count) name s)"

definition talloc_realloc_fn ::
  "'a talloc_heap_scheme client_dtor \<Rightarrow> nat \<Rightarrow> bool \<Rightarrow> ptr \<Rightarrow> ptr \<Rightarrow> u64 \<Rightarrow>
   'a talloc_heap_scheme \<Rightarrow> (ptr \<times> 'a talloc_heap_scheme) option" where
  "talloc_realloc_fn D n stay context p sz s = talloc_realloc D n stay context p sz NoName s"

section \<open>Moving the heap to other addresses\<close>

text \<open>
  \<open>at_address x y\<close> is the renaming of \<open>x\<close> to \<open>y\<close>; \<open>moved_links\<close> applies it to the links of a header,
  \<open>moved_heap\<close> to the headers and \<open>moved_forest\<close> to the forest.
\<close>

definition at_address :: "ptr \<Rightarrow> ptr \<Rightarrow> ptr \<Rightarrow> ptr" where
  "at_address x y p = (if p = x then y else p)"

definition moved_links :: "ptr \<Rightarrow> ptr \<Rightarrow> talloc_chunk \<Rightarrow> talloc_chunk" where
  "moved_links x y c = c\<lparr>tc_next := at_address x y (tc_next c), tc_prev := at_address x y (tc_prev c),
     tc_parent := at_address x y (tc_parent c), tc_child := at_address x y (tc_child c)\<rparr>"

definition moved_heap :: "ptr \<Rightarrow> ptr \<Rightarrow> (ptr \<rightharpoonup> talloc_chunk) \<Rightarrow> (ptr \<rightharpoonup> talloc_chunk)" where
  "moved_heap x y h = (\<lambda>p. map_option (moved_links x y) (if p = y then h x else if p = x then None else h p))"

definition moved_forest :: "ptr \<Rightarrow> ptr \<Rightarrow> (ptr \<Rightarrow> ptr list) \<Rightarrow> (ptr \<Rightarrow> ptr list)" where
  "moved_forest x y K = (\<lambda>p. map (at_address x y) (if p = y then K x else if p = x then [] else K p))"

lemma moved_heap_self [simp]: "moved_heap x x h = h"
proof -
  have "map_option (moved_links x x) v = v" for v by (cases v) (simp_all add: moved_links_def at_address_def)
  then show ?thesis by (simp add: moved_heap_def fun_eq_iff)
qed

lemma moved_heap_Some:
  assumes "moved_heap x y h p = Some e" "h y = None" "x \<noteq> y"
  obtains q c where "p = at_address x y q" "h q = Some c" "e = moved_links x y c" "q \<noteq> y"
proof (cases "p = y")
  case True
  with assms show ?thesis by (auto simp: moved_heap_def at_address_def intro: that [of x])
next
  case False
  with assms show ?thesis by (auto simp: moved_heap_def at_address_def split: if_splits intro: that [of p])
qed

lemma head_ptr_moved: "x \<noteq> NULL \<Longrightarrow> head_ptr (map (at_address x y) xs) = at_address x y (head_ptr xs)"
  by (cases xs) (simp_all add: at_address_def)

lemma dllseg_moved:
  assumes "dllseg h par prv xs nxt" "y \<notin> set xs" "x \<noteq> NULL"
  shows "dllseg (moved_heap x y h) (at_address x y par) (at_address x y prv) (map (at_address x y) xs) (at_address x y nxt)"
  using assms
proof (induction xs arbitrary: par prv)
  case (Cons z zs)
  have N: "at_address x y NULL = NULL" using Cons.prems(3) by (simp add: at_address_def)
  have "moved_heap x y h (at_address x y z) = map_option (moved_links x y) (h z)"
    using Cons.prems(2) by (auto simp: moved_heap_def at_address_def)
  moreover have "dllseg (moved_heap x y h) NULL (at_address x y z) (map (at_address x y) zs) (at_address x y nxt)"
    using Cons.IH [of NULL z] Cons.prems N by (auto split: option.splits)
  ultimately show ?case
    using Cons.prems head_ptr_moved [of x y zs] by (auto simp: moved_links_def split: option.splits)
qed simp

lemma forest_moved:
  assumes F: "forest s K" and x: "x \<in> dom (chunks s)" "null_context s \<noteq> x" and b: "brk s \<le> y" "y < b"
  shows "forest (s\<lparr>chunks := moved_heap x y (chunks s), brk := b\<rparr>) (moved_forest x y K)"
proof -
  have xN: "x \<noteq> NULL" using x forest_NULL [OF F] by (auto intro!: gr0I)
  have lt: "p < brk s" if "p \<in> dom (chunks s)" for p using F that by (simp add: forest_but_def)
  have yD: "y \<notin> dom (chunks s)" using lt b(1) by (meson leD)
  have y: "y \<noteq> x" "y \<notin> set (K p)" "K y = []" for p
    using yD x(1) forest_kids_dom [OF F, of y p] forest_outside [OF F, of y] by auto
  have yN: "y \<noteq> NULL" using b(1) forest_brk [OF F] by simp
  have inj: "at_address x y p = at_address x y q \<longleftrightarrow> p = q" if "p \<noteq> y" "q \<noteq> y" for p q
    using that by (auto simp: at_address_def)
  have kid: "z \<in> set (moved_forest x y K p) \<longleftrightarrow> (\<exists>p' z'. p = at_address x y p' \<and> p' \<noteq> y \<and> z = at_address x y z' \<and> z' \<in> set (K p'))" for z p
    using y by (auto simp: moved_forest_def at_address_def)
  have dom: "dom (moved_heap x y (chunks s)) = at_address x y ` dom (chunks s)"
    using y yD x(1) by (auto simp: moved_heap_def at_address_def split: if_splits)
  show ?thesis
    unfolding forest_but_def
  proof (intro conjI allI ballI impI)
    show "0 < brk (s\<lparr>chunks := moved_heap x y (chunks s), brk := b\<rparr>)" using b by simp
  next
    fix p assume "p \<in> dom (chunks (s\<lparr>chunks := moved_heap x y (chunks s), brk := b\<rparr>))"
    then obtain q where q: "p = at_address x y q" "q \<in> dom (chunks s)" by (auto simp: dom)
    then show "p \<noteq> NULL" "p < brk (s\<lparr>chunks := moved_heap x y (chunks s), brk := b\<rparr>)"
      using yN forest_NULL [OF F] q(2) lt [OF q(2)] b by (auto simp: at_address_def intro!: gr0I)
  next
    show "null_context (s\<lparr>chunks := moved_heap x y (chunks s), brk := b\<rparr>) \<in>
        insert NULL (dom (chunks (s\<lparr>chunks := moved_heap x y (chunks s), brk := b\<rparr>)))"
      using F x(2) by (auto simp: forest_but_def dom at_address_def image_iff)
  next
    fix p e assume "chunks (s\<lparr>chunks := moved_heap x y (chunks s), brk := b\<rparr>) p = Some e"
    then obtain q c where q: "p = at_address x y q" "chunks s q = Some c" "e = moved_links x y c" "q \<noteq> y"
      using yD y(1) by (auto elim!: moved_heap_Some simp: domIff)
    have c: "magic_ok (tc_flags c)" "tc_child c = head_ptr (K q)" "dllseg (chunks s) q NULL (K q) NULL"
      using F q(2) by (simp_all add: forest_but_def)
    have K: "moved_forest x y K p = map (at_address x y) (K q)" using q(1,4) y(1) by (auto simp: moved_forest_def at_address_def)
    have N: "at_address x y NULL = NULL" using xN by (simp add: at_address_def)
    show "magic_ok (tc_flags e)" using c by (simp add: q moved_links_def)
    show "tc_child e = head_ptr (moved_forest x y K p)" using c(2) by (simp add: K q(3) moved_links_def head_ptr_moved [OF xN])
    show "dllseg (chunks (s\<lparr>chunks := moved_heap x y (chunks s), brk := b\<rparr>)) p NULL (moved_forest x y K p) NULL"
      using dllseg_moved [OF c(3) y(2) xN] by (simp add: K [unfolded q(1)] q(1) N)
  next
    fix p assume "p \<notin> dom (chunks (s\<lparr>chunks := moved_heap x y (chunks s), brk := b\<rparr>))"
    then have "p \<notin> at_address x y ` dom (chunks s)" by (simp add: dom)
    then have "p = x \<or> (p \<notin> dom (chunks s) \<and> p \<noteq> y)" using x(1) by (auto simp: at_address_def image_iff)
    then show "moved_forest x y K p = []" using y F by (auto simp: moved_forest_def forest_but_def)
  next
    fix p
    have "distinct (K q)" "q \<notin> set (K q)" for q using F by (simp_all add: forest_but_def)
    then show "distinct (moved_forest x y K p)" "p \<notin> set (moved_forest x y K p)"
      using y by (auto simp: moved_forest_def distinct_map inj_on_def at_address_def)
  next
    fix p q z assume "z \<in> set (moved_forest x y K p)" "z \<in> set (moved_forest x y K q)"
    then obtain p' z' q' z'' where "p = at_address x y p'" "z = at_address x y z'" "z' \<in> set (K p')"
        "q = at_address x y q'" "z = at_address x y z''" "z'' \<in> set (K q')" "p' \<noteq> y" "q' \<noteq> y"
      unfolding kid by blast
    moreover then have "z' = z''" using inj y(2) by metis
    ultimately show "p = q" using F unfolding forest_but_def by metis
  next
    fix z e assume z: "chunks (s\<lparr>chunks := moved_heap x y (chunks s), brk := b\<rparr>) z = Some e" "\<forall>p. z \<notin> set (moved_forest x y K p)"
    then obtain q c where q: "z = at_address x y q" "chunks s q = Some c" "e = moved_links x y c" "q \<noteq> y"
      using yD y(1) by (auto elim!: moved_heap_Some simp: domIff)
    have "q \<notin> set (K p)" for p
    proof
      assume "q \<in> set (K p)"
      moreover from this have "p \<noteq> y" using y(3) by auto
      ultimately have "z \<in> set (moved_forest x y K (at_address x y p))" using q(1) unfolding kid by blast
      with z(2) show False by blast
    qed
    then have "links c = (NULL, NULL, NULL)" using F q(2) by (auto simp: forest_but_def)
    then show "links e = (NULL, NULL, NULL)" using xN by (simp add: q(3) links_def moved_links_def at_address_def)
  qed auto
qed

section \<open>The links of a forest, seen from both ends\<close>

lemma forest_place:
  assumes F: "forest s K" and z: "chunks s z = Some d" and K: "K w = us @ z # vs"
  shows "tc_next d = head_ptr vs" "tc_prev d = last_ptr NULL us" "tc_parent d = (if us = [] then w else NULL)"
  using forest_dll [OF F, of w] z by (auto simp: K dllseg_append)

lemma forest_placed:
  assumes F: "forest s K" and z: "chunks s z = Some d" and l: "links d \<noteq> (NULL, NULL, NULL)"
  obtains w us vs where "K w = us @ z # vs"
proof -
  obtain w where "z \<in> set (K w)" using forest_root [OF F z] l by blast
  then show ?thesis by (auto dest: split_list intro: that)
qed

lemma forest_next_prev:
  assumes F: "forest s K" and x: "chunks s x = Some c" and z: "chunks s z = Some d"
  shows "tc_next d = x \<longleftrightarrow> tc_prev c = z"
proof -
  have N: "x \<noteq> NULL" "z \<noteq> NULL" using forest_NULL [OF F] x z by (auto intro!: gr0I)
  show ?thesis
  proof
    assume n: "tc_next d = x"
    then obtain w us vs where K: "K w = us @ z # vs" using N by (auto simp: links_def intro: forest_placed [OF F z])
    then obtain ws where "vs = x # ws" using forest_place(1) [OF F z K] n N by (cases vs) auto
    with K have "K w = (us @ [z]) @ x # ws" by simp
    from forest_place(2) [OF F x this] show "tc_prev c = z" by simp
  next
    assume p: "tc_prev c = z"
    then obtain w us vs where K: "K w = us @ x # vs" using N by (auto simp: links_def intro: forest_placed [OF F x])
    then obtain ws where "us = ws @ [z]" using forest_place(2) [OF F x K] p N by (cases us rule: rev_cases) auto
    with K have "K w = ws @ z # x # vs" by simp
    from forest_place(1) [OF F z this] show "tc_next d = x" by simp
  qed
qed

lemma forest_child_parent:
  assumes F: "forest s K" and x: "chunks s x = Some c" and z: "chunks s z = Some d"
  shows "tc_child d = x \<longleftrightarrow> tc_parent c = z"
proof -
  have N: "x \<noteq> NULL" "z \<noteq> NULL" using forest_NULL [OF F] x z by (auto intro!: gr0I)
  have h: "tc_child d = head_ptr (K z)" using forest_chunk [OF F z] by simp
  show ?thesis
  proof
    assume "tc_child d = x"
    then obtain ws where "K z = [] @ x # ws" using h N by (cases "K z") auto
    from forest_place(3) [OF F x this] show "tc_parent c = z" by simp
  next
    assume p: "tc_parent c = z"
    then obtain w us vs where K: "K w = us @ x # vs" using N by (auto simp: links_def intro: forest_placed [OF F x])
    then have "us = []" "w = z" using forest_place(3) [OF F x K] p N by (auto split: if_splits)
    with K h show "tc_child d = x" by simp
  qed
qed

text \<open>A link that is not NULL leads to another block.\<close>

lemma forest_link_dom:
  assumes F: "forest s K" and x: "chunks s x = Some c" and z: "z \<in> {tc_next c, tc_prev c, tc_parent c, tc_child c}" "z \<noteq> NULL"
  shows "z \<in> dom (chunks s)" "z \<noteq> x"
proof -
  have "z \<in> dom (chunks s) \<and> z \<noteq> x"
  proof (cases "z = tc_child c")
    case True
    then have "z \<in> set (K x)" using forest_chunk [OF F x] z(2) by (cases "K x") auto
    then show ?thesis using forest_kids_dom [OF F] forest_distinct(2) [OF F] by metis
  next
    case False
    with z obtain w us vs where K: "K w = us @ x # vs" by (auto simp: links_def intro: forest_placed [OF F x])
    have "z \<in> set us \<union> set vs \<or> z = w"
      using forest_place [OF F x K] z False
      by (cases us rule: rev_cases; cases vs) (auto split: if_splits)
    moreover have "distinct (us @ x # vs)" "w \<notin> set (us @ x # vs)" using forest_distinct [OF F, of w] by (simp_all add: K)
    moreover have "w \<in> dom (chunks s)" "\<forall>y \<in> set us \<union> set vs. y \<in> dom (chunks s)"
      using forest_parent_dom [OF F, of x w] forest_kids_dom [OF F, of _ w] by (auto simp: K)
    ultimately show ?thesis by auto
  qed
  then show "z \<in> dom (chunks s)" "z \<noteq> x" by simp_all
qed

section \<open>talloc_realloc\<close>

definition rewired :: "talloc_chunk \<Rightarrow> ptr \<Rightarrow> ptr \<Rightarrow> talloc_chunk \<Rightarrow> talloc_chunk" where
  "rewired c y z d = d\<lparr>
     tc_next := (if tc_prev c = z then y else tc_next d), tc_prev := (if tc_next c = z then y else tc_prev d),
     tc_parent := (if tc_child c = z then y else tc_parent d), tc_child := (if tc_parent c = z then y else tc_child d)\<rparr>"

definition on_link :: "ptr \<Rightarrow> (talloc_chunk \<Rightarrow> talloc_chunk) \<Rightarrow> (ptr \<rightharpoonup> talloc_chunk) \<Rightarrow> (ptr \<rightharpoonup> talloc_chunk)" where
  "on_link a f h = (\<lambda>z. if z = a then map_option f (h z) else h z)"

lemma dom_on_link [simp]: "dom (on_link a f h) = dom h" "on_link a f h z = None \<longleftrightarrow> h z = None"
  by (auto simp: on_link_def split: if_splits)

lemma upd_if_link:
  assumes "chunks s NULL = None" "a \<noteq> NULL \<Longrightarrow> a \<in> dom (chunks s)"
  shows "(if a \<noteq> NULL then upd_chunk a f s else Some s) = Some (s\<lparr>chunks := on_link a f (chunks s)\<rparr>)"
proof (cases "a = NULL")
  case True
  then have "on_link a f (chunks s) = chunks s" using assms(1) by (simp add: on_link_def fun_eq_iff)
  with True show ?thesis by simp
next
  case False
  with assms(2) obtain d where "chunks s a = Some d" by auto
  moreover from this have "on_link a f (chunks s) = (chunks s)(a \<mapsto> f d)" by (auto simp: on_link_def fun_eq_iff)
  ultimately show ?thesis using False by (simp add: heap_simps)
qed

lemma on_link_apply: "on_link a f h z = map_option (\<lambda>d. if z = a then f d else d) (h z)"
  by (cases "h z") (auto simp: on_link_def)

lemma rewired_steps:
  "rewired c y z = (\<lambda>d.
     let d = (if z = tc_parent c then d\<lparr>tc_child := y\<rparr> else d); d = (if z = tc_child c then d\<lparr>tc_parent := y\<rparr> else d);
         d = (if z = tc_prev c then d\<lparr>tc_next := y\<rparr> else d)
     in if z = tc_next c then d\<lparr>tc_prev := y\<rparr> else d)"
  by (rule ext) (simp add: rewired_def)

lemma relink_chunk_rewired:
  assumes y: "chunks s y = Some c" and N: "chunks s NULL = None"
    and l: "\<And>z. z \<in> {tc_next c, tc_prev c, tc_parent c, tc_child c} \<Longrightarrow> z \<noteq> NULL \<Longrightarrow> z \<in> dom (chunks s) \<and> z \<noteq> y"
  shows "relink_chunk y s = Some (s\<lparr>chunks := (\<lambda>z. if z = y then Some c else map_option (rewired c y z) (chunks s z))\<rparr>)"
proof -
  have D: "a \<noteq> NULL \<Longrightarrow> a \<in> dom (chunks s)" if "a \<in> {tc_next c, tc_prev c, tc_parent c, tc_child c}" for a
    using l that by blast
  have upd: "chunks (s\<lparr>chunks := h\<rparr>) = h" "s\<lparr>chunks := h\<rparr>\<lparr>chunks := h'\<rparr> = s\<lparr>chunks := h'\<rparr>" for h h' by simp_all
  let ?h = "on_link (tc_next c) (\<lambda>x. x\<lparr>tc_prev := y\<rparr>) (on_link (tc_prev c) (\<lambda>x. x\<lparr>tc_next := y\<rparr>)
    (on_link (tc_child c) (\<lambda>x. x\<lparr>tc_parent := y\<rparr>) (on_link (tc_parent c) (\<lambda>x. x\<lparr>tc_child := y\<rparr>) (chunks s))))"
  have "relink_chunk y s = Some (s\<lparr>chunks := ?h\<rparr>)"
    unfolding relink_chunk_def
    by (simp only: y Option.bind.simps upd_if_link N D insert_iff simp_thms upd dom_on_link)
  moreover have "y \<noteq> NULL" using y N by (auto intro!: gr0I)
  then have "y \<notin> {tc_next c, tc_prev c, tc_parent c, tc_child c}" using l by blast
  then have "?h z = (if z = y then Some c else map_option (rewired c y z) (chunks s z))" for z
    using y by (cases "z = y") (simp_all add: on_link_apply option.map_comp comp_def rewired_steps Let_def split del: if_split)
  then have "?h = (\<lambda>z. if z = y then Some c else map_option (rewired c y z) (chunks s z))" by (rule ext)
  ultimately show ?thesis by simp
qed

lemma rewired_moved:
  assumes F: "forest s K" and p: "chunks s p = Some c" and z: "chunks s z = Some d"
  shows "rewired c q z d = moved_links p q d"
  using forest_next_prev [OF F p z] forest_next_prev [OF F z p] forest_child_parent [OF F p z] forest_child_parent [OF F z p]
  by (simp add: rewired_def moved_links_def at_address_def)

lemma moved_links_own:
  assumes F: "forest s K" and p: "chunks s p = Some c"
  shows "moved_links p q c = c"
proof -
  have "p \<noteq> NULL" using forest_NULL [OF F] p by (auto intro!: gr0I)
  then have "p \<notin> {tc_next c, tc_prev c, tc_parent c, tc_child c}" using forest_link_dom(2) [OF F p, of p] by blast
  then show ?thesis by (simp add: moved_links_def at_address_def)
qed

lemma flag_set_cleared:
  assumes "magic_ok f"
  shows "(f OR TALLOC_FLAG_FREE) AND NOT TALLOC_FLAG_FREE = f"
proof -
  have "bit (f AND (TALLOC_FLAG_FREE OR NOT 0xF)) 0 = bit TALLOC_MAGIC 0" using assms by (simp add: magic_ok_def)
  then have "\<not> bit f 0" by (simp add: bit_simps TALLOC_FLAG_FREE_def TALLOC_MAGIC_def)
  show ?thesis
  proof (rule bit_word_eqI)
    fix n :: nat assume "n < LENGTH(32)"
    then have n: "bit ((f OR TALLOC_FLAG_FREE) AND NOT TALLOC_FLAG_FREE) n \<longleftrightarrow> bit f n \<and> n \<noteq> 0"
      by (auto simp: TALLOC_FLAG_FREE_def bit_or_iff bit_and_iff bit_not_iff bit_1_iff)
    with \<open>\<not> bit f 0\<close> show "bit ((f OR TALLOC_FLAG_FREE) AND NOT TALLOC_FLAG_FREE) n \<longleftrightarrow> bit f n" by (cases n) simp_all
  qed
qed

definition moved_block :: "ptr \<Rightarrow> ptr \<Rightarrow> 'a talloc_heap_scheme \<Rightarrow> 'a talloc_heap_scheme" where
  "moved_block p q s = s\<lparr>chunks := moved_heap p q (chunks s), handles := (handles s)(p := None, q := handles s p),
     brk := Suc (brk s)\<rparr>"

lemma relink_moved:
  assumes F: "forest s K" and p: "chunks s p = Some c" and q: "q = p \<or> q = brk s"
    and s': "chunks s' = (chunks s)(p := None, q \<mapsto> c)"
  shows "relink_chunk q s' = Some (s'\<lparr>chunks := moved_heap p q (chunks s)\<rparr>)"
proof -
  have qs: "chunks s q = None \<or> q = p" "p \<noteq> NULL" "q \<noteq> NULL" "chunks s NULL = None"
    using q forest_brk [OF F] forest_NULL [OF F] p by (auto intro!: gr0I)
  have "relink_chunk q s' = Some (s'\<lparr>chunks := \<lambda>z. if z = q then Some c else map_option (rewired c q z) (chunks s' z)\<rparr>)"
  proof (rule relink_chunk_rewired)
    fix z assume z: "z \<in> {tc_next c, tc_prev c, tc_parent c, tc_child c}" "z \<noteq> NULL"
    from forest_link_dom [OF F p this] qs show "z \<in> dom (chunks s') \<and> z \<noteq> q" by (auto simp: s')
  qed (use qs in \<open>simp_all add: s'\<close>)
  moreover have "(if z = q then Some c else map_option (rewired c q z) (chunks s' z)) = moved_heap p q (chunks s) z" for z
    using p moved_links_own [OF F p, of q] rewired_moved [OF F p, of z _ q]
    by (cases "chunks s z") (auto simp: moved_heap_def s')
  ultimately show ?thesis by presburger
qed

lemma forest_moved_block:
  assumes F: "forest s K" and p: "p \<in> dom (chunks s)" "null_context s \<noteq> p" and q: "q = p \<or> q = brk s"
  shows "forest (moved_block p q s) (moved_forest p q K)"
proof (cases "q = p")
  case True
  have "map (at_address p p) xs = xs" for xs by (simp add: map_idI at_address_def)
  then have "moved_forest p p K = K" by (auto simp: fun_eq_iff moved_forest_def)
  with True F show ?thesis by (auto simp: forest_but_def moved_block_def dest: less_SucI)
next
  case False
  with q have "forest (s\<lparr>chunks := moved_heap p q (chunks s), brk := Suc (brk s)\<rparr>) (moved_forest p q K)"
    by (intro forest_moved [OF F p]) simp_all
  then show ?thesis by (simp add: forest_but_def moved_block_def)
qed

theorem talloc_realloc_correct:
  assumes F: "forest s K" and p: "chunks s p = Some c" "tc_refs c = NULL" "null_context s \<noteq> p"
    and sz: "sz \<noteq> 0" "sz < MAX_TALLOC_SIZE" and ok: "malloc_ok s (brk s)" and q: "q = (if stay then p else brk s)"
  shows "\<exists>s'. talloc_realloc D n stay context p sz name s = Some (q, s') \<and> forest s' (moved_forest p q K) \<and>
    s' = (moved_block p q s)\<lparr>chunks := (moved_heap p q (chunks s))(q \<mapsto> c\<lparr>tc_size := sz, tc_name := name\<rparr>)\<rparr>"
proof -
  have m: "magic_ok (tc_flags c)" using forest_chunk [OF F p(1)] by simp
  have N: "p \<noteq> NULL" "q \<noteq> NULL" using q p(1) forest_NULL [OF F] forest_brk [OF F] by (auto intro!: gr0I)
  have q': "q = p \<or> q = brk s" using q by auto
  let ?s1 = "s\<lparr>chunks := (chunks s)(p := None, q \<mapsto> c), handles := (handles s)(p := None, q := handles s p), brk := Suc (brk s)\<rparr>"
  let ?c = "c\<lparr>tc_size := sz, tc_name := name\<rparr>"
  have "relink_chunk q ?s1 = Some (?s1\<lparr>chunks := moved_heap p q (chunks s)\<rparr>)"
    by (rule relink_moved [OF F p(1) q']) simp
  also have "?s1\<lparr>chunks := moved_heap p q (chunks s)\<rparr> = moved_block p q s" by (simp add: moved_block_def)
  finally have r: "relink_chunk q ?s1 = Some (moved_block p q s)" .
  have h: "moved_heap p q (chunks s) q = Some c" using p(1) moved_links_own [OF F p(1)] by (simp add: moved_heap_def)
  have c': "c\<lparr>tc_flags := (tc_flags c OR TALLOC_FLAG_FREE) AND NOT TALLOC_FLAG_FREE\<rparr> = c" using m by (simp add: flag_set_cleared)
  let ?s0 = "s\<lparr>chunks := (chunks s)(p \<mapsto> c\<lparr>tc_flags := tc_flags c OR TALLOC_FLAG_FREE\<rparr>)\<rparr>"
  let ?clear = "\<lambda>c. c\<lparr>tc_flags := tc_flags c AND NOT TALLOC_FLAG_FREE\<rparr>"
  obtain s1 where t: "tc_realloc stay p ?s0 = (q, s1)" and u: "upd_chunk q ?clear s1 = Some ?s1"
    using ok q c' by (cases stay) (simp_all add: tc_realloc_def heap_simps)
  have v: "do { s \<leftarrow> upd_chunk q (\<lambda>c. c\<lparr>tc_size := sz\<rparr>) (moved_block p q s); s \<leftarrow> talloc_set_name_const q name s; Some (q, s) } =
      Some (q, (moved_block p q s)\<lparr>chunks := (moved_heap p q (chunks s))(q \<mapsto> ?c)\<rparr>)"
    using h m by (simp add: moved_block_def heap_simps talloc_set_name_const_def)
  have "talloc_realloc D n stay context p sz name s =
      Some (q, (moved_block p q s)\<lparr>chunks := (moved_heap p q (chunks s))(q \<mapsto> ?c)\<rparr>)"
    using sz N m p(1,2) t u r v by (simp add: talloc_realloc_def heap_simps)
  moreover have "forest ((moved_block p q s)\<lparr>chunks := (chunks (moved_block p q s))(q \<mapsto> ?c)\<rparr>) (moved_forest p q K)"
    using h m by (intro forest_upd_data [where c = c] forest_moved_block F p(3) q')
      (use p(1) in \<open>simp_all add: moved_block_def links_def\<close>, auto)
  ultimately show ?thesis by (simp add: moved_block_def)
qed

text \<open>The other branches: nothing to move.\<close>

lemma talloc_realloc_special:
  shows "talloc_realloc D n stay context p 0 name s = map_option (\<lambda>(_, s). (NULL, s)) (talloc_free D n p s)"
    and "MAX_TALLOC_SIZE \<le> sz \<Longrightarrow> talloc_realloc D n stay context p sz name s = Some (NULL, s)"
    and "sz \<noteq> 0 \<Longrightarrow> sz < MAX_TALLOC_SIZE \<Longrightarrow>
      talloc_realloc D n stay context NULL sz name s = talloc_named_const context sz name s"
    and "sz \<noteq> 0 \<Longrightarrow> talloc_chunk_from_ptr p s = Some c \<Longrightarrow> p \<noteq> NULL \<Longrightarrow> tc_refs c \<noteq> NULL \<Longrightarrow>
      talloc_realloc D n stay context p sz name s = Some (NULL, s)"
  by (cases "talloc_free D n p s") (auto simp: talloc_realloc_def MAX_TALLOC_SIZE_def)

lemma talloc_realloc_fails:
  assumes F: "forest s K" and p: "chunks s p = Some c" and sz: "sz \<noteq> 0" and ok: "\<not> malloc_ok s (brk s)"
  shows "\<exists>b. talloc_realloc D n stay context p sz name s = Some (NULL, s\<lparr>brk := b\<rparr>)"
proof -
  have m: "magic_ok (tc_flags c)" using forest_chunk [OF F p] by simp
  have N: "p \<noteq> NULL" using p forest_NULL [OF F] by (auto intro!: gr0I)
  have "c\<lparr>tc_flags := (tc_flags c OR TALLOC_FLAG_FREE) AND NOT TALLOC_FLAG_FREE\<rparr> = c" using m by (simp add: flag_set_cleared)
  moreover have "(chunks s)(p \<mapsto> c) = chunks s" using p by auto
  ultimately show ?thesis
    using p sz ok m N
    by (auto simp: talloc_realloc_def heap_simps tc_realloc_def intro: exI [of _ "brk s"] exI [of _ "Suc (brk s)"])
qed

text \<open>An array that is not refused has exactly the size of its elements.\<close>

lemma array_size_exact:
  assumes "el_size \<noteq> 0" "\<not> array_too_big el_size count"
  shows "unat (el_size * ucast count :: u64) = unat el_size * unat count" "el_size * ucast count < MAX_TALLOC_SIZE"
proof -
  let ?e = "unat el_size" and ?c = "unat count"
  have u: "unat (ucast count :: u64) = ?c"
    using unsigned_less [of count, where ?'a = nat] by (simp add: unsigned_ucast_eq take_bit_nat_eq_self)
  have e: "0 < ?e" using assms(1) by (simp add: unat_gt_0)
  have "(ucast count :: u64) < MAX_TALLOC_SIZE div el_size" using assms(2) by (simp add: array_too_big_def)
  then have "?c < 0x7FFFFFFF div ?e" by (simp add: word_less_nat_alt unat_div u MAX_TALLOC_SIZE_def)
  then have "Suc ?c * ?e \<le> 0x7FFFFFFF" using e by (metis Suc_leI less_eq_div_iff_mult_less_eq)
  then have lt: "?e * ?c < 0x7FFFFFFF" using e by (simp add: mult.commute)
  then have "?e * unat (ucast count :: u64) < 2 ^ LENGTH(64)" by (simp add: u)
  then have "unat (el_size * ucast count :: u64) = ?e * unat (ucast count :: u64)" by (subst (asm) unat_mult_lem)
  then show eq: "unat (el_size * ucast count :: u64) = ?e * ?c" by (simp add: u)
  with lt show "el_size * ucast count < MAX_TALLOC_SIZE" by (simp add: word_less_nat_alt MAX_TALLOC_SIZE_def)
qed

end
