(* ===== verification/Talloc_Text.thy ===== *)
theory Talloc_Text
  imports Talloc_Realloc
begin

text \<open>
  Strings in blocks: \<open>talloc_memdup\<close>, \<open>talloc_strdup\<close>, \<open>talloc_strndup\<close>, \<open>talloc_append_string\<close>, the
  \<open>asprintf\<close> family, and the functions that give a block a formatted name. A byte of a block is
  \<open>None\<close> until it is written. What \<open>vsnprintf\<close> makes of a format and its arguments is a parameter:
  the bytes it writes before the NUL, or \<open>None\<close> when it returns a negative number.
\<close>

section \<open>The contents of blocks\<close>

record text_heap = talloc_heap +
  contents :: "ptr \<rightharpoonup> byte option list"

definition block_bytes :: "ptr \<Rightarrow> 'a text_heap_scheme \<Rightarrow> byte option list option" where
  "block_bytes p s = do {
     c \<leftarrow> chunks s p;
     Some (case contents s p of None \<Rightarrow> replicate (unat (tc_size c)) None | Some bs \<Rightarrow> bs) }"

text \<open>The string at the front of a buffer, up to its NUL; \<open>string_at\<close> is what \<open>strlen\<close> runs over.\<close>

fun buffer_string :: "byte option list \<Rightarrow> byte list option" where
  "buffer_string [] = None"
| "buffer_string (None # bs) = None"
| "buffer_string (Some b # bs) = (if b = 0 then Some [] else map_option ((#) b) (buffer_string bs))"

definition string_at :: "ptr \<Rightarrow> 'a text_heap_scheme \<Rightarrow> byte list option" where
  "string_at p s = Option.bind (block_bytes p s) buffer_string"

definition text_at :: "'a text_heap_scheme \<Rightarrow> ptr \<Rightarrow> string option" where
  "text_at s p = map_option (map (\<lambda>b. char_of (unat b))) (string_at p s)"

definition terminated :: "byte list \<Rightarrow> byte option list" where
  "terminated str = map Some str @ [Some 0]"

text \<open>\<open>memcpy\<close> to a place inside a block.\<close>

definition write_bytes :: "ptr \<Rightarrow> nat \<Rightarrow> byte option list \<Rightarrow> 'a text_heap_scheme \<Rightarrow> 'a text_heap_scheme option" where
  "write_bytes p off bs s = do {
     old \<leftarrow> block_bytes p s;
     if off + length bs \<le> length old
     then Some (s\<lparr>contents := (contents s)(p \<mapsto> take off old @ bs @ drop (off + length bs) old)\<rparr>)
     else None }"

text \<open>
  \<open>talloc_realloc(NULL, p, char, count)\<close>: the block takes its contents along, cut or with new bytes
  that are not written yet. The macro passes \<open>count\<close> as an \<open>unsigned\<close>.
\<close>

definition realloc_text ::
  "'a text_heap_scheme client_dtor \<Rightarrow> nat \<Rightarrow> bool \<Rightarrow> ptr \<Rightarrow> u32 \<Rightarrow> 'a text_heap_scheme \<Rightarrow>
   (ptr \<times> 'a text_heap_scheme) option" where
  "realloc_text D n stay p count s = do {
     (q, s') \<leftarrow> talloc_realloc_array D n stay NULL p 1 count (Name ''char'') s;
     Some (q,
       if q = NULL \<or> p = NULL then s'
       else s'\<lparr>contents := (contents s')(p := None,
              q := map_option (\<lambda>bs. take (unat count) bs @ replicate (unat count - length bs) None) (contents s p))\<rparr>) }"

section \<open>Duplicating\<close>

definition talloc_memdup ::
  "ptr \<Rightarrow> byte list \<Rightarrow> chunk_name \<Rightarrow> 'a text_heap_scheme \<Rightarrow> (ptr \<times> 'a text_heap_scheme) option" where
  "talloc_memdup t bs name s = do {
     (newp, s) \<leftarrow> talloc_named_const t (of_nat (length bs)) name s;
     Some (newp, if newp \<noteq> NULL then s\<lparr>contents := (contents s)(newp \<mapsto> map Some bs)\<rparr> else s) }"

definition talloc_strdup ::
  "ptr \<Rightarrow> byte list option \<Rightarrow> 'a text_heap_scheme \<Rightarrow> (ptr \<times> 'a text_heap_scheme) option" where
  "talloc_strdup t p s = (case p of
      None \<Rightarrow> Some (NULL, s)
    | Some str \<Rightarrow> do {
        (ret, s) \<leftarrow> talloc_memdup t (str @ [0]) (Name ''talloc.c:1307'') s;
        if ret \<noteq> NULL then do {
          s \<leftarrow> talloc_set_name_const ret (NameAt ret) s;
          Some (ret, s) }
        else Some (ret, s) })"

text \<open>\<open>buf\<close> is the memory \<open>p\<close> points to; reading past its end has no result.\<close>

fun strnlen :: "nat \<Rightarrow> byte list \<Rightarrow> nat option" where
  "strnlen 0 buf = Some 0"
| "strnlen (Suc n) [] = None"
| "strnlen (Suc n) (b # bs) = (if b = 0 then Some 0 else map_option Suc (strnlen n bs))"

definition talloc_strndup ::
  "ptr \<Rightarrow> byte list \<Rightarrow> nat \<Rightarrow> 'a text_heap_scheme \<Rightarrow> (ptr \<times> 'a text_heap_scheme) option" where
  "talloc_strndup t buf n s = do {
     len \<leftarrow> strnlen n buf;
     (ret, s) \<leftarrow> talloc_internal t (of_nat (len + 1)) s;
     if ret = NULL then Some (NULL, s)
     else do {
       s \<leftarrow> write_bytes ret 0 (map Some (take len buf)) s;
       s \<leftarrow> write_bytes ret len [Some 0] s;
       s \<leftarrow> talloc_set_name_const ret (NameAt ret) s;
       Some (ret, s) } }"

section \<open>Appending\<close>

definition talloc_append_string ::
  "'a text_heap_scheme client_dtor \<Rightarrow> nat \<Rightarrow> bool \<Rightarrow> ptr \<Rightarrow> byte list option \<Rightarrow> 'a text_heap_scheme \<Rightarrow>
   (ptr \<times> 'a text_heap_scheme) option" where
  "talloc_append_string D n stay orig app s = do {
     olen \<leftarrow> map_option length (string_at orig s);
     case app of
       None \<Rightarrow> Some (orig, s)
     | Some str \<Rightarrow> do {
         let alenz = length str + 1;
         (ret, s) \<leftarrow> realloc_text D n stay orig (of_nat (olen + alenz)) s;
         if ret = NULL then Some (NULL, s)
         else do {
           s \<leftarrow> write_bytes ret olen (terminated str) s;
           s \<leftarrow> talloc_set_name_const ret (NameAt ret) s;
           Some (ret, s) } } }"

section \<open>Formatting\<close>

text \<open>\<open>len + 1\<close> is an \<open>int\<close>: it has no value when \<open>vsnprintf\<close> returns the largest one.\<close>

definition talloc_vasprintf ::
  "ptr \<Rightarrow> byte list option \<Rightarrow> 'a text_heap_scheme \<Rightarrow> (ptr \<times> 'a text_heap_scheme) option" where
  "talloc_vasprintf t fmt s = (case fmt of
      None \<Rightarrow> Some (NULL, s)
    | Some str \<Rightarrow>
        if 2 ^ 31 \<le> length str + 1 then None
        else do {
          (ret, s) \<leftarrow> talloc_internal t (of_nat (length str + 1)) s;
          if ret \<noteq> NULL then do {
            s \<leftarrow> write_bytes ret 0 (terminated str) s;
            s \<leftarrow> talloc_set_name_const ret (NameAt ret) s;
            Some (ret, s) }
          else Some (ret, s) })"

definition talloc_asprintf ::
  "ptr \<Rightarrow> byte list option \<Rightarrow> 'a text_heap_scheme \<Rightarrow> (ptr \<times> 'a text_heap_scheme) option" where
  "talloc_asprintf t fmt s = talloc_vasprintf t fmt s"

text \<open>\<open>s_len\<close> is the size of the block less one, not the length of the string in it.\<close>

definition talloc_vasprintf_append ::
  "'a text_heap_scheme client_dtor \<Rightarrow> nat \<Rightarrow> bool \<Rightarrow> ptr \<Rightarrow> byte list option \<Rightarrow> 'a text_heap_scheme \<Rightarrow>
   (ptr \<times> 'a text_heap_scheme) option" where
  "talloc_vasprintf_append D n stay p fmt s =
     (if p = NULL then talloc_vasprintf NULL fmt s
      else do {
        tc \<leftarrow> talloc_chunk_from_ptr p s;
        let s_len = sint (ucast (tc_size tc - 1) :: u32);
        case fmt of
          None \<Rightarrow> Some (p, s)
        | Some str \<Rightarrow>
            if str = [] then Some (p, s)
            else if 2 ^ 31 \<le> s_len + int (length str) + 1 then None
            else do {
              (q, s) \<leftarrow> realloc_text D n stay p (word_of_int (s_len + int (length str) + 1)) s;
              if q = NULL then Some (NULL, s)
              else if s_len < 0 then None
              else do {
                s \<leftarrow> write_bytes q (nat s_len) (terminated str) s;
                s \<leftarrow> talloc_set_name_const q (NameAt q) s;
                Some (q, s) } } })"

definition talloc_asprintf_append ::
  "'a text_heap_scheme client_dtor \<Rightarrow> nat \<Rightarrow> bool \<Rightarrow> ptr \<Rightarrow> byte list option \<Rightarrow> 'a text_heap_scheme \<Rightarrow>
   (ptr \<times> 'a text_heap_scheme) option" where
  "talloc_asprintf_append D n stay p fmt s = talloc_vasprintf_append D n stay p fmt s"

section \<open>Names\<close>

text \<open>\<open>name_or_free\<close> is the end that \<open>talloc_named\<close> and \<open>talloc_init\<close> share.\<close>

definition talloc_set_name_v ::
  "ptr \<Rightarrow> byte list option \<Rightarrow> 'a text_heap_scheme \<Rightarrow> (ptr \<times> 'a text_heap_scheme) option" where
  "talloc_set_name_v p fmt s = do {
     _ \<leftarrow> talloc_chunk_from_ptr p s;
     (name, s) \<leftarrow> talloc_vasprintf p fmt s;
     s \<leftarrow> upd_chunk p (\<lambda>c. c\<lparr>tc_name := (if name = NULL then NoName else NameAt name)\<rparr>) s;
     if name \<noteq> NULL then do {
       s \<leftarrow> talloc_set_name_const name (Name ''.name'') s;
       Some (name, s) }
     else Some (name, s) }"

definition talloc_set_name ::
  "ptr \<Rightarrow> byte list option \<Rightarrow> 'a text_heap_scheme \<Rightarrow> (ptr \<times> 'a text_heap_scheme) option" where
  "talloc_set_name p fmt s = talloc_set_name_v p fmt s"

definition name_or_free ::
  "'a text_heap_scheme client_dtor \<Rightarrow> nat \<Rightarrow> ptr \<Rightarrow> byte list option \<Rightarrow> 'a text_heap_scheme \<Rightarrow>
   (ptr \<times> 'a text_heap_scheme) option" where
  "name_or_free D n p fmt s =
     (if p = NULL then Some (NULL, s)
      else do {
        (name, s) \<leftarrow> talloc_set_name_v p fmt s;
        if name = NULL then do {
          (_, s) \<leftarrow> talloc_free D n p s;
          Some (NULL, s) }
        else Some (p, s) })"

definition talloc_named ::
  "'a text_heap_scheme client_dtor \<Rightarrow> nat \<Rightarrow> ptr \<Rightarrow> u64 \<Rightarrow> byte list option \<Rightarrow> 'a text_heap_scheme \<Rightarrow>
   (ptr \<times> 'a text_heap_scheme) option" where
  "talloc_named D n context sz fmt s = do {
     (p, s) \<leftarrow> talloc_internal context sz s;
     name_or_free D n p fmt s }"

definition talloc_init ::
  "'a text_heap_scheme client_dtor \<Rightarrow> nat \<Rightarrow> byte list option \<Rightarrow> 'a text_heap_scheme \<Rightarrow>
   (ptr \<times> 'a text_heap_scheme) option" where
  "talloc_init D n fmt s = do {
     s \<leftarrow> talloc_enable_null_tracking s;
     (p, s) \<leftarrow> talloc_internal NULL 0 s;
     name_or_free D n p fmt s }"

section \<open>Buffers\<close>

definition resized :: "nat \<Rightarrow> 'v option list \<Rightarrow> 'v option list" where
  "resized n bs = take n bs @ replicate (n - length bs) None"

lemma resized_replicate [simp]: "resized n (replicate m None) = replicate n None"
  by (simp add: resized_def flip: replicate_add)

lemma length_resized [simp]: "length (resized n bs) = n"
  by (simp add: resized_def)

lemma buffer_string_terminated: "0 \<notin> set str \<Longrightarrow> buffer_string (terminated str @ bs) = Some str"
  unfolding terminated_def by (induction str) auto

lemma buffer_string_prefix:
  assumes "buffer_string bs = Some str"
  shows "take (Suc (length str)) bs = terminated str" "length str < length bs" "0 \<notin> set str"
  using assms by (induction bs arbitrary: str rule: buffer_string.induct) (force simp: terminated_def split: if_splits)+

lemma buffer_string_append: "buffer_string bs = Some str \<Longrightarrow> buffer_string (bs @ cs) = Some str"
  by (induction bs arbitrary: str rule: buffer_string.induct) (auto split: if_splits)

lemma buffer_string_Some_append: "0 \<notin> set xs \<Longrightarrow> buffer_string (map Some xs @ bs) = map_option ((@) xs) (buffer_string bs)"
  by (induction xs; cases "buffer_string bs") auto

text \<open>Every block with contents has as many bytes as its header says.\<close>

definition sized :: "ptr \<Rightarrow> 'a text_heap_scheme \<Rightarrow> bool" where
  "sized p s \<longleftrightarrow> (\<forall>c bs. chunks s p = Some c \<longrightarrow> contents s p = Some bs \<longrightarrow> length bs = unat (tc_size c))"

lemma block_bytes_length: "sized p s \<Longrightarrow> chunks s p = Some c \<Longrightarrow> block_bytes p s = Some bs \<Longrightarrow> length bs = unat (tc_size c)"
  by (auto simp: sized_def block_bytes_def split: option.splits)

lemma contents_more: "talloc_heap.more s' = talloc_heap.more s \<Longrightarrow> contents s' = contents s"
  by (cases s; cases s') simp

lemma block_bytes_cong:
  "map_option tc_size (chunks s' p) = map_option tc_size (chunks s p) \<Longrightarrow> contents s' p = contents s p \<Longrightarrow>
   block_bytes p s' = block_bytes p s"
  by (cases "chunks s p"; cases "chunks s' p") (simp_all add: block_bytes_def cong: option.case_cong)

lemma allocates_bytes:
  assumes "allocates q d s s'" "p \<in> dom (chunks s)" "chunks s q = None"
  shows "block_bytes p s' = block_bytes p s"
proof (rule block_bytes_cong)
  have "map_option block_data (chunks s' p) = map_option block_data (chunks s p)"
    using assms by (auto simp: allocates_def fun_eq_iff)
  then show "map_option tc_size (chunks s' p) = map_option tc_size (chunks s p)"
    by (cases "chunks s p"; cases "chunks s' p") (simp_all add: block_data_def)
  have "talloc_heap.more s' = talloc_heap.more s" using assms(1) by (simp add: allocates_def)
  from contents_more [OF this] show "contents s' p = contents s p" by simp
qed

lemma forest_contents [simp]: "forest_but X (s\<lparr>contents := m\<rparr>) K = forest_but X s K"
  by (simp add: forest_but_def)

lemma block_bytes_simps [simp]:
  "chunks s p = Some c \<Longrightarrow> contents s p = Some bs \<Longrightarrow> block_bytes p s = Some bs"
  "block_bytes p (s\<lparr>contents := (contents s)(q := v)\<rparr>) = (if p = q then block_bytes p (s\<lparr>contents := (contents s)(p := v)\<rparr>) else block_bytes p s)"
  by (simp_all add: block_bytes_def)

lemma size_of_length: "int n < 0x7FFFFFFF \<Longrightarrow> (of_nat n :: u64) < MAX_TALLOC_SIZE"
  by (simp add: word_less_nat_alt MAX_TALLOC_SIZE_def unsigned_of_nat take_bit_nat_eq_self)

lemma set_name_const_forest:
  assumes F: "forest s K" and p: "chunks s p = Some c"
  shows "talloc_set_name_const p nm s = Some (s\<lparr>chunks := (chunks s)(p \<mapsto> c\<lparr>tc_name := nm\<rparr>)\<rparr>)"
    and "forest (s\<lparr>chunks := (chunks s)(p \<mapsto> c\<lparr>tc_name := nm\<rparr>)\<rparr>) K"
proof -
  have m: "magic_ok (tc_flags c)" using forest_chunk [OF F p] by simp
  then show "talloc_set_name_const p nm s = Some (s\<lparr>chunks := (chunks s)(p \<mapsto> c\<lparr>tc_name := nm\<rparr>)\<rparr>)"
    using p by (simp add: talloc_set_name_const_def heap_simps)
  show "forest (s\<lparr>chunks := (chunks s)(p \<mapsto> c\<lparr>tc_name := nm\<rparr>)\<rparr>) K"
    using m by (intro forest_upd_data [OF F p]) (simp_all add: links_def)
qed

definition texts_kept :: "ptr set \<Rightarrow> 'a text_heap_scheme \<Rightarrow> 'a text_heap_scheme \<Rightarrow> bool" where
  "texts_kept X s s' \<longleftrightarrow> (\<forall>p \<in> dom (chunks s) - X. block_bytes p s' = block_bytes p s)"

theorem talloc_strdup_correct:
  assumes F: "forest s K" and ctx: "context_of t s = NULL \<or> context_of t s \<in> dom (chunks s)"
    and len: "int (length str) + 1 < 0x7FFFFFFF" "0 \<notin> set str" and ok: "malloc_ok s (brk s)"
  shows "\<exists>s'. talloc_strdup t (Some str) s = Some (brk s, s') \<and> forest s' (alloc_under (context_of t s) (brk s) K) \<and>
    string_at (brk s) s' = Some str \<and> texts_kept {} s s' \<and>
    allocates (brk s) (NULL, D_null, NameAt (brk s), of_nat (length (str @ [0])), TALLOC_MAGIC) (s\<lparr>contents := contents s'\<rparr>) s'"
proof -
  let ?b = "brk s"
  have sz: "(of_nat (length (str @ [0])) :: u64) < MAX_TALLOC_SIZE" using len(1) by (intro size_of_length) simp
  obtain s1 where s1: "talloc_named_const t (of_nat (length (str @ [0]))) (Name ''talloc.c:1307'') s = Some (?b, s1)"
      "forest s1 (alloc_under (context_of t s) ?b K)"
      "allocates ?b (NULL, D_null, Name ''talloc.c:1307'', of_nat (length (str @ [0])), TALLOC_MAGIC) s s1"
    using talloc_named_const_forest [OF F ctx sz ok] by blast
  obtain c where c: "chunks s1 ?b = Some c" "block_data c = (NULL, D_null, Name ''talloc.c:1307'', of_nat (length (str @ [0])), TALLOC_MAGIC)"
    using allocates_chunk [OF s1(3)] by (auto simp: block_data_def)
  let ?s2 = "s1\<lparr>contents := (contents s1)(?b \<mapsto> map Some (str @ [0]))\<rparr>"
  let ?s3 = "?s2\<lparr>chunks := (chunks s1)(?b \<mapsto> c\<lparr>tc_name := NameAt ?b\<rparr>)\<rparr>"
  have b: "0 < ?b" "chunks s ?b = None" using forest_brk [OF F] by simp_all
  have F2: "forest ?s2 (alloc_under (context_of t s) ?b K)" using s1(2) by simp
  note set_name_const_forest [OF F2, of ?b c "NameAt ?b"]
  then have "talloc_strdup t (Some str) s = Some (?b, ?s3)" "forest ?s3 (alloc_under (context_of t s) ?b K)"
    using s1(1) b c by (simp_all add: talloc_strdup_def talloc_memdup_def)
  moreover have "string_at ?b ?s3 = Some str"
    using buffer_string_terminated [OF len(2), of "[]"] by (simp add: string_at_def block_bytes_def terminated_def)
  moreover have "texts_kept {} s ?s3"
    unfolding texts_kept_def
  proof
    fix p assume p: "p \<in> dom (chunks s) - {}"
    then have "block_bytes p s1 = block_bytes p s" using allocates_bytes [OF s1(3) _ b(2)] by simp
    moreover have "p \<noteq> ?b" using p b(2) by auto
    ultimately show "block_bytes p ?s3 = block_bytes p s" by (simp add: block_bytes_def)
  qed
  moreover have "allocates ?b (NULL, D_null, NameAt ?b, of_nat (length (str @ [0])), TALLOC_MAGIC) (s\<lparr>contents := contents ?s3\<rparr>) ?s3"
  proof -
    have "talloc_heap.more (s1\<lparr>contents := m\<rparr>) = talloc_heap.more (s\<lparr>contents := m\<rparr>)" for m
      using s1(3) by (cases s; cases s1) (simp add: allocates_def)
    moreover have "block_data (c\<lparr>tc_name := NameAt ?b\<rparr>) = (NULL, D_null, NameAt ?b, of_nat (length (str @ [0])), TALLOC_MAGIC)"
      using c(2) by (simp add: block_data_def)
    ultimately show ?thesis using allocates_upd [OF s1(3) c(1), of "c\<lparr>tc_name := NameAt ?b\<rparr>"]
      by (simp add: allocates_def)
  qed
  ultimately show ?thesis by auto
qed

lemma length_terminated [simp]: "length (terminated str) = Suc (length str)"
  by (simp add: terminated_def)

text \<open>Every function that builds a string ends like this.\<close>

lemma write_and_name:
  assumes F: "forest s K" and q: "chunks s q = Some c" "block_bytes q s = Some R" and len: "off + length str < length R"
  shows "\<exists>s'. do { s \<leftarrow> write_bytes q off (terminated str) s; s \<leftarrow> talloc_set_name_const q (NameAt q) s; Some (q, s) } =
      Some (q, s') \<and> forest s' K \<and> block_bytes q s' = Some (take off R @ terminated str @ drop (off + Suc (length str)) R) \<and>
    chunks s' = (chunks s)(q \<mapsto> c\<lparr>tc_name := NameAt q\<rparr>) \<and> texts_kept {q} s s'"
proof -
  let ?s1 = "s\<lparr>contents := (contents s)(q \<mapsto> take off R @ terminated str @ drop (off + Suc (length str)) R)\<rparr>"
  have F1: "forest ?s1 K" using F by simp
  have "write_bytes q off (terminated str) s = Some ?s1" using q(2) len by (simp add: write_bytes_def)
  with set_name_const_forest [OF F1, of q c "NameAt q"] q(1) show ?thesis
    by (auto simp: texts_kept_def block_bytes_def)
qed

lemma moved_size: "tc_size (moved_links x y c) = tc_size c"
  by (simp add: moved_links_def)

theorem realloc_text_correct:
  assumes F: "forest s K" and p: "chunks s p = Some c" "tc_refs c = NULL" "null_context s \<noteq> p"
    and cnt: "count \<noteq> 0" "unat count < 0x7FFFFFFF" and ok: "malloc_ok s (brk s)" and q: "q = (if stay then p else brk s)"
    and bs: "block_bytes p s = Some bs"
  shows "\<exists>s' c'. realloc_text D n stay p count s = Some (q, s') \<and> forest s' (moved_forest p q K) \<and>
    chunks s' q = Some c' \<and> block_bytes q s' = Some (resized (unat count) bs) \<and> texts_kept {p} s s' \<and>
    dom (chunks s') = insert q (dom (chunks s) - {p})"
proof -
  have u: "unat (ucast count :: u64) = unat count"
    using unsigned_less [of count, where ?'a = nat] by (simp add: unsigned_ucast_eq take_bit_nat_eq_self)
  have sz: "(ucast count :: u64) < MAX_TALLOC_SIZE" "(ucast count :: u64) \<noteq> 0"
    using cnt u by (simp_all add: word_less_nat_alt MAX_TALLOC_SIZE_def flip: unat_0_iff)
  obtain s1 where s1: "talloc_realloc D n stay NULL p (ucast count) (Name ''char'') s = Some (q, s1)"
      "forest s1 (moved_forest p q K)"
      "s1 = (moved_block p q s)\<lparr>chunks := (moved_heap p q (chunks s))(q \<mapsto> c\<lparr>tc_size := ucast count, tc_name := Name ''char''\<rparr>)\<rparr>"
    using talloc_realloc_correct [OF F p sz(2,1) ok q] by blast
  have N: "p \<noteq> NULL" "q \<noteq> NULL" "q = p \<or> chunks s q = None"
    using q p(1) forest_NULL [OF F] forest_brk [OF F] by (auto intro!: gr0I)
  let ?s2 = "s1\<lparr>contents := (contents s1)(p := None,
    q := map_option (\<lambda>bs. take (unat count) bs @ replicate (unat count - length bs) None) (contents s p))\<rparr>"
  have "realloc_text D n stay p count s = Some (q, ?s2)"
    using s1(1) sz(1) N by (simp add: realloc_text_def talloc_realloc_array_def array_too_big_def not_le)
  moreover have "block_bytes q ?s2 = Some (resized (unat count) bs)"
    using bs p(1) u by (cases "contents s p") (auto simp: block_bytes_def s1(3) moved_block_def resized_def simp flip: replicate_add)
  moreover have "texts_kept {p} s ?s2"
    using N by (auto simp: texts_kept_def block_bytes_def s1(3) moved_block_def moved_heap_def moved_size cong: option.case_cong)
  moreover have "dom (chunks ?s2) = insert q (dom (chunks s) - {p})"
    using N(3) p(1) by (auto simp: s1(3) moved_heap_def split: if_splits)
  ultimately show ?thesis using s1(2,3) by auto
qed

theorem talloc_append_string_correct:
  assumes F: "forest s K" and p: "chunks s p = Some c" "tc_refs c = NULL" "null_context s \<noteq> p"
    and str: "string_at p s = Some old" "0 \<notin> set str"
    and len: "length old + length str + 1 < 0x7FFFFFFF" and ok: "malloc_ok s (brk s)" and q: "q = (if stay then p else brk s)"
  shows "\<exists>s'. talloc_append_string D n stay p (Some str) s = Some (q, s') \<and> forest s' (moved_forest p q K) \<and>
    string_at q s' = Some (old @ str) \<and> map_option tc_name (chunks s' q) = Some (NameAt q) \<and> texts_kept {p} s s'"
proof -
  let ?n = "length old + length str + 1"
  let ?cnt = "of_nat (length old + (length str + 1)) :: u32"
  have cnt: "unat ?cnt = ?n" using len by (subst unsigned_of_nat) (simp add: take_bit_nat_eq_self)
  then have cnt': "?cnt \<noteq> 0" "unat ?cnt < 0x7FFFFFFF" using len by (auto simp flip: unat_0_iff)
  obtain bs where bs: "block_bytes p s = Some bs" "buffer_string bs = Some old" using str(1) by (auto simp: string_at_def bind_eq_Some_conv)
  obtain s1 c1 where s1: "realloc_text D n stay p ?cnt s = Some (q, s1)" "forest s1 (moved_forest p q K)"
      "chunks s1 q = Some c1" "block_bytes q s1 = Some (resized ?n bs)" "texts_kept {p} s s1"
      "dom (chunks s1) = insert q (dom (chunks s) - {p})"
    using realloc_text_correct [OF F p cnt' ok q bs(1), of D n] cnt by auto
  let ?R = "take (length old) (resized ?n bs) @ terminated str @ drop (length old + Suc (length str)) (resized ?n bs)"
  obtain s2 where s2: "do { s \<leftarrow> write_bytes q (length old) (terminated str) s1; s \<leftarrow> talloc_set_name_const q (NameAt q) s; Some (q, s) } = Some (q, s2)"
      "forest s2 (moved_forest p q K)" "block_bytes q s2 = Some ?R"
      "chunks s2 = (chunks s1)(q \<mapsto> c1\<lparr>tc_name := NameAt q\<rparr>)" "texts_kept {q} s1 s2"
    using write_and_name [OF s1(2,3,4), of "length old" str] by auto
  have N: "q \<noteq> NULL" "q = p \<or> q \<notin> dom (chunks s)" using q p(1) forest_NULL [OF F] forest_brk [OF F] by (auto intro!: gr0I)
  have "talloc_append_string D n stay p (Some str) s = Some (q, s2)"
    using s1(1) s2(1) N(1) by (simp add: talloc_append_string_def str(1) Let_def ac_simps)
  moreover have "take (length old) bs = map Some old"
    using arg_cong [OF buffer_string_prefix(1) [OF bs(2)], of "take (length old)"] by (simp add: terminated_def min_def)
  then have "?R = terminated (old @ str)" using buffer_string_prefix(2) [OF bs(2)] by (simp add: resized_def terminated_def min_def)
  then have "string_at q s2 = Some (old @ str)"
    using s2(3) buffer_string_terminated [of "old @ str" "[]"] buffer_string_prefix(3) [OF bs(2)] str(2) by (simp add: string_at_def)
  moreover have "texts_kept {p} s s2"
    using s1(5,6) s2(5) N(2) by (auto simp: texts_kept_def)
  ultimately show ?thesis using s2(2,4) by auto
qed

theorem talloc_asprintf_append_correct:
  assumes F: "forest s K" and p: "chunks s p = Some c" "tc_refs c = NULL" "null_context s \<noteq> p" "sized p s"
    and str: "string_at p s = Some old" "0 \<notin> set str" "str \<noteq> []"
    and len: "unat (tc_size c) + length str < 0x7FFFFFFF" and ok: "malloc_ok s (brk s)" and q: "q = (if stay then p else brk s)"
  shows "\<exists>s'. talloc_asprintf_append D n stay p (Some str) s = Some (q, s') \<and> forest s' (moved_forest p q K) \<and>
    string_at q s' = Some (if unat (tc_size c) = length old + 1 then old @ str else old) \<and>
    map_option tc_name (chunks s' q) = Some (NameAt q) \<and> texts_kept {p} s s'"
proof -
  define S where "S = unat (tc_size c)"
  note len = len [folded S_def]
  obtain bs where bs: "block_bytes p s = Some bs" "buffer_string bs = Some old" using str(1) by (auto simp: string_at_def bind_eq_Some_conv)
  have lb: "length bs = S" using block_bytes_length [OF p(4,1) bs(1)] by (simp add: S_def)
  then have S: "length old < S" using buffer_string_prefix(2) [OF bs(2)] by simp
  have "unat (tc_size c - 1) = S - 1" unfolding S_def using S by (intro unat_minus_one) (auto simp: S_def simp flip: unat_0_iff)
  then have w: "uint (tc_size c - 1) = int (S - 1)" by (metis uint_nat)
  have lt: "int (S - 1) < 2 ^ 31" using len by simp
  have "sint (ucast (tc_size c - 1) :: u32) = signed_take_bit 31 (uint (tc_size c - 1))" by (simp add: signed_ucast_eq)
  also have "\<dots> = int (S - 1)" unfolding w using lt by (intro signed_take_bit_int_eq_self) simp_all
  finally obtain sl where sl: "sint (ucast (tc_size c - 1) :: u32) = sl" "sl = int (S - 1)" by blast
  have sl': "sl + int (length str) + 1 = int (S + length str)" "\<not> sl < 0" "nat sl = S - 1" using sl(2) S by simp_all
  define cnt where "cnt = (word_of_int (sl + int (length str) + 1) :: u32)"
  have cnt0: "cnt = of_nat (S + length str)" unfolding cnt_def sl'(1) by (rule of_int_of_nat_eq)
  then have cnt: "unat cnt = S + length str" using len by (simp only: unsigned_of_nat) (simp add: take_bit_nat_eq_self)
  then have cnt': "cnt \<noteq> 0" "unat cnt < 0x7FFFFFFF" using len S by (auto simp flip: unat_0_iff)
  obtain s1 c1 where s1: "realloc_text D n stay p cnt s = Some (q, s1)" "forest s1 (moved_forest p q K)"
      "chunks s1 q = Some c1" "block_bytes q s1 = Some (resized (S + length str) bs)" "texts_kept {p} s s1"
      "dom (chunks s1) = insert q (dom (chunks s) - {p})"
    using realloc_text_correct [OF F p(1-3) cnt' ok q bs(1), of D n] cnt by auto
  let ?R = "take (S - 1) (resized (S + length str) bs) @ terminated str @ drop (S - 1 + Suc (length str)) (resized (S + length str) bs)"
  obtain s2 where s2: "do { s \<leftarrow> write_bytes q (S - 1) (terminated str) s1; s \<leftarrow> talloc_set_name_const q (NameAt q) s; Some (q, s) } = Some (q, s2)"
      "forest s2 (moved_forest p q K)" "block_bytes q s2 = Some ?R"
      "chunks s2 = (chunks s1)(q \<mapsto> c1\<lparr>tc_name := NameAt q\<rparr>)" "texts_kept {q} s1 s2"
    using write_and_name [OF s1(2,3,4), of "S - 1" str] S by auto
  have N: "p \<noteq> NULL" "q \<noteq> NULL" "q = p \<or> q \<notin> dom (chunks s)" using q p(1) forest_NULL [OF F] forest_brk [OF F] by (auto intro!: gr0I)
  have m: "talloc_chunk_from_ptr p s = Some c" using p(1) forest_chunk [OF F p(1)] by (simp add: heap_simps)
  have "talloc_asprintf_append D n stay p (Some str) s = Some (q, s2)"
    using s1(1) s2(1) N(1,2) m len sl' str(3)
    unfolding talloc_asprintf_append_def talloc_vasprintf_append_def m Option.bind.simps Let_def sl(1)
    by (simp del: of_int_add of_nat_add flip: cnt0)
  moreover have R: "?R = take (S - 1) bs @ terminated str" using lb S by (simp add: resized_def)
  have "buffer_string ?R = Some (if S = length old + 1 then old @ str else old)"
  proof (cases "S = length old + 1")
    case True
    then have "take (S - 1) bs = map Some old"
      using arg_cong [OF buffer_string_prefix(1) [OF bs(2)], of "take (length old)"] by (simp add: terminated_def min_def)
    then have "?R = terminated (old @ str)" unfolding R by (simp add: terminated_def)
    with True show ?thesis using buffer_string_terminated [of "old @ str" "[]"] buffer_string_prefix(3) [OF bs(2)] str(2) by simp
  next
    case False
    then have "Suc (length old) \<le> S - 1" using S by simp
    then have "take (S - 1) bs = terminated old @ take (S - 1 - Suc (length old)) (drop (Suc (length old)) bs)"
      using buffer_string_prefix(1) [OF bs(2)] by (metis le_add_diff_inverse take_add)
    then show ?thesis unfolding R using False buffer_string_terminated [OF buffer_string_prefix(3) [OF bs(2)]] by simp
  qed
  then have "string_at q s2 = Some (if S = length old + 1 then old @ str else old)" using s2(3) by (simp add: string_at_def)
  moreover have "texts_kept {p} s s2"
    using s1(5,6) s2(5) N(3) by (auto simp: texts_kept_def)
  ultimately show ?thesis using s2(2,4) by (auto simp: S_def)
qed

section \<open>Formatted strings and names\<close>

theorem talloc_vasprintf_correct:
  assumes F: "forest s K" and ctx: "context_of t s = NULL \<or> context_of t s \<in> dom (chunks s)"
    and len: "int (length str) + 1 < 0x7FFFFFFF" "0 \<notin> set str" and ok: "malloc_ok s (brk s)" and new: "contents s (brk s) = None"
  shows "\<exists>s' c. talloc_vasprintf t (Some str) s = Some (brk s, s') \<and> forest s' (alloc_under (context_of t s) (brk s) K) \<and>
    string_at (brk s) s' = Some str \<and> chunks s' (brk s) = Some c \<and> tc_name c = NameAt (brk s) \<and> texts_kept {} s s' \<and>
    dom (chunks s') = insert (brk s) (dom (chunks s))"
proof -
  let ?b = "brk s"
  have sz: "(of_nat (length str + 1) :: u64) < MAX_TALLOC_SIZE" using len(1) by (intro size_of_length) simp
  obtain s1 where s1: "talloc_internal t (of_nat (length str + 1)) s = Some (?b, s1)"
      "forest s1 (alloc_under (context_of t s) ?b K)"
      "allocates ?b (NULL, D_null, NoName, of_nat (length str + 1), TALLOC_MAGIC) s s1"
    using talloc_internal_forest [OF F ctx sz ok] by blast
  obtain c where c: "chunks s1 ?b = Some c" "tc_size c = of_nat (length str + 1)" using allocates_chunk [OF s1(3)] by blast
  have b: "0 < ?b" "chunks s ?b = None" using forest_brk [OF F] by simp_all
  have "contents s1 = contents s" using s1(3) by (intro contents_more) (simp add: allocates_def)
  moreover have "unat (of_nat (length str + 1) :: u64) = length str + 1"
    using len(1) by (simp only: unsigned_of_nat) (simp add: take_bit_nat_eq_self)
  ultimately have R: "block_bytes ?b s1 = Some (replicate (length str + 1) None)"
    using c new by (simp add: block_bytes_def del: replicate_Suc)
  have "0 + length str < length (replicate (length str + 1) None)" by simp
  from write_and_name [OF s1(2) c(1) R this] obtain s2 where
    s2: "do { s \<leftarrow> write_bytes ?b 0 (terminated str) s1; s \<leftarrow> talloc_set_name_const ?b (NameAt ?b) s; Some (?b, s) } = Some (?b, s2)"
      "forest s2 (alloc_under (context_of t s) ?b K)" "block_bytes ?b s2 = Some (terminated str)"
      "chunks s2 = (chunks s1)(?b \<mapsto> c\<lparr>tc_name := NameAt ?b\<rparr>)" "texts_kept {?b} s1 s2"
    by auto
  have "talloc_vasprintf t (Some str) s = Some (?b, s2)"
    using s1(1) s2(1) b(1) len(1) by (simp add: talloc_vasprintf_def)
  moreover have "string_at ?b s2 = Some str"
    using s2(3) buffer_string_terminated [OF len(2), of "[]"] by (simp add: string_at_def)
  moreover have "dom (chunks s1) = insert ?b (dom (chunks s))" using allocates_dom [OF s1(3)] .
  moreover from this have "texts_kept {} s s2"
    using allocates_bytes [OF s1(3) _ b(2)] s2(5) b(2) by (auto simp: texts_kept_def)
  ultimately show ?thesis using s2(2,4) by auto
qed

theorem talloc_set_name_correct:
  assumes F: "forest s K" and p: "p \<in> dom (chunks s)"
    and len: "int (length str) + 1 < 0x7FFFFFFF" "0 \<notin> set str" and ok: "malloc_ok s (brk s)" and new: "contents s (brk s) = None"
  shows "\<exists>s'. talloc_set_name p (Some str) s = Some (brk s, s') \<and> forest s' (attach p (brk s) K) \<and>
    talloc_get_name (text_at s') p s' = Some (map (\<lambda>b. char_of (unat b)) str) \<and>
    talloc_get_name (text_at s') (brk s) s' = Some ''.name''"
proof -
  let ?b = "brk s"
  have pN: "p \<noteq> NULL" "p \<noteq> ?b" "context_of p s = p" using p forest_NULL [OF F] forest_brk [OF F] by (auto simp: context_of_def intro!: gr0I)
  obtain s1 c where s1: "talloc_vasprintf p (Some str) s = Some (?b, s1)" "forest s1 (attach p ?b K)"
      "string_at ?b s1 = Some str" "chunks s1 ?b = Some c" "tc_name c = NameAt ?b"
      "dom (chunks s1) = insert ?b (dom (chunks s))"
    using talloc_vasprintf_correct [OF F _ len ok new, of p] p pN by (auto simp: alloc_under_def)
  obtain cp where cp: "chunks s1 p = Some cp" using s1(6) p by auto
  obtain c0 where c0: "chunks s p = Some c0" using p by auto
  have m: "magic_ok (tc_flags cp)" "magic_ok (tc_flags c)" "magic_ok (tc_flags c0)"
    using forest_chunk [OF s1(2)] cp s1(4) forest_chunk [OF F c0] by auto
  let ?s2 = "s1\<lparr>chunks := (chunks s1)(p \<mapsto> cp\<lparr>tc_name := NameAt ?b\<rparr>)\<rparr>"
  let ?s3 = "?s2\<lparr>chunks := (chunks ?s2)(?b \<mapsto> c\<lparr>tc_name := Name ''.name''\<rparr>)\<rparr>"
  have F2: "forest ?s2 (attach p ?b K)" using m by (intro forest_upd_data [OF s1(2) cp]) (simp_all add: links_def)
  have c2: "chunks ?s2 ?b = Some c" using s1(4) pN by simp
  note set_name_const_forest [OF F2 c2, of "Name ''.name''"]
  then have "talloc_set_name p (Some str) s = Some (?b, ?s3)" "forest ?s3 (attach p ?b K)"
    using s1(1) cp c0 m forest_brk(1) [OF F] by (simp_all add: talloc_set_name_def talloc_set_name_v_def heap_simps)
  moreover have "string_at ?b ?s3 = Some str"
    using s1(3,4) pN by (simp add: string_at_def block_bytes_def cong: option.case_cong)
  then have "talloc_get_name (text_at ?s3) p ?s3 = Some (map (\<lambda>b. char_of (unat b)) str)"
    using m pN by (simp add: talloc_get_name_def text_at_def heap_simps)
  moreover have "talloc_get_name (text_at ?s3) ?b ?s3 = Some ''.name''"
    using m by (simp add: talloc_get_name_def heap_simps)
  ultimately show ?thesis by blast
qed

section \<open>A string that grows\<close>

lemma allocates_frame:
  assumes "allocates p d s s'"
  shows "null_context s' = null_context s" "malloc_ok s' = malloc_ok s" "brk s' = Suc (brk s)" "p = brk s"
  using assms by (simp_all add: allocates_def)

theorem strdup_append_correct:
  assumes F: "forest s K" and ctx: "context_of t s = NULL \<or> context_of t s \<in> dom (chunks s)"
    and len: "int (length a + length b) + 1 < 0x7FFFFFFF" "0 \<notin> set a" "0 \<notin> set b" and ok: "\<forall>p. malloc_ok s p"
  shows "\<exists>s1 q s2. talloc_strdup t (Some a) s = Some (brk s, s1) \<and> talloc_append_string D n stay (brk s) (Some b) s1 = Some (q, s2) \<and>
    string_at q s2 = Some (a @ b) \<and> talloc_get_name (text_at s2) q s2 = Some (map (\<lambda>b. char_of (unat b)) (a @ b)) \<and>
    texts_kept {} s s2"
proof -
  let ?b = "brk s"
  have len1: "int (length a) + 1 < 0x7FFFFFFF" using len(1) by simp
  obtain s1 where s1: "talloc_strdup t (Some a) s = Some (?b, s1)" "forest s1 (alloc_under (context_of t s) ?b K)"
      "string_at ?b s1 = Some a" "texts_kept {} s s1"
      "allocates ?b (NULL, D_null, NameAt ?b, of_nat (length (a @ [0])), TALLOC_MAGIC) (s\<lparr>contents := contents s1\<rparr>) s1"
    using talloc_strdup_correct [OF F ctx len1 len(2)] ok by blast
  obtain c where c: "chunks s1 ?b = Some c" "tc_refs c = NULL" using allocates_chunk [OF s1(5)] by blast
  have dom1: "dom (chunks s1) = insert ?b (dom (chunks s))" using allocates_dom [OF s1(5)] by simp
  have nc: "null_context s1 \<noteq> ?b"
    using allocates_frame(1) [OF s1(5)] forest_null_context [OF F] forest_brk [OF F] by auto
  have ok1: "malloc_ok s1 (brk s1)" using allocates_frame(2) [OF s1(5)] ok by simp
  have len2: "length a + length b + 1 < 0x7FFFFFFF" using len(1) by linarith
  obtain s2 where s2: "talloc_append_string D n stay ?b (Some b) s1 = Some (if stay then ?b else brk s1, s2)"
      "forest s2 (moved_forest ?b (if stay then ?b else brk s1) (alloc_under (context_of t s) ?b K))"
      "string_at (if stay then ?b else brk s1) s2 = Some (a @ b)"
      "map_option tc_name (chunks s2 (if stay then ?b else brk s1)) = Some (NameAt (if stay then ?b else brk s1))"
      "texts_kept {?b} s1 s2"
    using talloc_append_string_correct [OF s1(2) c nc s1(3) len(3) len2 ok1 refl, of D n stay] by blast
  let ?q = "if stay then ?b else brk s1"
  obtain d where d: "chunks s2 ?q = Some d" "tc_name d = NameAt ?q" using s2(4) by auto
  have "talloc_get_name (text_at s2) ?q s2 = Some (map (\<lambda>b. char_of (unat b)) (a @ b))"
    using d forest_chunk [OF s2(2) d(1)] s2(3) by (simp add: talloc_get_name_def text_at_def chunk_from_ptr_Some)
  moreover have "texts_kept {} s s2"
    using s1(4) s2(5) dom1 forest_brk(2) [OF F] by (auto simp: texts_kept_def)
  ultimately show ?thesis using s1(1) s2(1,3) by blast
qed

end
