(* ===== verification/Talloc_Report.thy ===== *)
theory Talloc_Report
  imports Talloc_Free
begin

text \<open>
  The walks over a tree of blocks: \<open>_talloc_report_depth_cb\<close>, and the theorems that
  \<open>_talloc_total_size\<close>, \<open>_talloc_total_blocks\<close> and the report see every block below a block once,
  in the order of the sibling lists, and leave the heap as it was.
\<close>

section \<open>The report\<close>

text \<open>
  A callback is given the block, its depth, \<open>max_depth\<close> and \<open>is_ref\<close>; its private data is part of the
  state. The first argument bounds the nested and repeated calls.
\<close>

type_synonym 's report_callback = "ptr \<Rightarrow> int \<Rightarrow> int \<Rightarrow> bool \<Rightarrow> 's \<Rightarrow> 's option"

fun report_depth :: "'a talloc_heap_scheme report_callback \<Rightarrow> nat \<Rightarrow> ptr \<Rightarrow> int \<Rightarrow> int \<Rightarrow>
      'a talloc_heap_scheme \<Rightarrow> 'a talloc_heap_scheme option"
  and report_children :: "'a talloc_heap_scheme report_callback \<Rightarrow> nat \<Rightarrow> ptr \<Rightarrow> int \<Rightarrow> int \<Rightarrow>
      'a talloc_heap_scheme \<Rightarrow> 'a talloc_heap_scheme option" where
  "report_depth callback 0 p depth max_depth s = None"
| "report_depth callback (Suc n) p depth max_depth s = do {
     tc \<leftarrow> talloc_chunk_from_ptr p s;
     if tc_flags tc AND TALLOC_FLAG_LOOP \<noteq> 0 then Some s
     else do {
       s \<leftarrow> callback p depth max_depth False s;
       if max_depth \<ge> 0 \<and> depth \<ge> max_depth then Some s
       else do {
         s \<leftarrow> upd_chunk p (\<lambda>c. c\<lparr>tc_flags := tc_flags c OR TALLOC_FLAG_LOOP\<rparr>) s;
         tc \<leftarrow> chunks s p;
         s \<leftarrow> report_children callback n (tc_child tc) depth max_depth s;
         upd_chunk p (\<lambda>c. c\<lparr>tc_flags := tc_flags c AND NOT TALLOC_FLAG_LOOP\<rparr>) s } } }"
| "report_children callback 0 c depth max_depth s = None"
| "report_children callback (Suc n) c depth max_depth s =
     (if c = NULL then Some s
      else do {
        tc \<leftarrow> chunks s c;
        s \<leftarrow> (if tc_name tc = MagicReference then do {
                h \<leftarrow> handles s c;
                callback (h_ptr h) (depth + 1) max_depth True s }
              else report_depth callback n c (depth + 1) max_depth s);
        tc \<leftarrow> chunks s c;
        report_children callback n (tc_next tc) depth max_depth s })"

definition talloc_report_depth_cb ::
  "nat \<Rightarrow> ptr \<Rightarrow> int \<Rightarrow> int \<Rightarrow> 'a talloc_heap_scheme report_callback \<Rightarrow> 'a talloc_heap_scheme \<Rightarrow>
   'a talloc_heap_scheme option" where
  "talloc_report_depth_cb n p depth max_depth callback s =
     (let p = (if p = NULL then null_context s else p)
      in if p = NULL then Some s else report_depth callback n p depth max_depth s)"

text \<open>\<open>talloc_show_parents\<close>: the names it prints, from the context up.\<close>

partial_function (option) show_parents_loop ::
  "(ptr \<Rightarrow> string option) \<Rightarrow> ptr \<Rightarrow> string list \<Rightarrow> 'a talloc_heap_scheme \<Rightarrow> string list option" where
  "show_parents_loop text tc lines s =
     (if tc = NULL then Some lines
      else do {
        name \<leftarrow> talloc_get_name text tc s;
        f \<leftarrow> first_sibling tc s;
        c \<leftarrow> chunks s f;
        show_parents_loop text (tc_parent c) (lines @ [name]) s })"

definition talloc_show_parents ::
  "(ptr \<Rightarrow> string option) \<Rightarrow> ptr \<Rightarrow> 'a talloc_heap_scheme \<Rightarrow> (string \<times> string list) option option" where
  "talloc_show_parents text context s =
     (if context = NULL then Some None
      else do {
        _ \<leftarrow> talloc_chunk_from_ptr context s;
        name \<leftarrow> talloc_get_name text context s;
        lines \<leftarrow> show_parents_loop text context [] s;
        Some (Some (name, lines)) })"

section \<open>Marking a block\<close>

text \<open>The state while the children of \<open>p\<close> are visited.\<close>

definition marked :: "ptr \<Rightarrow> 'a talloc_heap_scheme \<Rightarrow> 'a talloc_heap_scheme" where
  "marked p s = s\<lparr>chunks := (chunks s)(p := map_option (\<lambda>c. c\<lparr>tc_flags := tc_flags c OR TALLOC_FLAG_LOOP\<rparr>) (chunks s p))\<rparr>"

lemma mark_step:
  assumes "chunks s p = Some c"
  shows "upd_chunk p (\<lambda>c. c\<lparr>tc_flags := tc_flags c OR TALLOC_FLAG_LOOP\<rparr>) s = Some (marked p s)"
  using assms by (simp add: marked_def heap_simps)

lemma unmark_step:
  assumes "chunks s p = Some c" "tc_flags c AND TALLOC_FLAG_LOOP = 0"
  shows "upd_chunk p (\<lambda>c. c\<lparr>tc_flags := tc_flags c AND NOT TALLOC_FLAG_LOOP\<rparr>) (marked p s) = Some s"
proof -
  have "(tc_flags c OR TALLOC_FLAG_LOOP) AND NOT TALLOC_FLAG_LOOP = tc_flags c"
  proof (rule bit_word_eqI)
    fix n :: nat assume n: "n < LENGTH(32)"
    have "\<not> (bit (tc_flags c) n \<and> bit TALLOC_FLAG_LOOP n)" using assms(2) by (metis bit_0_eq bit_and_iff bot_apply bot_bool_def)
    with n show "bit ((tc_flags c OR TALLOC_FLAG_LOOP) AND NOT TALLOC_FLAG_LOOP) n = bit (tc_flags c) n"
      by (auto simp: bit_or_iff bit_and_iff bit_not_iff)
  qed
  moreover have "(chunks s)(p \<mapsto> c) = chunks s" using assms(1) by auto
  ultimately show ?thesis using assms(1) by (simp add: marked_def heap_simps)
qed

lemma marked_chunk:
  "q \<noteq> p \<Longrightarrow> chunks (marked p s) q = chunks s q"
  "map_option tc_child (chunks (marked p s) q) = map_option tc_child (chunks s q)"
  "map_option tc_name (chunks (marked p s) q) = map_option tc_name (chunks s q)"
  "handles (marked p s) = handles s"
  by (auto simp: marked_def option.map_comp comp_def)

lemma forest_marked: "forest s K \<Longrightarrow> forest (marked p s) K"
proof (cases "chunks s p")
  case (Some c)
  assume F: "forest s K"
  show ?thesis
    using forest_chunk [OF F Some] magic_ok_LOOP
    unfolding marked_def Some option.map by (intro forest_upd_data [OF F Some]) (simp_all add: links_def)
qed (simp add: marked_def fun_upd_idem)

section \<open>Totals\<close>

definition unmarked :: "'a talloc_heap_scheme \<Rightarrow> blocks \<Rightarrow> bool" where
  "unmarked s T \<longleftrightarrow> distinct (members T) \<and>
     (\<forall>p \<in> set (members T). \<exists>c. chunks s p = Some c \<and> tc_flags c AND TALLOC_FLAG_LOOP = 0)"

lemma unmarked_sub:
  assumes "unmarked s (Blocks p ts)" "t \<in> set ts"
  shows "unmarked (marked p s) t"
proof -
  obtain us vs where ts: "ts = us @ t # vs" using assms(2) by (auto dest: split_list)
  have "q \<noteq> p" if "q \<in> set (members t)" for q using assms(1) that by (auto simp: unmarked_def ts)
  then show ?thesis using assms(1) by (simp add: unmarked_def ts marked_chunk(1))
qed

lemma total_list_correct:
  assumes IH: "\<And>t m. t \<in> set ts \<Longrightarrow> 2 * length (members t) \<le> m \<Longrightarrow>
      talloc_total w m (top t) s = Some (sum_list (map (\<lambda>p. w (the (chunks s p))) (members t)), s)"
    and d: "dllseg (chunks s) par prv (map top ts) NULL" and N: "NULL \<notin> set (map top ts)"
    and n: "2 * length (concat (map members ts)) < n"
  shows "talloc_total_list w n (head_ptr (map top ts)) s =
    Some (sum_list (map (\<lambda>p. w (the (chunks s p))) (concat (map members ts))), s)"
  using assms
proof (induction ts arbitrary: par prv n)
  case Nil
  then show ?case by (cases n) auto
next
  case (Cons t ts)
  obtain m where m: "n = Suc m" using Cons.prems(4) by (cases n) auto
  have l: "2 * length (members t) \<le> m" "2 * length (concat (map members ts)) < m"
    using Cons.prems(4) members_pos [of t] by (simp_all add: m del: length_greater_0_conv)
  obtain c where c: "chunks s (top t) = Some c" "tc_next c = head_ptr (map top ts)"
    using Cons.prems(2) by (auto split: option.splits if_splits)
  have "talloc_total_list w m (head_ptr (map top ts)) s =
      Some (sum_list (map (\<lambda>p. w (the (chunks s p))) (concat (map members ts))), s)"
    using Cons.prems(1-3) l(2) by (intro Cons.IH [of NULL "top t"]) (auto split: option.splits)
  with Cons.prems(1) [of t m] l(1) c Cons.prems(3) show ?case by (simp add: m)
qed

theorem talloc_total_tree:
  assumes "forest s K" "holds K T" "unmarked s T" "2 * length (members T) \<le> n"
    and w: "\<And>c f. w (c\<lparr>tc_flags := f\<rparr>) = w c"
  shows "talloc_total w n (top T) s = Some (sum_list (map (\<lambda>p. w (the (chunks s p))) (members T)), s)"
  using assms(1-4)
proof (induction T arbitrary: s n)
  case (Blocks p ts)
  obtain c where c: "chunks s p = Some c" "tc_flags c AND TALLOC_FLAG_LOOP = 0" using Blocks.prems(3) by (auto simp: unmarked_def)
  obtain m where m: "n = Suc m" "2 * length (concat (map members ts)) < m" using Blocks.prems(4) by (cases n) auto
  have k: "K p = map top ts" "\<forall>t \<in> set ts. holds K t" using Blocks.prems(2) by simp_all
  have mag: "magic_ok (tc_flags c)" "tc_child c = head_ptr (map top ts)" using forest_chunk [OF Blocks.prems(1) c(1)] k by simp_all
  note F = forest_marked [OF Blocks.prems(1), of p]
  let ?ps = "concat (map members ts)"
  have p: "p \<notin> set ?ps" using Blocks.prems(3) by (simp add: unmarked_def)
  have "talloc_total_list w m (head_ptr (map top ts)) (marked p s) =
      Some (sum_list (map (\<lambda>q. w (the (chunks (marked p s) q))) ?ps), marked p s)"
  proof (rule total_list_correct)
    show "dllseg (chunks (marked p s)) p NULL (map top ts) NULL" using forest_dll [OF F, of p] k by simp
    show "NULL \<notin> set (map top ts)" using forest_kids_dom [OF F, of NULL p] k by auto
    show "talloc_total w m (top t) (marked p s) = Some (sum_list (map (\<lambda>q. w (the (chunks (marked p s) q))) (members t)), marked p s)"
      if "t \<in> set ts" "2 * length (members t) \<le> m" for t m
      using Blocks.IH [OF that(1) F _ unmarked_sub [OF Blocks.prems(3) that(1)] that(2)] k(2) that(1) by simp
  qed (rule m(2))
  moreover have "map (\<lambda>q. w (the (chunks (marked p s) q))) ?ps = map (\<lambda>q. w (the (chunks s q))) ?ps"
    using p by (intro map_cong refl) (metis marked_chunk(1))
  ultimately show ?case
    using c mag unmark_step [OF c] mark_step [OF c(1)] w by (simp add: m(1) heap_simps)
qed

section \<open>What a report shows\<close>

definition is_handle :: "'a talloc_heap_scheme \<Rightarrow> ptr \<Rightarrow> bool" where
  "is_handle s p \<longleftrightarrow> map_option tc_name (chunks s p) = Some MagicReference"

text \<open>
  The entries in the order of the report: a block, its depth, and whether the entry is the
  target of a reference. A handle stands for what it refers to; nothing is listed below it.
\<close>

fun listing :: "'a talloc_heap_scheme \<Rightarrow> int \<Rightarrow> int \<Rightarrow> blocks \<Rightarrow> (ptr \<times> int \<times> bool) list" where
  "listing s m d (Blocks p ts) = (p, d, False) #
     (if 0 \<le> m \<and> m \<le> d then []
      else concat (map (\<lambda>t. if is_handle s (top t) then [(h_ptr (the (handles s (top t))), d + 1, True)]
                             else listing s m (d + 1) t) ts))"

abbreviation child_entries :: "'a talloc_heap_scheme \<Rightarrow> int \<Rightarrow> int \<Rightarrow> blocks \<Rightarrow> (ptr \<times> int \<times> bool) list" where
  "child_entries s m d t \<equiv> (if is_handle s (top t) then [(h_ptr (the (handles s (top t))), d + 1, True)] else listing s m (d + 1) t)"

lemma is_handle_cong: "map_option tc_name \<circ> chunks s' = map_option tc_name \<circ> chunks s \<Longrightarrow> is_handle s' = is_handle s"
  by (simp add: is_handle_def fun_eq_iff)

lemma listing_cong:
  assumes "is_handle s' = is_handle s" "handles s' = handles s"
  shows "listing s' m d T = listing s m d T"
  using assms by (induction T arbitrary: d) (auto intro!: arg_cong [where f = concat] map_cong)

text \<open>A callback that only touches its private data, and what it makes of a list of entries.\<close>

definition only_tells :: "'a talloc_heap_scheme report_callback \<Rightarrow> (ptr \<Rightarrow> int \<Rightarrow> bool \<Rightarrow> 'a \<Rightarrow> 'a) \<Rightarrow> bool" where
  "only_tells callback f \<longleftrightarrow> (\<forall>p d m r s. callback p d m r s = Some (talloc_heap.more_update (f p d r) s))"

definition told :: "(ptr \<Rightarrow> int \<Rightarrow> bool \<Rightarrow> 'a \<Rightarrow> 'a) \<Rightarrow> (ptr \<times> int \<times> bool) list \<Rightarrow> 'a talloc_heap_scheme \<Rightarrow> 'a talloc_heap_scheme" where
  "told f es s = talloc_heap.more_update (fold (\<lambda>(p, d, r). f p d r) es) s"

lemma told_simps [simp]:
  "told f [] s = s" "told f es (told f es' s) = told f (es' @ es) s"
  "chunks (told f es s) = chunks s" "handles (told f es s) = handles s"
  "talloc_chunk_from_ptr p (told f es s) = talloc_chunk_from_ptr p s"
  "upd_chunk p g (told f es s) = map_option (told f es) (upd_chunk p g s)"
  by (auto simp: told_def talloc_chunk_from_ptr_def upd_chunk_def split: option.splits bind_splits)

lemma tell_step: "only_tells callback f \<Longrightarrow> callback p d m r (told f es s) = Some (told f (es @ [(p, d, r)]) s)"
  by (simp add: only_tells_def told_def comp_def)

lemma report_children_correct:
  assumes cb: "only_tells callback f"
    and IH: "\<And>t k es. t \<in> set ts \<Longrightarrow> 2 * length (members t) \<le> k \<Longrightarrow>
      report_depth callback k (top t) (d + 1) m (told f es s) = Some (told f (es @ listing s m (d + 1) t) s)"
    and D: "dllseg (chunks s) par prv (map top ts) NULL" and N: "NULL \<notin> set (map top ts)"
    and H: "\<forall>t \<in> set ts. is_handle s (top t) \<longrightarrow> handles s (top t) \<noteq> None"
    and n: "2 * length (concat (map members ts)) < n"
  shows "report_children callback n (head_ptr (map top ts)) d m (told f es s) =
    Some (told f (es @ concat (map (child_entries s m d) ts)) s)"
  using assms(2-)
proof (induction ts arbitrary: par prv n es)
  case Nil
  then show ?case by (cases n) auto
next
  case (Cons t ts)
  obtain k where k: "n = Suc k" using Cons.prems(5) by (cases n) auto
  have l: "2 * length (members t) \<le> k" "2 * length (concat (map members ts)) < k"
    using Cons.prems(5) members_pos [of t] by (simp_all add: k del: length_greater_0_conv)
  obtain c where c: "chunks s (top t) = Some c" "tc_next c = head_ptr (map top ts)"
    using Cons.prems(2) by (auto split: option.splits if_splits)
  have rest: "report_children callback k (head_ptr (map top ts)) d m (told f es' s) =
      Some (told f (es' @ concat (map (child_entries s m d) ts)) s)" for es'
    using Cons.prems l(2) by (intro Cons.IH [of NULL "top t"]) (auto split: option.splits)
  have h: "is_handle s (top t) \<longleftrightarrow> tc_name c = MagicReference" using c(1) by (simp add: is_handle_def)
  show ?case
  proof (cases "tc_name c = MagicReference")
    case True
    with h Cons.prems(4) obtain x where "handles s (top t) = Some x" by auto
    with True h c Cons.prems(3) rest tell_step [OF cb] show ?thesis by (simp add: k)
  next
    case False
    with h c Cons.prems(3) Cons.prems(1) [of t k es] l(1) rest show ?thesis by (simp add: k)
  qed
qed

theorem report_tree:
  assumes cb: "only_tells callback f"
    and "forest s K" "holds K T" "unmarked s T" "2 * length (members T) \<le> n"
    and "\<forall>p \<in> set (members T). is_handle s p \<longrightarrow> handles s p \<noteq> None"
  shows "report_depth callback n (top T) d m (told f es s) = Some (told f (es @ listing s m d T) s)"
  using assms(2-)
proof (induction T arbitrary: s n d es)
  case (Blocks p ts)
  obtain c where c: "chunks s p = Some c" "tc_flags c AND TALLOC_FLAG_LOOP = 0" using Blocks.prems(3) by (auto simp: unmarked_def)
  obtain k where n: "n = Suc k" "2 * length (concat (map members ts)) < k" using Blocks.prems(4) by (cases n) auto
  have k: "K p = map top ts" "\<forall>t \<in> set ts. holds K t" using Blocks.prems(2) by simp_all
  have mag: "magic_ok (tc_flags c)" using forest_chunk [OF Blocks.prems(1) c(1)] by simp
  note F = forest_marked [OF Blocks.prems(1), of p]
  have H: "is_handle (marked p s) = is_handle s" by (simp add: is_handle_def fun_eq_iff marked_chunk)
  have L: "listing (marked p s) = listing s" by (intro ext listing_cong H) (simp add: marked_chunk)
  show ?case
  proof (cases "0 \<le> m \<and> m \<le> d")
    case True
    with c mag tell_step [OF cb] show ?thesis by (simp add: n(1) heap_simps)
  next
    case False
    obtain c' where c': "chunks (marked p s) p = Some c'" "tc_child c' = head_ptr (map top ts)"
      using c(1) forest_chunk [OF Blocks.prems(1) c(1)] k(1) by (auto simp: marked_def)
    have "report_children callback k (head_ptr (map top ts)) d m (told f (es @ [(p, d, False)]) (marked p s)) =
        Some (told f ((es @ [(p, d, False)]) @ concat (map (child_entries (marked p s) m d) ts)) (marked p s))"
    proof (rule report_children_correct [OF cb])
      show "dllseg (chunks (marked p s)) p NULL (map top ts) NULL" using forest_dll [OF F, of p] k by simp
      show "NULL \<notin> set (map top ts)" using forest_kids_dom [OF F, of NULL p] k by auto
      show "report_depth callback j (top t) (d + 1) m (told f es' (marked p s)) =
          Some (told f (es' @ listing (marked p s) m (d + 1) t) (marked p s))"
        if "t \<in> set ts" "2 * length (members t) \<le> j" for t j es'
        using Blocks.prems(5) k(2) that(1)
        by (intro Blocks.IH [OF that(1) F _ unmarked_sub [OF Blocks.prems(3) that(1)] that(2)])
          (auto simp: H marked_chunk)
      show "\<forall>t \<in> set ts. is_handle (marked p s) (top t) \<longrightarrow> handles (marked p s) (top t) \<noteq> None"
        using Blocks.prems(5) top_member by (fastforce simp: H marked_chunk)
    qed (rule n(2))
    moreover have "map (child_entries (marked p s) m d) ts = map (child_entries s m d) ts"
      by (simp add: H L marked_chunk cong: if_cong)
    moreover have "listing s m d (Blocks p ts) = (p, d, False) # concat (map (child_entries s m d) ts)"
      using False by (simp del: de_Morgan_conj)
    ultimately show ?thesis
      using c c' mag unmark_step [OF c] mark_step [OF c(1)] tell_step [OF cb] False
      by (simp add: n(1) heap_simps del: listing.simps de_Morgan_conj)
  qed
qed

end
