(* ===== verification/Talloc_Process.thy ===== *)
theory Talloc_Process
  imports Talloc_Text Talloc_Report
begin

text \<open>
  The parts of \<^verbatim>\<open>talloc.c\<close> that touch more of the process than the heap: reports written to a
  stream, functions registered with \<open>atexit\<close>, the autofree context, and the pointer variables that
  \<open>_talloc_move\<close> and \<open>_talloc_set\<close> write to.
\<close>

section \<open>State\<close>

text \<open>One constructor for each format of \<open>talloc_report_depth_FILE_helper\<close> and \<open>talloc_show_parents\<close>.\<close>

datatype report_line =
    Reference_line int string
  | Report_head bool string u64 u64
  | Block_line int string u64 u64 int ptr
  | No_parents | Parents_head string | Parent_line string

datatype exit_function = Report_null | Report_null_full | Autofree

text \<open>A pointer variable of the client; \<open>Invalid\<close> is \<open>(void *)1\<close>.\<close>

datatype pointer = Pointer ptr | Invalid

text \<open>
  \<open>pids\<close> and \<open>targets\<close> hold what the blocks of the autofree context and of \<open>_talloc_set\<close> contain: a
  process id and the address of a variable. \<open>at_exit\<close> has the function registered last in front.
\<close>

record process = text_heap +
  stream :: "report_line list"
  at_exit :: "exit_function list"
  autofree_context :: ptr
  pids :: "ptr \<rightharpoonup> int"
  pid :: int
  variables :: "ptr \<rightharpoonup> pointer"
  targets :: "ptr \<rightharpoonup> ptr"

section \<open>Reports to a stream\<close>

definition print_line :: "report_line \<Rightarrow> 'a process_scheme \<Rightarrow> 'a process_scheme" where
  "print_line l s = s\<lparr>stream := stream s @ [l]\<rparr>"

definition report_FILE_helper :: "nat \<Rightarrow> 'a process_scheme report_callback" where
  "report_FILE_helper n p depth max_depth is_ref s = do {
     name \<leftarrow> talloc_get_name (text_at s) p s;
     if is_ref then Some (print_line (Reference_line (depth * 4) name) s)
     else do {
       (bytes, s) \<leftarrow> talloc_total tc_size n p s;
       (blocks, s) \<leftarrow> talloc_total_blocks n p s;
       if depth = 0 then Some (print_line (Report_head (max_depth < 0) name bytes blocks) s)
       else do {
         refs \<leftarrow> talloc_reference_count p s;
         Some (print_line (Block_line (depth * 4) name bytes blocks (sint (ucast refs :: u32)) p) s) } } }"

definition talloc_report_depth_file :: "nat \<Rightarrow> ptr \<Rightarrow> int \<Rightarrow> int \<Rightarrow> 'a process_scheme \<Rightarrow> 'a process_scheme option" where
  "talloc_report_depth_file n p depth max_depth s = talloc_report_depth_cb n p depth max_depth (report_FILE_helper n) s"

definition talloc_report_full :: "nat \<Rightarrow> ptr \<Rightarrow> 'a process_scheme \<Rightarrow> 'a process_scheme option" where
  "talloc_report_full n p s = talloc_report_depth_file n p 0 (-1) s"

definition talloc_report :: "nat \<Rightarrow> ptr \<Rightarrow> 'a process_scheme \<Rightarrow> 'a process_scheme option" where
  "talloc_report n p s = talloc_report_depth_file n p 0 1 s"

definition talloc_report_null :: "nat \<Rightarrow> 'a process_scheme \<Rightarrow> 'a process_scheme option" where
  "talloc_report_null n s = do {
     (sz, s) \<leftarrow> talloc_total_size n (null_context s) s;
     if sz \<noteq> 0 then talloc_report n (null_context s) s else Some s }"

definition talloc_report_null_full :: "nat \<Rightarrow> 'a process_scheme \<Rightarrow> 'a process_scheme option" where
  "talloc_report_null_full n s = do {
     (sz, s) \<leftarrow> talloc_total_size n (null_context s) s;
     if sz \<noteq> 0 then talloc_report_full n (null_context s) s else Some s }"

definition show_parents_file :: "ptr \<Rightarrow> 'a process_scheme \<Rightarrow> 'a process_scheme option" where
  "show_parents_file context s = do {
     r \<leftarrow> talloc_show_parents (text_at s) context s;
     Some (case r of
         None \<Rightarrow> print_line No_parents s
       | Some (name, lines) \<Rightarrow> fold (\<lambda>l. print_line (Parent_line l)) lines (print_line (Parents_head name) s)) }"

section \<open>Registered functions\<close>

definition atexit :: "exit_function \<Rightarrow> 'a process_scheme \<Rightarrow> 'a process_scheme" where
  "atexit f s = s\<lparr>at_exit := f # at_exit s\<rparr>"

definition talloc_enable_leak_report :: "'a process_scheme \<Rightarrow> 'a process_scheme option" where
  "talloc_enable_leak_report s = do {
     s \<leftarrow> talloc_enable_null_tracking s;
     Some (atexit Report_null s) }"

definition talloc_enable_leak_report_full :: "'a process_scheme \<Rightarrow> 'a process_scheme option" where
  "talloc_enable_leak_report_full s = do {
     s \<leftarrow> talloc_enable_null_tracking s;
     Some (atexit Report_null_full s) }"

section \<open>Destructors of the library\<close>

text \<open>
  \<open>malloc\<close> never returns an address below \<open>getpagesize()\<close>, so \<open>talloc_destroy_pointer\<close> aborts for NULL
  and for \<open>(void *)1\<close>.
\<close>

definition talloc_destroy_pointer :: "ptr \<Rightarrow> 'a process_scheme \<Rightarrow> (int \<times> 'a process_scheme) option" where
  "talloc_destroy_pointer pptr s = do {
     v \<leftarrow> targets s pptr;
     x \<leftarrow> variables s v;
     case x of
       Invalid \<Rightarrow> None
     | Pointer p \<Rightarrow> if p = NULL then None else Some (0, s\<lparr>variables := (variables s)(v \<mapsto> Invalid)\<rparr>) }"

definition talloc_autofree_destructor :: "ptr \<Rightarrow> 'a process_scheme \<Rightarrow> (int \<times> 'a process_scheme) option" where
  "talloc_autofree_destructor p s = Some (0, s\<lparr>autofree_context := NULL\<rparr>)"

text \<open>The client's destructors \<open>D\<close> are numbered from 2.\<close>

definition library_dtor :: "'a process_scheme client_dtor \<Rightarrow> 'a process_scheme client_dtor" where
  "library_dtor D free i p s =
     (if i = 0 then talloc_destroy_pointer p s
      else if i = 1 then talloc_autofree_destructor p s
      else D free (i - 2) p s)"

section \<open>Pointer variables\<close>

definition talloc_move :: "ptr \<Rightarrow> ptr \<Rightarrow> 'a process_scheme \<Rightarrow> (ptr \<times> 'a process_scheme) option" where
  "talloc_move new_ctx pptr s = do {
     x \<leftarrow> variables s pptr;
     case x of
       Invalid \<Rightarrow> None
     | Pointer p \<Rightarrow> do {
         (ret, s) \<leftarrow> talloc_steal new_ctx p s;
         Some (ret, s\<lparr>variables := (variables s)(pptr \<mapsto> Pointer NULL)\<rparr>) } }"

definition talloc_set ::
  "'a process_scheme client_dtor \<Rightarrow> nat \<Rightarrow> ptr \<Rightarrow> ptr \<Rightarrow> u64 \<Rightarrow> chunk_name \<Rightarrow> 'a process_scheme \<Rightarrow>
   'a process_scheme option" where
  "talloc_set D n v ctx sz name s = do {
     (p, s) \<leftarrow> talloc_named_const ctx sz name s;
     (p, s) \<leftarrow>
       (if p = NULL then Some (p, s)
        else do {
          (child, s) \<leftarrow> talloc_named_const p 8 (Name ''void **'') s;
          if child = NULL then do {
            (_, s) \<leftarrow> talloc_free (library_dtor D) n p s;
            Some (NULL, s) }
          else do {
            let s = s\<lparr>targets := (targets s)(child \<mapsto> v)\<rparr>;
            s \<leftarrow> talloc_set_name_const child (Name ''talloc_set destructor'') s;
            s \<leftarrow> talloc_set_destructor child (D_client 0) s;
            Some (p, s) } });
     Some (s\<lparr>variables := (variables s)(v \<mapsto> Pointer p)\<rparr>) }"

section \<open>The autofree context\<close>

definition talloc_autofree :: "'a process_scheme client_dtor \<Rightarrow> nat \<Rightarrow> 'a process_scheme \<Rightarrow> 'a process_scheme option" where
  "talloc_autofree D n s =
     (if autofree_context s = NULL then Some s
      else do {
        owner \<leftarrow> pids s (autofree_context s);
        if owner = pid s then do {
          (_, s) \<leftarrow> talloc_free (library_dtor D) n (autofree_context s) s;
          Some s }
        else Some s })"

definition talloc_autofree_context :: "'a process_scheme \<Rightarrow> (ptr \<times> 'a process_scheme) option" where
  "talloc_autofree_context s = do {
     new \<leftarrow> (if autofree_context s = NULL then Some True
              else map_option (\<lambda>owner. owner \<noteq> pid s) (pids s (autofree_context s)));
     if new then do {
       (p, s) \<leftarrow> talloc_named_const NULL 4 (Name ''pid_t'') s;
       let s = s\<lparr>autofree_context := p\<rparr>;
       if p = NULL then None
       else do {
         let s = s\<lparr>pids := (pids s)(p \<mapsto> pid s)\<rparr>;
         s \<leftarrow> talloc_set_name_const p (Name ''autofree_context'') s;
         s \<leftarrow> talloc_set_destructor p (D_client 1) s;
         Some (p, atexit Autofree s) } }
     else Some (autofree_context s, s) }"

text \<open>What \<open>exit\<close> does: the registered functions, the last one first.\<close>

fun run_exit :: "'a process_scheme client_dtor \<Rightarrow> nat \<Rightarrow> exit_function list \<Rightarrow> 'a process_scheme \<Rightarrow> 'a process_scheme option" where
  "run_exit D n [] s = Some s"
| "run_exit D n (f # fs) s = do {
     s \<leftarrow> (case f of
         Report_null \<Rightarrow> talloc_report_null n s
       | Report_null_full \<Rightarrow> talloc_report_null_full n s
       | Autofree \<Rightarrow> talloc_autofree D n s);
     run_exit D n fs s }"

section \<open>From the autofree context to the exit\<close>

lemma forest_process [simp]:
  "forest_but X (s\<lparr>autofree_context := a\<rparr>) K = forest_but X s K" "forest_but X (s\<lparr>pids := b\<rparr>) K = forest_but X s K"
  "forest_but X (s\<lparr>at_exit := d\<rparr>) K = forest_but X s K"
  by (simp_all add: forest_but_def)

lemma process_more:
  assumes "talloc_heap.more s' = talloc_heap.more s"
  shows "autofree_context s' = autofree_context s" "pids s' = pids s" "pid s' = pid s" "at_exit s' = at_exit s"
    "variables s' = variables s" "targets s' = targets s" "contents s' = contents s"
  using assms by (cases s; cases s'; simp)+

theorem talloc_autofree_context_correct:
  assumes F: "forest s K" and none: "autofree_context s = NULL" and ok: "malloc_ok s (brk s)"
  shows "\<exists>s1 c. talloc_autofree_context s = Some (brk s, s1) \<and> forest s1 (alloc_under (null_context s) (brk s) K) \<and>
    autofree_context s1 = brk s \<and> pids s1 (brk s) = Some (pid s1) \<and> at_exit s1 = Autofree # at_exit s \<and>
    chunks s1 (brk s) = Some c \<and> block_data c = (NULL, D_client 1, Name ''autofree_context'', 4, TALLOC_MAGIC) \<and>
    null_context s1 = null_context s \<and> dom (chunks s1) = insert (brk s) (dom (chunks s))"
proof -
  let ?b = "brk s"
  have sz: "(4 :: u64) < MAX_TALLOC_SIZE" by (simp add: MAX_TALLOC_SIZE_def)
  have ctx: "context_of NULL s = NULL \<or> context_of NULL s \<in> dom (chunks s)"
    using forest_null_context [OF F] by (simp add: context_of_def)
  obtain s1 where s1: "talloc_named_const NULL 4 (Name ''pid_t'') s = Some (?b, s1)"
      "forest s1 (alloc_under (null_context s) ?b K)" "allocates ?b (NULL, D_null, Name ''pid_t'', 4, TALLOC_MAGIC) s s1"
    using talloc_named_const_forest [OF F ctx sz ok, of "Name ''pid_t''"] by (auto simp: context_of_def)
  obtain c where c: "chunks s1 ?b = Some c" "tc_refs c = NULL" "tc_size c = 4" "tc_flags c = TALLOC_MAGIC"
    using allocates_chunk [OF s1(3)] by metis
  let ?c = "c\<lparr>tc_name := Name ''autofree_context'', tc_destructor := D_client 1\<rparr>"
  let ?s2 = "atexit Autofree (s1\<lparr>autofree_context := ?b, pids := (pids s1)(?b \<mapsto> pid s1), chunks := (chunks s1)(?b \<mapsto> ?c)\<rparr>)"
  have "talloc_heap.more s1 = talloc_heap.more s" using s1(3) by (simp add: allocates_def)
  note k = process_more [OF this]
  have b: "0 < ?b" using forest_brk [OF F] by simp
  have "talloc_autofree_context s = Some (?b, ?s2)"
    using s1(1) b c none
    by (simp add: talloc_autofree_context_def Let_def talloc_set_name_const_def talloc_set_destructor_def heap_simps atexit_def)
  moreover have "forest (s1\<lparr>chunks := (chunks s1)(?b \<mapsto> ?c)\<rparr>) (alloc_under (null_context s) ?b K)"
    by (rule forest_upd_data [OF s1(2) c(1)]) (simp_all add: links_def c)
  then have "forest ?s2 (alloc_under (null_context s) ?b K)" by (simp add: atexit_def forest_but_def)
  moreover have "null_context s1 = null_context s" using s1(3) by (simp add: allocates_def)
  moreover have "dom (chunks s1) = insert ?b (dom (chunks s))" by (rule allocates_dom [OF s1(3)])
  ultimately show ?thesis using c k by (auto simp: atexit_def block_data_def)
qed

theorem talloc_autofree_correct:
  assumes F: "forest s K" and a: "autofree_context s = p" "p \<noteq> NULL" "pids s p = Some (pid s)"
    and p: "chunks s p = Some c" "block_data c = (NULL, D_client 1, Name ''autofree_context'', 4, TALLOC_MAGIC)" "K p = []" "null_context s \<noteq> p"
  shows "\<exists>s'. talloc_autofree D (Suc (Suc m)) s = Some s' \<and> forest s' (detach p K) \<and> autofree_context s' = NULL \<and>
    map_option block_data \<circ> chunks s' = (map_option block_data \<circ> chunks s)(p := None)"
proof -
  let ?s = "\<lambda>s. s\<lparr>autofree_context := NULL\<rparr>"
  let ?g = "\<lambda>_. talloc_heap.more (?s s)"
  have g: "talloc_heap.more_update ?g (s\<lparr>chunks := h\<rparr>) = ?s (s\<lparr>chunks := h\<rparr>)" for h by (cases s) simp
  have g': "talloc_heap.more_update ?g s = ?s s" by (cases s) simp
  have "library_dtor D (talloc_free (library_dtor D) (Suc m)) 1 p (s\<lparr>chunks := (chunks s)(p \<mapsto> c\<lparr>tc_destructor := D_minus1\<rparr>)\<rparr>) =
      Some (0, talloc_heap.more_update ?g (s\<lparr>chunks := (chunks s)(p \<mapsto> c\<lparr>tc_destructor := D_minus1\<rparr>)\<rparr>))"
    unfolding g by (simp add: library_dtor_def talloc_autofree_destructor_def)
  from talloc_free_destructor [OF F p(1) _ _ _ p(3,4), of 1 "library_dtor D" m 0 ?g, OF _ _ _ this] p(2)
  obtain s' where s': "talloc_free (library_dtor D) (Suc (Suc m)) p s = Some (0, s')" "forest s' (detach p K)" "freed {p} (?s s) s'"
    unfolding g' by (auto simp: block_data_def TALLOC_MAGIC_def TALLOC_FLAG_LOOP_def)
  have "talloc_heap.more s' = talloc_heap.more (?s s)" using s'(3) by (simp add: freed_def)
  from process_more(1) [OF this] have "autofree_context s' = NULL" by simp
  moreover have "map_option block_data \<circ> chunks s' = (map_option block_data \<circ> chunks s)(p := None)"
    using s'(3) by (auto simp: freed_def fun_eq_iff restrict_map_def)
  ultimately show ?thesis using a s'(1,2) by (simp add: talloc_autofree_def del: talloc_free.simps)
qed

end
