(* ===== verification/Talloc_External.thy ===== *)
theory Talloc_External
  imports Talloc_Forest
begin

text \<open>
  The second allocator of \<^verbatim>\<open>talloc.c\<close>: a block made by \<open>talloc_add_external\<close>, and every block
  allocated below it, comes from a function the client gives, carries \<open>TALLOC_FLAG_EXT_ALLOC\<close>, and is
  only touched while the client's lock is held. A function pointer is a number, 0 for NULL; like
  \<open>malloc\<close>, the client's function hands out addresses that were never used before, and
  \<open>ext_ok\<close> says when it succeeds. \<open>lock_calls\<close> records the calls of the client's functions: \<open>Some p\<close> for
  \<open>tc_lock(p)\<close>, \<open>None\<close> for \<open>tc_unlock()\<close>.
\<close>

section \<open>State\<close>

definition TALLOC_FLAG_EXT_ALLOC :: u32 where "TALLOC_FLAG_EXT_ALLOC = 0x04"

record external_heap = talloc_heap +
  tc_external_realloc :: nat
  ext_ok :: "ptr \<Rightarrow> bool"
  tc_lock :: nat
  tc_unlock :: nat
  locked :: bool
  lock_calls :: "ptr option list"

definition ext_flag :: "talloc_chunk \<Rightarrow> bool" where
  "ext_flag tc \<longleftrightarrow> tc_flags tc AND TALLOC_FLAG_EXT_ALLOC \<noteq> 0"

definition lock :: "ptr \<Rightarrow> 'a external_heap_scheme \<Rightarrow> 'a external_heap_scheme option" where
  "lock p s =
     (if tc_lock s \<noteq> 0 \<and> p \<noteq> NULL then do {
        tc \<leftarrow> talloc_chunk_from_ptr p s;
        if ext_flag tc then
          (if locked s then None
           else Some (s\<lparr>locked := True, lock_calls := lock_calls s @ [Some p]\<rparr>))
        else Some s }
      else Some s)"

definition unlock :: "'a external_heap_scheme \<Rightarrow> 'a external_heap_scheme option" where
  "unlock s =
     (if locked s then
        (if tc_unlock s = 0 then None else Some (s\<lparr>locked := False, lock_calls := lock_calls s @ [None]\<rparr>))
      else Some s)"

section \<open>Operations\<close>

text \<open>\<open>tc_external_realloc(context, NULL, size)\<close>; the pointer must have been set.\<close>

definition external_alloc :: "'a external_heap_scheme \<Rightarrow> (ptr \<times> 'a external_heap_scheme) option" where
  "external_alloc s =
     (if tc_external_realloc s = 0 then None
      else if ext_ok s (brk s) then Some (brk s, s\<lparr>brk := Suc (brk s)\<rparr>)
      else Some (NULL, s\<lparr>brk := Suc (brk s)\<rparr>))"

definition init_external ::
  "ptr \<Rightarrow> ptr \<Rightarrow> u64 \<Rightarrow> bool \<Rightarrow> 'a external_heap_scheme \<Rightarrow> (ptr \<times> 'a external_heap_scheme) option" where
  "init_external parent tc sz external s = do {
     (p, s) \<leftarrow> init_talloc parent tc sz s;
     if p \<noteq> NULL \<and> external then do {
       s \<leftarrow> upd_chunk p (\<lambda>c. c\<lparr>tc_flags := tc_flags c OR TALLOC_FLAG_EXT_ALLOC\<rparr>) s;
       Some (p, s) }
     else Some (p, s) }"

text \<open>\<open>__talloc\<close> with both ways to get memory.\<close>

definition talloc_either ::
  "ptr \<Rightarrow> u64 \<Rightarrow> 'a external_heap_scheme \<Rightarrow> (ptr \<times> 'a external_heap_scheme) option" where
  "talloc_either context sz s = do {
     let context = (if context = NULL then null_context s else context);
     if MAX_TALLOC_SIZE \<le> sz then Some (NULL, s)
     else if context \<noteq> NULL then do {
       parent \<leftarrow> talloc_chunk_from_ptr context s;
       if ext_flag parent then do {
         (tc, s) \<leftarrow> external_alloc s;
         init_external context tc sz True s }
       else do {
         let (tc, s) = tc_malloc s;
         init_external context tc sz False s } }
     else do {
       let (tc, s) = tc_malloc s;
       init_external NULL tc sz False s } }"

definition talloc_named_const_locked ::
  "ptr \<Rightarrow> u64 \<Rightarrow> chunk_name \<Rightarrow> 'a external_heap_scheme \<Rightarrow> (ptr \<times> 'a external_heap_scheme) option" where
  "talloc_named_const_locked context sz name s = do {
     s \<leftarrow> lock context s;
     (p, s) \<leftarrow> talloc_either context sz s;
     s \<leftarrow> (if p = NULL then Some s else talloc_set_name_const p name s);
     s \<leftarrow> unlock s;
     Some (p, s) }"

definition talloc_parent_locked :: "ptr \<Rightarrow> 'a external_heap_scheme \<Rightarrow> (ptr \<times> 'a external_heap_scheme) option" where
  "talloc_parent_locked p s = do {
     s \<leftarrow> lock p s;
     q \<leftarrow> talloc_parent p s;
     s \<leftarrow> unlock s;
     Some (q, s) }"

definition talloc_steal_locked ::
  "ptr \<Rightarrow> ptr \<Rightarrow> 'a external_heap_scheme \<Rightarrow> (ptr \<times> 'a external_heap_scheme) option" where
  "talloc_steal_locked new_ctx p s = do {
     s \<leftarrow> lock new_ctx s;
     (q, s) \<leftarrow> talloc_steal new_ctx p s;
     s \<leftarrow> unlock s;
     Some (q, s) }"

text \<open>What an allocator does is which of its calls succeed.\<close>

definition talloc_set_allocator :: "(ptr \<Rightarrow> bool) \<Rightarrow> 'a external_heap_scheme \<Rightarrow> 'a external_heap_scheme" where
  "talloc_set_allocator ok s = s\<lparr>malloc_ok := ok\<rparr>"

definition talloc_add_external ::
  "ptr \<Rightarrow> nat \<Rightarrow> nat \<Rightarrow> nat \<Rightarrow> 'a external_heap_scheme \<Rightarrow> (ptr \<times> 'a external_heap_scheme) option" where
  "talloc_add_external ctx realloc lk unlk s =
     (if tc_external_realloc s \<noteq> 0 \<and> tc_external_realloc s \<noteq> realloc then None
      else do {
        let s = s\<lparr>tc_external_realloc := realloc\<rparr>;
        parent \<leftarrow> (if ctx = NULL then Some NULL
                   else do { _ \<leftarrow> talloc_chunk_from_ptr ctx s; Some ctx });
        (tc, s) \<leftarrow> external_alloc s;
        (p, s) \<leftarrow> init_external parent tc 0 True s;
        Some (p, s\<lparr>tc_lock := lk, tc_unlock := unlk\<rparr>) })"

section \<open>A process without external blocks\<close>

text \<open>
  The model of the other theories: when no block is external and the lock is free, each
  locked function is the function without its lock.
\<close>

definition no_external :: "'a external_heap_scheme \<Rightarrow> bool" where
  "no_external s \<longleftrightarrow> \<not> locked s \<and> (\<forall>p c. chunks s p = Some c \<longrightarrow> \<not> ext_flag c)"

lemma lock_plain:
  assumes "no_external s" "p = NULL \<or> (\<exists>c. talloc_chunk_from_ptr p s = Some c)"
  shows "lock p s = Some s"
  using assms by (auto simp: lock_def no_external_def talloc_chunk_from_ptr_def split: option.splits if_splits elim!: bind_SomeE)

lemma locked_more: "talloc_heap.more s' = talloc_heap.more s \<Longrightarrow> locked s' = locked s"
  by (cases s; cases s') simp

lemma unlock_plain: "\<not> locked s \<Longrightarrow> unlock s = Some s"
  by (simp add: unlock_def)

lemma init_external_plain: "init_external par tc sz False s = init_talloc par tc sz s"
  by (cases "init_talloc par tc sz s") (auto simp: init_external_def)

lemma talloc_either_plain:
  assumes "no_external s"
  shows "talloc_either context sz s = talloc_internal context sz s"
proof -
  let ?ctx = "if context = NULL then null_context s else context"
  have "\<not> ext_flag c" if "talloc_chunk_from_ptr ?ctx s = Some c" for c
    using assms that by (auto simp: no_external_def talloc_chunk_from_ptr_def elim!: bind_SomeE split: if_splits)
  then show ?thesis
    by (cases "talloc_chunk_from_ptr ?ctx s")
      (auto simp: talloc_either_def talloc_internal_def init_external_plain Let_def case_prod_unfold simp del: if_split)
qed

lemma named_const_plain:
  assumes F: "forest s K" and ne: "no_external s" and ctx: "context_of ctx s = NULL \<or> context_of ctx s \<in> dom (chunks s)"
    and c: "ctx = NULL \<or> ctx \<in> dom (chunks s)"
  shows "talloc_named_const_locked ctx sz name s = talloc_named_const ctx sz name s"
proof -
  have lk: "lock ctx s = Some s"
    using c forest_chunk [OF F] by (intro lock_plain [OF ne]) (auto simp: talloc_chunk_from_ptr_def)
  have nl: "\<not> locked s" using ne by (simp add: no_external_def)
  have un: "unlock (s'\<lparr>chunks := h\<rparr>) = Some (s'\<lparr>chunks := h\<rparr>)" "unlock s' = Some s'" if "locked s' = locked s" for s' h
    using that nl by (simp_all add: unlock_def)
  have st: "unlock (the (talloc_set_name_const p name s')) = talloc_set_name_const p name s'"
    if "locked s' = locked s" "talloc_set_name_const p name s' \<noteq> None" for s' p
    using that un(1) by (auto simp: talloc_set_name_const_def upd_chunk_def elim!: bind_SomeE)
  obtain p s' where r: "talloc_internal ctx sz s = Some (p, s')" "locked s' = locked s"
  proof (cases "MAX_TALLOC_SIZE \<le> sz \<or> \<not> malloc_ok s (brk s)")
    case True
    then show ?thesis using talloc_internal_fails [OF F ctx True] that by auto
  next
    case False
    then obtain s' where "talloc_internal ctx sz s = Some (brk s, s')" "allocates (brk s) (NULL, D_null, NoName, sz, TALLOC_MAGIC) s s'"
      using talloc_internal_forest [OF F ctx, of sz] by (auto simp: not_le)
    then show ?thesis using that locked_more by (auto simp: allocates_def)
  qed
  show ?thesis
    using r lk talloc_either_plain [OF ne, of ctx sz] un(2) [OF r(2)] st [OF r(2), of p]
    by (cases "talloc_set_name_const p name s'") (auto simp: talloc_named_const_locked_def talloc_named_const_def)
qed

section \<open>External blocks\<close>

definition is_external :: "ptr \<Rightarrow> 'a talloc_heap_scheme \<Rightarrow> bool" where
  "is_external p s \<longleftrightarrow> (case chunks s p of None \<Rightarrow> False | Some c \<Rightarrow> ext_flag c)"

lemma flags_external: "magic_ok (TALLOC_MAGIC OR TALLOC_FLAG_EXT_ALLOC)" "(TALLOC_MAGIC OR TALLOC_FLAG_EXT_ALLOC) AND TALLOC_FLAG_EXT_ALLOC \<noteq> 0"
  by (simp_all add: magic_ok_def TALLOC_MAGIC_def TALLOC_FLAG_FREE_def TALLOC_FLAG_EXT_ALLOC_def)

lemma forest_lock [simp]:
  "forest (s\<lparr>tc_external_realloc := r\<rparr>) K = forest s K" "forest (s\<lparr>tc_lock := l\<rparr>) K = forest s K"
  "forest (s\<lparr>tc_unlock := l\<rparr>) K = forest s K" "forest (s\<lparr>locked := b\<rparr>) K = forest s K"
  "forest (s\<lparr>lock_calls := es\<rparr>) K = forest s K"
  by (simp_all add: forest_but_def)

lemma init_external_forest:
  assumes F: "forest s K" and par: "par = NULL \<or> par \<in> dom (chunks s)"
  shows "\<exists>s'. init_external par (brk s) sz True (s\<lparr>brk := Suc (brk s)\<rparr>) = Some (brk s, s') \<and>
    forest s' (alloc_under par (brk s) K) \<and>
    allocates (brk s) (NULL, D_null, NoName, sz, TALLOC_MAGIC OR TALLOC_FLAG_EXT_ALLOC) s s'"
proof -
  obtain s1 where s1: "init_talloc par (brk s) sz (s\<lparr>brk := Suc (brk s)\<rparr>) = Some (brk s, s1)"
      "forest s1 (alloc_under par (brk s) K)" "allocates (brk s) (NULL, D_null, NoName, sz, TALLOC_MAGIC) s s1"
    using init_talloc_forest [OF assms] by blast
  obtain c where c: "chunks s1 (brk s) = Some c" "tc_refs c = NULL" "tc_destructor c = D_null" "tc_name c = NoName"
      "tc_size c = sz" "tc_flags c = TALLOC_MAGIC"
    using allocates_chunk [OF s1(3)] by blast
  let ?c = "c\<lparr>tc_flags := TALLOC_MAGIC OR TALLOC_FLAG_EXT_ALLOC\<rparr>"
  let ?s = "s1\<lparr>chunks := (chunks s1)(brk s \<mapsto> ?c)\<rparr>"
  have "init_external par (brk s) sz True (s\<lparr>brk := Suc (brk s)\<rparr>) = Some (brk s, ?s)"
    using s1(1) c forest_brk(1) [OF F] by (simp add: init_external_def heap_simps)
  moreover have "forest ?s (alloc_under par (brk s) K)"
    by (rule forest_upd_data [OF s1(2) c(1)]) (simp_all add: links_def flags_external)
  moreover have "allocates (brk s) (NULL, D_null, NoName, sz, TALLOC_MAGIC OR TALLOC_FLAG_EXT_ALLOC) s ?s"
    using allocates_upd [OF s1(3) c(1), of ?c] c by (simp add: block_data_def)
  ultimately show ?thesis by blast
qed

lemma allocates_external:
  "allocates p (r, d, n, z, f) s s' \<Longrightarrow> f AND TALLOC_FLAG_EXT_ALLOC \<noteq> 0 \<Longrightarrow> is_external p s'"
  by (elim allocates_chunk) (simp add: is_external_def ext_flag_def)

lemma allocates_keeps_external:
  assumes "allocates p d s s'" "is_external q s" "q \<noteq> p"
  shows "is_external q s'"
proof -
  have "map_option block_data (chunks s' q) = map_option block_data (chunks s q)"
    using assms(1,3) by (auto simp: allocates_def fun_eq_iff)
  then show ?thesis
    using assms(2) by (auto simp: is_external_def ext_flag_def block_data_def split: option.splits)
qed

text \<open>Allocation below an external block takes the lock of that block, and gives it back.\<close>

lemma named_const_external:
  assumes F: "forest s K" and x: "is_external p s" and l: "tc_lock s \<noteq> 0" "tc_unlock s \<noteq> 0" "\<not> locked s"
    and r: "tc_external_realloc s \<noteq> 0" "ext_ok s (brk s)" and sz: "sz < MAX_TALLOC_SIZE"
  shows "\<exists>s'. talloc_named_const_locked p sz name s = Some (brk s, s') \<and> forest s' (alloc_under p (brk s) K) \<and>
    is_external (brk s) s' \<and> is_external p s' \<and> \<not> locked s' \<and> lock_calls s' = lock_calls s @ [Some p, None]"
proof -
  obtain c where c: "chunks s p = Some c" "ext_flag c" using x by (auto simp: is_external_def split: option.splits)
  have m: "magic_ok (tc_flags c)" using forest_chunk [OF F c(1)] by simp
  have p: "p \<noteq> NULL" "p \<noteq> brk s" "p \<in> dom (chunks s)" using F c(1) by (auto simp: forest_but_def)
  let ?s0 = "s\<lparr>locked := True, lock_calls := lock_calls s @ [Some p]\<rparr>"
  have lk: "lock p s = Some ?s0" using c m p l by (simp add: lock_def talloc_chunk_from_ptr_def)
  have F0: "forest ?s0 K" using F by simp
  obtain s1 where s1: "init_external p (brk ?s0) sz True (?s0\<lparr>brk := Suc (brk ?s0)\<rparr>) = Some (brk ?s0, s1)"
      "forest s1 (alloc_under p (brk ?s0) K)"
      "allocates (brk ?s0) (NULL, D_null, NoName, sz, TALLOC_MAGIC OR TALLOC_FLAG_EXT_ALLOC) ?s0 s1"
    using init_external_forest [OF F0, of p sz] p by auto
  obtain d where d: "chunks s1 (brk s) = Some d" "tc_refs d = NULL" "tc_destructor d = D_null" "tc_name d = NoName"
      "tc_size d = sz" "tc_flags d = TALLOC_MAGIC OR TALLOC_FLAG_EXT_ALLOC"
    using allocates_chunk [OF s1(3)] by auto
  let ?s2 = "s1\<lparr>chunks := (chunks s1)(brk s \<mapsto> d\<lparr>tc_name := name\<rparr>)\<rparr>"
  have more: "locked s1 = True" "lock_calls s1 = lock_calls s @ [Some p]" "tc_unlock s1 = tc_unlock s"
    using s1(3) by (cases s; cases s1; simp add: allocates_def)+
  have b: "brk s \<noteq> NULL" using forest_brk(1) [OF F] by simp
  have "talloc_either p sz ?s0 = Some (brk s, s1)"
    using c m p linorder_not_le [THEN iffD2, OF sz] r s1(1) by (simp add: talloc_either_def talloc_chunk_from_ptr_def external_alloc_def)
  then have "talloc_named_const_locked p sz name s = Some (brk s, ?s2\<lparr>locked := False, lock_calls := lock_calls s @ [Some p, None]\<rparr>)"
    using lk b d more l(2) flags_external(1)
    by (simp add: talloc_named_const_locked_def talloc_set_name_const_def talloc_chunk_from_ptr_def heap_simps unlock_def)
  moreover have "forest ?s2 (alloc_under p (brk s) K)"
    using s1(2) by (intro forest_upd_data [OF _ d(1)]) (simp_all add: links_def d(6) flags_external)
  moreover have "is_external (brk s) s1" using allocates_external [OF s1(3)] flags_external by simp
  moreover have "is_external p s1"
    using allocates_keeps_external [OF s1(3), of p] x p(2) by (simp add: is_external_def)
  ultimately show ?thesis using d p(2) by (simp add: is_external_def ext_flag_def)
qed

theorem external_children:
  assumes F: "forest s K" and ctx: "ctx = NULL \<or> ctx \<in> dom (chunks s)"
    and f: "tc_external_realloc s = 0 \<or> tc_external_realloc s = f" "f \<noteq> 0" "l \<noteq> 0" "u \<noteq> 0" "\<not> locked s"
    and ok: "ext_ok s (brk s)" "ext_ok s (Suc (brk s))" and sz: "sz < MAX_TALLOC_SIZE"
  shows "\<exists>p s1 q s2. talloc_add_external ctx f l u s = Some (p, s1) \<and> forest s1 (alloc_under ctx p K) \<and>
    talloc_named_const_locked p sz name s1 = Some (q, s2) \<and> forest s2 (alloc_under p q (alloc_under ctx p K)) \<and>
    is_external p s2 \<and> is_external q s2 \<and> \<not> locked s2 \<and> lock_calls s2 = lock_calls s @ [Some p, None]"
proof -
  let ?s0 = "s\<lparr>tc_external_realloc := f\<rparr>"
  obtain s1 where s1: "init_external ctx (brk ?s0) 0 True (?s0\<lparr>brk := Suc (brk ?s0)\<rparr>) = Some (brk ?s0, s1)"
      "forest s1 (alloc_under ctx (brk ?s0) K)"
      "allocates (brk ?s0) (NULL, D_null, NoName, 0, TALLOC_MAGIC OR TALLOC_FLAG_EXT_ALLOC) ?s0 s1"
    using init_external_forest [of ?s0 K ctx 0] F ctx by auto
  let ?s1 = "s1\<lparr>tc_lock := l, tc_unlock := u\<rparr>"
  have more: "locked s1 = locked s" "lock_calls s1 = lock_calls s" "tc_external_realloc s1 = f" "ext_ok s1 = ext_ok s"
    using s1(3) by (cases s; cases s1; simp add: allocates_def)+
  have b: "brk s1 = Suc (brk s)" using s1(3) by (simp add: allocates_def)
  have "talloc_add_external ctx f l u s = Some (brk s, ?s1)"
    using f ctx ok(1) s1(1) forest_chunk [OF F]
    by (auto simp: talloc_add_external_def external_alloc_def talloc_chunk_from_ptr_def Let_def)
  moreover have "is_external (brk s) ?s1" using allocates_external [OF s1(3)] flags_external by (simp add: is_external_def)
  ultimately show ?thesis
    using named_const_external [of ?s1 "alloc_under ctx (brk s) K" "brk s" sz name] s1(2) more b f ok(2) sz by auto
qed

end
