(* ===== verification/Class_Layout.thy ===== *)
theory Class_Layout
  imports Resolve
begin

text \<open>
  The layout of a class in \<^verbatim>\<open>phat.c\<close> (\<open>resolveClassNode\<close>). The specification
  (\<open>class_fields\<close>) lists the fields an instance record holds, those of the root class first,
  with the offset of each in the record, which counts from the class's own fields up;
  \<open>laid_out\<close> says that a class shows exactly these. For a chain of superclasses that have
  been read (\<open>super_chain\<close>) \<open>resolveClassNode\<close> returns with the class laid out so
  (\<open>resolveClassNode_chain\<close>), and so does \<open>resolveClass\<close> for every class of the table.
\<close>

section \<open>The specification\<close>

definition own_fields :: "cinfo \<Rightarrow> finfo list" where
  "own_fields c = (case cfinfo c of None \<Rightarrow> [] | Some fs \<Rightarrow> fs)"

lemma own_fields_simps [simp]:
  "own_fields (c\<lparr>cfinfo := Some fs\<rparr>) = fs" "own_fields (c\<lparr>cvalues := v\<rparr>) = own_fields c"
  "own_fields (c\<lparr>cisize := w\<rparr>) = own_fields c" "own_fields (c\<lparr>cresolved := b\<rparr>) = own_fields c"
  "own_fields (c\<lparr>tfields := t\<rparr>) = own_fields c" "own_fields (c\<lparr>statics := ss\<rparr>) = own_fields c"
  by (simp_all add: own_fields_def)

definition field_at :: "byte list rbt \<Rightarrow> nat \<Rightarrow> finfo \<Rightarrow> finfo" where
  "field_at sb o1 f = f\<lparr>offset := Some o1,
     fname := Some (case fident f of None \<Rightarrow> None | Some i \<Rightarrow> rbt_lookup sb (ucast i))\<rparr>"

lemma field_at_simps [simp]:
  "ftype (field_at sb o1 f) = ftype f" "fident (field_at sb o1 f) = fident f"
  "offset (field_at sb o1 f) = Some o1" "field_at sb o1 (field_at sb o2 f) = field_at sb o1 f"
  by (simp_all add: field_at_def)

definition fields_size :: "u32 \<Rightarrow> finfo list \<Rightarrow> nat" where
  "fields_size isz fs = sum_list (map (\<lambda>f. field_size isz (ftype f)) fs)"

fun place_fields :: "byte list rbt \<Rightarrow> u32 \<Rightarrow> nat \<Rightarrow> finfo list \<Rightarrow> finfo list" where
  "place_fields sb isz o1 [] = []"
| "place_fields sb isz o1 (f # fs) =
     field_at sb o1 f # place_fields sb isz (o1 + field_size isz (ftype f)) fs"

fun place_blocks :: "byte list rbt \<Rightarrow> u32 \<Rightarrow> nat \<Rightarrow> finfo list list \<Rightarrow> finfo list" where
  "place_blocks sb isz o1 [] = []"
| "place_blocks sb isz o1 (b # bs) =
     place_blocks sb isz (o1 + fields_size isz b) bs @ place_fields sb isz o1 b"

lemma length_place_fields [simp]: "length (place_fields sb isz o1 fs) = length fs"
  by (induction fs arbitrary: o1) auto

lemma length_place_blocks [simp]: "length (place_blocks sb isz o1 bs) = length (concat bs)"
  by (induction bs arbitrary: o1) auto

lemma fields_size_simps [simp]:
  "fields_size isz [] = 0" "fields_size isz (f # fs) = field_size isz (ftype f) + fields_size isz fs"
  "fields_size isz (fs @ gs) = fields_size isz fs + fields_size isz gs"
  by (simp_all add: fields_size_def)

lemma place_fields_within:
  "f \<in> set (place_fields sb isz o1 fs) \<Longrightarrow> \<exists>k. offset f = Some k \<and> k + field_size isz (ftype f) \<le> o1 + fields_size isz fs"
  by (induction fs arbitrary: o1) (auto, fastforce)

lemma place_blocks_within:
  "f \<in> set (place_blocks sb isz o1 bs) \<Longrightarrow> \<exists>k. offset f = Some k \<and> k + field_size isz (ftype f) \<le> o1 + fields_size isz (concat bs)"
proof (induction bs arbitrary: o1)
  case (Cons b bs)
  show ?case
  proof (cases "f \<in> set (place_fields sb isz o1 b)")
    case True
    then show ?thesis using place_fields_within [OF True] by auto
  next
    case False
    then show ?thesis using Cons.IH [of "o1 + fields_size isz b"] Cons.prems by auto
  qed
qed simp

section \<open>One class\<close>

definition put_ci :: "ptr \<Rightarrow> cinfo \<Rightarrow> jdump \<Rightarrow> jdump" where
  "put_ci p c jf = jf\<lparr>cinfos := (cinfos jf)(p \<mapsto> c)\<rparr>"

lemma put_ci_simps [simp]:
  "cinfos (put_ci p c jf) = (cinfos jf)(p \<mapsto> c)" "sbTable (put_ci p c jf) = sbTable jf"
  "cTable (put_ci p c jf) = cTable jf" "identsz (put_ci p c jf) = identsz jf"
  "hTable (put_ci p c jf) = hTable jf"  "hobjs (put_ci p c jf) = hobjs jf"
  "put_ci p c (put_ci p c' jf) = put_ci p c jf"
  by (simp_all add: put_ci_def)

lemma put_ci_same: "cinfos jf p = Some c \<Longrightarrow> put_ci p c jf = jf"
  by (simp add: put_ci_def fun_upd_idem)

lemma upd_ci_put: "cinfos jf p = Some c \<Longrightarrow> upd_ci p f jf = Some (put_ci p (f c) jf)"
  by (simp add: upd_ci_def upd_cell_def put_ci_def)

lemma place_own:
  assumes "cinfos jf ci = Some c" "cfinfo c = Some fs" "cvalues c = Some vs"
    and "k < length fs" "fident (fs ! k) \<noteq> None"
  shows "place_field ci ci k idx slot jf = Some (ftype (fs ! k),
    put_ci ci (c\<lparr>cfinfo := Some (fs[k := field_at (sbTable jf) idx (fs ! k)]),
                 cvalues := Some (vs[slot := Some (Own k)])\<rparr>) jf)"
  using assms by (auto simp: place_field_def field_at_def upd_ci_put Let_def)

lemma field_at_named:
  "fname f = Some (case fident f of None \<Rightarrow> None | Some i \<Rightarrow> rbt_lookup sb (ucast i)) \<Longrightarrow>
   f\<lparr>offset := Some k\<rparr> = field_at sb k f"
  by (cases f) (simp add: field_at_def)

definition named :: "byte list rbt \<Rightarrow> finfo \<Rightarrow> bool" where
  "named sb f \<longleftrightarrow> fname f = Some (case fident f of None \<Rightarrow> None | Some i \<Rightarrow> rbt_lookup sb (ucast i))"

lemma place_super:
  assumes "cinfos jf ci = Some c" "cvalues c = Some vs" "cc \<noteq> ci"
    and "cinfos jf cc = Some q" "cfinfo q = Some fs" "k < length fs" "named (sbTable jf) (fs ! k)"
  shows "place_field ci cc k idx slot jf = Some (ftype (fs ! k),
    put_ci ci (c\<lparr>cvalues := Some (vs[slot := Some (Copied (field_at (sbTable jf) idx (fs ! k)))])\<rparr>) jf)"
  using assms field_at_named [of "fs ! k" "sbTable jf" idx]
  by (auto simp: place_field_def upd_ci_put Let_def named_def)

lemma next_field_here:
  "cinfos jf cc = Some c \<Longrightarrow> cfields c = Some n \<Longrightarrow> k < unat n \<Longrightarrow> next_field jf cc target k = Some (cc, target, k)"
  by (subst next_field.simps) simp

lemma next_field_super:
  "cinfos jf cc = Some c \<Longrightarrow> cfields c = Some n \<Longrightarrow> unat n \<le> k \<Longrightarrow> superId c = Some s \<Longrightarrow>
   lookup32 (cTable jf) s = q \<Longrightarrow> cinfos jf q = Some d \<Longrightarrow> cfields d = Some m \<Longrightarrow>
   next_field jf cc target k = next_field jf q (target - uint m) 0"
  by (subst next_field.simps) simp

definition class_read :: "cinfo \<Rightarrow> bool" where
  "class_read c \<longleftrightarrow> superId c \<noteq> None \<and>
     cfields c = Some (of_nat (length (own_fields c))) \<and> length (own_fields c) < 2 ^ 16 \<and>
     (\<forall>f \<in> set (own_fields c). fident f \<noteq> None) \<and>
     cstats c \<noteq> None \<and> (cstats c = Some 0 \<or> statics c \<noteq> None)"

lemma class_read_fields:
  assumes "class_read c"
  obtains n where "cfields c = Some n" "unat n = length (own_fields c)" "uint n = int (length (own_fields c))"
  using assms by (auto simp: class_read_def unat_of_nat uint_nat take_bit_nat_eq_self)

lemma cinfo_same [simp]: "c\<lparr>cfinfo := cfinfo c, cvalues := cvalues c\<rparr> = c"
  by (cases c) simp

lemma own_block:
  assumes "cinfos jf ci = Some c" "class_read c" "length (own_fields c) = k + r"
    and "cvalues c = Some (replicate tg None @ xs @ replicate r None @ ts)" "length xs = k"
    and "tg + length (own_fields c) \<le> nat tf"
  shows "layout_loop (r + m) ci tf ci (int tg) k idx jf =
    layout_loop m ci tf ci (int tg) (length (own_fields c)) (idx + fields_size (identsz jf) (drop k (own_fields c)))
      (put_ci ci (c\<lparr>cfinfo := map_option (\<lambda>fs. take k fs @ place_fields (sbTable jf) (identsz jf) idx (drop k fs)) (cfinfo c),
         cvalues := Some (replicate tg None @ xs @ map (\<lambda>i. Some (Own i)) [k..<length (own_fields c)] @ ts)\<rparr>) jf)"
  using assms
proof (induction r arbitrary: k c xs idx jf)
  case 0
  then have k: "k = length (own_fields c)" by simp
  have fi: "map_option (\<lambda>fs. take k fs @ place_fields (sbTable jf) (identsz jf) idx (drop k fs)) (cfinfo c) = cfinfo c"
    using k by (cases "cfinfo c") (auto simp: own_fields_def)
  have vs: "cvalues c = Some (replicate tg None @ xs @ map (\<lambda>i. Some (Own i)) [k..<length (own_fields c)] @ ts)"
    using 0(4) k by simp
  show ?case
    unfolding fi vs [symmetric] by (simp add: k put_ci_same [OF 0(1)])
next
  case (Suc r)
  then obtain fs where fs: "cfinfo c = Some fs" "own_fields c = fs" by (cases "cfinfo c") (auto simp: own_fields_def)
  obtain n where n: "cfields c = Some n" "unat n = length fs" using class_read_fields [OF Suc.prems(2)] fs by auto
  have k: "k < length fs" using Suc fs by simp
  let ?f = "field_at (sbTable jf) idx (fs ! k)" and ?xs = "xs @ [Some (Own k)]"
    and ?ix = "idx + field_size (identsz jf) (ftype (fs ! k))"
  let ?vs = "replicate tg None @ ?xs @ replicate r None @ ts"
  let ?c = "c\<lparr>cfinfo := Some (fs[k := ?f]), cvalues := Some ?vs\<rparr>"
  have nf: "next_field jf ci (int tg) k = Some (ci, int tg, k)"
    using next_field_here [OF Suc.prems(1) n(1)] n(2) k by simp
  have vs: "(replicate tg None @ xs @ replicate (Suc r) None @ ts)[tg + k := Some (Own k)] = ?vs"
    using Suc.prems(5) by (simp add: list_update_append)
  have id: "fident (fs ! k) \<noteq> None" using Suc.prems(2) fs k by (auto simp: class_read_def)
  have pl: "place_field ci ci k idx (tg + k) jf = Some (ftype (fs ! k), put_ci ci ?c jf)"
    using place_own [OF Suc.prems(1) fs(1) Suc.prems(4) k id, of idx "tg + k"] by (simp only: vs)
  have cr: "class_read ?c"
    using Suc.prems(2) fs id unfolding class_read_def
    by (auto split: option.splits dest!: subsetD [OF set_update_subset_insert])
  have "layout_loop (Suc r + m) ci tf ci (int tg) k idx jf = layout_loop (r + m) ci tf ci (int tg) (Suc k) ?ix (put_ci ci ?c jf)"
  proof -
    have "nat (int tg + int k) = tg + k" "int tg + int k < tf" using Suc.prems(6) fs k by auto
    then show ?thesis using nf pl by (simp add: Let_def)
  qed
  also have "\<dots> = layout_loop m ci tf ci (int tg) (length (own_fields ?c))
      (?ix + fields_size (identsz (put_ci ci ?c jf)) (drop (Suc k) (own_fields ?c)))
      (put_ci ci (?c\<lparr>cfinfo := map_option (\<lambda>gs. take (Suc k) gs @ place_fields (sbTable (put_ci ci ?c jf)) (identsz (put_ci ci ?c jf))
           ?ix (drop (Suc k) gs)) (cfinfo ?c),
         cvalues := Some (replicate tg None @ ?xs @ map (\<lambda>i. Some (Own i)) [Suc k..<length (own_fields ?c)] @ ts)\<rparr>) (put_ci ci ?c jf))"
    using Suc.prems(3,5,6) cr fs(2) by (intro Suc.IH) (simp_all)
  also have "?ix + fields_size (identsz (put_ci ci ?c jf)) (drop (Suc k) (own_fields ?c))
      = idx + fields_size (identsz jf) (drop k fs)"
    using Cons_nth_drop_Suc [OF k, symmetric] by simp
  also have "map_option (\<lambda>gs. take (Suc k) gs @ place_fields (sbTable (put_ci ci ?c jf)) (identsz (put_ci ci ?c jf))
           ?ix (drop (Suc k) gs)) (cfinfo ?c)
      = map_option (\<lambda>fs. take k fs @ place_fields (sbTable jf) (identsz jf) idx (drop k fs)) (cfinfo c)"
    using fs(1) k Cons_nth_drop_Suc [OF k, symmetric] by (simp add: take_Suc_conv_app_nth)
  also have "?xs @ map (\<lambda>i. Some (Own i)) [Suc k..<length (own_fields ?c)] @ ts = xs @ map (\<lambda>i. Some (Own i)) [k..<length fs] @ ts"
    using k by (simp add: upt_conv_Cons)
  finally show ?case using fs(2) by simp
qed

lemma super_block:
  assumes "cinfos jf ci = Some c" "cinfos jf cc = Some q" "cc \<noteq> ci" "class_read q"
    and "length (own_fields q) = k + r" "\<forall>f \<in> set (own_fields q). named (sbTable jf) f"
    and "cvalues c = Some (replicate tg None @ xs @ replicate r None @ ts)" "length xs = k"
    and "tg + length (own_fields q) \<le> nat tf"
  shows "layout_loop (r + m) ci tf cc (int tg) k idx jf =
    layout_loop m ci tf cc (int tg) (length (own_fields q)) (idx + fields_size (identsz jf) (drop k (own_fields q)))
      (put_ci ci (c\<lparr>cvalues := Some (replicate tg None @ xs @
         map (Some \<circ> Copied) (place_fields (sbTable jf) (identsz jf) idx (drop k (own_fields q))) @ ts)\<rparr>) jf)"
  using assms
proof (induction r arbitrary: k c xs idx jf)
  case 0
  then have k: "k = length (own_fields q)" by simp
  have vs: "cvalues c = Some (replicate tg None @ xs @
      map (Some \<circ> Copied) (place_fields (sbTable jf) (identsz jf) idx (drop k (own_fields q))) @ ts)"
    using 0(7) k by simp
  show ?case unfolding vs [symmetric] by (simp add: k put_ci_same [OF 0(1)])
next
  case (Suc r)
  then obtain fs where fs: "cfinfo q = Some fs" "own_fields q = fs" by (cases "cfinfo q") (auto simp: own_fields_def)
  obtain n where n: "cfields q = Some n" "unat n = length fs" using class_read_fields [OF Suc.prems(4)] fs by auto
  have k: "k < length fs" using Suc fs by simp
  let ?f = "field_at (sbTable jf) idx (fs ! k)"
    and ?ix = "idx + field_size (identsz jf) (ftype (fs ! k))"
  let ?xs = "xs @ [Some (Copied ?f)]"
  let ?c = "c\<lparr>cvalues := Some (replicate tg None @ ?xs @ replicate r None @ ts)\<rparr>"
  have nf: "next_field jf cc (int tg) k = Some (cc, int tg, k)"
    using next_field_here [OF Suc.prems(2) n(1)] n(2) k by simp
  have vs: "(replicate tg None @ xs @ replicate (Suc r) None @ ts)[tg + k := Some (Copied ?f)] =
      replicate tg None @ ?xs @ replicate r None @ ts"
    using Suc.prems(8) by (simp add: list_update_append)
  have nm: "named (sbTable jf) (fs ! k)" using Suc.prems(6) fs k by auto
  have pl: "place_field ci cc k idx (tg + k) jf = Some (ftype (fs ! k), put_ci ci ?c jf)"
    using place_super [OF Suc.prems(1,7,3,2) fs(1) k nm, of idx "tg + k"] by (simp only: vs)
  have "layout_loop (Suc r + m) ci tf cc (int tg) k idx jf = layout_loop (r + m) ci tf cc (int tg) (Suc k) ?ix (put_ci ci ?c jf)"
  proof -
    have "nat (int tg + int k) = tg + k" "int tg + int k < tf" using Suc.prems(9) fs k by auto
    then show ?thesis using nf pl by (simp add: Let_def)
  qed
  also have "\<dots> = layout_loop m ci tf cc (int tg) (length (own_fields q))
      (?ix + fields_size (identsz (put_ci ci ?c jf)) (drop (Suc k) (own_fields q)))
      (put_ci ci (?c\<lparr>cvalues := Some (replicate tg None @ ?xs @ map (Some \<circ> Copied)
         (place_fields (sbTable (put_ci ci ?c jf)) (identsz (put_ci ci ?c jf)) ?ix (drop (Suc k) (own_fields q))) @ ts)\<rparr>)
        (put_ci ci ?c jf))"
    using Suc.prems by (intro Suc.IH) simp_all
  also have "?ix + fields_size (identsz (put_ci ci ?c jf)) (drop (Suc k) (own_fields q))
      = idx + fields_size (identsz jf) (drop k fs)"
    using Cons_nth_drop_Suc [OF k, symmetric] fs(2) by simp
  finally show ?case using fs(2) Cons_nth_drop_Suc [OF k, symmetric] by simp
qed

section \<open>The chain of superclasses\<close>

fun super_chain :: "jdump \<Rightarrow> ptr list \<Rightarrow> bool" where
  "super_chain jf [] = False"
| "super_chain jf (p # qs) = (p \<noteq> NULL \<and> (case cinfos jf p of None \<Rightarrow> False | Some c \<Rightarrow>
     class_read c \<and> (case superId c of None \<Rightarrow> False | Some s \<Rightarrow>
       (if qs = [] then s = 0 \<and> lookup32 (cTable jf) 0 = NULL
        else s \<noteq> 0 \<and> lookup32 (cTable jf) s = hd qs \<and> super_chain jf qs))))"

definition fields_of :: "jdump \<Rightarrow> ptr \<Rightarrow> finfo list" where
  "fields_of jf p = (case cinfos jf p of None \<Rightarrow> [] | Some c \<Rightarrow> own_fields c)"

definition chain_fields :: "jdump \<Rightarrow> ptr list \<Rightarrow> finfo list list" where
  "chain_fields jf cs = map (fields_of jf) (butlast cs)"

lemma chain_fields_simps [simp]:
  "chain_fields jf [] = []" "chain_fields jf [p] = []"
  "chain_fields jf (p # q # qs) = fields_of jf p # chain_fields jf (q # qs)"
  by (simp_all add: chain_fields_def)

lemma super_chain_ConsE:
  assumes "super_chain jf (p # qs)"
  obtains c s where "p \<noteq> NULL" "cinfos jf p = Some c" "class_read c" "superId c = Some s"
    "qs = [] \<Longrightarrow> s = 0 \<and> lookup32 (cTable jf) 0 = NULL"
    "qs \<noteq> [] \<Longrightarrow> s \<noteq> 0 \<and> lookup32 (cTable jf) s = hd qs \<and> super_chain jf qs"
  using assms by (auto split: option.splits if_splits)

declare super_chain.simps(2) [simp del]

lemma super_chain_unique: "super_chain jf (p # xs) \<Longrightarrow> super_chain jf (p # ys) \<Longrightarrow> xs = ys"
proof (induction xs arbitrary: p ys)
  case Nil
  then show ?case by (elim super_chain_ConsE) auto
next
  case (Cons x xs)
  obtain c s where c: "cinfos jf p = Some c" "superId c = Some s" "s \<noteq> 0" "lookup32 (cTable jf) s = x" "super_chain jf (x # xs)"
    using super_chain_ConsE [OF Cons.prems(1)] by (metis list.discI list.sel(1))
  obtain y zs where ys: "ys = y # zs" using c super_chain_ConsE [OF Cons.prems(2)] by (metis neq_Nil_conv option.sel)
  then have "y = x" "super_chain jf (y # zs)"
    using c super_chain_ConsE [OF Cons.prems(2)] by (metis list.discI list.sel(1) option.sel)+
  then show ?case using Cons.IH [OF c(5), of zs] ys by simp
qed

lemma super_chain_suffix: "super_chain jf (xs @ p # ys) \<Longrightarrow> super_chain jf (p # ys)"
  by (induction xs) (auto elim: super_chain_ConsE)

lemma super_chain_distinct: "super_chain jf cs \<Longrightarrow> distinct cs"
proof (induction cs)
  case (Cons p cs)
  have "p \<notin> set cs"
  proof
    assume "p \<in> set cs"
    then obtain xs ys where cs: "cs = xs @ p # ys" by (auto simp: in_set_conv_decomp)
    have "super_chain jf ((p # xs) @ p # ys)" using Cons.prems by (simp add: cs)
    then have "ys = cs" using super_chain_suffix super_chain_unique Cons.prems by blast
    then show False using arg_cong [OF cs, of length] by simp
  qed
  then show ?case using Cons super_chain_ConsE [OF Cons.prems] by (cases "cs = []") auto
qed simp

lemma super_chain_put [simp]: "p \<notin> set qs \<Longrightarrow> super_chain (put_ci p c jf) qs = super_chain jf qs"
  by (induction qs) (auto simp: super_chain.simps split: option.splits)

lemma fields_of_put [simp]: "fields_of (put_ci p c jf) q = (if q = p then own_fields c else fields_of jf q)"
  by (simp add: fields_of_def)

lemma chain_fields_put [simp]: "p \<notin> set qs \<Longrightarrow> chain_fields (put_ci p c jf) qs = chain_fields jf qs"
  by (auto simp: chain_fields_def dest: in_set_butlastD)

lemma super_blocks:
  assumes "super_chain jf (cc # qs)" "ci \<notin> set qs" "cinfos jf ci = Some c"
    and "n = length (concat (chain_fields jf qs))"
    and "cvalues c = Some (replicate n None @ ts)" "n \<le> nat tf"
    and "\<forall>f \<in> set (concat (chain_fields jf qs)). named (sbTable jf) f"
  shows "layout_loop n ci tf cc (int n) (length (fields_of jf cc)) idx jf =
    Some (idx + fields_size (identsz jf) (concat (chain_fields jf qs)),
      put_ci ci (c\<lparr>cvalues := Some (map (Some \<circ> Copied)
        (place_blocks (sbTable jf) (identsz jf) idx (chain_fields jf qs)) @ ts)\<rparr>) jf)"
  using assms
proof (induction qs arbitrary: cc c n ts idx jf)
  case Nil
  then show ?case by (simp add: put_ci_same)
next
  case (Cons q qs)
  show ?case
  proof (cases "n = 0")
    case True
    then have "place_blocks (sbTable jf) (identsz jf) idx (chain_fields jf (q # qs)) = []"
      "fields_size (identsz jf) (concat (chain_fields jf (q # qs))) = 0"
      using Cons.prems(4) length_place_blocks [of "sbTable jf" "identsz jf" idx "chain_fields jf (q # qs)"]
      by (metis length_0_conv fields_size_simps(1))+
    then show ?thesis using Cons.prems True by (simp add: put_ci_same del: length_concat)
  next
    case False
    then obtain r rs where qs: "qs = r # rs" using Cons.prems(4) by (cases qs) auto
    obtain c0 s where c0: "cinfos jf cc = Some c0" "class_read c0" "superId c0 = Some s"
      "lookup32 (cTable jf) s = q" "super_chain jf (q # qs)"
      using super_chain_ConsE [OF Cons.prems(1)] by (metis list.discI list.sel(1))
    obtain d where d: "cinfos jf q = Some d" "class_read d" using super_chain_ConsE [OF c0(5)] by metis
    obtain n0 where n0: "cfields c0 = Some n0" "unat n0 = length (own_fields c0)" using class_read_fields [OF c0(2)] .
    obtain m0 where m0: "cfields d = Some m0" "uint m0 = int (length (own_fields d))" using class_read_fields [OF d(2)] .
    let ?m = "length (concat (chain_fields jf qs))"
    have fo: "fields_of jf cc = own_fields c0" "fields_of jf q = own_fields d" using c0 d by (simp_all add: fields_of_def)
    have n: "n = length (own_fields d) + ?m" using Cons.prems(4) qs fo by simp
    have "next_field jf cc (int n) (length (own_fields c0)) = next_field jf q (int ?m) 0"
      using next_field_super [OF c0(1) n0(1) _ c0(3,4) d(1) m0(1)] n0(2) m0(2) n by simp
    then have "layout_loop n ci tf cc (int n) (length (own_fields c0)) idx jf = layout_loop n ci tf q (int ?m) 0 idx jf"
      using False by (cases n) simp_all
    also have "\<dots> = layout_loop ?m ci tf q (int ?m) (length (own_fields d)) (idx + fields_size (identsz jf) (drop 0 (own_fields d)))
        (put_ci ci (c\<lparr>cvalues := Some (replicate ?m None @ [] @ map (Some \<circ> Copied)
          (place_fields (sbTable jf) (identsz jf) idx (drop 0 (own_fields d))) @ ts)\<rparr>) jf)"
      unfolding n
      using Cons.prems(2,5,6,7) fo qs by (intro super_block [OF Cons.prems(3) d(1) _ d(2)])
        (auto simp: n replicate_add [symmetric] add.commute)
    also have "\<dots> = layout_loop ?m ci tf q (int ?m) (length (own_fields d)) (idx + fields_size (identsz jf) (own_fields d))
        (put_ci ci (c\<lparr>cvalues := Some (replicate ?m None @ map (Some \<circ> Copied)
          (place_fields (sbTable jf) (identsz jf) idx (own_fields d)) @ ts)\<rparr>) jf)"
      (is "_ = layout_loop ?m ci tf q (int ?m) _ ?ix (put_ci ci ?c jf)")
      by simp
    also have "\<dots> = Some (?ix + fields_size (identsz (put_ci ci ?c jf)) (concat (chain_fields (put_ci ci ?c jf) qs)),
       put_ci ci (?c\<lparr>cvalues := Some (map (Some \<circ> Copied)
        (place_blocks (sbTable (put_ci ci ?c jf)) (identsz (put_ci ci ?c jf)) ?ix (chain_fields (put_ci ci ?c jf) qs)) @
          map (Some \<circ> Copied) (place_fields (sbTable jf) (identsz jf) idx (own_fields d)) @ ts)\<rparr>) (put_ci ci ?c jf))"
    proof -
      have ch: "super_chain (put_ci ci ?c jf) (q # qs)" using c0(5) Cons.prems(2) by simp
      have fq: "length (own_fields d) = length (fields_of (put_ci ci ?c jf) q)" using Cons.prems(2) fo by simp
      show ?thesis unfolding fq
        by (rule Cons.IH [OF ch]) (use Cons.prems(2,6,7) n qs in auto)
    qed
    finally show ?thesis using fo Cons.prems(2) qs by (simp add: add.assoc o_def)
  qed
qed

section \<open>Resolving a class\<close>

lemma resolveSClassSize_chain:
  "super_chain jf (p # qs) \<Longrightarrow> length qs < d \<Longrightarrow>
   resolveSClassSize d jf p = Some (int (length (concat (chain_fields jf (p # qs)))))"
proof (induction qs arbitrary: p d)
  case Nil
  then show ?case by (cases d) (auto elim: super_chain_ConsE)
next
  case (Cons q qs)
  obtain e where d: "d = Suc e" using Cons.prems(2) by (cases d) auto
  obtain c s where c: "cinfos jf p = Some c" "class_read c" "superId c = Some s" "s \<noteq> 0"
    "lookup32 (cTable jf) s = q" "super_chain jf (q # qs)"
    using super_chain_ConsE [OF Cons.prems(1)] by (metis list.discI list.sel(1))
  obtain n where "cfields c = Some n" "uint n = int (length (own_fields c))" using class_read_fields [OF c(2)] .
  then show ?case using c Cons.IH [OF c(6), of e] Cons.prems(2) d by (simp add: fields_of_def)
qed

definition class_fields :: "jdump \<Rightarrow> ptr list \<Rightarrow> finfo list" where
  "class_fields jf cs = place_blocks (sbTable jf) (identsz jf) 0 (chain_fields jf cs)"

definition laid_out :: "bool \<Rightarrow> jdump \<Rightarrow> ptr list \<Rightarrow> cinfo \<Rightarrow> bool" where
  "laid_out sized jf cs c \<longleftrightarrow> (let fs = class_fields jf cs
     in tfields c = int (length fs) \<and>
        (fs \<noteq> [] \<longrightarrow> (sized \<longrightarrow> cisize c = Some (of_nat (fields_size (identsz jf) fs))) \<and>
           map_option length (cvalues c) = Some (length fs) \<and> (\<forall>i < length fs. value_info c i = Some (fs ! i))))"

fun settled :: "bool \<Rightarrow> jdump \<Rightarrow> ptr list \<Rightarrow> bool" where
  "settled sz jf [] = True"
| "settled sz jf (p # qs) = ((case cinfos jf p of None \<Rightarrow> False | Some c \<Rightarrow> cresolved c \<and> laid_out sz jf (p # qs) c \<and>
     (qs \<noteq> [] \<longrightarrow> list_all (named (sbTable jf)) (own_fields c))) \<and> settled sz jf qs)"

lemma named_field_at [simp]: "named sb (field_at sb o1 f)"
  by (simp add: named_def field_at_def)

lemma list_all_named [simp]: "list_all (named sb) (place_fields sb isz o1 fs)"
  by (induction fs arbitrary: o1) auto

lemma fields_size_place [simp]: "fields_size isz (place_fields sb isz' o1 fs) = fields_size isz fs"
  by (induction fs arbitrary: o1) auto

lemma fields_size_blocks [simp]: "fields_size isz (place_blocks sb isz' o1 bs) = fields_size isz (concat bs)"
  by (induction bs arbitrary: o1) auto

lemma place_fields_again [simp]: "place_fields sb isz o1 (place_fields sb isz o2 fs) = place_fields sb isz o1 fs"
  by (induction fs arbitrary: o1 o2) auto

lemma class_fields_put [simp]: "p \<notin> set cs \<Longrightarrow> class_fields (put_ci p c jf) cs = class_fields jf cs"
  by (simp add: class_fields_def)

lemma laid_out_put [simp]: "p \<notin> set cs \<Longrightarrow> laid_out sz (put_ci p c jf) cs = laid_out sz jf cs"
  by (auto simp: laid_out_def fun_eq_iff)

lemma settled_put [simp]: "p \<notin> set cs \<Longrightarrow> settled sz (put_ci p c jf) cs = settled sz jf cs"
  by (induction cs) (auto split: option.splits)

lemma settled_named:
  "settled sz jf cs \<Longrightarrow> f \<in> set (concat (chain_fields jf cs)) \<Longrightarrow> named (sbTable jf) f"
proof (induction cs)
  case (Cons p cs)
  then show ?case by (cases cs) (auto simp: fields_of_def list_all_iff split: option.splits)
qed simp

definition fits :: "jdump \<Rightarrow> ptr list \<Rightarrow> bool" where
  "fits jf cs \<longleftrightarrow> int (length (concat (chain_fields jf cs))) < 0xFFFFFFF"

lemma fits_not_too_big:
  assumes "0 \<le> t" "t < 0xFFFFFFF"
  shows "\<not> array_too_big 8 (word_of_int t)"
proof -
  have "take_bit 32 t = t" "take_bit 64 t = t" using assms by (simp_all add: take_bit_int_eq_self)
  then show ?thesis using assms
    by (simp add: array_too_big_def MAX_TALLOC_SIZE_def word_le_def unsigned_ucast_eq uint_word_of_int uint_div_distrib)
qed

lemma own_fields_place [simp]:
  "own_fields (c\<lparr>cfinfo := map_option (place_fields sb isz o1) (cfinfo c)\<rparr>) = place_fields sb isz o1 (own_fields c)"
  by (cases "cfinfo c") (simp_all add: own_fields_def)

lemma fident_place: "(\<forall>f \<in> set (place_fields sb isz o1 fs). fident f \<noteq> None) \<longleftrightarrow> (\<forall>f \<in> set fs. fident f \<noteq> None)"
  by (induction fs arbitrary: o1) auto

lemma class_read_place [simp]:
  "class_read (c\<lparr>cfinfo := map_option (place_fields sb isz o1) (cfinfo c)\<rparr>) = class_read c"
  unfolding class_read_def own_fields_place fident_place by simp

lemma class_read_values [simp]: "class_read (c\<lparr>cvalues := v\<rparr>) = class_read c"
  by (simp add: class_read_def)

lemma super_chain_head:
  "super_chain jf (p # qs) \<Longrightarrow> p \<notin> set qs \<Longrightarrow> cinfos jf p = Some c \<Longrightarrow> class_read c' \<Longrightarrow> superId c' = superId c \<Longrightarrow>
   super_chain (put_ci p c' jf) (p # qs)"
  by (auto simp: super_chain.simps split: option.splits if_splits)

text \<open>The array of one class, laid out in a state where its superclasses are.\<close>

lemma layout_class:
  assumes ch: "super_chain jf (p # qs)" and c: "cinfos jf p = Some c" "class_read c"
    and st: "settled sz jf qs" and qs: "qs \<noteq> []"
    and t: "t = length (concat (chain_fields jf (p # qs)))"
    and vs: "cvalues c = Some (replicate t None)"
  shows "layout_loop t p (int t) p (int t - int (length (own_fields c))) 0 0 jf =
    Some (fields_size (identsz jf) (class_fields jf (p # qs)),
      put_ci p (c\<lparr>cfinfo := map_option (place_fields (sbTable jf) (identsz jf) 0) (cfinfo c),
        cvalues := Some (map (Some \<circ> Copied) (place_blocks (sbTable jf) (identsz jf)
              (fields_size (identsz jf) (own_fields c)) (chain_fields jf qs)) @
            map (\<lambda>i. Some (Own i)) [0..<length (own_fields c)])\<rparr>) jf)"
proof -
  obtain r rs where qs: "qs = r # rs" using qs by (cases qs) auto
  let ?n = "length (own_fields c)" and ?m = "length (concat (chain_fields jf qs))"
  let ?ix = "fields_size (identsz jf) (own_fields c)"
  let ?fi = "map_option (place_fields (sbTable jf) (identsz jf) 0) (cfinfo c)"
  let ?own = "map (\<lambda>i. Some (Own i)) [0..<?n]"
  let ?c = "c\<lparr>cfinfo := ?fi, cvalues := Some (replicate ?m None @ ?own)\<rparr>"
  have fo: "fields_of jf p = own_fields c" using c by (simp add: fields_of_def)
  have t': "t = ?n + ?m" using t fo qs by simp
  have p: "p \<notin> set qs" using super_chain_distinct [OF ch] by simp
  have of: "own_fields ?c = place_fields (sbTable jf) (identsz jf) 0 (own_fields c)"
    by simp
  have ch': "super_chain (put_ci p ?c jf) (p # qs)"
    by (rule super_chain_head [OF ch p c(1)]) (simp_all add: c(2))
  have "layout_loop t p (int t) p (int t - int ?n) 0 0 jf = layout_loop (?n + ?m) p (int t) p (int ?m) 0 0 jf"
    using t' by simp
  also have "\<dots> = layout_loop ?m p (int t) p (int ?m) ?n ?ix (put_ci p ?c jf)"
    using own_block [OF c, of 0 ?n ?m "[]" "[]" "int t" ?m 0] vs t'
    by (simp add: replicate_add [symmetric] add.commute option.map_ident)
  also have "\<dots> = Some (?ix + fields_size (identsz jf) (concat (chain_fields jf qs)),
      put_ci p (?c\<lparr>cvalues := Some (map (Some \<circ> Copied) (place_blocks (sbTable jf) (identsz jf) ?ix (chain_fields jf qs)) @ ?own)\<rparr>) jf)"
  proof -
    have "length (fields_of (put_ci p ?c jf) p) = ?n" using of by simp
    moreover have "\<forall>f \<in> set (concat (chain_fields jf qs)). named (sbTable jf) f" using settled_named [OF st] by blast
    ultimately show ?thesis
      using super_blocks [OF ch' p, of ?c ?m ?own "int t" ?ix] p t' by simp
  qed
  finally show ?thesis using fo qs by (simp add: class_fields_def)
qed

section \<open>Only the layout changes\<close>

definition raw :: "finfo \<Rightarrow> finfo" where
  "raw f = f\<lparr>fname := None, offset := None\<rparr>"

lemma raw_simps [simp]: "field_at sb o1 (raw f) = field_at sb o1 f" "raw (field_at sb o1 f) = raw f"
  "ftype (raw f) = ftype f" "fident (raw f) = fident f"
  by (simp_all add: raw_def field_at_def)

lemma raw_place [simp]: "map raw (place_fields sb isz o1 fs) = map raw fs"
  by (induction fs arbitrary: o1) auto

lemma place_raw [simp]: "place_fields sb isz o1 (map raw fs) = place_fields sb isz o1 fs"
  by (induction fs arbitrary: o1) auto

lemma fields_size_raw [simp]: "fields_size isz (map raw fs) = fields_size isz fs"
  by (induction fs) auto

lemma place_blocks_raw: "place_blocks sb isz o1 (map (map raw) bs) = place_blocks sb isz o1 bs"
  by (induction bs arbitrary: o1) auto

definition same_class :: "cinfo \<Rightarrow> cinfo \<Rightarrow> bool" where
  "same_class c c' \<longleftrightarrow> map raw (own_fields c') = map raw (own_fields c) \<and> (statics c' = None \<longleftrightarrow> statics c = None) \<and>
     c' = c\<lparr>tfields := tfields c', cresolved := cresolved c', statics := statics c', cfinfo := cfinfo c',
            cvalues := cvalues c', cisize := cisize c'\<rparr>"

lemma same_classD:
  assumes "same_class c c'"
  shows "superId c' = superId c" "cfields c' = cfields c" "cstats c' = cstats c" "cname c' = cname c"
    "cident c' = cident c" "length (own_fields c') = length (own_fields c)" "class_read c' = class_read c"
proof -
  have *: "c' = c\<lparr>tfields := tfields c', cresolved := cresolved c', statics := statics c', cfinfo := cfinfo c',
            cvalues := cvalues c', cisize := cisize c'\<rparr>" and r: "map raw (own_fields c') = map raw (own_fields c)"
    and st: "statics c' = None \<longleftrightarrow> statics c = None"
    using assms by (simp_all add: same_class_def)
  show "superId c' = superId c" "cfields c' = cfields c" "cstats c' = cstats c" "cname c' = cname c"
    "cident c' = cident c"
    by (subst *; simp)+
  moreover show len: "length (own_fields c') = length (own_fields c)" using r by (rule map_eq_imp_length_eq)
  moreover have "(\<forall>f \<in> set (own_fields c'). fident f \<noteq> None) = (\<forall>f \<in> set (own_fields c). fident f \<noteq> None)"
    using arg_cong [OF r, of "\<lambda>fs. \<forall>f \<in> set fs. fident f \<noteq> None"] by simp
  ultimately show "class_read c' = class_read c" using st by (simp add: class_read_def)
qed

lemma same_class_refl [simp]: "same_class c c"
  by (cases c) (simp add: same_class_def)

lemma same_class_trans: "same_class c d \<Longrightarrow> same_class d e \<Longrightarrow> same_class c e"
  unfolding same_class_def by (cases c; cases d; cases e) simp

definition relaid :: "jdump \<Rightarrow> jdump \<Rightarrow> bool" where
  "relaid jf jf' \<longleftrightarrow> jf' = jf\<lparr>cinfos := cinfos jf'\<rparr> \<and> (\<forall>p. rel_option same_class (cinfos jf p) (cinfos jf' p))"

lemma relaid_refl [simp]: "relaid jf jf"
  by (simp add: relaid_def option.rel_refl)

lemma relaid_trans: "relaid a b \<Longrightarrow> relaid b c \<Longrightarrow> relaid a c"
proof -
  assume ab: "relaid a b" and bc: "relaid b c"
  have "rel_option same_class (cinfos a p) (cinfos c p)" for p
  proof -
    have 1: "rel_option same_class (cinfos a p) (cinfos b p)" and 2: "rel_option same_class (cinfos b p) (cinfos c p)"
      using ab bc by (simp_all add: relaid_def)
    show ?thesis using 1 2 by (auto elim!: option.rel_cases intro: same_class_trans)
  qed
  moreover have "c = a\<lparr>cinfos := cinfos c\<rparr>"
  proof -
    have c: "c = b\<lparr>cinfos := cinfos c\<rparr>" and b: "b = a\<lparr>cinfos := cinfos b\<rparr>"
      using ab bc by (simp_all add: relaid_def)
    have "b\<lparr>cinfos := cinfos c\<rparr> = a\<lparr>cinfos := cinfos c\<rparr>" by (subst b) simp
    then show ?thesis using trans [OF c] by blast
  qed
  ultimately show ?thesis by (simp add: relaid_def)
qed

lemma relaid_put: "cinfos jf p = Some c \<Longrightarrow> same_class c c' \<Longrightarrow> relaid jf (put_ci p c' jf)"
  by (auto simp: relaid_def put_ci_def option.rel_refl)

lemma relaid_cell:
  assumes "relaid jf jf'" "cinfos jf p = Some c"
  obtains c' where "cinfos jf' p = Some c'" "same_class c c'"
  using assms unfolding relaid_def by (metis option.rel_cases option.sel option.simps(3))

lemma relaid_keeps:
  assumes "relaid jf jf'"
  shows "sbTable jf' = sbTable jf" "cTable jf' = cTable jf" "identsz jf' = identsz jf" "hTable jf' = hTable jf"
    "hobjs jf' = hobjs jf" "fin jf' = fin jf"
proof -
  have *: "jf' = jf\<lparr>cinfos := cinfos jf'\<rparr>" using assms by (simp add: relaid_def)
  show "sbTable jf' = sbTable jf" "cTable jf' = cTable jf" "identsz jf' = identsz jf" "hTable jf' = hTable jf"
    "hobjs jf' = hobjs jf" "fin jf' = fin jf"
    by (subst *; simp)+
qed

text \<open>
  The class records in which two states agree up to names, offsets and the layout: enough
  for both to have the same chains and the same fields.
\<close>

definition similar_class :: "cinfo \<Rightarrow> cinfo \<Rightarrow> bool" where
  "similar_class c c' \<longleftrightarrow> map raw (own_fields c') = map raw (own_fields c) \<and> (statics c' = None \<longleftrightarrow> statics c = None) \<and>
     superId c' = superId c \<and> cfields c' = cfields c \<and> cstats c' = cstats c \<and> cname c' = cname c"

definition similar :: "jdump \<Rightarrow> jdump \<Rightarrow> bool" where
  "similar jf jf' \<longleftrightarrow> sbTable jf' = sbTable jf \<and> cTable jf' = cTable jf \<and> identsz jf' = identsz jf \<and>
     (\<forall>p. rel_option similar_class (cinfos jf p) (cinfos jf' p))"

lemma same_similar: "same_class c c' \<Longrightarrow> similar_class c c'"
  using same_classD(1-4) [of c c'] by (simp add: similar_class_def) (simp add: same_class_def)

lemma relaid_similar:
  assumes "relaid jf jf'"
  shows "similar jf jf'"
proof -
  have "rel_option similar_class (cinfos jf p) (cinfos jf' p)" for p
  proof -
    have "rel_option same_class (cinfos jf p) (cinfos jf' p)" using assms by (simp add: relaid_def)
    then show ?thesis by (auto elim!: option.rel_cases intro: same_similar)
  qed
  then show ?thesis using relaid_keeps [OF assms] by (simp add: similar_def)
qed

lemma similar_trans: "similar a b \<Longrightarrow> similar b c \<Longrightarrow> similar a c"
proof -
  assume ab: "similar a b" and bc: "similar b c"
  have "rel_option similar_class (cinfos a p) (cinfos c p)" for p
  proof -
    have 1: "rel_option similar_class (cinfos a p) (cinfos b p)" and 2: "rel_option similar_class (cinfos b p) (cinfos c p)"
      using ab bc by (simp_all add: similar_def)
    have 3: "similar_class x z" if "similar_class x y" "similar_class y z" for x y z
      using that by (simp add: similar_class_def)
    show ?thesis using 1 2 by (auto elim!: option.rel_cases intro: 3)
  qed
  then show ?thesis using ab bc by (simp add: similar_def)
qed

lemma similar_sym: "similar a b \<Longrightarrow> similar b a"
proof -
  assume ab: "similar a b"
  have "rel_option similar_class (cinfos b p) (cinfos a p)" for p
  proof -
    have "rel_option similar_class (cinfos a p) (cinfos b p)" using ab by (simp add: similar_def)
    moreover have "similar_class y x" if "similar_class x y" for x y using that by (simp add: similar_class_def)
    ultimately show ?thesis by (auto elim!: option.rel_cases)
  qed
  then show ?thesis using ab by (simp add: similar_def)
qed

lemma similar_cell:
  assumes "similar jf jf'" "cinfos jf p = Some c"
  obtains c' where "cinfos jf' p = Some c'" "similar_class c c'"
  using assms unfolding similar_def by (metis option.rel_cases option.sel option.simps(3))

lemma similar_classD:
  assumes "similar_class c c'"
  shows "length (own_fields c') = length (own_fields c)" "class_read c' = class_read c"
proof -
  have r: "map raw (own_fields c') = map raw (own_fields c)" using assms by (simp add: similar_class_def)
  show len: "length (own_fields c') = length (own_fields c)" using r by (rule map_eq_imp_length_eq)
  moreover have "(\<forall>f \<in> set (own_fields c'). fident f \<noteq> None) = (\<forall>f \<in> set (own_fields c). fident f \<noteq> None)"
    using arg_cong [OF r, of "\<lambda>fs. \<forall>f \<in> set fs. fident f \<noteq> None"] by simp
  ultimately show "class_read c' = class_read c" using assms by (simp add: class_read_def similar_class_def)
qed

lemma similar_chain_fields: "similar jf jf' \<Longrightarrow> map (map raw) (chain_fields jf' cs) = map (map raw) (chain_fields jf cs)"
proof -
  assume s: "similar jf jf'"
  have "map raw (fields_of jf' p) = map raw (fields_of jf p)" for p
  proof -
    have "rel_option similar_class (cinfos jf p) (cinfos jf' p)" using s by (simp add: similar_def)
    then show ?thesis by (auto simp: fields_of_def similar_class_def elim!: option.rel_cases)
  qed
  then show ?thesis by (simp add: chain_fields_def)
qed

lemma similar_class_fields:
  assumes "similar jf jf'"
  shows "class_fields jf' cs = class_fields jf cs"
proof -
  have t: "sbTable jf' = sbTable jf" "identsz jf' = identsz jf" using assms by (simp_all add: similar_def)
  have "class_fields jf' cs = place_blocks (sbTable jf) (identsz jf) 0 (map (map raw) (chain_fields jf' cs))"
    by (simp only: class_fields_def place_blocks_raw t)
  also have "\<dots> = class_fields jf cs"
    by (simp only: similar_chain_fields [OF assms]) (simp only: class_fields_def place_blocks_raw)
  finally show ?thesis .
qed

lemma similar_length:
  assumes "similar jf jf'"
  shows "length (concat (chain_fields jf' cs)) = length (concat (chain_fields jf cs))"
  using arg_cong [OF similar_chain_fields [OF assms], of "\<lambda>bs. sum_list (map length bs)" cs]
  by (simp add: length_concat o_def)

lemma similar_super_chain: "similar jf jf' \<Longrightarrow> super_chain jf cs \<Longrightarrow> super_chain jf' cs"
proof (induction cs)
  case (Cons p qs)
  obtain c s where c: "p \<noteq> NULL" "cinfos jf p = Some c" "class_read c" "superId c = Some s"
    "qs = [] \<Longrightarrow> s = 0 \<and> lookup32 (cTable jf) 0 = NULL"
    "qs \<noteq> [] \<Longrightarrow> s \<noteq> 0 \<and> lookup32 (cTable jf) s = hd qs \<and> super_chain jf qs"
    using super_chain_ConsE [OF Cons.prems(2)] by blast
  obtain c' where c': "cinfos jf' p = Some c'" "similar_class c c'" using similar_cell [OF Cons.prems(1) c(2)] .
  then have "superId c' = Some s" "class_read c'" using similar_classD [OF c'(2)] c by (simp_all add: similar_class_def)
  then show ?case using c c' Cons.IH [OF Cons.prems(1)] Cons.prems(1)
    by (cases "qs = []") (simp_all add: super_chain.simps similar_def)
qed simp

lemmas relaid_class_fields = similar_class_fields [OF relaid_similar]
  and relaid_length = similar_length [OF relaid_similar]
  and relaid_super_chain = similar_super_chain [OF relaid_similar]

lemma same_class_sym: "same_class c d \<Longrightarrow> same_class d c"
  unfolding same_class_def by (cases c; cases d) simp

lemma relaid_sym: "relaid a b \<Longrightarrow> relaid b a"
proof -
  assume r: "relaid a b"
  have b: "b = a\<lparr>cinfos := cinfos b\<rparr>" using r by (simp add: relaid_def)
  have "a = b\<lparr>cinfos := cinfos a\<rparr>" by (subst b) simp
  moreover have "rel_option same_class (cinfos b p) (cinfos a p)" for p
  proof -
    have "rel_option same_class (cinfos a p) (cinfos b p)" using r by (simp add: relaid_def)
    then show ?thesis by (auto elim!: option.rel_cases intro: same_class_sym)
  qed
  ultimately show ?thesis by (simp add: relaid_def)
qed

lemma settled_resolved: "settled sz jf cs \<Longrightarrow> p \<in> set cs \<Longrightarrow> \<exists>c. cinfos jf p = Some c \<and> cresolved c"
  by (induction cs) (auto split: option.splits)

definition layout_inv :: "bool \<Rightarrow> jdump \<Rightarrow> bool" where
  "layout_inv sz jf \<longleftrightarrow> (\<forall>p qs c. super_chain jf (p # qs) \<and> cinfos jf p = Some c \<and> cresolved c \<longrightarrow> settled sz jf (p # qs))"

lemma layout_invD: "layout_inv sz jf \<Longrightarrow> super_chain jf (p # qs) \<Longrightarrow> cinfos jf p = Some c \<Longrightarrow> cresolved c \<Longrightarrow> settled sz jf (p # qs)"
  unfolding layout_inv_def by blast

lemma layout_inv_put:
  assumes inv: "layout_inv sz jf" and c: "cinfos jf p = Some c" "\<not> cresolved c" "same_class c c'"
    and p: "cresolved c' \<Longrightarrow> super_chain jf (p # qs) \<and> settled sz (put_ci p c' jf) (p # qs)"
  shows "layout_inv sz (put_ci p c' jf)"
  unfolding layout_inv_def
proof (intro allI impI, elim conjE)
  fix q rs d
  assume ch: "super_chain (put_ci p c' jf) (q # rs)" and d: "cinfos (put_ci p c' jf) q = Some d" "cresolved d"
  have ch0: "super_chain jf (q # rs)"
    using relaid_super_chain [OF relaid_sym [OF relaid_put [OF c(1,3)]] ch] .
  show "settled sz (put_ci p c' jf) (q # rs)"
  proof (cases "q = p")
    case True
    then show ?thesis using p d ch0 super_chain_unique [of jf p qs rs] by simp
  next
    case False
    then have st: "settled sz jf (q # rs)" using layout_invD [OF inv ch0] d by simp
    then have "p \<notin> set (q # rs)" using settled_resolved [OF st, of p] c by auto
    then show ?thesis using st settled_put by blast
  qed
qed

lemma place_class:
  assumes ch: "super_chain jf (p # qs)" and qs: "qs \<noteq> []" and c: "cinfos jf p = Some c" "\<not> cresolved c"
    and st: "settled sz jf qs" and t: "t = length (concat (chain_fields jf (p # qs)))" "tfields c = int t"
    and t0: "t \<noteq> 0" and n: "n = length (own_fields c)"
  obtains c' idx where
    "layout_loop t p (int t) p (int t - int n) 0 0 (put_ci p (c\<lparr>cvalues := Some (replicate t None)\<rparr>) jf) = Some (idx, put_ci p c' jf)"
    "same_class c (c'\<lparr>cisize := Some (of_nat idx), cresolved := True\<rparr>)"
    "settled sz (put_ci p (c'\<lparr>cisize := Some (of_nat idx), cresolved := True\<rparr>) jf) (p # qs)"
proof -
  let ?c = "c\<lparr>cvalues := Some (replicate t None)\<rparr>"
  let ?jf = "put_ci p ?c jf" and ?sb = "sbTable jf" and ?isz = "identsz jf"
  have cr: "class_read c" using super_chain_ConsE [OF ch] c by (metis option.sel)
  have p: "p \<notin> set qs" using super_chain_distinct [OF ch] by simp
  have ch': "super_chain ?jf (p # qs)" by (rule super_chain_head [OF ch p c(1)]) (simp_all add: cr)
  have t': "t = length (concat (chain_fields ?jf (p # qs)))"
    using t p c by (cases qs) (simp_all add: fields_of_def)
  let ?idx = "fields_size ?isz (class_fields ?jf (p # qs))"
  let ?vs = "map (Some \<circ> Copied) (place_blocks ?sb ?isz (fields_size ?isz (own_fields c)) (chain_fields jf qs)) @
            map (\<lambda>i. Some (Own i)) [0..<length (own_fields c)]"
  let ?c' = "?c\<lparr>cfinfo := map_option (place_fields ?sb ?isz 0) (cfinfo c), cvalues := Some ?vs\<rparr>"
  define d where "d = ?c'\<lparr>cisize := Some (of_nat ?idx), cresolved := True\<rparr>"
  have d: "own_fields d = place_fields ?sb ?isz 0 (own_fields c)" "cvalues d = Some ?vs" "tfields d = int t"
    "cisize d = Some (of_nat ?idx)" "cresolved d" "cfinfo d = map_option (place_fields ?sb ?isz 0) (cfinfo c)"
    using t(2) by (simp_all add: d_def)
  have "layout_loop t p (int t) p (int t - int n) 0 0 ?jf = Some (?idx, put_ci p ?c' ?jf)"
    using layout_class [OF ch', where c = ?c and t = t] cr st qs p t' n by simp
  moreover have "same_class c d"
    by (cases c) (simp add: d_def same_class_def own_fields_def option.map_comp split: option.split)
  moreover have "settled sz (put_ci p d jf) (p # qs)"
  proof -
    obtain q rs where q: "qs = q # rs" using qs by (cases qs) auto
    let ?sup = "place_blocks ?sb ?isz (fields_size ?isz (own_fields c)) (chain_fields jf qs)"
    have fs: "class_fields (put_ci p d jf) (p # qs) = ?sup @ place_fields ?sb ?isz 0 (own_fields c)"
      using p q by (simp add: class_fields_def d(1))
    have len: "length (?sup @ place_fields ?sb ?isz 0 (own_fields c)) = t" "length ?vs = t"
      using t c(1) q by (simp_all add: fields_of_def)
    have "value_info d i = Some ((?sup @ place_fields ?sb ?isz 0 (own_fields c)) ! i)" if "i < t" for i
    proof (cases "i < length ?sup")
      case True
      then show ?thesis using that len by (simp add: value_info_def d(2) nth_append)
    next
      case False
      then show ?thesis using that len
        by (cases "cfinfo c") (auto simp: value_info_def d(2,6) nth_append own_fields_def)
    qed
    moreover have "?idx = fields_size ?isz (?sup @ place_fields ?sb ?isz 0 (own_fields c))"
      using p q c(1) by (simp add: class_fields_def fields_of_def add.commute)
    ultimately show ?thesis using t len p st t0 d by (simp add: laid_out_def fs Let_def)
  qed
  ultimately show ?thesis unfolding d_def by (intro that [of ?idx ?c']) simp_all
qed

definition started :: "int \<Rightarrow> cinfo \<Rightarrow> cinfo" where
  "started t c = (let c = c\<lparr>tfields := t\<rparr> in
     if cstats c = Some 0 then c else c\<lparr>statics := map_option (map resolveField) (statics c)\<rparr>)"

lemma started_simps [simp]:
  "own_fields (started t c) = own_fields c" "cresolved (started t c) = cresolved c" "tfields (started t c) = t"
  "superId (started t c) = superId c" "same_class c (started t c)" "cfields (started t c) = cfields c"
proof -
  show "same_class c (started t c)"
    by (cases c) (simp add: started_def same_class_def own_fields_def Let_def)
qed (simp_all add: started_def Let_def)

lemma resolveClassNode_start:
  assumes c: "cinfos jf p = Some c" "\<not> cresolved c" "class_read c" and t: "resolveSClassSize d jf p = Some t"
  shows "resolveClassNode (Suc d) jf p = do {
       let jf = put_ci p (started t c) jf;
       super \<leftarrow> getSuperClass jf p;
       jf \<leftarrow> (if super \<noteq> NULL then resolveClassNode d jf super else Some jf);
       jf \<leftarrow> (if 0 < t then
                (if array_too_big 8 (word_of_int t) then None
                 else do {
                   jf \<leftarrow> upd_ci p (\<lambda>c. c\<lparr>cvalues := Some (replicate (nat t) None)\<rparr>) jf;
                   n \<leftarrow> cfields c;
                   (idx, jf) \<leftarrow> layout_loop (nat t) p t p (t - uint n) 0 0 jf;
                   upd_ci p (\<lambda>c. c\<lparr>cisize := Some (of_nat idx)\<rparr>) jf })
              else Some jf);
       upd_ci p (\<lambda>c. c\<lparr>cresolved := True\<rparr>) jf }"
proof -
  obtain k where k: "cstats c = Some k" "k = 0 \<or> statics c \<noteq> None" using c(3) by (auto simp: class_read_def)
  show ?thesis
  proof (cases "k = 0")
    case True
    then show ?thesis using c t k by (simp add: upd_ci_put started_def Let_def)
  next
    case False
    then obtain ss where ss: "statics c = Some ss" using k by auto
    have "0 < k" using False by (simp add: word_gt_0)
    then show ?thesis using False c t k(1) ss by (simp add: upd_ci_put started_def Let_def)
  qed
qed

text \<open>The root class has no fields to lay out.\<close>

lemma resolve_root_class:
  assumes ch: "super_chain jf [p]" and inv: "layout_inv sz jf" and c: "cinfos jf p = Some c" "\<not> cresolved c" and e: "0 < e"
  shows "\<exists>jf'. resolveClassNode (Suc e) jf p = Some jf' \<and> relaid jf jf' \<and> layout_inv sz jf' \<and> settled sz jf' [p] \<and>
    (\<forall>q. q \<notin> set [p] \<longrightarrow> cinfos jf' q = cinfos jf q)"
proof -
  have r: "class_read c" "superId c = Some 0" "lookup32 (cTable jf) 0 = NULL"
    using super_chain_ConsE [OF ch] c(1) by (metis option.sel)+
  let ?d = "(started 0 c)\<lparr>cresolved := True\<rparr>"
  have "resolveSClassSize e jf p = Some 0" using resolveSClassSize_chain [OF ch, of e] e by simp
  then have run: "resolveClassNode (Suc e) jf p = Some (put_ci p ?d jf)"
    using c r by (simp add: resolveClassNode_start getSuperClass_def upd_ci_put del: resolveClassNode.simps)
  have sc: "same_class c ?d" by (cases c) (simp add: started_def same_class_def own_fields_def Let_def)
  have st: "settled sz (put_ci p ?d jf) [p]" by (simp add: laid_out_def class_fields_def)
  have "layout_inv sz (put_ci p ?d jf)"
    using layout_inv_put [OF inv c sc] ch st by blast
  then show ?thesis using run relaid_put [OF c(1) sc] st by auto
qed

text \<open>The last part of \<open>resolveClassNode\<close>, when the superclasses are laid out.\<close>

definition finish_class :: "ptr \<Rightarrow> nat \<Rightarrow> nat \<Rightarrow> jdump \<Rightarrow> jdump option" where
  "finish_class p t n jf = do {
     jf \<leftarrow> (if 0 < int t then
              (if array_too_big 8 (word_of_int (int t)) then None
               else do {
                 jf \<leftarrow> upd_ci p (\<lambda>c. c\<lparr>cvalues := Some (replicate t None)\<rparr>) jf;
                 (idx, jf) \<leftarrow> layout_loop t p (int t) p (int t - int n) 0 0 jf;
                 upd_ci p (\<lambda>c. c\<lparr>cisize := Some (of_nat idx)\<rparr>) jf })
            else Some jf);
     upd_ci p (\<lambda>c. c\<lparr>cresolved := True\<rparr>) jf }"

lemma finish_class_settled:
  assumes ch: "super_chain jf (p # qs)" and qs: "qs \<noteq> []" and c: "cinfos jf p = Some c" "\<not> cresolved c"
    and st: "settled sz jf qs" and t: "t = length (concat (chain_fields jf (p # qs)))" "tfields c = int t" "int t < 0xFFFFFFF"
  obtains c' where "finish_class p t (length (own_fields c)) jf = Some (put_ci p c' jf)" "same_class c c'" "cresolved c'"
    "settled sz (put_ci p c' jf) (p # qs)"
proof (cases "t = 0")
  case True
  let ?d = "c\<lparr>cresolved := True\<rparr>"
  obtain q rs where q: "qs = q # rs" using qs by (cases qs) auto
  have p: "p \<notin> set qs" using super_chain_distinct [OF ch] by simp
  have fs: "length (class_fields (put_ci p ?d jf) (p # qs)) = 0"
    using True t p c q by (simp add: class_fields_def fields_of_def)
  have "own_fields c = []" using True t c q by (simp add: fields_of_def)
  moreover have "settled sz (put_ci p ?d jf) qs" using settled_put [OF p] st by blast
  ultimately have "settled sz (put_ci p ?d jf) (p # qs)"
    using True t fs by (subst settled.simps(2)) (simp add: laid_out_def Let_def del: settled.simps)
  moreover have "same_class c ?d" by (cases c) (simp add: same_class_def own_fields_def)
  ultimately show ?thesis using True c(1) that [of ?d] by (simp add: finish_class_def upd_ci_put del: settled.simps)
next
  case False
  obtain c' idx where pc:
    "layout_loop t p (int t) p (int t - int (length (own_fields c))) 0 0 (put_ci p (c\<lparr>cvalues := Some (replicate t None)\<rparr>) jf) = Some (idx, put_ci p c' jf)"
    "same_class c (c'\<lparr>cisize := Some (of_nat idx), cresolved := True\<rparr>)"
    "settled sz (put_ci p (c'\<lparr>cisize := Some (of_nat idx), cresolved := True\<rparr>) jf) (p # qs)"
    using place_class [OF ch qs c st t(1,2) False refl] by blast
  have big: "\<not> array_too_big 8 (word_of_int (int t))" using fits_not_too_big [of "int t"] t(3) by simp
  show ?thesis
    using False big pc c(1) that [of "c'\<lparr>cisize := Some (of_nat idx), cresolved := True\<rparr>"]
    by (simp add: finish_class_def upd_ci_put del: settled.simps of_int_of_nat_eq)
qed

lemma resolveClassNode_parts:
  assumes c: "cinfos jf p = Some c" "\<not> cresolved c" "class_read c" "superId c = Some s" "lookup32 (cTable jf) s = q" "q \<noteq> NULL"
    and t: "resolveSClassSize d jf p = Some (int t)" and j2: "resolveClassNode d (put_ci p (started (int t) c) jf) q = Some j2"
  shows "resolveClassNode (Suc d) jf p = finish_class p t (length (own_fields (started (int t) c))) j2"
proof -
  obtain n where n: "cfields c = Some n" "uint n = int (length (own_fields c))" using class_read_fields [OF c(3)] by metis
  show ?thesis
    unfolding resolveClassNode_start [OF c(1-3) t] finish_class_def
    using c(4-6) j2 n by (simp add: getSuperClass_def)
qed

lemma chain_fields_suffix: "length (concat (chain_fields jf qs)) \<le> length (concat (chain_fields jf (p # qs)))"
  by (cases qs) simp_all

lemma resolveClassNode_chain:
  assumes "super_chain jf (p # qs)" "Suc (length qs) < d" "layout_inv sz jf" "fits jf (p # qs)"
  shows "\<exists>jf'. resolveClassNode d jf p = Some jf' \<and> relaid jf jf' \<and> layout_inv sz jf' \<and> settled sz jf' (p # qs) \<and>
    (\<forall>q. q \<notin> set (p # qs) \<longrightarrow> cinfos jf' q = cinfos jf q)"
  using assms
proof (induction qs arbitrary: p d jf)
  case Nil
  obtain e where d: "d = Suc e" "0 < e" using Nil.prems(2) by (cases d) auto
  obtain c where c: "cinfos jf p = Some c" using super_chain_ConsE [OF Nil.prems(1)] by metis
  show ?case
  proof (cases "cresolved c")
    case True
    then show ?thesis using Nil.prems(3) layout_invD [OF Nil.prems(3,1) c(1)] c(1) d by auto
  next
    case False
    then show ?thesis unfolding d(1) using resolve_root_class [OF Nil.prems(1,3) c] d(2) by blast
  qed
next
  case (Cons q rs)
  obtain e where d: "d = Suc e" "Suc (length rs) < e" using Cons.prems(2) by (cases d) auto
  obtain c s where c: "cinfos jf p = Some c" "class_read c" "superId c = Some s" "s \<noteq> 0"
    "lookup32 (cTable jf) s = q" "super_chain jf (q # rs)"
    using super_chain_ConsE [OF Cons.prems(1)] by (metis list.discI list.sel(1))
  have p: "p \<notin> set (q # rs)" using super_chain_distinct [OF Cons.prems(1)] by simp
  have q: "q \<noteq> NULL" using super_chain_ConsE [OF c(6)] by metis
  show ?case
  proof (cases "cresolved c")
    case True
    then show ?thesis using Cons.prems(3) layout_invD [OF Cons.prems(3,1) c(1)] c(1) d by auto
  next
    case False
    define t where "t = length (concat (chain_fields jf (p # q # rs)))"
    define c1 where "c1 = started (int t) c"
    have c1: "same_class c c1" "\<not> cresolved c1" "tfields c1 = int t" using False by (simp_all add: c1_def)
    let ?j1 = "put_ci p c1 jf"
    have rs: "resolveSClassSize e jf p = Some (int t)"
      unfolding t_def using d(2) by (intro resolveSClassSize_chain [OF Cons.prems(1)]) simp
    have i1: "layout_inv sz ?j1" using layout_inv_put [OF Cons.prems(3) c(1) False c1(1)] c1(2) by blast
    have "fits ?j1 (q # rs)"
      using Cons.prems(4) p chain_fields_suffix [of jf "q # rs" p] by (simp add: fits_def)
    then obtain j2 where j2: "resolveClassNode e ?j1 q = Some j2" "relaid ?j1 j2" "layout_inv sz j2" "settled sz j2 (q # rs)"
      "\<forall>x. x \<notin> set (q # rs) \<longrightarrow> cinfos j2 x = cinfos ?j1 x"
      using Cons.IH [of ?j1 q e] c(6) p d(2) i1 by auto
    have p2: "cinfos j2 p = Some c1" using j2(5) p by simp
    have r2: "relaid jf j2" using relaid_trans [OF relaid_put [OF c(1) c1(1)] j2(2)] .
    note ch2 = relaid_super_chain [OF r2 Cons.prems(1)]
    have t2: "t = length (concat (chain_fields j2 (p # q # rs)))" unfolding t_def by (rule relaid_length [OF r2, symmetric])
    have t3: "int t < 0xFFFFFFF" using Cons.prems(4) by (simp add: fits_def t_def)
    obtain c3 where c3: "finish_class p t (length (own_fields c1)) j2 = Some (put_ci p c3 j2)" "same_class c1 c3" "cresolved c3"
      "settled sz (put_ci p c3 j2) (p # q # rs)"
      using finish_class_settled [OF ch2 _ p2 c1(2) j2(4) t2 c1(3) t3] by blast
    have "resolveClassNode d jf p = Some (put_ci p c3 j2)"
      using resolveClassNode_parts [OF c(1) False c(2,3,5) q rs j2(1) [unfolded c1_def]] c3(1) by (simp only: d(1) c1_def)
    moreover have "relaid jf (put_ci p c3 j2)" using relaid_trans [OF r2 relaid_put [OF p2 c3(2)]] .
    moreover have "layout_inv sz (put_ci p c3 j2)"
      using layout_inv_put [OF j2(3) p2 c1(2) c3(2)] ch2 c3(4) by blast
    moreover have "cinfos (put_ci p c3 j2) x = cinfos jf x" if "x \<notin> set (p # q # rs)" for x
      using that j2(5) by simp
    ultimately show ?thesis using c3(4) by blast
  qed
qed

section \<open>All classes\<close>

definition resolved_in :: "jdump \<Rightarrow> ptr \<Rightarrow> bool" where
  "resolved_in jf p \<longleftrightarrow> (case cinfos jf p of None \<Rightarrow> False | Some c \<Rightarrow> cresolved c)"

lemma resolved_in_iff: "resolved_in jf p \<longleftrightarrow> (\<exists>c. cinfos jf p = Some c \<and> cresolved c)"
  by (auto simp: resolved_in_def split: option.splits)

lemma resolveClass_chain:
  assumes "relaid jf0 jf" "layout_inv sz jf"
    and "\<forall>p \<in> snd ` set (entries t). \<exists>qs. super_chain jf0 (p # qs) \<and> Suc (length qs) < d \<and> fits jf0 (p # qs)"
  shows "\<exists>jf'. resolveClass d jf t = Some jf' \<and> relaid jf0 jf' \<and> layout_inv sz jf' \<and>
    (\<forall>p. resolved_in jf p \<or> p \<in> snd ` set (entries t) \<longrightarrow> resolved_in jf' p)"
  using assms
proof (induction t arbitrary: jf)
  case (Node c l k p r)
  obtain j1 where j1: "resolveClass d jf l = Some j1" "relaid jf0 j1" "layout_inv sz j1"
    "\<forall>p. resolved_in jf p \<or> p \<in> snd ` set (entries l) \<longrightarrow> resolved_in j1 p"
    using Node.IH(1) [OF Node.prems(1,2)] Node.prems(3) by auto
  obtain qs where qs: "super_chain jf0 (p # qs)" "Suc (length qs) < d" "fits jf0 (p # qs)"
    using Node.prems(3) by auto
  have "fits j1 (p # qs)" using qs(3) relaid_length [OF j1(2)] by (simp only: fits_def)
  from resolveClassNode_chain [OF relaid_super_chain [OF j1(2) qs(1)] qs(2) j1(3) this]
  obtain j2 where j2: "resolveClassNode d j1 p = Some j2" "relaid j1 j2" "layout_inv sz j2" "settled sz j2 (p # qs)"
    "\<forall>q. q \<notin> set (p # qs) \<longrightarrow> cinfos j2 q = cinfos j1 q" by blast
  have keep: "resolved_in j2 q" if "resolved_in j1 q \<or> q = p" for q
    using that settled_resolved [OF j2(4), of q] j2(5) unfolding resolved_in_iff
    by (cases "q \<in> set (p # qs)") auto
  obtain j3 where j3: "resolveClass d j2 r = Some j3" "relaid jf0 j3" "layout_inv sz j3"
    "\<forall>p. resolved_in j2 p \<or> p \<in> snd ` set (entries r) \<longrightarrow> resolved_in j3 p"
    using Node.IH(2) [OF relaid_trans [OF j1(2) j2(2)] j2(3)] Node.prems(3) by auto
  have "resolved_in j3 q" if "resolved_in jf q \<or> q \<in> snd ` set (entries (Node c l k p r))" for q
    using that j1(4) keep j3(4) by auto
  then show ?case using j1(1) j2(1) j3 by auto
qed auto

lemma laid_out_relaid: "relaid jf jf' \<Longrightarrow> laid_out sz jf' cs c = laid_out sz jf cs c"
  by (simp add: laid_out_def relaid_class_fields relaid_keeps)

theorem resolveClass_lays_out:
  assumes "\<forall>p \<in> snd ` set (entries (cTable jf)). \<exists>qs. super_chain jf (p # qs) \<and> Suc (length qs) < d \<and> fits jf (p # qs)"
    and "\<forall>p. \<not> resolved_in jf p"
  shows "\<exists>jf'. resolveClass d jf (cTable jf) = Some jf' \<and> relaid jf jf' \<and>
    (\<forall>p \<in> snd ` set (entries (cTable jf)). \<forall>qs. super_chain jf (p # qs) \<longrightarrow>
      (\<exists>c. cinfos jf' p = Some c \<and> cresolved c \<and> laid_out sz jf (p # qs) c))"
proof -
  have "layout_inv sz jf" using assms(2) by (auto simp: layout_inv_def resolved_in_iff)
  from resolveClass_chain [OF relaid_refl this assms(1)]
  obtain jf' where jf': "resolveClass d jf (cTable jf) = Some jf'" "relaid jf jf'" "layout_inv sz jf'"
    "\<forall>p. p \<in> snd ` set (entries (cTable jf)) \<longrightarrow> resolved_in jf' p" by blast
  have "\<exists>c. cinfos jf' p = Some c \<and> cresolved c \<and> laid_out sz jf (p # qs) c"
    if p: "p \<in> snd ` set (entries (cTable jf))" and ch: "super_chain jf (p # qs)" for p qs
  proof -
    obtain c where c: "cinfos jf' p = Some c" "cresolved c" using jf'(4) p resolved_in_iff by auto
    have "settled sz jf' (p # qs)"
      by (rule layout_invD [OF jf'(3) relaid_super_chain [OF jf'(2) ch] c])
    then show ?thesis using c laid_out_relaid [OF jf'(2)] by auto
  qed
  then show ?thesis using jf'(1,2) by blast
qed

lemma settled_suffix:
  "settled sz jf (xs @ q # rs) \<Longrightarrow> \<exists>c. cinfos jf q = Some c \<and> cresolved c \<and> laid_out sz jf (q # rs) c"
  by (induction xs) (auto split: option.splits)

theorem resolveClassNode_lays_out:
  assumes "super_chain jf (p # qs)" "Suc (length qs) < d" "fits jf (p # qs)" "\<forall>q. \<not> resolved_in jf q"
  shows "\<exists>jf'. resolveClassNode d jf p = Some jf' \<and> relaid jf jf' \<and>
    (\<forall>q. q \<notin> set (p # qs) \<longrightarrow> cinfos jf' q = cinfos jf q) \<and>
    (\<forall>xs q rs. p # qs = xs @ q # rs \<longrightarrow>
      (\<exists>c. cinfos jf' q = Some c \<and> cresolved c \<and> laid_out True jf (q # rs) c))"
proof -
  have "layout_inv True jf" using assms(4) by (auto simp: layout_inv_def resolved_in_iff)
  from resolveClassNode_chain [OF assms(1,2) this assms(3)]
  obtain jf' where jf': "resolveClassNode d jf p = Some jf'" "relaid jf jf'" "settled True jf' (p # qs)"
    "\<forall>q. q \<notin> set (p # qs) \<longrightarrow> cinfos jf' q = cinfos jf q" by blast
  have "\<exists>c. cinfos jf' q = Some c \<and> cresolved c \<and> laid_out True jf (q # rs) c" if "p # qs = xs @ q # rs" for xs q rs
    using settled_suffix [of True jf' xs q rs] jf'(3) laid_out_relaid [OF jf'(2)] by (simp only: that)
  then show ?thesis using jf' by blast
qed

end
