(* ===== verification/Arc_Counts.thy ===== *)
theory Arc_Counts
  imports Jdump_Inv
begin

text \<open>
  The arcs between classes that \<^verbatim>\<open>phat.c\<close> collects while it resolves objects: the arcs out
  of a class form a list with one arc for each class referred to, and \<open>arc_add\<close> adds to the
  count of exactly one pair of classes.
\<close>

section \<open>The lists of arcs\<close>

fun arc_list :: "(arc \<Rightarrow> ptr) \<Rightarrow> (ptr \<rightharpoonup> arc) \<Rightarrow> ptr \<Rightarrow> ptr list \<Rightarrow> bool" where
  "arc_list nxt cells a [] = (a = NULL)"
| "arc_list nxt cells a (b # bs) = (a = b \<and> b \<noteq> NULL \<and>
     (case cells b of None \<Rightarrow> False | Some x \<Rightarrow> arc_list nxt cells (nxt x) bs))"

lemma arc_list_NULL [simp]: "arc_list nxt cells NULL as \<longleftrightarrow> as = []"
  by (cases as) auto

lemma arc_list_other [simp]: "a \<notin> set as \<Longrightarrow> arc_list nxt (cells(a \<mapsto> x)) b as = arc_list nxt cells b as"
  by (induction as arbitrary: b) (auto split: option.splits)

lemma arc_list_upd:
  assumes "cells a = Some x" "nxt y = nxt x"
  shows "arc_list nxt (cells(a \<mapsto> y)) b as = arc_list nxt cells b as"
proof (induction as arbitrary: b)
  case (Cons c as)
  then show ?case using assms by (cases "c = a") (auto split: option.splits)
qed simp

lemma arc_list_dom: "arc_list nxt cells a as \<Longrightarrow> set as \<subseteq> dom cells"
  by (induction as arbitrary: a) (auto split: option.splits)

definition target :: "(ptr \<rightharpoonup> arc) \<Rightarrow> ptr \<Rightarrow> ptr" where
  "target cells a = (case cells a of None \<Rightarrow> NULL | Some x \<Rightarrow> achild x)"

lemma arc_walk_list:
  "arc_list next_child cells a as \<Longrightarrow>
   arc_walk cells c a = Some (case filter (\<lambda>b. target cells b = c) as of [] \<Rightarrow> NULL | b # _ \<Rightarrow> b)"
proof (induction as arbitrary: a)
  case Nil
  then show ?case by (simp add: arc_walk.simps)
next
  case (Cons b as)
  then show ?case by (subst arc_walk.simps) (auto simp: target_def split: option.splits)
qed

section \<open>The invariant\<close>

definition classes :: "jdump \<Rightarrow> ptr set" where
  "classes jf = ran (rbt_lookup (cTable jf))"

lemma finite_classes: "rbt_inv (cTable jf) \<Longrightarrow> finite (classes jf)"
  unfolding classes_def by (simp add: rbt_table.ran_items)

text \<open>The arc of a pair of classes, as \<open>arc_lookup\<close> finds it, and its count.\<close>

definition the_arc :: "jdump \<Rightarrow> ptr \<Rightarrow> ptr \<Rightarrow> ptr" where
  "the_arc jf p c = (case cinfos jf p of None \<Rightarrow> NULL | Some ci \<Rightarrow>
     (case children ci of None \<Rightarrow> NULL | Some a \<Rightarrow>
       (case arc_walk (arc_cells jf) c a of None \<Rightarrow> NULL | Some b \<Rightarrow> b)))"

definition arc_count :: "jdump \<Rightarrow> ptr \<Rightarrow> ptr \<Rightarrow> int" where
  "arc_count jf p c = (case arc_cells jf (the_arc jf p c) of None \<Rightarrow> 0 | Some x \<Rightarrow> acount x)"

definition class_arcs :: "jdump \<Rightarrow> ptr \<Rightarrow> ptr list \<Rightarrow> bool" where
  "class_arcs jf p as \<longleftrightarrow> (\<exists>ci a. cinfos jf p = Some ci \<and> children ci = Some a \<and> parents ci \<noteq> None \<and>
     arc_list next_child (arc_cells jf) a as \<and> distinct (map (target (arc_cells jf)) as) \<and>
     (\<forall>b \<in> set as. target (arc_cells jf) b \<in> classes jf \<and> (\<exists>x. arc_cells jf b = Some x \<and> aparent x = p)))"

definition pair :: "(ptr \<rightharpoonup> arc) \<Rightarrow> ptr \<Rightarrow> ptr \<times> ptr" where
  "pair cells a = (case cells a of None \<Rightarrow> (NULL, NULL) | Some x \<Rightarrow> (aparent x, achild x))"

definition arcs_ok :: "jdump \<Rightarrow> bool" where
  "arcs_ok jf \<longleftrightarrow> NULL \<notin> dom (arc_cells jf) \<and> (\<forall>p \<in> classes jf. p \<noteq> NULL \<and> (\<exists>as. class_arcs jf p as)) \<and>
     dom (arc_cells jf) \<subseteq> {0<..<next_ptr jf} \<and> 0 < next_ptr jf \<and>
     int (length (arcs jf)) \<le> arcs_max jf \<and> distinct (map (pair (arc_cells jf)) (arcs jf)) \<and>
     (\<forall>a \<in> set (arcs jf). \<exists>p c. pair (arc_cells jf) a = (p, c) \<and> p \<in> classes jf \<and> c \<in> classes jf \<and> the_arc jf p c = a)"

definition room_for_arcs :: "jdump \<Rightarrow> bool" where
  "room_for_arcs jf \<longleftrightarrow> 8 * (int (card (classes jf)) ^ 2 + 10) < uint MAX_TALLOC_SIZE"

lemma the_arc_class:
  assumes "class_arcs jf p as"
  shows "the_arc jf p c = (case filter (\<lambda>b. target (arc_cells jf) b = c) as of [] \<Rightarrow> NULL | b # _ \<Rightarrow> b)"
  using assms arc_walk_list by (fastforce simp: class_arcs_def the_arc_def)

lemma the_arc_iff:
  assumes "class_arcs jf p as" "NULL \<notin> dom (arc_cells jf)"
  shows "b \<in> set as \<Longrightarrow> the_arc jf p (target (arc_cells jf) b) = b"
    and "the_arc jf p c \<noteq> NULL \<Longrightarrow> the_arc jf p c \<in> set as \<and> target (arc_cells jf) (the_arc jf p c) = c"
proof -
  have as: "distinct (map (target (arc_cells jf)) as)" "NULL \<notin> set as"
    using assms arc_list_dom by (fastforce simp: class_arcs_def)+
  show "the_arc jf p (target (arc_cells jf) b) = b" if b: "b \<in> set as"
  proof -
    have "filter (\<lambda>d. target (arc_cells jf) d = target (arc_cells jf) b) as = [b]"
      using as(1) b by (induction as) (auto simp: filter_empty_conv image_iff)
    then show ?thesis using the_arc_class [OF assms(1)] by simp
  qed
  show "the_arc jf p c \<in> set as \<and> target (arc_cells jf) (the_arc jf p c) = c" if "the_arc jf p c \<noteq> NULL"
    using that the_arc_class [OF assms(1), of c]
    by (auto split: list.splits dest: filter_eq_ConsD)
qed

lemma arcs_bound:
  assumes "arcs_ok jf" "rbt_inv (cTable jf)"
  shows "int (length (arcs jf)) \<le> int (card (classes jf)) ^ 2"
proof -
  have "set (map (pair (arc_cells jf)) (arcs jf)) \<subseteq> classes jf \<times> classes jf"
    using assms(1) by (fastforce simp: arcs_ok_def)
  then have "card (set (map (pair (arc_cells jf)) (arcs jf))) \<le> card (classes jf \<times> classes jf)"
    using finite_classes [OF assms(2)] by (intro card_mono) simp_all
  moreover have "card (set (map (pair (arc_cells jf)) (arcs jf))) = length (arcs jf)"
    using assms(1) distinct_card by (fastforce simp: arcs_ok_def)
  ultimately have "length (arcs jf) \<le> card (classes jf) * card (classes jf)"
    by (simp add: card_cartesian_product)
  then show ?thesis by (simp add: power2_eq_square flip: of_nat_mult)
qed

section \<open>Adding an arc\<close>

definition arc_frame :: "jdump \<Rightarrow> jdump \<Rightarrow> bool" where
  "arc_frame jf jf' \<longleftrightarrow>
     jf' = jf\<lparr>cinfos := cinfos jf', arc_cells := arc_cells jf', arcs := arcs jf', arcs_max := arcs_max jf',
              next_ptr := next_ptr jf'\<rparr> \<and>
     (\<forall>p. rel_option (\<lambda>c c'. c' = c\<lparr>parents := parents c', children := children c'\<rparr>) (cinfos jf p) (cinfos jf' p))"

definition adds :: "int \<Rightarrow> ptr \<Rightarrow> ptr \<Rightarrow> jdump \<Rightarrow> jdump \<Rightarrow> bool" where
  "adds n p c jf jf' \<longleftrightarrow> (\<forall>q \<in> classes jf. \<forall>d \<in> classes jf.
     arc_count jf' q d = arc_count jf q d + (if (q, d) = (p, c) then n else 0))"

lemma class_arcs_upd:
  assumes "arc_cells jf a = Some x" "next_child y = next_child x" "achild y = achild x" "aparent y = aparent x"
  shows "class_arcs (jf\<lparr>arc_cells := (arc_cells jf)(a \<mapsto> y)\<rparr>) p as = class_arcs jf p as"
proof -
  let ?cells = "(arc_cells jf)(a \<mapsto> y)"
  have "target ?cells = target (arc_cells jf)" using assms by (auto simp: target_def fun_eq_iff)
  moreover have "arc_list next_child ?cells b as = arc_list next_child (arc_cells jf) b as" for b
    using assms by (intro arc_list_upd)
  moreover have "(\<exists>z. ?cells b = Some z \<and> aparent z = p) \<longleftrightarrow> (\<exists>z. arc_cells jf b = Some z \<and> aparent z = p)" for b
    using assms by auto
  ultimately show ?thesis by (simp add: class_arcs_def classes_def)
qed

lemma arcs_ok_class: "arcs_ok jf \<Longrightarrow> p \<in> classes jf \<Longrightarrow> \<exists>as. class_arcs jf p as"
  by (simp add: arcs_ok_def)

lemma class_arcs_parent: "class_arcs jf p as \<Longrightarrow> b \<in> set as \<Longrightarrow> arc_cells jf b = Some x \<Longrightarrow> aparent x = p"
  by (fastforce simp: class_arcs_def)

lemma count_upd:
  assumes ok: "arcs_ok jf" and pc: "p \<in> classes jf" "c \<in> classes jf"
    and a: "the_arc jf p c = a" "arc_cells jf a = Some x"
    and y: "y = x\<lparr>acount := acount x + n, achild_size := z\<rparr>"
    and jf': "jf' = jf\<lparr>arc_cells := (arc_cells jf)(a \<mapsto> y)\<rparr>"
  shows "arcs_ok jf'" "adds n p c jf jf'"
proof -
  have nd: "NULL \<notin> dom (arc_cells jf)" using ok by (simp add: arcs_ok_def)
  have ca: "class_arcs jf' q as \<longleftrightarrow> class_arcs jf q as" for q as
    unfolding jf' by (rule class_arcs_upd [OF a(2)]) (simp_all add: y)
  have tg: "target (arc_cells jf') = target (arc_cells jf)" "pair (arc_cells jf') = pair (arc_cells jf)"
    "dom (arc_cells jf') = dom (arc_cells jf)" "classes jf' = classes jf"
    using a(2) by (auto simp: target_def pair_def fun_eq_iff y jf' classes_def)
  have ta: "the_arc jf' q d = the_arc jf q d" if q: "q \<in> classes jf" for q d
  proof -
    obtain as where "class_arcs jf q as" using arcs_ok_class [OF ok q] by blast
    then show ?thesis using the_arc_class [of jf q as d] the_arc_class [of jf' q as d] ca tg by simp
  qed
  show "arcs_ok jf'"
    unfolding arcs_ok_def tg ca using ok ta unfolding arcs_ok_def by (auto simp: jf')
  show "adds n p c jf jf'"
    unfolding adds_def
  proof (intro ballI)
    fix q d assume q: "q \<in> classes jf" and d: "d \<in> classes jf"
    obtain as where as: "class_arcs jf q as" using arcs_ok_class [OF ok q] by blast
    have "(q, d) = (p, c)" if t: "the_arc jf q d = a"
    proof -
      have "a \<noteq> NULL" using a(2) nd by auto
      then have 1: "a \<in> set as" "target (arc_cells jf) a = d" using the_arc_iff(2) [OF as nd, of d] t by auto
      obtain bs where bs: "class_arcs jf p bs" using arcs_ok_class [OF ok pc(1)] by blast
      then have 2: "a \<in> set bs" "target (arc_cells jf) a = c"
        using the_arc_iff(2) [OF bs nd, of c] a(1) \<open>a \<noteq> NULL\<close> by auto
      show ?thesis
        using class_arcs_parent [OF as 1(1) a(2)] class_arcs_parent [OF bs 2(1) a(2)] 1(2) 2(2) by metis
    qed
    then show "arc_count jf' q d = arc_count jf q d + (if (q, d) = (p, c) then n else 0)"
      using ta [OF q, of d] a by (cases "the_arc jf q d = a") (auto simp: arc_count_def jf' y)
  qed
qed

text \<open>A new arc in front of the list of its parent.\<close>

lemma class_arcs_new:
  assumes ok: "arcs_ok jf" and as: "class_arcs jf q as"
    and a: "a = next_ptr jf" and x: "aparent x = p" "achild x = c" "next_child x = first"
    and ci: "cinfos jf p = Some cp" "children cp = Some first"
    and cs: "\<forall>r. rel_option (\<lambda>d d'. children d' = (if r = p then Some a else children d) \<and> (parents d' = None \<longrightarrow> parents d = None))
        (cinfos jf r) (ci' r)"
    and c: "c \<in> classes jf" "\<forall>b \<in> set as. q = p \<longrightarrow> target (arc_cells jf) b \<noteq> c"
    and jf': "arc_cells jf' = (arc_cells jf)(a \<mapsto> x)" "cinfos jf' = ci'" "cTable jf' = cTable jf"
  shows "class_arcs jf' q (if q = p then a # as else as)"
proof -
  have an: "a \<notin> dom (arc_cells jf)" "a \<noteq> NULL" using ok a by (auto simp: arcs_ok_def)
  have sub: "set as \<subseteq> dom (arc_cells jf)" using as arc_list_dom by (fastforce simp: class_arcs_def)
  then have na: "a \<notin> set as" using an by auto
  have tg: "target ((arc_cells jf)(a \<mapsto> x)) b = target (arc_cells jf) b"
    "((arc_cells jf)(a \<mapsto> x)) b = arc_cells jf b" if "b \<in> set as" for b
    using that na by (auto simp: target_def)
  obtain d f where d: "cinfos jf q = Some d" "children d = Some f" "parents d \<noteq> None"
    "arc_list next_child (arc_cells jf) f as" "distinct (map (target (arc_cells jf)) as)"
    "\<forall>b \<in> set as. target (arc_cells jf) b \<in> classes jf \<and> (\<exists>x. arc_cells jf b = Some x \<and> aparent x = q)"
    using as by (auto simp: class_arcs_def)
  obtain d' where d': "ci' q = Some d'" "children d' = (if q = p then Some a else children d)" "parents d' \<noteq> None"
    using cs [rule_format, of q] d(1,3) by (auto elim: option.rel_cases)
  have mp: "map (target ((arc_cells jf)(a \<mapsto> x))) as = map (target (arc_cells jf)) as"
    using tg(1) by simp
  have al: "arc_list next_child ((arc_cells jf)(a \<mapsto> x)) f as" using d(4) na by simp
  have cl: "classes jf' = classes jf" using jf' by (simp add: classes_def)
  show ?thesis
  proof (cases "q = p")
    case True
    have "first = f" using True ci d by simp
    have ta: "target ((arc_cells jf)(a \<mapsto> x)) a = c" using x by (simp add: target_def)
    have "c \<notin> target ((arc_cells jf)(a \<mapsto> x)) ` set as" using c(2) True tg(1) by auto
    then have "distinct (map (target ((arc_cells jf)(a \<mapsto> x))) (a # as))"
      using d(5) unfolding list.map mp ta by (simp only: distinct.simps set_map mp [symmetric] simp_thms)
    moreover have "arc_list next_child ((arc_cells jf)(a \<mapsto> x)) a (a # as)"
      using al an(2) x(3) \<open>first = f\<close> by simp
    moreover have "\<forall>b \<in> set (a # as). target ((arc_cells jf)(a \<mapsto> x)) b \<in> classes jf \<and>
        (\<exists>z. ((arc_cells jf)(a \<mapsto> x)) b = Some z \<and> aparent z = q)"
    proof
      fix b assume "b \<in> set (a # as)"
      then show "target ((arc_cells jf)(a \<mapsto> x)) b \<in> classes jf \<and> (\<exists>z. ((arc_cells jf)(a \<mapsto> x)) b = Some z \<and> aparent z = q)"
        using d(6) tg ta c(1) x(1) True by (cases "b = a") auto
    qed
    ultimately show ?thesis
      using d' True cl unfolding class_arcs_def jf' by auto
  next
    case False
    have "distinct (map (target ((arc_cells jf)(a \<mapsto> x))) as)" unfolding mp by (rule d(5))
    moreover have "\<forall>b \<in> set as. target ((arc_cells jf)(a \<mapsto> x)) b \<in> classes jf \<and>
        (\<exists>z. ((arc_cells jf)(a \<mapsto> x)) b = Some z \<and> aparent z = q)"
      using d(6) tg by auto
    ultimately show ?thesis using False d' d(2) al cl unfolding class_arcs_def jf' by auto
  qed
qed

lemma arcs_ok_pair:
  "arcs_ok jf \<Longrightarrow> b \<in> set (arcs jf) \<Longrightarrow>
   \<exists>p c. pair (arc_cells jf) b = (p, c) \<and> p \<in> classes jf \<and> c \<in> classes jf \<and> the_arc jf p c = b \<and> p \<noteq> NULL"
  unfolding arcs_ok_def by blast

text \<open>What \<open>arc_add\<close> does when the pair of classes has no arc yet.\<close>

definition arc_added :: "jdump \<Rightarrow> ptr \<Rightarrow> ptr \<Rightarrow> arc \<Rightarrow> jdump \<Rightarrow> bool" where
  "arc_added jf p c x jf' \<longleftrightarrow> arcs_ok jf \<and> p \<in> classes jf \<and> c \<in> classes jf \<and> the_arc jf p c = NULL \<and>
     aparent x = p \<and> achild x = c \<and> (\<exists>cp. cinfos jf p = Some cp \<and> children cp = Some (next_child x)) \<and>
     (\<forall>r. rel_option (\<lambda>d d'. children d' = (if r = p then Some (next_ptr jf) else children d) \<and>
        (parents d' = None \<longrightarrow> parents d = None)) (cinfos jf r) (cinfos jf' r)) \<and>
     arc_cells jf' = (arc_cells jf)(next_ptr jf \<mapsto> x) \<and> cTable jf' = cTable jf \<and> next_ptr jf' = Suc (next_ptr jf) \<and>
     arcs jf' = arcs jf @ (if p = c then [] else [next_ptr jf]) \<and> int (length (arcs jf')) \<le> arcs_max jf'"

lemma arc_addedD:
  assumes "arc_added jf p c x jf'"
  shows "arcs_ok jf" "p \<in> classes jf" "c \<in> classes jf" "the_arc jf p c = NULL" "aparent x = p" "achild x = c"
    "NULL \<notin> dom (arc_cells jf)" "next_ptr jf \<notin> dom (arc_cells jf)" "next_ptr jf \<noteq> NULL"
    "arc_cells jf' = (arc_cells jf)(next_ptr jf \<mapsto> x)" "classes jf' = classes jf" "next_ptr jf' = Suc (next_ptr jf)"
    "arcs jf' = arcs jf @ (if p = c then [] else [next_ptr jf])" "int (length (arcs jf')) \<le> arcs_max jf'"
  using assms unfolding arc_added_def arcs_ok_def classes_def by auto

lemma arc_added_class:
  assumes A: "arc_added jf p c x jf'" and as: "class_arcs jf q as"
  shows "class_arcs jf' q (if q = p then next_ptr jf # as else as)"
proof -
  note D = arc_addedD [OF A]
  obtain cp where cp: "cinfos jf p = Some cp" "children cp = Some (next_child x)" using A by (auto simp: arc_added_def)
  have cs: "\<forall>r. rel_option (\<lambda>d d'. children d' = (if r = p then Some (next_ptr jf) else children d) \<and>
        (parents d' = None \<longrightarrow> parents d = None)) (cinfos jf r) (cinfos jf' r)" and ct: "cTable jf' = cTable jf"
    using A by (simp_all add: arc_added_def)
  have "target (arc_cells jf) b \<noteq> c" if "b \<in> set as" "q = p" for b
  proof
    assume "target (arc_cells jf) b = c"
    then have "b = NULL" using the_arc_iff(1) [OF as D(7) that(1)] D(4) that(2) by simp
    then show False using as that(1) D(7) arc_list_dom by (fastforce simp: class_arcs_def)
  qed
  then show ?thesis
    using class_arcs_new [OF D(1) as refl D(5,6) refl cp cs D(3) _ D(10) refl ct] by blast
qed

lemma arc_added_the_arc:
  assumes A: "arc_added jf p c x jf'" and q: "q \<in> classes jf"
  shows "the_arc jf' q d = (if (q, d) = (p, c) then next_ptr jf else the_arc jf q d)"
proof -
  note D = arc_addedD [OF A]
  obtain as where as: "class_arcs jf q as" using arcs_ok_class [OF D(1) q] by blast
  have "set as \<subseteq> dom (arc_cells jf)" using as arc_list_dom by (fastforce simp: class_arcs_def)
  then have tg: "target (arc_cells jf') b = target (arc_cells jf) b" if "b \<in> set as" for b
    using that D(8) by (auto simp: target_def D(10))
  have tga: "target (arc_cells jf') (next_ptr jf) = c" using D(6) by (simp add: target_def D(10))
  have fl: "filter (\<lambda>b. target (arc_cells jf') b = d) as = filter (\<lambda>b. target (arc_cells jf) b = d) as"
    using tg by (intro filter_cong) auto
  show ?thesis
    using the_arc_class [OF arc_added_class [OF A as], of d] the_arc_class [OF as, of d] fl tga by (auto split: if_splits)
qed

lemma arc_added_adds:
  assumes A: "arc_added jf p c x jf'" and n: "acount x = n"
  shows "adds n p c jf jf'"
  unfolding adds_def
proof (intro ballI)
  note D = arc_addedD [OF A]
  fix q d assume q: "q \<in> classes jf" and d: "d \<in> classes jf"
  have "the_arc jf q d \<noteq> next_ptr jf"
  proof
    assume h: "the_arc jf q d = next_ptr jf"
    obtain as where as: "class_arcs jf q as" using arcs_ok_class [OF D(1) q] by blast
    have "next_ptr jf \<in> set as" using the_arc_iff(2) [OF as D(7), of d] h D(9) by simp
    then show False using as D(8) arc_list_dom by (fastforce simp: class_arcs_def)
  qed
  moreover have "arc_count jf p c = 0" using D(4,7) by (auto simp: arc_count_def split: option.splits)
  ultimately show "arc_count jf' q d = arc_count jf q d + (if (q, d) = (p, c) then n else 0)"
    using arc_added_the_arc [OF A q, of d] by (cases "(q, d) = (p, c)") (auto simp: arc_count_def D(10) n)
qed

lemma arc_added_pairs:
  assumes A: "arc_added jf p c x jf'"
  shows "distinct (map (pair (arc_cells jf')) (arcs jf'))"
    and "b \<in> set (arcs jf') \<Longrightarrow> \<exists>q d. pair (arc_cells jf') b = (q, d) \<and> q \<in> classes jf \<and> d \<in> classes jf \<and> the_arc jf' q d = b"
proof -
  note D = arc_addedD [OF A]
  have pr: "pair (arc_cells jf') b = pair (arc_cells jf) b" if "b \<in> set (arcs jf)" for b
  proof -
    have "b \<noteq> next_ptr jf" using arcs_ok_pair [OF D(1) that] D(8) by (auto simp: pair_def)
    then show ?thesis by (simp add: pair_def D(10))
  qed
  have pa: "pair (arc_cells jf') (next_ptr jf) = (p, c)" using D(5,6) by (simp add: pair_def D(10))
  have "(p, c) \<notin> pair (arc_cells jf) ` set (arcs jf)"
  proof
    assume "(p, c) \<in> pair (arc_cells jf) ` set (arcs jf)"
    then obtain b where b: "b \<in> set (arcs jf)" "pair (arc_cells jf) b = (p, c)" by auto
    then have "b = NULL" using arcs_ok_pair [OF D(1) b(1)] D(4) by simp
    then show False using arcs_ok_pair [OF D(1) b(1)] D(7) by (auto simp: pair_def split: option.splits)
  qed
  moreover have mp: "map (pair (arc_cells jf')) (arcs jf) = map (pair (arc_cells jf)) (arcs jf)" using pr by simp
  moreover have "distinct (map (pair (arc_cells jf)) (arcs jf))" using D(1) by (simp add: arcs_ok_def)
  ultimately show "distinct (map (pair (arc_cells jf')) (arcs jf'))"
    unfolding D(13) by (simp add: pa mp del: distinct_map)
  show "\<exists>q d. pair (arc_cells jf') b = (q, d) \<and> q \<in> classes jf \<and> d \<in> classes jf \<and> the_arc jf' q d = b"
    if b: "b \<in> set (arcs jf')"
  proof (cases "b \<in> set (arcs jf)")
    case True
    obtain q d where q: "pair (arc_cells jf) b = (q, d)" "q \<in> classes jf" "d \<in> classes jf" "the_arc jf q d = b" "q \<noteq> NULL"
      using arcs_ok_pair [OF D(1) True] by blast
    have "b \<noteq> NULL" using q D(7) by (auto simp: pair_def split: option.splits)
    then show ?thesis using q pr [OF True] arc_added_the_arc [OF A q(2), of d] D(4) by auto
  next
    case False
    then have "b = next_ptr jf" "p \<noteq> c" using b D(13) by (auto split: if_splits)
    then show ?thesis using pa D(2,3) arc_added_the_arc [OF A D(2), of c] by auto
  qed
qed

lemma arc_added_ok:
  assumes A: "arc_added jf p c x jf'"
  shows "arcs_ok jf'"
proof -
  note D = arc_addedD [OF A]
  show ?thesis
    unfolding arcs_ok_def D(11)
  proof (intro conjI ballI)
    show "NULL \<notin> dom (arc_cells jf')" using D(7,9) by (simp add: D(10))
    show "dom (arc_cells jf') \<subseteq> {0<..<next_ptr jf'}" "0 < next_ptr jf'"
      using D(1) by (auto simp: arcs_ok_def subset_iff D(10,12))
    fix q assume q: "q \<in> classes jf"
    then show "q \<noteq> NULL" using D(1) by (simp add: arcs_ok_def)
    show "\<exists>as. class_arcs jf' q as" using arcs_ok_class [OF D(1) q] arc_added_class [OF A] by blast
  qed (use arc_added_pairs [OF A] D(14) in auto)
qed

lemma arc_lookup_the_arc:
  assumes "arcs_ok jf" "p \<in> classes jf" "c \<in> classes jf"
  shows "arc_lookup jf p c = Some (the_arc jf p c, jf)"
proof -
  obtain as where as: "class_arcs jf p as" using arcs_ok_class [OF assms(1,2)] by blast
  then obtain ci a where ci: "cinfos jf p = Some ci" "children ci = Some a" "arc_list next_child (arc_cells jf) a as"
    by (auto simp: class_arcs_def)
  have "arc_walk (arc_cells jf) c a = Some (the_arc jf p c)"
    using arc_walk_list [OF ci(3)] the_arc_class [OF as] by simp
  moreover have "p \<noteq> NULL" "c \<noteq> NULL" using assms by (auto simp: arcs_ok_def)
  ultimately show ?thesis using ci by (simp add: arc_lookup_def)
qed

lemma arc_frame_keeps:
  assumes "arc_frame jf jf'"
  shows "classes jf' = classes jf" "hobjs jf' = hobjs jf" "fin jf' = fin jf" "cTable jf' = cTable jf"
    "hTable jf' = hTable jf" "identsz jf' = identsz jf"
proof -
  have *: "jf' = jf\<lparr>cinfos := cinfos jf', arc_cells := arc_cells jf', arcs := arcs jf', arcs_max := arcs_max jf',
              next_ptr := next_ptr jf'\<rparr>" using assms by (simp add: arc_frame_def)
  show "classes jf' = classes jf" "hobjs jf' = hobjs jf" "fin jf' = fin jf" "cTable jf' = cTable jf"
    "hTable jf' = hTable jf" "identsz jf' = identsz jf"
    unfolding classes_def by (subst *; simp)+
qed

theorem arc_add_counts:
  assumes ok: "arcs_ok jf" "rbt_inv (cTable jf)" "room_for_arcs jf"
    and h: "hobjs jf hop = Some hp" "hobjs jf hoc = Some hc"
    and p: "p = lookup32 (cTable jf) (classId hp)" "p \<in> classes jf"
    and c: "c = lookup32 (cTable jf) (classId hc)" "c \<in> classes jf"
  shows "\<exists>jf'. arc_add jf hop hoc n = Some jf' \<and> arcs_ok jf' \<and> adds n p c jf jf' \<and> arc_frame jf jf'"
proof (cases "the_arc jf p c = NULL")
  case False
  obtain as where as: "class_arcs jf p as" using arcs_ok_class [OF ok(1) p(2)] by blast
  have nd: "NULL \<notin> dom (arc_cells jf)" using ok by (simp add: arcs_ok_def)
  obtain x where x: "arc_cells jf (the_arc jf p c) = Some x"
    using the_arc_iff(2) [OF as nd False] as by (fastforce simp: class_arcs_def)
  let ?y = "x\<lparr>acount := acount x + n, achild_size := achild_size x + sint (hsize hc)\<rparr>"
  let ?jf = "jf\<lparr>arc_cells := (arc_cells jf)(the_arc jf p c \<mapsto> ?y)\<rparr>"
  have "arc_add jf hop hoc n = Some ?jf"
    using arc_lookup_the_arc [OF ok(1) p(2) c(2)] False x h p(1) c(1)
    by (simp add: arc_add_def upd_arc_def upd_cell_def Let_def)
  then show ?thesis
    using count_upd [OF ok(1) p(2) c(2) refl x refl refl] by (simp add: arc_frame_def option.rel_refl)
next
  case True
  obtain as where as: "class_arcs jf p as" using arcs_ok_class [OF ok(1) p(2)] by blast
  obtain bs where bs: "class_arcs jf c bs" using arcs_ok_class [OF ok(1) c(2)] by blast
  obtain cp first where cp: "cinfos jf p = Some cp" "children cp = Some first" using as by (auto simp: class_arcs_def)
  obtain cc np where cc: "cinfos jf c = Some cc" "parents cc = Some np" using bs by (auto simp: class_arcs_def)
  let ?a = "next_ptr jf"
  let ?x = "\<lparr>aparent = p, achild = c, next_parent = np, next_child = first, acount = n, achild_size = sint (hsize hc)\<rparr>"
  let ?grow = "p \<noteq> c \<and> int (length (arcs jf)) = arcs_max jf"
  let ?max = "if ?grow then arcs_max jf + 10 else arcs_max jf"
  let ?arcs = "arcs jf @ (if p = c then [] else [?a])"
  let ?ci = "(cinfos jf)(p \<mapsto> cp\<lparr>children := Some ?a\<rparr>)"
  let ?ci' = "?ci(c \<mapsto> (the (?ci c))\<lparr>parents := Some ?a\<rparr>)"
  define jf' where "jf' = jf\<lparr>next_ptr := Suc ?a, arcs_max := ?max, arcs := ?arcs, cinfos := ?ci',
    arc_cells := (arc_cells jf)(?a \<mapsto> ?x)\<rparr>"
  have room: "\<not> uint MAX_TALLOC_SIZE \<le> 8 * (int (length (arcs jf)) + 10)"
  proof -
    have "\<not> m \<le> 8 * (l + 10)" if "l \<le> k" "8 * (k + 10) < m" for k l m :: int using that by presburger
    then show ?thesis using arcs_bound [OF ok(1,2)] ok(3) unfolding room_for_arcs_def by blast
  qed
  have "arc_add jf hop hoc n = Some jf'"
    using arc_lookup_the_arc [OF ok(1) p(2) c(2)] True h p(1) c(1) cp cc room
    by (auto simp: arc_add_def upd_ci_def upd_cell_def Let_def arcs_push_def jf'_def)
  moreover have "arc_added jf p c ?x jf'"
  proof -
    have max: "int (length ?arcs) \<le> ?max" using ok(1) by (auto simp: arcs_ok_def)
    have cs: "\<forall>r. rel_option (\<lambda>d d'. children d' = (if r = p then Some ?a else children d) \<and>
        (parents d' = None \<longrightarrow> parents d = None)) (cinfos jf r) (?ci' r)"
      using cp cc by (auto intro: option.rel_refl)
    have sel: "arc_cells jf' = (arc_cells jf)(?a \<mapsto> ?x)" "cinfos jf' = ?ci'" "cTable jf' = cTable jf"
      "next_ptr jf' = Suc ?a" "arcs jf' = ?arcs" "arcs_max jf' = ?max"
      by (simp_all add: jf'_def)
    show ?thesis unfolding arc_added_def sel using ok(1) p(2) c(2) True cp cs max by simp
  qed
  moreover have "arc_frame jf jf'"
    using cp cc by (auto simp: arc_frame_def jf'_def option.rel_refl)
  ultimately show ?thesis using arc_added_ok [of jf p c ?x jf'] arc_added_adds [of jf p c ?x jf' n] by auto
qed

end
