(* ===== verification/Instance_Values.thy ===== *)
theory Instance_Values
  imports Class_Layout Arc_Counts Reader_Codec
begin

text \<open>
  What the records of a heap dump mean: the value a field has in the bytes of the file
  (\<open>field_value\<close>), the values, references and size of a record (\<open>record_store\<close>,
  \<open>record_refs\<close>, \<open>record_size\<close>), and when a dump can be resolved (\<open>dump_ok\<close>). One round of the
  loop over the fields of an instance reads exactly the value the specification gives
  (\<open>resolve_field_step\<close>).
\<close>

section \<open>What a record means\<close>

definition bytes_at :: "infile \<Rightarrow> nat \<Rightarrow> nat \<Rightarrow> byte list" where
  "bytes_at f p n = take n (drop p (content f))"

definition decode_value :: "u32 \<Rightarrow> byte \<Rightarrow> byte list \<Rightarrow> hvalue option" where
  "decode_value isz ft bs =
     (if ft = of_char (CHR ''['') \<or> ft = of_char (CHR ''L'') then Some (V_ident (ident_val (unat isz) bs))
      else if ft = of_char (CHR ''Z'') \<or> ft = of_char (CHR ''B'') then Some (V_b (hd bs))
      else if ft = of_char (CHR ''S'') \<or> ft = of_char (CHR ''C'') then Some (V_c (be_word bs))
      else if ft = of_char (CHR ''I'') then Some (V_i (be_word bs))
      else if ft = of_char (CHR ''J'') then Some (V_j (ulong_val bs))
      else None)"

definition read_size :: "u32 \<Rightarrow> byte \<Rightarrow> nat" where
  "read_size isz ft = (if ft = of_char (CHR ''F'') \<or> ft = of_char (CHR ''D'') then 0 else field_size isz ft)"

definition field_value :: "u32 \<Rightarrow> infile \<Rightarrow> nat \<Rightarrow> finfo \<Rightarrow> hvalue option" where
  "field_value isz f pos fi = decode_value isz (ftype fi) (bytes_at f (pos + the (offset fi)) (field_size isz (ftype fi)))"

section \<open>One field\<close>

definition put_ho :: "ptr \<Rightarrow> hobject \<Rightarrow> jdump \<Rightarrow> jdump" where
  "put_ho p h jf = jf\<lparr>hobjs := (hobjs jf)(p \<mapsto> h)\<rparr>"

lemma put_ho_simps [simp]:
  "hobjs (put_ho p h jf) = (hobjs jf)(p \<mapsto> h)" "sbTable (put_ho p h jf) = sbTable jf"
  "cTable (put_ho p h jf) = cTable jf" "identsz (put_ho p h jf) = identsz jf"
  "hTable (put_ho p h jf) = hTable jf"  "cinfos (put_ho p h jf) = cinfos jf" "fin (put_ho p h jf) = fin jf"
  "put_ho p h (put_ho p h' jf) = put_ho p h jf"
  by (simp_all add: put_ho_def)

lemma upd_ho_put: "hobjs jf p = Some h \<Longrightarrow> upd_ho p f jf = Some (put_ho p (f h) jf)"
  by (simp add: upd_ho_def upd_cell_def put_ho_def)

lemma readIdent_at:
  assumes "isz = 4 \<or> isz = 8" "p + unat isz \<le> length (content f)" "fpos f = p"
  shows "readIdent isz f = (Some (ident_val (unat isz) (bytes_at f p (unat isz))), f\<lparr>fpos := p + unat isz\<rparr>)"
  using assms(2,3) codec.get_eq [OF ident_codec [OF assms(1)], of f] by (simp add: rest_def bytes_at_def)

lemma getc_at: "p < length (content f) \<Longrightarrow> fpos f = p \<Longrightarrow>
    getc_uchar f = (hd (bytes_at f p 1), f\<lparr>fpos := p + 1\<rparr>)"
  by (simp add: getc_uchar_def getc_def bytes_at_def hd_drop_conv_nth take_Suc hd_conv_nth)

lemma read_at:
  assumes "fpos f = p"
  shows "p + 2 \<le> length (content f) \<Longrightarrow> readUshort f = (Some (be_word (bytes_at f p 2)), f\<lparr>fpos := p + 2\<rparr>)"
    and "p + 4 \<le> length (content f) \<Longrightarrow> readUint f = (Some (be_word (bytes_at f p 4)), f\<lparr>fpos := p + 4\<rparr>)"
    and "p + 8 \<le> length (content f) \<Longrightarrow> readUlong f = (Some (ulong_val (bytes_at f p 8)), f\<lparr>fpos := p + 8\<rparr>)"
  using assms u16r.get_eq [of f] u32r.get_eq [of f] u64r.get_eq [of f] by (simp_all add: rest_def bytes_at_def)

definition seeked :: "nat \<Rightarrow> infile \<Rightarrow> infile" where
  "seeked p f = f\<lparr>fpos := p\<rparr>"

lemma seeked_simps [simp]: "content (seeked p f) = content f" "fpos (seeked p f) = p" "seeked p (seeked q f) = seeked p f"
    "bytes_at (seeked p f) a n = bytes_at f a n" "fseek_cur m (fseek_set k f) = seeked (k + m) f" "f\<lparr>fpos := p\<rparr> = seeked p f"
  by (simp_all add: seeked_def bytes_at_def fseek_cur_def fseek_set_def)

lemma seeked_same: "fpos f = p \<Longrightarrow> seeked p f = f"
  by (cases f) (simp add: seeked_def del: seeked_simps)

definition with_value :: "nat \<Rightarrow> hvalue option \<Rightarrow> hobject \<Rightarrow> hobject" where
  "with_value i v h = (case v of None \<Rightarrow> h | Some _ \<Rightarrow> h\<lparr>hvalues := set_val i v (hvalues h)\<rparr>)"

lemma resolve_field_step:
  assumes isz: "identsz jf = 4 \<or> identsz jf = 8" and c: "cinfos jf ci = Some c" "value_info c i = Some f" "offset f = Some o1"
    and h: "hobjs jf p = Some h" and fit: "hfpos h + o1 + field_size (identsz jf) (ftype f) \<le> length (content (fin jf))"
  shows "resolve_field again p ci i (sz, jf) =
    (let v = field_value (identsz jf) (fin jf) (hfpos h) f;
         n = read_size (identsz jf) (ftype f);
         j1 = put_ho p (with_value i v h) (jf\<lparr>fin := seeked (hfpos h + o1 + n) (fin jf)\<rparr>)
     in do { j2 \<leftarrow> (case v of Some (V_ident x) \<Rightarrow> follow_ref again p x j1 | _ \<Rightarrow> Some j1);
             Some (sz + of_nat (read_size (identsz j2) (ftype f)), j2) })"
proof -
  let ?ft = "ftype f" and ?isz = "identsz jf" and ?q = "hfpos h + o1"
  let ?v = "field_value ?isz (fin jf) (hfpos h) f" and ?n = "read_size ?isz ?ft"
  let ?j = "jf\<lparr>fin := seeked ?q (fin jf)\<rparr>"
  have seek: "fseek_cur o1 (fseek_set (hfpos h) (fin jf)) = seeked ?q (fin jf)" by simp
  have put: "upd_ho p g (jf\<lparr>fin := fi\<rparr>) = Some (put_ho p (g h) (jf\<lparr>fin := fi\<rparr>))" for g fi
    using h by (simp add: upd_ho_put)
  have sl: "bytes_at (seeked ?q (fin jf)) ?q n = bytes_at (fin jf) ?q n" for n by simp
  note eqs = resolve_field_def field_value_def decode_value_def read_size_def field_size_def with_value_def
    on_file_def c h seek put
  consider (ref) "?ft = of_char (CHR ''['') \<or> ?ft = of_char (CHR ''L'')"
    | (b) "?ft = of_char (CHR ''Z'') \<or> ?ft = of_char (CHR ''B'')"
    | (s) "?ft = of_char (CHR ''S'') \<or> ?ft = of_char (CHR ''C'')"
    | (i) "?ft = of_char (CHR ''I'')" | (j) "?ft = of_char (CHR ''J'')"
    | (none) "?ft \<notin> of_char ` set ''[LZBSCIJ''" by auto
  then show ?thesis
  proof cases
    case ref
    have "readIdent ?isz (seeked ?q (fin jf)) = (Some (ident_val (unat ?isz) (bytes_at (fin jf) ?q (unat ?isz))), seeked (?q + unat ?isz) (fin jf))"
      using readIdent_at [OF isz, of ?q "seeked ?q (fin jf)"] fit ref by (auto simp: field_size_def)
    then show ?thesis using ref by (elim disjE) (simp_all add: eqs Let_def of_char_def del: seeked_simps(5,6))
  next
    case b
    have "getc_uchar (seeked ?q (fin jf)) = (hd (bytes_at (fin jf) ?q 1), seeked (?q + 1) (fin jf))"
      using getc_at [of ?q "seeked ?q (fin jf)"] fit b by (auto simp: field_size_def of_char_def)
    then show ?thesis using b by (elim disjE) (simp_all add: eqs Let_def of_char_def del: seeked_simps(5,6))
  next
    case s
    then show ?thesis using read_at(1) [of "seeked ?q (fin jf)" ?q] fit
      by ((elim disjE)?; simp add: eqs Let_def of_char_def field_size_def)
  next
    case i
    then show ?thesis using read_at(2) [of "seeked ?q (fin jf)" ?q] fit
      by ((elim disjE)?; simp add: eqs Let_def of_char_def field_size_def)
  next
    case j
    then show ?thesis using read_at(3) [of "seeked ?q (fin jf)" ?q] fit
      by ((elim disjE)?; simp add: eqs Let_def of_char_def field_size_def)
  next
    case none
    then show ?thesis using h by (auto simp: eqs Let_def put_ho_def fun_upd_idem split: if_splits)
  qed
qed

section \<open>The specification of a resolved heap\<close>

definition class_ptr :: "jdump \<Rightarrow> hobject \<Rightarrow> ptr" where
  "class_ptr jf h = lookup32 (cTable jf) (classId h)"

definition class_rec :: "jdump \<Rightarrow> hobject \<Rightarrow> cinfo" where
  "class_rec jf h = the (cinfos jf (class_ptr jf h))"

definition varray_type :: "cinfo \<Rightarrow> hobject \<Rightarrow> u64" where
  "varray_type c h = (let t = (if 12 < sint (classId h) then sig_xclass (the (second_char (the (cname c)))) else 0);
       x = (if t \<noteq> 0 then t else xclassId h)
     in if x \<noteq> 0 then x else classId h)"

definition varray_store :: "infile \<Rightarrow> cinfo \<Rightarrow> hobject \<Rightarrow> hstore" where
  "varray_store f c h = (let n = unat (the (hcount h)) in case elem_kind (varray_type c h) of
       Some (k, True) \<Rightarrow> (let bs = bytes_at f (hfpos h) (unat k * n) in if bs = [] then Vals (replicate n None) else Raw bs)
     | _ \<Rightarrow> Vals (replicate n None))"

definition oarray_values :: "u32 \<Rightarrow> infile \<Rightarrow> hobject \<Rightarrow> u64 list" where
  "oarray_values isz f h = map (\<lambda>i. ident_val (unat isz) (bytes_at f (hfpos h + i * unat isz) (unat isz))) [0..<unat (the (hcount h))]"

text \<open>The chain of superclasses of a class, at most \<open>n\<close> long, and the fields of a record.\<close>

fun chain_of :: "nat \<Rightarrow> jdump \<Rightarrow> ptr \<Rightarrow> ptr list" where
  "chain_of 0 jf p = []"
| "chain_of (Suc n) jf p = (case cinfos jf p of None \<Rightarrow> [] | Some c \<Rightarrow>
     (case superId c of None \<Rightarrow> [] | Some s \<Rightarrow>
       if s = 0 then [p] else p # chain_of n jf (lookup32 (cTable jf) s)))"

definition class_ok :: "nat \<Rightarrow> jdump \<Rightarrow> ptr \<Rightarrow> bool" where
  "class_ok n jf p \<longleftrightarrow> super_chain jf (chain_of n jf p) \<and> length (chain_of n jf p) < n \<and> fits jf (chain_of n jf p)"

definition record_fields :: "nat \<Rightarrow> jdump \<Rightarrow> hobject \<Rightarrow> finfo list" where
  "record_fields n jf h = class_fields jf (chain_of n jf (class_ptr jf h))"

definition record_store :: "nat \<Rightarrow> jdump \<Rightarrow> hobject \<Rightarrow> hstore option" where
  "record_store n jf h =
     (if htype h = H_VARRAY then Some (varray_store (fin jf) (class_rec jf h) h)
      else if htype h = H_OARRAY then Some (Vals (map (Some \<circ> V_ident) (oarray_values (identsz jf) (fin jf) h)))
      else if record_fields n jf h = [] then hvalues h
      else Some (Vals (map (field_value (identsz jf) (fin jf) (hfpos h)) (record_fields n jf h))))"

definition record_size :: "nat \<Rightarrow> jdump \<Rightarrow> hobject \<Rightarrow> u64" where
  "record_size n jf h =
     (if htype h = H_VARRAY then (case elem_kind (varray_type (class_rec jf h) h) of None \<Rightarrow> 0 | Some (k, _) \<Rightarrow> ucast (k * the (hcount h)))
      else if htype h = H_OARRAY then ucast (the (hcount h) * identsz jf)
      else of_nat (sum_list (map (\<lambda>f. read_size (identsz jf) (ftype f)) (record_fields n jf h))))"

fun ident_of :: "hvalue option \<Rightarrow> u64 list" where
  "ident_of (Some (V_ident v)) = [v]"
| "ident_of v = []"

definition record_refs :: "nat \<Rightarrow> jdump \<Rightarrow> hobject \<Rightarrow> u64 list" where
  "record_refs n jf h =
     (if htype h = H_VARRAY then []
      else if htype h = H_OARRAY then oarray_values (identsz jf) (fin jf) h
      else concat (map (\<lambda>f. ident_of (field_value (identsz jf) (fin jf) (hfpos h) f)) (record_fields n jf h)))"

definition record_ok :: "nat \<Rightarrow> jdump \<Rightarrow> hobject \<Rightarrow> bool" where
  "record_ok n jf h \<longleftrightarrow> \<not> hresolved h \<and> csize h = 0 \<and> class_ptr jf h \<in> classes jf \<and> class_ok n jf (class_ptr jf h) \<and>
     (if htype h = H_VARRAY then
        (case hcount h of None \<Rightarrow> False | Some k \<Rightarrow> k \<noteq> 0 \<and> \<not> array_too_big 8 k) \<and>
        (12 < sint (classId h) \<longrightarrow> (case cname (class_rec jf h) of None \<Rightarrow> False | Some nm \<Rightarrow> nm \<noteq> []))
      else if htype h = H_OARRAY then
        (case hcount h of None \<Rightarrow> False | Some k \<Rightarrow> k \<noteq> 0 \<and> \<not> array_too_big 8 k \<and>
           hfpos h + unat k * unat (identsz jf) \<le> length (content (fin jf)))
      else hfpos h + fields_size (identsz jf) (record_fields n jf h) \<le> length (content (fin jf)))"

definition objs :: "jdump \<Rightarrow> ptr set" where
  "objs jf = snd ` set (entries (hTable jf))"

text \<open>
  A dump that can be resolved: \<open>rank\<close> falls along every reference to a known object, and
  where there is such a reference the lists of arcs have been initialised.
\<close>

definition dump_ok :: "nat \<Rightarrow> (ptr \<Rightarrow> nat) \<Rightarrow> jdump \<Rightarrow> bool" where
  "dump_ok n rank jf \<longleftrightarrow> (identsz jf = 4 \<or> identsz jf = 8) \<and> rbt_inv (cTable jf) \<and> rbt_inv (hTable jf) \<and>
     (\<forall>p. \<not> resolved_in jf p) \<and>
     (\<forall>p \<in> objs jf. case hobjs jf p of None \<Rightarrow> False | Some h \<Rightarrow> record_ok n jf h \<and>
       (\<forall>v \<in> set (record_refs n jf h). lookup32 (hTable jf) v \<noteq> NULL \<longrightarrow>
          rank (lookup32 (hTable jf) v) < rank p \<and> arcs_ok jf \<and> room_for_arcs jf))"

fun full_size :: "nat \<Rightarrow> nat \<Rightarrow> jdump \<Rightarrow> ptr \<Rightarrow> u64" where
  "full_size n 0 jf p = 0"
| "full_size n (Suc d) jf p = (case hobjs jf p of None \<Rightarrow> 0 | Some h \<Rightarrow>
     record_size n jf h + sum_list (map (\<lambda>v. if lookup32 (hTable jf) v = NULL then 0
                                         else full_size n d jf (lookup32 (hTable jf) v)) (record_refs n jf h)))"

definition ref_size :: "nat \<Rightarrow> nat \<Rightarrow> jdump \<Rightarrow> u64 \<Rightarrow> u64" where
  "ref_size n d jf v = (if lookup32 (hTable jf) v = NULL then 0 else full_size n d jf (lookup32 (hTable jf) v))"

lemma chain_of_super_chain: "super_chain jf (p # qs) \<Longrightarrow> length qs < n \<Longrightarrow> chain_of n jf p = p # qs"
proof (induction qs arbitrary: p n)
  case Nil
  then show ?case by (cases n) (auto elim: super_chain_ConsE)
next
  case (Cons q qs)
  obtain e where d: "n = Suc e" using Cons.prems(2) by (cases n) auto
  obtain c s where c: "cinfos jf p = Some c" "superId c = Some s" "s \<noteq> 0" "lookup32 (cTable jf) s = q" "super_chain jf (q # qs)"
    using super_chain_ConsE [OF Cons.prems(1)] by (metis list.discI list.sel(1))
  then show ?case using Cons.IH [OF c(5), of e] Cons.prems(2) d by simp
qed

lemma class_ok_chain:
  assumes "class_ok n jf p"
  obtains qs where "chain_of n jf p = p # qs" "super_chain jf (p # qs)" "Suc (length qs) < n" "fits jf (p # qs)"
proof -
  have ne: "chain_of n jf p \<noteq> []" using assms by (auto simp: class_ok_def)
  then obtain qs where "chain_of n jf p = p # qs"
    by (cases n) (auto split: option.splits if_splits)
  then show ?thesis using that assms by (simp add: class_ok_def)
qed

end
