(* ===== verification/Heap_Runs.thy ===== *)
theory Heap_Runs
  imports Instance_Values
begin

text \<open>
  The relation between the states of a run that resolves objects. \<open>steps\<close> says what no part
  of it changes; \<open>advances\<close> that, on the way from one state to the next, each object is either
  untouched or decoded as its record says, and that the counts of the arcs grow by
  exactly the references of the objects decoded. The relation composes, so each routine is
  shown to advance and the loops follow.
\<close>

section \<open>Runs\<close>

definition same_object :: "hobject \<Rightarrow> hobject \<Rightarrow> bool" where
  "same_object h h' \<longleftrightarrow> (\<not> hresolved h' \<longrightarrow> h' = h) \<and>
     h' = h\<lparr>hresolved := hresolved h', xclassId := xclassId h', osize := osize h', csize := csize h', hvalues := hvalues h'\<rparr>"

definition same_layout :: "cinfo \<Rightarrow> cinfo \<Rightarrow> bool" where
  "same_layout c c' \<longleftrightarrow> c' = c\<lparr>cisize := cisize c', parents := parents c', children := children c'\<rparr>"

definition steps :: "jdump \<Rightarrow> jdump \<Rightarrow> bool" where
  "steps jf j \<longleftrightarrow> content (fin j) = content (fin jf) \<and> hTable j = hTable jf \<and> similar jf j \<and> layout_inv False j \<and>
     (arcs_ok jf \<longrightarrow> arcs_ok j) \<and> (\<forall>p. rel_option same_object (hobjs jf p) (hobjs j p))"

definition has_resolved :: "jdump \<Rightarrow> ptr \<Rightarrow> bool" where
  "has_resolved j p \<longleftrightarrow> (case hobjs j p of None \<Rightarrow> False | Some h \<Rightarrow> hresolved h)"

definition decoded :: "nat \<Rightarrow> nat \<Rightarrow> jdump \<Rightarrow> jdump \<Rightarrow> ptr \<Rightarrow> bool" where
  "decoded n d jf j p \<longleftrightarrow> (case hobjs jf p of None \<Rightarrow> False | Some h0 \<Rightarrow> (case hobjs j p of None \<Rightarrow> False | Some h \<Rightarrow>
     hresolved h \<and> hvalues h = record_store n jf h0 \<and> osize h = Some (record_size n jf h0) \<and>
     csize h = sum_list (map (ref_size n d jf) (record_refs n jf h0))))"

definition link1 :: "jdump \<Rightarrow> ptr \<Rightarrow> u64 \<Rightarrow> ptr \<Rightarrow> ptr \<Rightarrow> int" where
  "link1 jf p v q c = (let t = lookup32 (hTable jf) v in
     if t \<noteq> NULL \<and> (class_ptr jf (the (hobjs jf p)), class_ptr jf (the (hobjs jf t))) = (q, c) then 1 else 0)"

definition ref_links :: "nat \<Rightarrow> jdump \<Rightarrow> ptr \<Rightarrow> ptr \<Rightarrow> ptr \<Rightarrow> int" where
  "ref_links n jf p q c = sum_list (map (\<lambda>v. link1 jf p v q c) (record_refs n jf (the (hobjs jf p))))"

definition newly :: "jdump \<Rightarrow> ptr set \<Rightarrow> jdump \<Rightarrow> jdump \<Rightarrow> ptr set" where
  "newly jf X j j' = {x \<in> objs jf - X. has_resolved j' x \<and> \<not> has_resolved j x}"

definition advances :: "nat \<Rightarrow> nat \<Rightarrow> (ptr \<Rightarrow> nat) \<Rightarrow> jdump \<Rightarrow> ptr set \<Rightarrow> nat \<Rightarrow> (ptr \<Rightarrow> ptr \<Rightarrow> int) \<Rightarrow> jdump \<Rightarrow> jdump \<Rightarrow> bool" where
  "advances n d rank jf X r k j j' \<longleftrightarrow> steps jf j' \<and>
     (\<forall>p. resolved_in j p \<longrightarrow> resolved_in j' p) \<and>
     (\<forall>q \<in> objs jf - X. (r \<le> rank q \<or> has_resolved j q \<longrightarrow> hobjs j' q = hobjs j q) \<and>
        (has_resolved j' q \<and> \<not> has_resolved j q \<longrightarrow> decoded n d jf j' q)) \<and>
     (\<forall>q \<in> classes jf. \<forall>c \<in> classes jf.
        arc_count j' q c = arc_count j q c + (\<Sum>x \<in> newly jf X j j'. ref_links n jf x q c) + k q c)"

lemma finite_objs: "finite (objs jf)"
  by (simp add: objs_def)

lemma advances_refl: "steps jf j \<Longrightarrow> advances n d rank jf X r (\<lambda>_ _. 0) j j"
  by (simp add: advances_def newly_def)

lemma advances_keeps_resolved: "advances n d rank jf X r k j j' \<Longrightarrow> q \<in> objs jf - X \<Longrightarrow> has_resolved j q \<Longrightarrow> has_resolved j' q"
  unfolding advances_def has_resolved_def by auto

lemma decoded_same: "hobjs j2 q = hobjs j1 q \<Longrightarrow> decoded n d jf j2 q = decoded n d jf j1 q"
  by (simp only: decoded_def)

lemma advances_trans:
  assumes a: "advances n d rank jf X r k j j1" and b: "advances n d rank jf X r k' j1 j2"
  shows "advances n d rank jf X r (\<lambda>q c. k q c + k' q c) j j2"
proof -
  have 1: "newly jf X j j2 = newly jf X j j1 \<union> newly jf X j1 j2" "newly jf X j j1 \<inter> newly jf X j1 j2 = {}"
    using advances_keeps_resolved [OF a] advances_keeps_resolved [OF b] by (auto simp: newly_def)
  have fin: "finite (newly jf X j j1)" "finite (newly jf X j1 j2)"
    using finite_objs by (simp_all add: newly_def)
  have "decoded n d jf j2 q" if q: "q \<in> objs jf - X" "has_resolved j2 q" "\<not> has_resolved j q" for q
  proof (cases "has_resolved j1 q")
    case True
    then have "decoded n d jf j1 q" "hobjs j2 q = hobjs j1 q" using a b q by (auto simp: advances_def)
    then show ?thesis using decoded_same by blast
  next
    case False
    then show ?thesis using b q by (auto simp: advances_def)
  qed
  moreover have "hobjs j2 q = hobjs j q" if q: "q \<in> objs jf - X" "r \<le> rank q \<or> has_resolved j q" for q
    using a b q advances_keeps_resolved [OF a q(1)] unfolding advances_def by metis
  moreover have "arc_count j2 q c = arc_count j q c + (\<Sum>x \<in> newly jf X j j2. ref_links n jf x q c) + (k q c + k' q c)"
    if "q \<in> classes jf" "c \<in> classes jf" for q c
    using a b that 1 fin unfolding advances_def by (simp add: sum.union_disjoint)
  moreover have "resolved_in j2 p" if "resolved_in j p" for p
    using that a b by (simp add: advances_def)
  ultimately show ?thesis using b unfolding advances_def by blast
qed

lemma dump_okD:
  assumes "dump_ok n rank jf" "p \<in> objs jf"
  obtains h c where "hobjs jf p = Some h" "record_ok n jf h" "cinfos jf (class_ptr jf h) = Some c" "class_rec jf h = c"
    "class_ptr jf h \<in> classes jf" "class_ok n jf (class_ptr jf h)"
    "\<And>v. v \<in> set (record_refs n jf h) \<Longrightarrow> lookup32 (hTable jf) v \<noteq> NULL \<Longrightarrow>
       rank (lookup32 (hTable jf) v) < rank p \<and> arcs_ok jf \<and> room_for_arcs jf"
proof -
  obtain h where h: "hobjs jf p = Some h" "record_ok n jf h"
    "\<And>v. v \<in> set (record_refs n jf h) \<Longrightarrow> lookup32 (hTable jf) v \<noteq> NULL \<Longrightarrow>
       rank (lookup32 (hTable jf) v) < rank p \<and> arcs_ok jf \<and> room_for_arcs jf"
  proof -
    have "case hobjs jf p of None \<Rightarrow> False | Some h \<Rightarrow> record_ok n jf h \<and>
       (\<forall>v \<in> set (record_refs n jf h). lookup32 (hTable jf) v \<noteq> NULL \<longrightarrow>
          rank (lookup32 (hTable jf) v) < rank p \<and> arcs_ok jf \<and> room_for_arcs jf)"
      using assms unfolding dump_ok_def by blast
    then show ?thesis using that by (cases "hobjs jf p") auto
  qed
  have ck: "class_ok n jf (class_ptr jf h)" "class_ptr jf h \<in> classes jf" using h(2) by (simp_all add: record_ok_def)
  obtain qs where "super_chain jf (class_ptr jf h # qs)" using class_ok_chain [OF ck(1)] by metis
  then obtain c where "cinfos jf (class_ptr jf h) = Some c" using super_chain_ConsE by metis
  then show ?thesis using that h ck by (simp add: class_rec_def)
qed

lemma lookup_objs: "rbt_inv (hTable jf) \<Longrightarrow> lookup32 (hTable jf) v \<noteq> NULL \<Longrightarrow> lookup32 (hTable jf) v \<in> objs jf"
  using rbt_table.ran_items [of "hTable jf"] by (auto simp: lookup32_def objs_def split: option.splits intro: ranI)

lemma full_size_stable:
  assumes "dump_ok n rank jf" "p \<in> objs jf" "rank p < d"
  shows "full_size n (Suc d) jf p = full_size n d jf p"
  using assms(2,3)
proof (induction d arbitrary: p)
  case (Suc d)
  obtain h where h: "hobjs jf p = Some h"
    "\<And>v. v \<in> set (record_refs n jf h) \<Longrightarrow> lookup32 (hTable jf) v \<noteq> NULL \<Longrightarrow> rank (lookup32 (hTable jf) v) < rank p"
    using dump_okD [OF assms(1) Suc.prems(1)] by metis
  have inv: "rbt_inv (hTable jf)" using assms(1) by (simp add: dump_ok_def)
  have "full_size n (Suc d) jf (lookup32 (hTable jf) v) = full_size n d jf (lookup32 (hTable jf) v)"
    if "v \<in> set (record_refs n jf h)" "lookup32 (hTable jf) v \<noteq> NULL" for v
    using Suc.IH [OF lookup_objs [OF inv that(2)]] h(2) [OF that] Suc.prems(2) by simp
  then have eq: "map (\<lambda>v. if lookup32 (hTable jf) v = NULL then 0 else full_size n (Suc d) jf (lookup32 (hTable jf) v)) (record_refs n jf h) =
      map (\<lambda>v. if lookup32 (hTable jf) v = NULL then 0 else full_size n d jf (lookup32 (hTable jf) v)) (record_refs n jf h)"
    by (intro map_cong refl if_cong) auto
  show ?case by (simp only: full_size.simps(2) [of _ _ jf p] h(1) option.case eq)
qed simp

lemma steps_obj:
  assumes "steps jf j" "hobjs jf p = Some h0"
  obtains h where "hobjs j p = Some h" "same_object h0 h"
  using assms unfolding steps_def by (metis option.rel_cases option.sel option.simps(3))

lemma steps_class:
  assumes "steps jf j" "cinfos jf p = Some c0"
  obtains c where "cinfos j p = Some c" "similar_class c0 c"
  using assms similar_cell unfolding steps_def by metis

lemma steps_keeps:
  assumes "steps jf j"
  shows "cTable j = cTable jf" "hTable j = hTable jf" "identsz j = identsz jf" "sbTable j = sbTable jf"
    "content (fin j) = content (fin jf)" "classes j = classes jf" "class_ptr j = class_ptr jf"
  using assms by (simp_all add: steps_def similar_def classes_def class_ptr_def fun_eq_iff)

lemma same_layoutD:
  assumes "same_layout c c'"
  shows "value_info c' = value_info c" "tfields c' = tfields c" "cresolved c' = cresolved c" "cname c' = cname c"
    "own_fields c' = own_fields c" "map_option length (cvalues c') = map_option length (cvalues c)" "similar_class c c'"
proof -
  have *: "c' = c\<lparr>cisize := cisize c', parents := parents c', children := children c'\<rparr>"
    using assms by (simp add: same_layout_def)
  have df: "deref_field c' r = deref_field c r" for r by (subst *, cases r) simp_all
  have cv: "cvalues c' = cvalues c" by (subst *) simp
  then show "value_info c' = value_info c" by (simp add: fun_eq_iff value_info_def df)
  show "map_option length (cvalues c') = map_option length (cvalues c)" by (simp add: cv)
  show of: "tfields c' = tfields c" "cresolved c' = cresolved c" "cname c' = cname c" by (subst *; simp)+
  show ow: "own_fields c' = own_fields c" by (subst *) (simp add: own_fields_def)
  have "statics c' = statics c" "superId c' = superId c" "cfields c' = cfields c" "cstats c' = cstats c" by (subst *; simp)+
  then show "similar_class c c'" using of ow by (simp add: similar_class_def)
qed

definition same_layouts :: "jdump \<Rightarrow> jdump \<Rightarrow> bool" where
  "same_layouts a b \<longleftrightarrow> sbTable b = sbTable a \<and> cTable b = cTable a \<and> identsz b = identsz a \<and>
     (\<forall>p. rel_option same_layout (cinfos a p) (cinfos b p))"

lemma same_layouts_similar: "same_layouts a b \<Longrightarrow> similar a b"
proof -
  assume s: "same_layouts a b"
  have "rel_option similar_class (cinfos a p) (cinfos b p)" for p
  proof -
    have "rel_option same_layout (cinfos a p) (cinfos b p)" using s by (simp add: same_layouts_def)
    then show ?thesis by (auto elim!: option.rel_cases intro: same_layoutD(7))
  qed
  then show ?thesis using s by (simp add: same_layouts_def similar_def)
qed

lemma same_layouts_settled: "same_layouts a b \<Longrightarrow> settled False b cs = settled False a cs"
proof (induction cs)
  case (Cons p cs)
  have rel: "rel_option same_layout (cinfos a p) (cinfos b p)" and sb: "sbTable b = sbTable a"
    using Cons.prems by (simp_all add: same_layouts_def)
  have cf: "class_fields b (p # cs) = class_fields a (p # cs)"
    by (rule similar_class_fields [OF same_layouts_similar [OF Cons.prems]])
  show ?case
    using rel
  proof (cases rule: option.rel_cases)
    case (Some c c')
    have "laid_out False b (p # cs) c' = laid_out False a (p # cs) c"
      using same_layoutD [OF Some(3)] by (simp add: laid_out_def cf)
    then show ?thesis using Some(1,2) same_layoutD(3,5) [OF Some(3)] Cons.IH [OF Cons.prems] sb by simp
  qed simp
qed simp

lemma same_layouts_inv:
  assumes "same_layouts a b"
  shows "layout_inv False b = layout_inv False a" "resolved_in b = resolved_in a"
proof -
  have r: "resolved_in b p = resolved_in a p" for p
  proof -
    have "rel_option same_layout (cinfos a p) (cinfos b p)" using assms by (simp add: same_layouts_def)
    then show ?thesis by (auto elim!: option.rel_cases simp: resolved_in_def dest: same_layoutD(3))
  qed
  then show "resolved_in b = resolved_in a" by (simp add: fun_eq_iff)
  have s: "super_chain b cs = super_chain a cs" for cs
    using similar_super_chain same_layouts_similar [OF assms] similar_sym by blast
  have "layout_inv False j \<longleftrightarrow> (\<forall>p qs. super_chain j (p # qs) \<and> resolved_in j p \<longrightarrow> settled False j (p # qs))" for j
    unfolding layout_inv_def resolved_in_iff by blast
  then show "layout_inv False b = layout_inv False a"
    using r s same_layouts_settled [OF assms] by (simp del: settled.simps)
qed

text \<open>A class that has been resolved shows the fields of its chain.\<close>

lemma class_shown:
  assumes st: "steps jf j" and ok: "class_ok n jf p" and r: "resolved_in j p"
  obtains c where "cinfos j p = Some c" "cresolved c" "tfields c = int (length (class_fields jf (chain_of n jf p)))"
    "\<And>i. i < length (class_fields jf (chain_of n jf p)) \<Longrightarrow>
      value_info c i = Some (class_fields jf (chain_of n jf p) ! i)"
proof -
  obtain qs where qs: "chain_of n jf p = p # qs" "super_chain jf (p # qs)" using class_ok_chain [OF ok] by metis
  have sim: "similar jf j" and inv: "layout_inv False j" using st by (simp_all add: steps_def)
  obtain c where c: "cinfos j p = Some c" "cresolved c" using r by (auto simp: resolved_in_iff)
  have "settled False j (p # qs)" by (rule layout_invD [OF inv similar_super_chain [OF sim qs(2)] c])
  then have "laid_out False j (p # qs) c" using c by simp
  then show ?thesis
    using that [OF c] unfolding laid_out_def qs(1) similar_class_fields [OF sim] Let_def by auto
qed

lemma same_objectD:
  assumes "same_object h h'"
  shows "htype h' = htype h" "classId h' = classId h" "hfpos h' = hfpos h" "hcount h' = hcount h" "hsize h' = hsize h"
    "\<not> hresolved h' \<Longrightarrow> h' = h"
proof -
  have *: "h' = h\<lparr>hresolved := hresolved h', xclassId := xclassId h', osize := osize h', csize := csize h', hvalues := hvalues h'\<rparr>"
    using assms by (simp add: same_object_def)
  show "htype h' = htype h" "classId h' = classId h" "hfpos h' = hfpos h" "hcount h' = hcount h" "hsize h' = hsize h"
    by (subst *; simp)+
  show "\<not> hresolved h' \<Longrightarrow> h' = h" using assms by (simp add: same_object_def)
qed

text \<open>The elementary steps inside the resolution of \<open>p\<close>.\<close>

definition same_ends :: "jdump \<Rightarrow> jdump \<Rightarrow> bool" where
  "same_ends a b \<longleftrightarrow> arc_cells b = arc_cells a \<and> cTable b = cTable a \<and>
     (\<forall>p. map_option (\<lambda>c. (children c, parents c)) (cinfos b p) = map_option (\<lambda>c. (children c, parents c)) (cinfos a p))"

lemma same_ends_the_arc: "same_ends a b \<Longrightarrow> the_arc b = the_arc a"
proof (intro ext)
  fix p c assume s: "same_ends a b"
  then have "map_option (\<lambda>c. (children c, parents c)) (cinfos b p) = map_option (\<lambda>c. (children c, parents c)) (cinfos a p)"
    and "arc_cells b = arc_cells a" by (auto simp: same_ends_def)
  then show "the_arc b p c = the_arc a p c"
    by (cases "cinfos a p"; cases "cinfos b p") (simp_all add: the_arc_def cong: option.case_cong)
qed

lemma same_ends_arc_count: "same_ends a b \<Longrightarrow> arc_count b = arc_count a"
  by (intro ext) (simp add: arc_count_def same_ends_the_arc, simp add: same_ends_def)

lemma same_ends_class_arcs: "same_ends a b \<Longrightarrow> class_arcs b = class_arcs a"
proof (intro ext)
  fix p as assume s: "same_ends a b"
  then have "map_option (\<lambda>c. (children c, parents c)) (cinfos b p) = map_option (\<lambda>c. (children c, parents c)) (cinfos a p)"
    by (simp add: same_ends_def)
  moreover have "arc_cells b = arc_cells a" "classes b = classes a" using s by (simp_all add: same_ends_def classes_def)
  ultimately show "class_arcs b p as = class_arcs a p as"
    by (cases "cinfos a p"; cases "cinfos b p") (simp_all add: class_arcs_def)
qed

lemma arcs_ok_frame:
  assumes "same_ends a b" "arcs b = arcs a" "arcs_max b = arcs_max a" "next_ptr b = next_ptr a"
  shows "arcs_ok b = arcs_ok a"
  using assms same_ends_class_arcs [OF assms(1)] same_ends_the_arc [OF assms(1)]
  by (simp add: arcs_ok_def same_ends_def classes_def)

lemma steps_frame:
  assumes st: "steps jf a" and sl: "same_layouts a b"
    and "hTable b = hTable a" "content (fin b) = content (fin a)" "arcs_ok a \<Longrightarrow> arcs_ok b"
    and "\<And>p. rel_option same_object (hobjs jf p) (hobjs b p)"
  shows "steps jf b"
  using assms similar_trans [OF _ same_layouts_similar [OF sl]] same_layouts_inv(1) [OF sl]
  by (auto simp: steps_def)

lemma same_layouts_refl: "cinfos b = cinfos a \<Longrightarrow> sbTable b = sbTable a \<Longrightarrow> cTable b = cTable a \<Longrightarrow> identsz b = identsz a \<Longrightarrow> same_layouts a b"
proof -
  have "same_layout c c" for c by (simp add: same_layout_def)
  then show "cinfos b = cinfos a \<Longrightarrow> sbTable b = sbTable a \<Longrightarrow> cTable b = cTable a \<Longrightarrow> identsz b = identsz a \<Longrightarrow> same_layouts a b"
    by (simp add: same_layouts_def option.rel_refl)
qed

lemma advances_own:
  assumes st: "steps jf j" and h: "hobjs j p = Some h" and h': "same_object h h'" "hresolved h'"
    and f: "content f = content (fin j)"
  shows "advances n d rank jf {p} r (\<lambda>_ _. 0) j (put_ho p h' (j\<lparr>fin := f\<rparr>))"
proof -
  let ?j = "put_ho p h' (j\<lparr>fin := f\<rparr>)"
  obtain h0 where h0: "hobjs jf p = Some h0" "same_object h0 h"
    using st h unfolding steps_def by (metis option.rel_cases option.sel option.simps(3))
  have "same_object h0 h'" using h0(2) h' by (cases h0; cases h; cases h') (simp add: same_object_def)
  then have ob: "rel_option same_object (hobjs jf q) (hobjs ?j q)" for q
    using st h0 by (simp add: steps_def)
  have ends: "same_ends j ?j" by (simp add: same_ends_def put_ho_def)
  have ok: "arcs_ok ?j = arcs_ok j" by (rule arcs_ok_frame [OF ends]) (simp_all add: put_ho_def)
  have sl: "same_layouts j ?j" by (rule same_layouts_refl) simp_all
  have "steps jf ?j" by (rule steps_frame [OF st sl]) (use ob f ok in simp_all)
  moreover have "newly jf {p} j ?j = {}" by (auto simp: newly_def has_resolved_def)
  moreover have "arc_count ?j = arc_count j" by (rule same_ends_arc_count [OF ends])
  ultimately show ?thesis using same_layouts_inv(2) [OF sl] by (auto simp: advances_def has_resolved_def)
qed

lemma advances_size:
  assumes st: "steps jf j" and c: "cinfos j ci = Some c"
  shows "advances n d rank jf X r (\<lambda>_ _. 0) j (put_ci ci (c\<lparr>cisize := Some sz\<rparr>) j)"
proof -
  let ?j = "put_ci ci (c\<lparr>cisize := Some sz\<rparr>) j"
  have ends: "same_ends j ?j" using c by (simp add: same_ends_def put_ci_def)
  have "same_layout c (c\<lparr>cisize := Some sz\<rparr>)" "same_layout x x" for x by (simp_all add: same_layout_def)
  then have sl: "same_layouts j ?j" using c by (simp add: same_layouts_def option.rel_refl)
  have ok: "arcs_ok ?j = arcs_ok j" by (rule arcs_ok_frame [OF ends]) (simp_all add: put_ci_def)
  have "steps jf ?j" by (rule steps_frame [OF st sl]) (use st ok in \<open>simp_all add: steps_def put_ci_def\<close>)
  moreover have "newly jf X j ?j = {}" by (simp add: newly_def has_resolved_def)
  moreover have "arc_count ?j = arc_count j" by (rule same_ends_arc_count [OF ends])
  ultimately show ?thesis using same_layouts_inv(2) [OF sl] by (simp add: advances_def has_resolved_def)
qed

lemma advances_arc:
  assumes st: "steps jf j" and fr: "arc_frame j j'" and ok: "arcs_ok j'" and ad: "adds 1 p c j j'"
  shows "advances n d rank jf X r (\<lambda>q e. if (q, e) = (p, c) then 1 else 0) j j'"
proof -
  note kp = arc_frame_keeps [OF fr]
  have sb: "sbTable j' = sbTable j"
  proof -
    have *: "j' = j\<lparr>cinfos := cinfos j', arc_cells := arc_cells j', arcs := arcs j', arcs_max := arcs_max j',
              next_ptr := next_ptr j'\<rparr>" using fr by (simp add: arc_frame_def)
    show ?thesis by (subst *) simp
  qed
  have "rel_option same_layout (cinfos j q) (cinfos j' q)" for q
  proof -
    have 2: "rel_option (\<lambda>c c'. c' = c\<lparr>parents := parents c', children := children c'\<rparr>) (cinfos j q) (cinfos j' q)"
      using fr by (simp add: arc_frame_def)
    have 3: "same_layout b c'" if "c' = b\<lparr>parents := parents c', children := children c'\<rparr>" for b c'
      using that by (cases b; cases c') (simp add: same_layout_def)
    show ?thesis using 2 by (auto elim!: option.rel_cases intro: 3)
  qed
  then have sl: "same_layouts j j'" using kp sb by (simp add: same_layouts_def)
  have "steps jf j'" by (rule steps_frame [OF st sl]) (use st ok kp in \<open>simp_all add: steps_def\<close>)
  moreover have "newly jf X j j' = {}" using kp by (simp add: newly_def has_resolved_def)
  ultimately show ?thesis using ad kp same_layouts_inv(2) [OF sl] steps_keeps(6) [OF st]
    by (simp add: advances_def has_resolved_def adds_def)
qed

lemma advances_call:
  assumes m: "advances n d rank jf {} (Suc (rank q)) k j j'" and r: "rank q < rank p" and p: "p \<in> objs jf" "has_resolved j p"
  shows "advances n d rank jf {p} (rank p) k j j'" "hobjs j' p = hobjs j p"
proof -
  have "newly jf {p} j j' = newly jf {} j j'" using p by (auto simp: newly_def)
  then show "advances n d rank jf {p} (rank p) k j j'" using m r by (auto simp: advances_def)
  show "hobjs j' p = hobjs j p" using m p by (simp add: advances_def)
qed

lemma advances_steps: "advances n d rank jf X r k j j' \<Longrightarrow> steps jf j'"
  by (simp add: advances_def)

definition ready :: "nat \<Rightarrow> nat \<Rightarrow> (ptr \<Rightarrow> nat) \<Rightarrow> jdump \<Rightarrow> nat \<Rightarrow> jdump \<Rightarrow> bool" where
  "ready n d rank jf r j \<longleftrightarrow> (\<forall>q \<in> objs jf. rank q < r \<and> has_resolved j q \<longrightarrow> decoded n d jf j q)"

lemma advances_ready:
  assumes "advances n d rank jf {p} (rank p) k j j'" "ready n d rank jf (rank p) j"
  shows "ready n d rank jf (rank p) j'"
  unfolding ready_def
proof (intro ballI impI, elim conjE)
  fix q assume q: "q \<in> objs jf" "rank q < rank p" "has_resolved j' q"
  then have qp: "q \<in> objs jf - {p}" by auto
  show "decoded n d jf j' q"
  proof (cases "has_resolved j q")
    case True
    then have "hobjs j' q = hobjs j q" using assms(1) qp unfolding advances_def by blast
    then show ?thesis using decoded_same assms(2) True q unfolding ready_def by blast
  next
    case False
    then show ?thesis using assms(1) qp q(3) unfolding advances_def by blast
  qed
qed

definition resolver :: "nat \<Rightarrow> nat \<Rightarrow> (ptr \<Rightarrow> nat) \<Rightarrow> jdump \<Rightarrow> nat \<Rightarrow> (jdump \<Rightarrow> ptr \<Rightarrow> (u64 \<times> jdump) option) \<Rightarrow> bool" where
  "resolver n d rank jf r again \<longleftrightarrow> (\<forall>q j. q \<in> objs jf \<and> rank q < r \<and> steps jf j \<and> ready n d rank jf (Suc (rank q)) j \<longrightarrow>
     (\<exists>j'. again j q = Some (full_size n d jf q, j') \<and> advances n d rank jf {} (Suc (rank q)) (\<lambda>_ _. 0) j j' \<and> decoded n d jf j' q))"

end
