(* ===== verification/Heap_Fields.thy ===== *)
theory Heap_Fields
  imports Heap_Runs
begin

text \<open>
  The loop of \<open>resolveInstance\<close> over the fields of an instance: one reference followed, one
  field, and all fields.
\<close>

lemma follow_ref_total:
  assumes ok: "dump_ok n rank jf" and st: "steps jf j" and p: "p \<in> objs jf" and h0: "hobjs jf p = Some h0"
    and h: "hobjs j p = Some h" "hresolved h" and v: "v \<in> set (record_refs n jf h0)"
    and rd: "ready n d rank jf (rank p) j" and again: "resolver n d rank jf (rank p) again"
  shows "\<exists>j'. follow_ref again p v j = Some j' \<and> advances n d rank jf {p} (rank p) (link1 jf p v) j j' \<and>
    hobjs j' p = Some (h\<lparr>csize := csize h + ref_size n d jf v\<rparr>)"
proof -
  let ?t = "lookup32 (hTable jf) v"
  have ht: "hTable j = hTable jf" using st by (simp add: steps_def)
  show ?thesis
  proof (cases "?t = NULL")
    case True
    have "advances n d rank jf {p} (rank p) (link1 jf p v) j j"
      using advances_refl [OF st, of n d rank "{p}" "rank p"] True by (simp add: link1_def [abs_def])
    then show ?thesis using True h ht by (simp add: follow_ref_def ref_size_def Let_def)
  next
    case False
    have t: "?t \<in> objs jf" using ok lookup_objs [OF _ False] by (simp add: dump_ok_def)
    have rt: "rank ?t < rank p" "arcs_ok jf" "room_for_arcs jf" using dump_okD [OF ok p] h0 v False by (metis option.sel)+
    have "ready n d rank jf (Suc (rank ?t)) j" using rd rt(1) by (simp add: ready_def)
    then obtain j1 where j1: "again j ?t = Some (full_size n d jf ?t, j1)" "advances n d rank jf {} (Suc (rank ?t)) (\<lambda>_ _. 0) j j1"
      using again t rt(1) st unfolding resolver_def by blast
    have rp: "has_resolved j p" using h by (simp add: has_resolved_def)
    note m1 = advances_call [OF j1(2) rt(1) p rp]
    let ?h = "h\<lparr>csize := csize h + full_size n d jf ?t\<rparr>"
    let ?j2 = "put_ho p ?h j1"
    have h1: "hobjs j1 p = Some h" using m1(2) h by simp
    have so: "same_object h ?h" using h(2) by (cases h) (simp add: same_object_def)
    have m2: "advances n d rank jf {p} (rank p) (\<lambda>_ _. 0) j1 ?j2"
      using advances_own [OF advances_steps [OF m1(1)] h1 so, of "fin j1" n d rank "rank p"] h(2) by simp
    have st2: "steps jf ?j2" using m2 by (rule advances_steps)
    obtain g0 where g0: "hobjs jf ?t = Some g0" "class_ptr jf g0 \<in> classes jf" using dump_okD [OF ok t] by metis
    obtain g where g: "hobjs ?j2 ?t = Some g" "same_object g0 g" using steps_obj [OF st2 g0(1)] .
    have h0': "class_ptr jf h0 \<in> classes jf" using dump_okD [OF ok p] h0 by (metis option.sel)
    obtain h' where "hobjs ?j2 p = Some h'" "same_object h0 h'" using steps_obj [OF st2 h0] .
    then have sh: "same_object h0 ?h" by simp
    have cl: "cTable ?j2 = cTable jf" "classes ?j2 = classes jf" using steps_keeps [OF st2] by simp_all
    have cp: "lookup32 (cTable ?j2) (classId ?h) = class_ptr jf h0" "lookup32 (cTable ?j2) (classId g) = class_ptr jf g0"
      using same_objectD(2) [OF sh] same_objectD(2) [OF g(2)] cl by (simp_all add: class_ptr_def)
    have "arcs_ok ?j2" "rbt_inv (cTable ?j2)" "room_for_arcs ?j2"
      using st2 ok cl rt(2,3) by (simp_all add: steps_def dump_ok_def room_for_arcs_def)
    from arc_add_counts [OF this _ g(1) cp(1) [symmetric] _ cp(2) [symmetric] _, of p 1]
    obtain j3 where j3: "arc_add ?j2 p ?t 1 = Some j3" "arcs_ok j3" "adds 1 (class_ptr jf h0) (class_ptr jf g0) ?j2 j3" "arc_frame ?j2 j3"
      using h0' g0(2) cl by auto
    have "advances n d rank jf {p} (rank p) (\<lambda>q e. if (q, e) = (class_ptr jf h0, class_ptr jf g0) then 1 else 0) ?j2 j3"
      by (rule advances_arc [OF st2 j3(4,2,3)])
    from advances_trans [OF advances_trans [OF m1(1) m2] this]
    have "advances n d rank jf {p} (rank p) (link1 jf p v) j j3"
      using False h0 g0 by (simp add: link1_def [abs_def] Let_def eq_commute [of "class_ptr jf h0"] eq_commute [of "class_ptr jf g0"])
    moreover have "follow_ref again p v j = Some j3"
      using False ht j1(1) h1 j3(1) by (simp add: follow_ref_def Let_def upd_ho_put)
    moreover have "hobjs j3 p = Some (h\<lparr>csize := csize h + ref_size n d jf v\<rparr>)"
      using arc_frame_keeps(2) [OF j3(4)] False by (simp add: ref_size_def)
    ultimately show ?thesis by blast
  qed
qed

section \<open>Instances\<close>

lemma bytes_at_content: "content f = content g \<Longrightarrow> bytes_at f = bytes_at g"
  by (simp add: bytes_at_def fun_eq_iff)

lemma field_value_content:
  assumes "content f = content g"
  shows "field_value isz f = field_value isz g"
  by (intro ext) (simp only: field_value_def bytes_at_content [OF assms])

lemma advances_refs:
  assumes "advances n d rank jf X r (link1 jf p v) j j1"
    and "advances n d rank jf X r (\<lambda>q e. sum_list (map (\<lambda>v. link1 jf p v q e) vs)) j1 j2"
  shows "advances n d rank jf X r (\<lambda>q e. sum_list (map (\<lambda>v. link1 jf p v q e) (v # vs))) j j2"
  using advances_trans [OF assms] by simp

lemma advances_refs0:
  assumes "advances n d rank jf X r (\<lambda>_ _. 0) j j1" and "advances n d rank jf X r k j1 j2"
  shows "advances n d rank jf X r k j j2"
  using advances_trans [OF assms] by simp

lemma class_fields_within:
  assumes "f \<in> set (class_fields jf cs)"
  obtains k where "offset f = Some k" "k + field_size (identsz jf) (ftype f) \<le> fields_size (identsz jf) (class_fields jf cs)"
  using place_blocks_within [of f "sbTable jf" "identsz jf" 0 "chain_fields jf cs"] assms by (auto simp: class_fields_def)

text \<open>One round: the field is read, its value stored, and a reference followed.\<close>

lemma field_round:
  assumes ok: "dump_ok n rank jf" and p: "p \<in> objs jf" and h0: "hobjs jf p = Some h0"
    and ty: "htype h0 \<noteq> H_VARRAY" "htype h0 \<noteq> H_OARRAY"
    and again: "resolver n d rank jf (rank p) again" and fs: "fs = record_fields n jf h0"
    and fv: "fv = field_value (identsz jf) (fin jf) (hfpos h0)"
    and st: "steps jf j" and h: "hobjs j p = Some h" "hresolved h" and cr: "resolved_in j (class_ptr jf h0)"
    and rd: "ready n d rank jf (rank p) j" and i: "i + Suc k = length fs"
    and hv: "hvalues h = Some (Vals (map fv (take i fs) @ replicate (Suc k) None))"
  shows "\<exists>j'. resolve_field again p (class_ptr jf h0) i (sz, j) =
      Some (sz + of_nat (read_size (identsz jf) (ftype (fs ! i))), j') \<and>
    advances n d rank jf {p} (rank p) (\<lambda>q e. sum_list (map (\<lambda>v. link1 jf p v q e) (ident_of (fv (fs ! i))))) j j' \<and>
    hobjs j' p = Some (h\<lparr>hvalues := Some (Vals (map fv (take (Suc i) fs) @ replicate k None)),
      csize := csize h + sum_list (map (ref_size n d jf) (ident_of (fv (fs ! i))))\<rparr>)"
proof -
  let ?ci = "class_ptr jf h0" and ?isz = "identsz jf" and ?f = "fs ! i" and ?v = "fv (fs ! i)"
  have il: "i < length fs" using i by simp
  obtain c0 where c0: "record_ok n jf h0" "class_ok n jf ?ci" using dump_okD [OF ok p] h0 by (metis option.sel)
  have isz: "identsz j = ?isz" "?isz = 4 \<or> ?isz = 8" and con: "content (fin j) = content (fin jf)"
    using steps_keeps [OF st] ok by (auto simp: dump_ok_def)
  have fsd: "fs = class_fields jf (chain_of n jf ?ci)" by (simp add: fs record_fields_def)
  obtain c where c: "cinfos j ?ci = Some c" "value_info c i = Some ?f"
    using class_shown [OF st c0(2) cr] il unfolding fsd by metis
  obtain h1 where h1: "hobjs j p = Some h1" "same_object h0 h1" using steps_obj [OF st h0] .
  have hf: "hfpos h = hfpos h0" using h1 h(1) same_objectD(3) by simp
  obtain o1 where o1: "offset ?f = Some o1" "o1 + field_size ?isz (ftype ?f) \<le> fields_size ?isz fs"
    using class_fields_within [of ?f jf "chain_of n jf ?ci"] il unfolding fsd by (metis nth_mem)
  have fit: "hfpos h + o1 + field_size (identsz j) (ftype ?f) \<le> length (content (fin j))"
    using c0(1) ty o1(2) isz con hf by (simp add: record_ok_def fs)
  have fv': "field_value ?isz (fin j) (hfpos h) ?f = ?v"
    using field_value_content [OF con] hf fv by simp
  let ?h1 = "h\<lparr>hvalues := Some (Vals (map fv (take (Suc i) fs) @ replicate k None))\<rparr>"
  have wv: "with_value i ?v h = ?h1"
  proof -
    have "(map fv (take i fs) @ replicate (Suc k) None)[i := ?v] = map fv (take (Suc i) fs) @ replicate k None"
      using il by (simp add: list_update_append take_Suc_conv_app_nth)
    moreover have "map fv (take (Suc i) fs) @ replicate k None = map fv (take i fs) @ replicate (Suc k) None" if "?v = None"
      using il that by (simp add: take_Suc_conv_app_nth)
    ultimately show ?thesis using hv by (cases "?v"; cases h) (auto simp: with_value_def)
  qed
  define m where "m = hfpos h + o1 + read_size ?isz (ftype ?f)"
  let ?j1 = "put_ho p ?h1 (j\<lparr>fin := seeked m (fin j)\<rparr>)"
  have so: "same_object h ?h1" using h(2) by (cases h) (simp add: same_object_def)
  have m1: "advances n d rank jf {p} (rank p) (\<lambda>_ _. 0) j ?j1"
    using advances_own [OF st h(1) so] h(2) by simp
  have step: "resolve_field again p ?ci i (sz, j) =
      do { j2 \<leftarrow> (case ?v of Some (V_ident x) \<Rightarrow> follow_ref again p x ?j1 | _ \<Rightarrow> Some ?j1);
           Some (sz + of_nat (read_size (identsz j2) (ftype ?f)), j2) }"
    using resolve_field_step [OF _ c o1(1) h(1) fit, of again sz] isz(2) by (simp only: fv' wv Let_def m_def isz(1))
  have "\<exists>j2. (case ?v of Some (V_ident x) \<Rightarrow> follow_ref again p x ?j1 | _ \<Rightarrow> Some ?j1) = Some j2 \<and>
      advances n d rank jf {p} (rank p) (\<lambda>q e. sum_list (map (\<lambda>v. link1 jf p v q e) (ident_of ?v))) j j2 \<and>
      hobjs j2 p = Some (?h1\<lparr>csize := csize h + sum_list (map (ref_size n d jf) (ident_of ?v))\<rparr>)"
  proof (cases "\<exists>x. ?v = Some (V_ident x)")
    case True
    then obtain x where x: "?v = Some (V_ident x)" by blast
    have "x \<in> set (ident_of ?v)" by (simp add: x)
    then have xr: "x \<in> set (record_refs n jf h0)"
      using ty fs fv il by (auto simp: record_refs_def intro!: bexI [of _ "fs ! i"])
    obtain j2 where j2: "follow_ref again p x ?j1 = Some j2" "advances n d rank jf {p} (rank p) (link1 jf p x) ?j1 j2"
      "hobjs j2 p = Some (?h1\<lparr>csize := csize ?h1 + ref_size n d jf x\<rparr>)"
      using follow_ref_total [OF ok advances_steps [OF m1] p h0 _ _ xr advances_ready [OF m1 rd] again, of ?h1] h(2) by auto
    show ?thesis using x j2 advances_refs0 [OF m1 j2(2)] by auto
  next
    case False
    then have "ident_of ?v = []" by (cases ?v; cases "the ?v") auto
    moreover have "(case ?v of Some (V_ident x) \<Rightarrow> follow_ref again p x ?j1 | _ \<Rightarrow> Some ?j1) = Some ?j1"
      using False by (auto split: option.split hvalue.split)
    moreover have "?h1\<lparr>csize := csize h\<rparr> = ?h1" by (cases h) simp
    ultimately show ?thesis using m1 by simp
  qed
  then obtain j2 where j2: "(case ?v of Some (V_ident x) \<Rightarrow> follow_ref again p x ?j1 | _ \<Rightarrow> Some ?j1) = Some j2"
    and m2: "advances n d rank jf {p} (rank p) (\<lambda>q e. sum_list (map (\<lambda>v. link1 jf p v q e) (ident_of ?v))) j j2"
    and h2: "hobjs j2 p = Some (?h1\<lparr>csize := csize h + sum_list (map (ref_size n d jf) (ident_of ?v))\<rparr>)" by blast
  have "identsz j2 = ?isz" using steps_keeps(3) [OF advances_steps [OF m2]] .
  then show ?thesis using step j2 m2 h2 by simp
qed

lemma advances_resolved: "advances n d rank jf X r k j j' \<Longrightarrow> resolved_in j p \<Longrightarrow> resolved_in j' p"
  by (simp add: advances_def)

lemma field_loop:
  assumes ok: "dump_ok n rank jf" and p: "p \<in> objs jf" and h0: "hobjs jf p = Some h0"
    and ty: "htype h0 \<noteq> H_VARRAY" "htype h0 \<noteq> H_OARRAY"
    and again: "resolver n d rank jf (rank p) again" and fs: "fs = record_fields n jf h0"
    and fv: "fv = field_value (identsz jf) (fin jf) (hfpos h0)"
    and st: "steps jf j" and h: "hobjs j p = Some h" "hresolved h" and cr: "resolved_in j (class_ptr jf h0)"
    and rd: "ready n d rank jf (rank p) j" and i: "i + k = length fs"
    and hv: "hvalues h = Some (Vals (map fv (take i fs) @ replicate k None))"
  shows "\<exists>j'. for_range i k (resolve_field again p (class_ptr jf h0)) (sz, j) =
      Some (sz + of_nat (sum_list (map (\<lambda>f. read_size (identsz jf) (ftype f)) (drop i fs))), j') \<and>
    advances n d rank jf {p} (rank p) (\<lambda>q e. sum_list (map (\<lambda>v. link1 jf p v q e) (concat (map (ident_of \<circ> fv) (drop i fs))))) j j' \<and>
    hobjs j' p = Some (h\<lparr>hvalues := Some (Vals (map fv fs)),
      csize := csize h + sum_list (map (ref_size n d jf) (concat (map (ident_of \<circ> fv) (drop i fs))))\<rparr>)"
  using st h cr rd i hv
proof (induction k arbitrary: i j h sz)
  case 0
  have "h\<lparr>hvalues := hvalues h, csize := csize h\<rparr> = h" by (cases h) simp
  then show ?case using 0 advances_refl [OF 0(1), of n d rank "{p}" "rank p"] by simp
next
  case (Suc k)
  let ?ci = "class_ptr jf h0" and ?isz = "identsz jf" and ?f = "fs ! i" and ?v = "fv (fs ! i)"
  obtain j2 where j2: "resolve_field again p ?ci i (sz, j) = Some (sz + of_nat (read_size ?isz (ftype ?f)), j2)"
    and m2: "advances n d rank jf {p} (rank p) (\<lambda>q e. sum_list (map (\<lambda>v. link1 jf p v q e) (ident_of ?v))) j j2"
    and h2: "hobjs j2 p = Some (h\<lparr>hvalues := Some (Vals (map fv (take (Suc i) fs) @ replicate k None)),
      csize := csize h + sum_list (map (ref_size n d jf) (ident_of ?v))\<rparr>)" (is "_ = Some ?h2")
    using field_round [OF ok p h0 ty again fs fv Suc.prems, of sz] by blast
  have dr: "drop i fs = ?f # drop (Suc i) fs" using Suc.prems(6) by (intro Cons_nth_drop_Suc [symmetric]) simp
  have "\<exists>j'. for_range (Suc i) k (resolve_field again p ?ci) (sz + of_nat (read_size ?isz (ftype ?f)), j2) =
      Some (sz + of_nat (read_size ?isz (ftype ?f)) + of_nat (sum_list (map (\<lambda>f. read_size ?isz (ftype f)) (drop (Suc i) fs))), j') \<and>
    advances n d rank jf {p} (rank p) (\<lambda>q e. sum_list (map (\<lambda>v. link1 jf p v q e) (concat (map (ident_of \<circ> fv) (drop (Suc i) fs))))) j2 j' \<and>
    hobjs j' p = Some (?h2\<lparr>hvalues := Some (Vals (map fv fs)),
      csize := csize ?h2 + sum_list (map (ref_size n d jf) (concat (map (ident_of \<circ> fv) (drop (Suc i) fs))))\<rparr>)"
    by (rule Suc.IH [OF advances_steps [OF m2] h2 _ advances_resolved [OF m2 Suc.prems(4)] advances_ready [OF m2 Suc.prems(5)]])
      (use Suc.prems(3,6) in simp_all)
  then obtain j' where j': "for_range (Suc i) k (resolve_field again p ?ci) (sz + of_nat (read_size ?isz (ftype ?f)), j2) =
      Some (sz + of_nat (read_size ?isz (ftype ?f)) + of_nat (sum_list (map (\<lambda>f. read_size ?isz (ftype f)) (drop (Suc i) fs))), j')"
    "advances n d rank jf {p} (rank p) (\<lambda>q e. sum_list (map (\<lambda>v. link1 jf p v q e) (concat (map (ident_of \<circ> fv) (drop (Suc i) fs))))) j2 j'"
    "hobjs j' p = Some (?h2\<lparr>hvalues := Some (Vals (map fv fs)),
      csize := csize ?h2 + sum_list (map (ref_size n d jf) (concat (map (ident_of \<circ> fv) (drop (Suc i) fs))))\<rparr>)" by blast
  have "for_range i (Suc k) (resolve_field again p ?ci) (sz, j) =
      for_range (Suc i) k (resolve_field again p ?ci) (sz + of_nat (read_size ?isz (ftype ?f)), j2)" using j2 by simp
  then show ?case using j' advances_trans [OF m2 j'(2)] by (intro exI [of _ j']) (simp add: dr add.assoc o_def)
qed

end
