(* ===== verification/Heap_Objects.thy ===== *)
theory Heap_Objects
  imports Heap_Fields
begin

text \<open>
  The three kinds of records: instances, arrays of references and arrays of values are
  decoded as the specification says (\<open>resolve_fields_total\<close>, \<open>resolve_oarray_total\<close>,
  \<open>resolve_varray_total\<close>).
\<close>

section \<open>Instances, finished\<close>

lemma set_sizes_total:
  assumes st: "steps jf j" and c: "cinfos jf ci = Some c0" and h: "hobjs j p = Some h" "hresolved h"
  shows "\<exists>j'. set_sizes p ci sz j = Some j' \<and> advances n d rank jf {p} r (\<lambda>_ _. 0) j j' \<and> hobjs j' p = Some (h\<lparr>osize := Some sz\<rparr>)"
proof -
  obtain c where c: "cinfos j ci = Some c" using steps_class [OF st c] by blast
  let ?j1 = "put_ci ci (c\<lparr>cisize := Some sz\<rparr>) j"
  have m1: "advances n d rank jf {p} r (\<lambda>_ _. 0) j ?j1" by (rule advances_size [OF st c])
  have so: "same_object h (h\<lparr>osize := Some sz\<rparr>)" using h(2) by (cases h) (simp add: same_object_def)
  have m2: "advances n d rank jf {p} r (\<lambda>_ _. 0) ?j1 (put_ho p (h\<lparr>osize := Some sz\<rparr>) ?j1)"
    using advances_own [OF advances_steps [OF m1] _ so, of p "fin ?j1"] h by simp
  show ?thesis using advances_refs0 [OF m1 m2] c h by (simp add: set_sizes_def upd_ci_put upd_ho_put)
qed

definition resolves :: "nat \<Rightarrow> nat \<Rightarrow> (ptr \<Rightarrow> nat) \<Rightarrow> jdump \<Rightarrow> ptr \<Rightarrow> hobject \<Rightarrow> jdump \<Rightarrow> (u64 \<times> jdump) option \<Rightarrow> bool" where
  "resolves n d rank jf p h0 j res \<longleftrightarrow> (let refs = record_refs n jf h0 in
     \<exists>j' h'. res = Some (record_size n jf h0 + sum_list (map (ref_size n d jf) refs), j') \<and>
       advances n d rank jf {p} (rank p) (\<lambda>q e. sum_list (map (\<lambda>v. link1 jf p v q e) refs)) j j' \<and>
       hobjs j' p = Some h' \<and> hresolved h' \<and> hvalues h' = record_store n jf h0 \<and>
       osize h' = Some (record_size n jf h0) \<and> csize h' = sum_list (map (ref_size n d jf) refs))"

lemma advances_last:
  assumes "advances n d rank jf X r k j j1" "advances n d rank jf X r (\<lambda>_ _. 0) j1 j2"
  shows "advances n d rank jf X r k j j2"
  using advances_trans [OF assms] by simp

lemma resolve_fields_start:
  assumes h0: "hobjs jf p = Some h0" and ok: "class_ok n jf (class_ptr jf h0)"
    and st: "steps jf j" and h: "hobjs j p = Some h" and cr: "resolved_in j (class_ptr jf h0)"
    and fs: "fs = record_fields n jf h0"
    and hv: "hv = (if fs \<noteq> [] then Some (Vals (replicate (length fs) None)) else hvalues h)"
  shows "resolve_fields again p (class_ptr jf h0) j = do {
     (sz, j) \<leftarrow> for_range 0 (length fs) (resolve_field again p (class_ptr jf h0)) (0, put_ho p (h\<lparr>hvalues := hv\<rparr>) j);
     j \<leftarrow> set_sizes p (class_ptr jf h0) sz j;
     h \<leftarrow> hobjs j p;
     Some (sz + csize h, j) }"
proof -
  let ?ci = "class_ptr jf h0"
  obtain c where c: "cinfos j ?ci = Some c" "tfields c = int (length fs)"
    using class_shown [OF st ok cr] unfolding fs record_fields_def by metis
  obtain qs where qs: "chain_of n jf ?ci = ?ci # qs" "fits jf (?ci # qs)" using class_ok_chain [OF ok] by metis
  have big: "\<not> array_too_big 8 (word_of_int (int (length fs)))"
    using qs fits_not_too_big [of "int (length fs)"] by (simp add: fs record_fields_def fits_def class_fields_def)
  show ?thesis
  proof (cases "fs = []")
    case True
    have "h\<lparr>hvalues := hvalues h\<rparr> = h" by (cases h) simp
    moreover have "put_ho p h j = j" using h by (simp add: put_ho_def fun_upd_idem)
    ultimately show ?thesis using True c by (simp add: resolve_fields_def hv)
  next
    case False
    then show ?thesis using big c h by (simp add: resolve_fields_def upd_ho_put hv del: of_int_of_nat_eq)
  qed
qed

lemma resolve_fields_total:
  assumes ok: "dump_ok n rank jf" and p: "p \<in> objs jf" and h0: "hobjs jf p = Some h0"
    and ty: "htype h0 \<noteq> H_VARRAY" "htype h0 \<noteq> H_OARRAY"
    and again: "resolver n d rank jf (rank p) again"
    and st: "steps jf j" and h: "hobjs j p = Some (h0\<lparr>hresolved := True\<rparr>)" and cr: "resolved_in j (class_ptr jf h0)"
    and rd: "ready n d rank jf (rank p) j"
  shows "resolves n d rank jf p h0 j (resolve_fields again p (class_ptr jf h0) j)"
proof -
  let ?ci = "class_ptr jf h0" and ?isz = "identsz jf"
  obtain c0 where c0: "cinfos jf ?ci = Some c0" "class_ok n jf ?ci" "csize h0 = 0"
    using dump_okD [OF ok p] h0 unfolding record_ok_def by (metis option.sel)
  define fs where "fs = record_fields n jf h0"
  define fv where "fv = field_value ?isz (fin jf) (hfpos h0)"
  let ?h = "h0\<lparr>hresolved := True\<rparr>"
  let ?hv = "if fs \<noteq> [] then Some (Vals (replicate (length fs) None)) else hvalues ?h"
  let ?h1 = "?h\<lparr>hvalues := ?hv\<rparr>"
  have so: "same_object ?h ?h1" by (simp add: same_object_def)
  have m1: "advances n d rank jf {p} (rank p) (\<lambda>_ _. 0) j (put_ho p ?h1 j)"
    using advances_own [OF st h so, of "fin j"] by simp
  have refs: "record_refs n jf h0 = concat (map (ident_of \<circ> fv) fs)"
    using ty by (simp add: record_refs_def fs_def fv_def o_def)
  have own: "record_size n jf h0 = of_nat (sum_list (map (\<lambda>f. read_size ?isz (ftype f)) fs))"
    using ty by (simp add: record_size_def fs_def)
  have store: "record_store n jf h0 = (if fs = [] then hvalues h0 else Some (Vals (map fv fs)))"
    using ty by (simp add: record_store_def fs_def fv_def)
  have "\<exists>j1. for_range 0 (length fs) (resolve_field again p ?ci) (0, put_ho p ?h1 j) = Some (record_size n jf h0, j1) \<and>
    advances n d rank jf {p} (rank p) (\<lambda>q e. sum_list (map (\<lambda>v. link1 jf p v q e) (record_refs n jf h0))) j j1 \<and>
    hobjs j1 p = Some (?h1\<lparr>hvalues := record_store n jf h0, csize := sum_list (map (ref_size n d jf) (record_refs n jf h0))\<rparr>)"
  proof (cases "fs = []")
    case True
    then have "?h1\<lparr>hvalues := hvalues h0, csize := 0\<rparr> = ?h1" using c0(3) by (cases h0) simp
    then show ?thesis using m1 True by (simp add: refs own store)
  next
    case False
    obtain j1 where "for_range 0 (length fs) (resolve_field again p ?ci) (0, put_ho p ?h1 j) =
        Some (0 + of_nat (sum_list (map (\<lambda>f. read_size ?isz (ftype f)) (drop 0 fs))), j1)"
      "advances n d rank jf {p} (rank p) (\<lambda>q e. sum_list (map (\<lambda>v. link1 jf p v q e) (concat (map (ident_of \<circ> fv) (drop 0 fs))))) (put_ho p ?h1 j) j1"
      "hobjs j1 p = Some (?h1\<lparr>hvalues := Some (Vals (map fv fs)),
        csize := csize ?h1 + sum_list (map (ref_size n d jf) (concat (map (ident_of \<circ> fv) (drop 0 fs))))\<rparr>)"
      using field_loop [OF ok p h0 ty again fs_def fv_def advances_steps [OF m1] _ _ advances_resolved [OF m1 cr]
          advances_ready [OF m1 rd], of ?h1 0 "length fs" 0] False by auto
    then show ?thesis using advances_refs0 [OF m1] c0(3) False by (simp add: refs own store)
  qed
  then obtain j1 where j1: "for_range 0 (length fs) (resolve_field again p ?ci) (0, put_ho p ?h1 j) = Some (record_size n jf h0, j1)"
    "advances n d rank jf {p} (rank p) (\<lambda>q e. sum_list (map (\<lambda>v. link1 jf p v q e) (record_refs n jf h0))) j j1"
    "hobjs j1 p = Some (?h1\<lparr>hvalues := record_store n jf h0, csize := sum_list (map (ref_size n d jf) (record_refs n jf h0))\<rparr>)"
    (is "_ = Some ?h2") by blast
  obtain j2 where j2: "set_sizes p ?ci (record_size n jf h0) j1 = Some j2" "advances n d rank jf {p} (rank p) (\<lambda>_ _. 0) j1 j2"
    "hobjs j2 p = Some (?h2\<lparr>osize := Some (record_size n jf h0)\<rparr>)"
    using set_sizes_total [OF advances_steps [OF j1(2)] c0(1) j1(3), of "record_size n jf h0" n d rank "rank p"] by auto
  show ?thesis
    unfolding resolves_def Let_def
    using resolve_fields_start [OF h0 c0(2) st h cr fs_def refl] j1(1) j2(1,3) advances_last [OF j1(2) j2(2)] by simp
qed

section \<open>Arrays\<close>

lemma get_many_at:
  assumes "isz = 4 \<or> isz = 8"
  shows "p + n * unat isz \<le> length (content f) \<Longrightarrow> fpos f = p \<Longrightarrow>
   get_many (readIdent isz) n f =
     (map (\<lambda>i. Some (ident_val (unat isz) (bytes_at f (p + i * unat isz) (unat isz)))) [0..<n], seeked (p + n * unat isz) f)"
proof (induction n arbitrary: p f)
  case 0
  then show ?case by (simp add: seeked_same)
next
  case (Suc n)
  let ?f = "seeked (p + unat isz) f"
  have "readIdent isz f = (Some (ident_val (unat isz) (bytes_at f p (unat isz))), ?f)"
    using readIdent_at [OF assms _ Suc.prems(2)] Suc.prems(1) by simp
  moreover have "get_many (readIdent isz) n ?f =
      (map (\<lambda>i. Some (ident_val (unat isz) (bytes_at f (p + unat isz + i * unat isz) (unat isz)))) [0..<n], seeked (p + Suc n * unat isz) f)"
    using Suc.IH [of "p + unat isz" ?f] Suc.prems by (simp add: add.assoc)
  moreover have "[0..<Suc n] = 0 # map Suc [0..<n]" by (simp add: map_Suc_upt upt_conv_Cons)
  ultimately show ?case by (simp add: o_def add.assoc del: upt.simps upt_Suc)
qed

lemma refs_loop:
  assumes ok: "dump_ok n rank jf" and p: "p \<in> objs jf" and h0: "hobjs jf p = Some h0"
    and again: "resolver n d rank jf (rank p) again"
    and vs: "set vs \<subseteq> set (record_refs n jf h0)"
    and st: "steps jf j" and h: "hobjs j p = Some h" "hresolved h" and rd: "ready n d rank jf (rank p) j"
  shows "\<exists>j'. for_each (\<lambda>v jf. do { v \<leftarrow> v; follow_ref again p v jf }) (map Some vs) j = Some j' \<and>
    advances n d rank jf {p} (rank p) (\<lambda>q e. sum_list (map (\<lambda>v. link1 jf p v q e) vs)) j j' \<and>
    hobjs j' p = Some (h\<lparr>csize := csize h + sum_list (map (ref_size n d jf) vs)\<rparr>)"
  using vs st h rd
proof (induction vs arbitrary: j h)
  case Nil
  have "h\<lparr>csize := csize h\<rparr> = h" by (cases h) simp
  then show ?case using Nil advances_refl [OF Nil(2), of n d rank "{p}" "rank p"] by simp
next
  case (Cons v vs)
  have v: "v \<in> set (record_refs n jf h0)" using Cons.prems(1) by simp
  obtain j1 where j1: "follow_ref again p v j = Some j1" "advances n d rank jf {p} (rank p) (link1 jf p v) j j1"
    "hobjs j1 p = Some (h\<lparr>csize := csize h + ref_size n d jf v\<rparr>)"
    using follow_ref_total [OF ok Cons.prems(2) p h0 Cons.prems(3,4) v Cons.prems(5) again] by blast
  obtain j2 where j2: "for_each (\<lambda>v jf. do { v \<leftarrow> v; follow_ref again p v jf }) (map Some vs) j1 = Some j2"
    "advances n d rank jf {p} (rank p) (\<lambda>q e. sum_list (map (\<lambda>v. link1 jf p v q e) vs)) j1 j2"
    "hobjs j2 p = Some (h\<lparr>csize := csize h + ref_size n d jf v + sum_list (map (ref_size n d jf) vs)\<rparr>)"
    using Cons.IH [OF _ advances_steps [OF j1(2)] j1(3) _ advances_ready [OF j1(2) Cons.prems(5)]] Cons.prems(1,4) by auto
  then show ?case using j1(1) advances_refs [OF j1(2) j2(2)] by (simp add: add.assoc)
qed

lemma resolve_oarray_total:
  assumes ok: "dump_ok n rank jf" and p: "p \<in> objs jf" and h0: "hobjs jf p = Some h0" and ty: "htype h0 = H_OARRAY"
    and again: "resolver n d rank jf (rank p) again"
    and st: "steps jf j" and h: "hobjs j p = Some (h0\<lparr>hresolved := True\<rparr>)" and rd: "ready n d rank jf (rank p) j"
  shows "resolves n d rank jf p h0 j (resolve_oarray again p (class_ptr jf h0) j)"
proof -
  let ?ci = "class_ptr jf h0" and ?isz = "identsz jf"
  obtain c0 where c0: "cinfos jf ?ci = Some c0" "record_ok n jf h0" using dump_okD [OF ok p] h0 by (metis option.sel)
  obtain k where k: "hcount h0 = Some k" "k \<noteq> 0" "\<not> array_too_big 8 k"
    "hfpos h0 + unat k * unat ?isz \<le> length (content (fin jf))"
    using c0 ty by (auto simp: record_ok_def split: option.splits)
  have cs: "csize h0 = 0" using c0(2) by (simp add: record_ok_def)
  have isz: "identsz j = ?isz" "?isz = 4 \<or> ?isz = 8" and con: "content (fin j) = content (fin jf)"
    using steps_keeps [OF st] ok by (auto simp: dump_ok_def)
  define vs where "vs = oarray_values ?isz (fin jf) h0"
  define m where "m = hfpos h0 + unat k * unat ?isz"
  let ?h = "h0\<lparr>hresolved := True\<rparr>"
  let ?h1 = "?h\<lparr>hvalues := Some (Vals (map (Some \<circ> V_ident) vs))\<rparr>"
  let ?j1 = "put_ho p ?h1 (j\<lparr>fin := seeked m (fin j)\<rparr>)"
  have get: "get_many (readIdent ?isz) (unat k) (fseek_set (hfpos h0) (fin j)) = (map Some vs, seeked m (fin j))"
    using get_many_at [OF isz(2), of "hfpos h0" "unat k" "seeked (hfpos h0) (fin j)"] k con bytes_at_content [OF con]
    by (simp add: vs_def oarray_values_def m_def o_def seeked_def [symmetric] fseek_set_def)
  have refs: "record_refs n jf h0 = vs" using ty by (simp add: record_refs_def vs_def)
  have so: "same_object ?h ?h1" by (simp add: same_object_def)
  have m1: "advances n d rank jf {p} (rank p) (\<lambda>_ _. 0) j ?j1"
    using advances_own [OF st h so, of "seeked m (fin j)"] by simp
  obtain j2 where j2: "for_each (\<lambda>v jf. do { v \<leftarrow> v; follow_ref again p v jf }) (map Some vs) ?j1 = Some j2"
    "advances n d rank jf {p} (rank p) (\<lambda>q e. sum_list (map (\<lambda>v. link1 jf p v q e) vs)) ?j1 j2"
    "hobjs j2 p = Some (?h1\<lparr>csize := csize ?h1 + sum_list (map (ref_size n d jf) vs)\<rparr>)"
    (is "_ = Some ?h2")
    using refs_loop [OF ok p h0 again, of vs ?j1 ?h1] refs advances_steps [OF m1] advances_ready [OF m1 rd] by auto
  have isz2: "identsz j2 = ?isz" using steps_keeps(3) [OF advances_steps [OF j2(2)]] .
  have own: "record_size n jf h0 = ucast (k * ?isz)" using ty k by (simp add: record_size_def)
  obtain j3 where j3: "set_sizes p ?ci (record_size n jf h0) j2 = Some j3" "advances n d rank jf {p} (rank p) (\<lambda>_ _. 0) j2 j3"
    "hobjs j3 p = Some (?h2\<lparr>osize := Some (record_size n jf h0)\<rparr>)"
    using set_sizes_total [OF advances_steps [OF j2(2)] c0(1) j2(3), of "record_size n jf h0" n d rank "rank p"] by auto
  have mm: "map (map_option V_ident) (map Some vs) = map (Some \<circ> V_ident) vs" by simp
  have "resolve_oarray again p ?ci j = Some (record_size n jf h0 + sum_list (map (ref_size n d jf) vs), j3)"
    using k h isz get j2(1) isz2 j3 own cs
    by (simp add: resolve_oarray_def on_file_def upd_ho_put del: map_map) (simp add: mm del: map_map)
  moreover have "record_store n jf h0 = Some (Vals (map (Some \<circ> V_ident) vs))"
    using ty by (simp add: record_store_def vs_def Let_def)
  ultimately show ?thesis
    unfolding resolves_def Let_def refs
    using j3(3) advances_last [OF advances_refs0 [OF m1 j2(2)] j3(2)] cs by simp
qed

text \<open>The two switches of the value-array branch.\<close>

definition mark_xclass :: "ptr \<Rightarrow> ptr \<Rightarrow> hobject \<Rightarrow> jdump \<Rightarrow> jdump option" where
  "mark_xclass ho ci h jf = (if 12 < sint (classId h) then do {
                c \<leftarrow> cinfos jf ci;
                nm \<leftarrow> cname c;
                ch \<leftarrow> second_char nm;
                (if sig_xclass ch \<noteq> 0 then upd_ho ho (\<lambda>h. h\<lparr>xclassId := sig_xclass ch\<rparr>) jf else Some jf) }
              else Some jf)"

definition read_elements :: "ptr \<Rightarrow> u32 \<Rightarrow> hstore option \<Rightarrow> u64 \<Rightarrow> jdump \<Rightarrow> (u32 \<times> jdump) option" where
  "read_elements ho cnt buf t jf = (case elem_kind t of
            None \<Rightarrow> Some (0, jf)
          | Some (n, False) \<Rightarrow> Some (n * cnt, jf)
          | Some (n, True) \<Rightarrow> do {
              let (bs, jf) = on_file (fread (unat n * unat cnt)) jf;
              (if bs = [] then Some (n * cnt, jf)
               else if buf = None then None
               else do {
                 jf \<leftarrow> upd_ho ho (\<lambda>h. h\<lparr>hvalues := Some (Raw bs)\<rparr>) jf;
                 Some (n * cnt, jf) }) })"

lemma resolve_varray_parts:
  "resolve_varray ho ci jf = do {
     h \<leftarrow> hobjs jf ho;
     cnt \<leftarrow> hcount h;
     let buf = (if array_too_big 8 cnt then None else Some (Vals (replicate (unat cnt) None)));
     jf \<leftarrow> upd_ho ho (\<lambda>h. h\<lparr>hvalues := buf\<rparr>) jf;
     if cnt = 0 then Some (0, jf)
     else do {
       jf \<leftarrow> mark_xclass ho ci h (jf\<lparr>fin := fseek_set (hfpos h) (fin jf)\<rparr>);
       h \<leftarrow> hobjs jf ho;
       (sz, jf) \<leftarrow> read_elements ho cnt buf (elem_type h) jf;
       jf \<leftarrow> set_sizes ho ci (ucast sz) jf;
       Some (ucast sz, jf) } }"
  by (simp only: resolve_varray_def mark_xclass_def read_elements_def Let_def)

lemma resolve_varray_total:
  assumes ok: "dump_ok n rank jf" and p: "p \<in> objs jf" and h0: "hobjs jf p = Some h0" and ty: "htype h0 = H_VARRAY"
    and st: "steps jf j" and h: "hobjs j p = Some (h0\<lparr>hresolved := True\<rparr>)"
  shows "resolves n d rank jf p h0 j (resolve_varray p (class_ptr jf h0) j)"
proof -
  let ?ci = "class_ptr jf h0"
  obtain c0 where c0: "cinfos jf ?ci = Some c0" "record_ok n jf h0" "class_rec jf h0 = c0"
    using dump_okD [OF ok p] h0 by (metis option.sel)
  obtain c where c: "cinfos j ?ci = Some c" "similar_class c0 c" using steps_class [OF st c0(1)] .
  have cnm: "cname c = cname c0" using c(2) by (simp add: similar_class_def)
  obtain k where k: "hcount h0 = Some k" "k \<noteq> 0" "\<not> array_too_big 8 k"
    using c0 ty by (auto simp: record_ok_def split: option.splits)
  have nm: "\<exists>nm. cname c = Some nm \<and> nm \<noteq> []" if "12 < sint (classId h0)"
    using c0 ty that cnm by (auto simp: record_ok_def split: option.splits)
  have cs: "csize h0 = 0" using c0(2) by (simp add: record_ok_def)
  have con: "content (fin j) = content (fin jf)" using st by (simp add: steps_def)
  let ?h = "h0\<lparr>hresolved := True\<rparr>"
  let ?buf = "Vals (replicate (unat k) None)"
  let ?t = "if 12 < sint (classId h0) then sig_xclass (the (second_char (the (cname c)))) else 0"
  define xt where "xt = (if ?t \<noteq> 0 then ?t else xclassId h0)"
  let ?h1 = "?h\<lparr>xclassId := xt, hvalues := Some ?buf\<rparr>"
  have et: "elem_type ?h1 = varray_type c0 h0"
    using cnm by (simp add: elem_type_def varray_type_def xt_def Let_def)
  let ?k = "elem_kind (varray_type c0 h0)"
  let ?bs = "bytes_at (fin jf) (hfpos h0)"
  define m where "m = (case ?k of Some (l, True) \<Rightarrow> hfpos h0 + length (?bs (unat l * unat k)) | _ \<Rightarrow> hfpos h0)"
  let ?h2 = "?h1\<lparr>hvalues := Some (varray_store (fin jf) c0 h0)\<rparr>"
  let ?j2 = "put_ho p ?h2 (j\<lparr>fin := seeked m (fin j)\<rparr>)"
  have own: "record_size n jf h0 = (case ?k of None \<Rightarrow> 0 | Some (l, _) \<Rightarrow> ucast (l * k))"
    using ty c0(3) by (simp add: record_size_def Let_def k(1) split: option.split)
  have fr: "fread l (seeked (hfpos h0) (fin j)) = (?bs l, seeked (hfpos h0 + length (?bs l)) (fin j))" for l
    using con by (simp add: fread_rest rest_def bytes_at_def min.commute)
  let ?j0 = "put_ho p (?h\<lparr>hvalues := Some ?buf\<rparr>) (j\<lparr>fin := seeked (hfpos h0) (fin j)\<rparr>)"
  have x1: "mark_xclass p ?ci h0' ?j0 = Some (put_ho p ?h1 (j\<lparr>fin := seeked (hfpos h0) (fin j)\<rparr>))"
    if "classId h0' = classId h0" for h0'
  proof -
    have same: "?h\<lparr>hvalues := b, xclassId := a\<rparr> = ?h\<lparr>xclassId := a, hvalues := b\<rparr>" "?h\<lparr>xclassId := xclassId h0\<rparr> = ?h" for a b
      by (cases h0; simp)+
    show ?thesis
      using nm c(1) that by (cases "12 < sint (classId h0)") (auto simp: mark_xclass_def second_char_def upd_ho_put same xt_def)
  qed
  let ?j1 = "put_ho p ?h1 (j\<lparr>fin := seeked (hfpos h0) (fin j)\<rparr>)"
  have elems: "read_elements p k (Some ?buf) (varray_type c0 h0) ?j1 =
      Some ((case ?k of None \<Rightarrow> 0 | Some (l, _) \<Rightarrow> l * k), ?j2)"
  proof -
    have same: "?h1\<lparr>hvalues := Some ?buf\<rparr> = ?h1" by simp
    show ?thesis
      using k(1) fr by (auto simp: read_elements_def varray_store_def m_def on_file_def upd_ho_put Let_def put_ho_def split: option.split bool.split)
  qed
  have "resolve_varray p ?ci j = do {
      j' \<leftarrow> set_sizes p ?ci (ucast (case ?k of None \<Rightarrow> 0 | Some (l, _) \<Rightarrow> l * k)) ?j2;
      Some (ucast (case ?k of None \<Rightarrow> 0 | Some (l, _) \<Rightarrow> l * k), j') }"
  proof -
    have h1: "hobjs ?j1 p = Some ?h1" by simp
    have seek: "(put_ho p g j)\<lparr>fin := fseek_set (hfpos h0) (fin j)\<rparr> = put_ho p g (j\<lparr>fin := seeked (hfpos h0) (fin j)\<rparr>)" for g
      by (simp add: put_ho_def fseek_set_def)
    show ?thesis
      using k h by (simp add: resolve_varray_parts upd_ho_put seek x1 et elems)
  qed
  moreover have "ucast (case ?k of None \<Rightarrow> 0 | Some (l, _) \<Rightarrow> l * k) = record_size n jf h0"
    unfolding own by (simp split: option.split)
  ultimately have run: "resolve_varray p ?ci j = do { j' \<leftarrow> set_sizes p ?ci (record_size n jf h0) ?j2; Some (record_size n jf h0, j') }"
    by simp
  have so: "same_object ?h ?h2" by (simp add: same_object_def)
  have m1: "advances n d rank jf {p} (rank p) (\<lambda>_ _. 0) j ?j2"
    using advances_own [OF st h so, of "seeked m (fin j)"] by simp
  obtain j3 where j3: "set_sizes p ?ci (record_size n jf h0) ?j2 = Some j3" "advances n d rank jf {p} (rank p) (\<lambda>_ _. 0) ?j2 j3"
    "hobjs j3 p = Some (?h2\<lparr>osize := Some (record_size n jf h0)\<rparr>)"
    using set_sizes_total [OF advances_steps [OF m1] c0(1), of p ?h2 "record_size n jf h0" n d rank "rank p"] by auto
  have "record_refs n jf h0 = []" "record_store n jf h0 = Some (varray_store (fin jf) c0 h0)"
    using ty c0(3) by (simp_all add: record_refs_def record_store_def Let_def)
  then show ?thesis
    unfolding resolves_def Let_def
    using run j3(1,3) advances_refs0 [OF m1 j3(2)] cs by simp
qed

end
