(* ===== verification/Heap_All.thy ===== *)
theory Heap_All
  imports Heap_Objects
begin

text \<open>
  The recursion of \<open>resolveInstance\<close> over the references, by induction on the calls that are
  left, and the walk of \<open>resolveInstances\<close> over the table of objects.
\<close>

section \<open>All objects\<close>

lemma decoded_resolved: "decoded n d jf j p \<Longrightarrow> has_resolved j p"
  by (auto simp: decoded_def has_resolved_def split: option.splits)

lemma advances_close:
  assumes m: "advances n d rank jf {p} (rank p) (ref_links n jf p) j j'" and p: "p \<in> objs jf" "\<not> has_resolved j p"
    and dec: "decoded n d jf j' p"
  shows "advances n d rank jf {} (Suc (rank p)) (\<lambda>_ _. 0) j j'"
proof -
  have n: "newly jf {} j j' = insert p (newly jf {p} j j')" "p \<notin> newly jf {p} j j'"
    using p decoded_resolved [OF dec] by (auto simp: newly_def)
  have "finite (newly jf {p} j j')" using finite_objs by (simp add: newly_def)
  then have sum: "(\<Sum>x \<in> newly jf {} j j'. ref_links n jf x q c) = ref_links n jf p q c + (\<Sum>x \<in> newly jf {p} j j'. ref_links n jf x q c)" for q c
    using n by simp
  have "(Suc (rank p) \<le> rank q \<or> has_resolved j q \<longrightarrow> hobjs j' q = hobjs j q) \<and>
      (has_resolved j' q \<and> \<not> has_resolved j q \<longrightarrow> decoded n d jf j' q)" if q: "q \<in> objs jf" for q
  proof (cases "q = p")
    case True
    then show ?thesis using p dec by simp
  next
    case False
    then show ?thesis using m q by (simp add: advances_def)
  qed
  then show ?thesis using m sum by (simp add: advances_def)
qed

lemma full_size_own:
  assumes "dump_ok n rank jf" "p \<in> objs jf" "rank p < d" "hobjs jf p = Some h"
  shows "full_size n d jf p = record_size n jf h + sum_list (map (ref_size n d jf) (record_refs n jf h))"
  using full_size_stable [OF assms(1-3)] assms(4) by (simp add: ref_size_def [abs_def])

lemma relaid_same_ends: "relaid jf j \<Longrightarrow> same_ends jf j"
proof -
  assume r: "relaid jf j"
  have *: "j = jf\<lparr>cinfos := cinfos j\<rparr>" using r by (simp add: relaid_def)
  have "arc_cells j = arc_cells jf" by (subst *) simp
  moreover have "map_option (\<lambda>c. (children c, parents c)) (cinfos j p) = map_option (\<lambda>c. (children c, parents c)) (cinfos jf p)" for p
  proof -
    have ch: "children c' = children c \<and> parents c' = parents c" if "same_class c c'" for c c'
      using that by (cases c; cases c') (simp add: same_class_def)
    have "rel_option same_class (cinfos jf p) (cinfos j p)" using r by (simp add: relaid_def)
    then show ?thesis by (auto elim!: option.rel_cases dest: ch)
  qed
  ultimately show ?thesis using relaid_keeps [OF r] by (simp add: same_ends_def)
qed

lemma relaid_arcs_ok: "relaid jf j \<Longrightarrow> arcs_ok j = arcs_ok jf"
proof -
  assume r: "relaid jf j"
  have *: "j = jf\<lparr>cinfos := cinfos j\<rparr>" using r by (simp add: relaid_def)
  have "arcs j = arcs jf" "arcs_max j = arcs_max jf" "next_ptr j = next_ptr jf" by (subst *; simp)+
  then show ?thesis by (rule arcs_ok_frame [OF relaid_same_ends [OF r]])
qed

text \<open>The class of an object is resolved before the object is, at the latest by \<open>resolveInstance\<close>.\<close>

lemma class_resolved_first:
  assumes st: "steps jf j" and ok: "class_ok n jf ci" and e: "n \<le> e"
  shows "\<exists>c j1. cinfos j ci = Some c \<and> (if cresolved c then Some j else resolveClassNode e j ci) = Some j1 \<and>
    advances n d rank jf X r (\<lambda>_ _. 0) j j1 \<and> resolved_in j1 ci \<and> hobjs j1 = hobjs j"
proof -
  obtain qs where qs: "super_chain jf (ci # qs)" "Suc (length qs) < n" "fits jf (ci # qs)"
    using class_ok_chain [OF ok] by metis
  have sim: "similar jf j" and inv: "layout_inv False j" using st by (simp_all add: steps_def)
  have ch: "super_chain j (ci # qs)" by (rule similar_super_chain [OF sim qs(1)])
  have fit: "fits j (ci # qs)" using qs(3) similar_length [OF sim] by (simp only: fits_def)
  obtain c where c: "cinfos j ci = Some c" using super_chain_ConsE [OF ch] by metis
  show ?thesis
  proof (cases "cresolved c")
    case True
    then show ?thesis using c advances_refl [OF st] by (simp add: resolved_in_iff)
  next
    case False
    obtain j1 where j1: "resolveClassNode e j ci = Some j1" "relaid j j1" "layout_inv False j1" "settled False j1 (ci # qs)"
      "\<forall>q. q \<notin> set (ci # qs) \<longrightarrow> cinfos j1 q = cinfos j q"
      using resolveClassNode_chain [OF ch _ inv fit, of e] qs(2) e by auto
    note kp = relaid_keeps [OF j1(2)]
    have "steps jf j1"
      using st kp similar_trans [OF sim relaid_similar [OF j1(2)]] j1(3) relaid_arcs_ok [OF j1(2)]
      by (simp add: steps_def)
    moreover have "resolved_in j1 q" if "resolved_in j q \<or> q = ci" for q
      using that settled_resolved [OF j1(4), of q] j1(5) unfolding resolved_in_iff
      by (cases "q \<in> set (ci # qs)") auto
    moreover have "newly jf X j j1 = {}" using kp by (simp add: newly_def has_resolved_def)
    moreover have "arc_count j1 = arc_count j" by (rule same_ends_arc_count [OF relaid_same_ends [OF j1(2)]])
    ultimately have "advances n d rank jf X r (\<lambda>_ _. 0) j j1"
      using kp by (simp add: advances_def has_resolved_def)
    then show ?thesis using False c j1(1) kp settled_resolved [OF j1(4), of ci] by (simp add: resolved_in_iff)
  qed
qed

lemma resolveInstance_fresh:
  assumes ok: "dump_ok n rank jf" and p: "p \<in> objs jf" and h0: "hobjs jf p = Some h0" and e: "n \<le> e"
    and again: "resolver n d rank jf (rank p) (\<lambda>jf p. resolveInstance e jf p)"
    and st: "steps jf j" and h: "hobjs j p = Some h0" "\<not> hresolved h0" and rd: "ready n d rank jf (rank p) j"
  shows "resolves n d rank jf p h0 j (resolveInstance (Suc e) j p)"
proof -
  let ?h = "h0\<lparr>hresolved := True\<rparr>"
  let ?j = "put_ho p ?h j" and ?ci = "class_ptr jf h0" and ?again = "\<lambda>jf p. resolveInstance e jf p"
  have ck: "class_ok n jf ?ci" using dump_okD [OF ok p] h0 by (metis option.sel)
  have so: "same_object h0 ?h" by (simp add: same_object_def)
  have m1: "advances n d rank jf {p} (rank p) (\<lambda>_ _. 0) j ?j"
    using advances_own [OF st h(1) so, of "fin j"] by simp
  obtain c j1 where j1: "cinfos ?j ?ci = Some c" "(if cresolved c then Some ?j else resolveClassNode e ?j ?ci) = Some j1"
    and m2: "advances n d rank jf {p} (rank p) (\<lambda>_ _. 0) ?j j1" and cr: "resolved_in j1 ?ci" and hj: "hobjs j1 = hobjs ?j"
    using class_resolved_first [OF advances_steps [OF m1] ck e, of d rank "{p}" "rank p"] by blast
  have m: "advances n d rank jf {p} (rank p) (\<lambda>_ _. 0) j j1" by (rule advances_refs0 [OF m1 m2])
  have hp: "hobjs j1 p = Some ?h" using hj by simp
  have cp: "lookup32 (cTable j) (classId h0) = ?ci" using steps_keeps(1) [OF st] by (simp add: class_ptr_def)
  have run: "resolveInstance (Suc e) j p =
     (if htype h0 = H_VARRAY then resolve_varray p ?ci j1
      else if htype h0 = H_OARRAY then resolve_oarray ?again p ?ci j1
      else resolve_fields ?again p ?ci j1)"
  proof -
    have "resolveInstance (Suc e) j p = do {
       jf \<leftarrow> (if cresolved c then Some ?j else resolveClassNode e ?j ?ci);
       if htype h0 = H_VARRAY then resolve_varray p ?ci jf
       else if htype h0 = H_OARRAY then resolve_oarray ?again p ?ci jf
       else resolve_fields ?again p ?ci jf }"
      using h cp j1(1) by (simp add: upd_ho_put Let_def)
    then show ?thesis by (simp only: j1(2) Option.bind.simps)
  qed
  have "resolves n d rank jf p h0 j1 (resolveInstance (Suc e) j p)"
    unfolding run
    using resolve_varray_total [OF ok p h0 _ advances_steps [OF m] hp]
      resolve_oarray_total [OF ok p h0 _ again advances_steps [OF m] hp advances_ready [OF m rd]]
      resolve_fields_total [OF ok p h0 _ _ again advances_steps [OF m] hp cr advances_ready [OF m rd]]
    by auto
  then show ?thesis using advances_refs0 [OF m] unfolding resolves_def Let_def by blast
qed

lemma resolveInstance_total:
  assumes ok: "dump_ok n rank jf" and bound: "\<forall>q \<in> objs jf. rank q < d"
  shows "rank p + n < e \<Longrightarrow> p \<in> objs jf \<Longrightarrow> steps jf j \<Longrightarrow> ready n d rank jf (Suc (rank p)) j \<Longrightarrow>
    \<exists>j'. resolveInstance e j p = Some (full_size n d jf p, j') \<and> advances n d rank jf {} (Suc (rank p)) (\<lambda>_ _. 0) j j' \<and>
      decoded n d jf j' p"
proof (induction e arbitrary: p j)
  case (Suc e)
  obtain h0 where h0: "hobjs jf p = Some h0" using dump_okD [OF ok Suc.prems(2)] by metis
  obtain h where h: "hobjs j p = Some h" "same_object h0 h" using steps_obj [OF Suc.prems(3) h0] .
  have full: "full_size n d jf p = record_size n jf h0 + sum_list (map (ref_size n d jf) (record_refs n jf h0))"
    using full_size_own [OF ok Suc.prems(2) _ h0] bound Suc.prems(2) by blast
  show ?case
  proof (cases "hresolved h")
    case True
    then have "decoded n d jf j p" using Suc.prems(2,4) h(1) by (simp add: ready_def has_resolved_def)
    then show ?thesis
      using True h(1) h0 full advances_refl [OF Suc.prems(3)] by (auto simp: decoded_def)
  next
    case False
    then have h1: "hobjs j p = Some h0" "\<not> hresolved h0" using same_objectD(6) [OF h(2)] h(1) by simp_all
    have rd: "ready n d rank jf (rank p) j" using Suc.prems(4) by (simp add: ready_def)
    have again: "resolver n d rank jf (rank p) (\<lambda>jf p. resolveInstance e jf p)"
      unfolding resolver_def using Suc.IH Suc.prems(1) by simp
    have "n \<le> e" using Suc.prems(1) by simp
    from resolveInstance_fresh [OF ok Suc.prems(2) h0 this again Suc.prems(3) h1 rd]
    obtain j' h' where j': "resolveInstance (Suc e) j p = Some (full_size n d jf p, j')"
      "advances n d rank jf {p} (rank p) (\<lambda>q e. sum_list (map (\<lambda>v. link1 jf p v q e) (record_refs n jf h0))) j j'"
      "hobjs j' p = Some h'" "hresolved h'" "hvalues h' = record_store n jf h0" "osize h' = Some (record_size n jf h0)"
      "csize h' = sum_list (map (ref_size n d jf) (record_refs n jf h0))"
      unfolding resolves_def Let_def full by blast
    have lk: "ref_links n jf p = (\<lambda>q e. sum_list (map (\<lambda>v. link1 jf p v q e) (record_refs n jf h0)))"
      using h0 by (simp add: ref_links_def fun_eq_iff)
    have dec: "decoded n d jf j' p" using j' h0 by (simp add: decoded_def)
    have "\<not> has_resolved j p" using h1 by (simp add: has_resolved_def)
    from advances_close [OF _ Suc.prems(2) this dec] j'(2)
    have "advances n d rank jf {} (Suc (rank p)) (\<lambda>_ _. 0) j j'" unfolding lk by blast
    then show ?thesis using j'(1) dec by blast
  qed
qed simp

lemma advances_weaken: "advances n d rank jf X r k j j' \<Longrightarrow> r \<le> r' \<Longrightarrow> advances n d rank jf X r' k j j'"
  by (auto simp: advances_def)

lemma advances_all_ready:
  assumes "advances n d rank jf {} r k j j'" "\<forall>q \<in> objs jf. has_resolved j q \<longrightarrow> decoded n d jf j q"
  shows "\<forall>q \<in> objs jf. has_resolved j' q \<longrightarrow> decoded n d jf j' q"
proof (intro ballI impI)
  fix q assume q: "q \<in> objs jf" "has_resolved j' q"
  show "decoded n d jf j' q"
  proof (cases "has_resolved j q")
    case True
    then have "hobjs j' q = hobjs j q" "decoded n d jf j q" using assms q by (auto simp: advances_def)
    then show ?thesis using decoded_same by blast
  next
    case False
    then show ?thesis using assms(1) q by (simp add: advances_def)
  qed
qed

lemma resolveInstances_total:
  assumes ok: "dump_ok n rank jf" and bound: "\<forall>q \<in> objs jf. rank q + n < d"
  shows "snd ` set (entries t) \<subseteq> objs jf \<Longrightarrow> steps jf j \<Longrightarrow> \<forall>q \<in> objs jf. has_resolved j q \<longrightarrow> decoded n d jf j q \<Longrightarrow>
    \<exists>j'. resolveInstances d j t = Some j' \<and> advances n d rank jf {} d (\<lambda>_ _. 0) j j' \<and>
      (\<forall>p \<in> snd ` set (entries t). decoded n d jf j' p)"
proof (induction t arbitrary: j)
  case Leaf
  then show ?case using advances_refl by auto
next
  case (Node c l k p r)
  obtain j1 where j1: "resolveInstances d j l = Some j1" "advances n d rank jf {} d (\<lambda>_ _. 0) j j1"
    "\<forall>p \<in> snd ` set (entries l). decoded n d jf j1 p"
    using Node.IH(1) [OF _ Node.prems(2,3)] Node.prems(1) by auto
  note a1 = advances_all_ready [OF j1(2) Node.prems(3)]
  have p: "p \<in> objs jf" using Node.prems(1) by simp
  have rd: "ready n d rank jf (Suc (rank p)) j1" using a1 by (simp add: ready_def)
  have bd: "\<forall>q \<in> objs jf. rank q < d" using bound by auto
  from resolveInstance_total [OF ok bd _ p advances_steps [OF j1(2)] rd, of d] bound p
  obtain j2 where j2: "resolveInstance d j1 p = Some (full_size n d jf p, j2)"
    "advances n d rank jf {} (Suc (rank p)) (\<lambda>_ _. 0) j1 j2" "decoded n d jf j2 p" by blast
  have m2: "advances n d rank jf {} d (\<lambda>_ _. 0) j1 j2" using advances_weaken [OF j2(2)] bd p by (simp add: Suc_le_eq)
  note a2 = advances_all_ready [OF m2 a1]
  obtain j3 where j3: "resolveInstances d j2 r = Some j3" "advances n d rank jf {} d (\<lambda>_ _. 0) j2 j3"
    "\<forall>p \<in> snd ` set (entries r). decoded n d jf j3 p"
    using Node.IH(2) [OF _ advances_steps [OF m2] a2] Node.prems(1) by auto
  have m: "advances n d rank jf {} d (\<lambda>_ _. 0) j j3" using advances_refs0 [OF advances_refs0 [OF j1(2) m2] j3(2)] .
  note a3 = advances_all_ready [OF m Node.prems(3)]
  have "decoded n d jf j3 q" if q: "q \<in> snd ` set (entries (Node c l k p r))" for q
  proof -
    have qo: "q \<in> objs jf" using q Node.prems(1) by blast
    consider "q \<in> snd ` set (entries l)" | "q = p" | "q \<in> snd ` set (entries r)" using q by auto
    then have "has_resolved j3 q"
    proof cases
      case 1
      then show ?thesis using j1(3) decoded_resolved qo
          advances_keeps_resolved [OF j3(2)] advances_keeps_resolved [OF m2] by (metis Diff_empty)
    next
      case 2
      then show ?thesis using j2(3) decoded_resolved qo advances_keeps_resolved [OF j3(2)] by (metis Diff_empty)
    next
      case 3
      then show ?thesis using j3(3) decoded_resolved by blast
    qed
    then show ?thesis using a3 qo by blast
  qed
  then show ?case using j1(1) j2(1) j3(1) m by auto
qed

end
