(* ===== verification/Heap_Resolved.thy ===== *)
theory Heap_Resolved
  imports Heap_All
begin

text \<open>
  The heap after \<open>resolveInstances\<close>: every object holds the values its record encodes and the
  sizes of what it refers to, and the arcs between the classes count the references
  (\<open>resolve_heap\<close>). A record written from values is read back as these values
  (\<open>instance_values\<close>).
\<close>

section \<open>The heap after \<open>resolveInstances\<close>\<close>

text \<open>The sizes of the objects a record refers to, as the final state has them.\<close>

definition total_size :: "jdump \<Rightarrow> u64 \<Rightarrow> u64" where
  "total_size j v = (if lookup32 (hTable j) v = NULL then 0
     else case hobjs j (lookup32 (hTable j) v) of None \<Rightarrow> 0 | Some h \<Rightarrow> the (osize h) + csize h)"

definition resolved_as :: "nat \<Rightarrow> jdump \<Rightarrow> jdump \<Rightarrow> ptr \<Rightarrow> bool" where
  "resolved_as n jf j p \<longleftrightarrow> (case hobjs jf p of None \<Rightarrow> False | Some h0 \<Rightarrow> (case hobjs j p of None \<Rightarrow> False | Some h \<Rightarrow>
     hresolved h \<and> hvalues h = record_store n jf h0 \<and> osize h = Some (record_size n jf h0) \<and>
     csize h = sum_list (map (total_size j) (record_refs n jf h0))))"

lemma ref_size_total:
  assumes ok: "dump_ok n rank jf" and bound: "\<forall>q \<in> objs jf. rank q < d" and st: "steps jf j"
    and dec: "\<forall>p \<in> objs jf. decoded n d jf j p"
  shows "ref_size n d jf v = total_size j v"
proof -
  have ht: "hTable j = hTable jf" using steps_keeps(2) [OF st] .
  show ?thesis
  proof (cases "lookup32 (hTable jf) v = NULL")
    case True
    then show ?thesis using ht by (simp add: ref_size_def total_size_def)
  next
    case False
    let ?t = "lookup32 (hTable jf) v"
    have t: "?t \<in> objs jf" using lookup_objs [OF _ False] ok by (simp add: dump_ok_def)
    then obtain h where h: "hobjs jf ?t = Some h" using dump_okD [OF ok] by metis
    have "decoded n d jf j ?t" using dec t by blast
    then show ?thesis
      using full_size_own [OF ok t _ h] bound t h False ht
      by (auto simp: ref_size_def total_size_def decoded_def split: option.splits)
  qed
qed

theorem resolve_heap:
  assumes ok: "dump_ok n rank jf" and bound: "\<forall>q \<in> objs jf. rank q + n < d"
  shows "\<exists>j. resolveInstances d jf (hTable jf) = Some j \<and> hTable j = hTable jf \<and> cTable j = cTable jf \<and>
    (\<forall>p \<in> objs jf. resolved_as n jf j p) \<and>
    (\<forall>q \<in> classes jf. \<forall>c \<in> classes jf. arc_count j q c = arc_count jf q c + (\<Sum>p \<in> objs jf. ref_links n jf p q c))"
proof -
  have fresh: "\<not> has_resolved jf p" if p: "p \<in> objs jf" for p
  proof -
    obtain h where "hobjs jf p = Some h" "record_ok n jf h" using dump_okD [OF ok p] by metis
    then show ?thesis by (simp add: has_resolved_def record_ok_def)
  qed
  have "rel_option same_object (hobjs jf p) (hobjs jf p)" for p
    by (cases "hobjs jf p") (simp_all add: same_object_def)
  moreover have "layout_inv False jf" using ok by (auto simp: layout_inv_def dump_ok_def resolved_in_iff)
  ultimately have st: "steps jf jf" using relaid_similar [OF relaid_refl] by (simp add: steps_def)
  from resolveInstances_total [OF ok bound _ st, of "hTable jf"] fresh
  obtain j where j: "resolveInstances d jf (hTable jf) = Some j" "advances n d rank jf {} d (\<lambda>_ _. 0) jf j"
    "\<forall>p \<in> objs jf. decoded n d jf j p" by (auto simp: objs_def)
  have bd: "\<forall>q \<in> objs jf. rank q < d" using bound by auto
  note size = ref_size_total [OF ok bd advances_steps [OF j(2)] j(3)]
  have "resolved_as n jf j p" if p: "p \<in> objs jf" for p
  proof -
    have "decoded n d jf j p" using j(3) p by blast
    then show ?thesis using size by (auto simp: decoded_def resolved_as_def split: option.splits cong: map_cong)
  qed
  moreover have "newly jf {} jf j = objs jf"
    using j(3) fresh decoded_resolved by (auto simp: newly_def)
  ultimately show ?thesis using j steps_keeps(1,2) [OF advances_steps [OF j(2)]] by (auto simp: advances_def)
qed

section \<open>Encoded records\<close>

definition value_bytes :: "u32 \<Rightarrow> byte \<Rightarrow> hvalue option \<Rightarrow> byte list \<Rightarrow> bool" where
  "value_bytes isz ft v bs = (case v of
       None \<Rightarrow> ft \<notin> of_char ` set ''[LZBSCIJ''
     | Some (V_ident x) \<Rightarrow> ft \<in> of_char ` set ''[L'' \<and> x < 2 ^ 32 \<and> bs = put_be (unat isz) (uint x)
     | Some (V_b b) \<Rightarrow> ft \<in> of_char ` set ''ZB'' \<and> bs = [b]
     | Some (V_c c) \<Rightarrow> ft \<in> of_char ` set ''SC'' \<and> bs = put_be 2 (uint c)
     | Some (V_i i) \<Rightarrow> ft \<in> of_char ` set ''I'' \<and> bs = put_be 4 (uint i)
     | Some (V_j x) \<Rightarrow> ft \<in> of_char ` set ''J'' \<and> x < 2 ^ 32 \<and> bs = put_be 8 (uint x)
     | Some _ \<Rightarrow> False)"

definition encodes :: "u32 \<Rightarrow> byte \<Rightarrow> hvalue option \<Rightarrow> byte list \<Rightarrow> bool" where
  "encodes isz ft v bs \<longleftrightarrow> length bs = field_size isz ft \<and> value_bytes isz ft v bs"

lemma encodes_decode:
  assumes "encodes isz ft v bs" "isz = 4 \<or> isz = 8"
  shows "decode_value isz ft bs = v"
proof -
  note idc = codec.val_encode [OF ident_codec [OF assms(2)]]
  have "value_bytes isz ft v bs" using assms(1) by (simp add: encodes_def)
  then show ?thesis
    using idc u16r.val_encode u32r.val_encode u64r.val_encode
    by (auto simp: value_bytes_def decode_value_def of_char_def split: option.splits hvalue.splits)
qed

lemma place_fields_decode:
  assumes "isz = 4 \<or> isz = 8"
  shows "list_all2 (\<lambda>fi r. encodes isz (ftype fi) (fst r) (snd r)) fs rs \<Longrightarrow>
    drop (pos + o1) (content f) = concat (map snd rs) @ bs \<Longrightarrow>
    map (field_value isz f pos) (place_fields sb isz o1 fs) = map fst rs \<and>
    drop (pos + (o1 + fields_size isz fs)) (content f) = bs"
proof (induction fs rs arbitrary: o1 rule: list_all2_induct)
  case (Cons fi fs r rs)
  have len: "length (snd r) = field_size isz (ftype fi)" using Cons.hyps(1) by (simp add: encodes_def)
  have "bytes_at f (pos + o1) (field_size isz (ftype fi)) = snd r"
    using Cons.prems len by (simp add: bytes_at_def)
  then have "field_value isz f pos (field_at sb o1 fi) = fst r"
    using encodes_decode [OF Cons.hyps(1) assms] by (simp add: field_value_def)
  moreover have "drop (pos + (o1 + field_size isz (ftype fi))) (content f) = concat (map snd rs) @ bs"
    using arg_cong [OF Cons.prems, of "drop (field_size isz (ftype fi))"] len by (simp add: ac_simps)
  ultimately show ?case using Cons.IH [of "o1 + field_size isz (ftype fi)"] by (simp add: add.assoc)
qed simp

lemma place_blocks_decode:
  assumes "isz = 4 \<or> isz = 8"
  shows "list_all2 (list_all2 (\<lambda>fi r. encodes isz (ftype fi) (fst r) (snd r))) blocks recs \<Longrightarrow>
    drop (pos + o1) (content f) = concat (map snd (concat recs)) @ bs \<Longrightarrow>
    map (field_value isz f pos) (place_blocks sb isz o1 blocks) = map fst (concat (rev recs))"
proof (induction blocks recs arbitrary: o1 rule: list_all2_induct)
  case (Cons b blocks r recs)
  have "map (field_value isz f pos) (place_fields sb isz o1 b) = map fst r \<and>
      drop (pos + (o1 + fields_size isz b)) (content f) = concat (map snd (concat recs)) @ bs"
    using place_fields_decode [OF assms Cons.hyps(1), of pos o1 f "concat (map snd (concat recs)) @ bs" sb] Cons.prems by simp
  then show ?case using Cons.IH [of "o1 + fields_size isz b"] by simp
qed simp

lemma class_fields_decode:
  assumes "identsz jf = 4 \<or> identsz jf = 8"
    and "list_all2 (list_all2 (\<lambda>fi r. encodes (identsz jf) (ftype fi) (fst r) (snd r))) (chain_fields jf cs) recs"
    and "drop pos (content f) = concat (map snd (concat recs)) @ bs"
  shows "map (field_value (identsz jf) f pos) (class_fields jf cs) = map fst (concat (rev recs))"
  using place_blocks_decode [OF assms(1,2), of pos 0 f bs] assms(3) by (simp add: class_fields_def)

theorem instance_values:
  assumes ok: "dump_ok n rank jf" and bound: "\<forall>q \<in> objs jf. rank q + n < d"
    and p: "p \<in> objs jf" and h: "hobjs jf p = Some h" "htype h = H_INSTANCE"
    and enc: "list_all2 (list_all2 (\<lambda>f r. encodes (identsz jf) (ftype f) (fst r) (snd r)))
      (chain_fields jf (chain_of n jf (class_ptr jf h))) recs"
    and bytes: "drop (hfpos h) (content (fin jf)) = concat (map snd (concat recs)) @ bs"
    and ne: "concat recs \<noteq> []"
  shows "\<exists>j h'. resolveInstances d jf (hTable jf) = Some j \<and> hobjs j p = Some h' \<and>
    hvalues h' = Some (Vals (map fst (concat (rev recs))))"
proof -
  obtain j where j: "resolveInstances d jf (hTable jf) = Some j" "resolved_as n jf j p"
    using resolve_heap [OF ok bound] p by blast
  have isz: "identsz jf = 4 \<or> identsz jf = 8" using ok by (simp add: dump_ok_def)
  have vals: "map (field_value (identsz jf) (fin jf) (hfpos h)) (record_fields n jf h) = map fst (concat (rev recs))"
    using class_fields_decode [OF isz enc bytes] by (simp add: record_fields_def)
  then have "record_fields n jf h \<noteq> []" using ne by auto
  then have "record_store n jf h = Some (Vals (map fst (concat (rev recs))))"
    using h(2) by (simp add: record_store_def vals)
  then show ?thesis using j h(1) by (auto simp: resolved_as_def split: option.splits)
qed

end
