(* ===== verification/Heap_Types.thy ===== *)
theory Heap_Types
  imports Resolve
begin

text \<open>
  The types of the values the heap holds. \<open>hvalues\<close> is an untagged union in \<^verbatim>\<open>phat.c\<close>: what a
  value may be read as follows from the type of the field in the class of the object.
  \<open>heap_typed\<close> says that each object agrees with its class, and every routine that resolves
  keeps this, on any dump and whatever the file holds (\<open>good\<close>).
\<close>

section \<open>Typed objects\<close>

fun value_typed :: "byte \<Rightarrow> hvalue option \<Rightarrow> bool" where
  "value_typed ft None = True"
| "value_typed ft (Some (V_ident _)) = (ft = of_char (CHR ''['') \<or> ft = of_char (CHR ''L''))"
| "value_typed ft (Some (V_b _)) = (ft = of_char (CHR ''Z'') \<or> ft = of_char (CHR ''B''))"
| "value_typed ft (Some (V_c _)) = (ft = of_char (CHR ''S'') \<or> ft = of_char (CHR ''C''))"
| "value_typed ft (Some (V_i _)) = (ft = of_char (CHR ''I''))"
| "value_typed ft (Some (V_j _)) = (ft = of_char (CHR ''J''))"
| "value_typed ft (Some V_f) = False"
| "value_typed ft (Some V_d) = False"

text \<open>The type of slot \<open>i\<close> of an instance; a slot without a field has the type 0, which no value has.\<close>

definition slot_type :: "cinfo \<Rightarrow> nat \<Rightarrow> byte" where
  "slot_type c i = (case value_info c i of None \<Rightarrow> 0 | Some f \<Rightarrow> ftype f)"

definition fields_typed :: "cinfo \<Rightarrow> hvalue option list \<Rightarrow> bool" where
  "fields_typed c vs \<longleftrightarrow> cresolved c \<and> length vs = nat (tfields c) \<and> (\<forall>i < length vs. value_typed (slot_type c i) (vs ! i))"

definition object_typed :: "jdump \<Rightarrow> hobject \<Rightarrow> bool" where
  "object_typed jf h \<longleftrightarrow> (case hvalues h of
       None \<Rightarrow> True
     | Some (Raw bs) \<Rightarrow> htype h = H_VARRAY
     | Some (Vals vs) \<Rightarrow>
         if htype h = H_VARRAY then (\<forall>v \<in> set vs. v = None)
         else if htype h = H_OARRAY then (\<forall>v \<in> set vs. value_typed (of_char (CHR ''L'')) v)
         else (case cinfos jf (lookup32 (cTable jf) (classId h)) of None \<Rightarrow> False | Some c \<Rightarrow> fields_typed c vs))"

definition heap_typed :: "jdump \<Rightarrow> bool" where
  "heap_typed jf \<longleftrightarrow> (\<forall>h \<in> ran (hobjs jf). object_typed jf h)"

lemma heap_typedD: "heap_typed jf \<Longrightarrow> hobjs jf p = Some h \<Longrightarrow> object_typed jf h"
  unfolding heap_typed_def by (blast intro: ranI)

lemma object_typed_same:
  assumes "cinfos b = cinfos a" "cTable b = cTable a"
  shows "object_typed b = object_typed a"
  by (intro ext) (unfold object_typed_def assms, rule refl)

section \<open>What a run keeps\<close>

definition class_kept :: "cinfo \<Rightarrow> cinfo \<Rightarrow> bool" where
  "class_kept c c' \<longleftrightarrow> cresolved c' = cresolved c \<and> tfields c' = tfields c \<and> cvalues c' = cvalues c \<and> cfinfo c' = cfinfo c"

definition classes_kept :: "jdump \<Rightarrow> jdump \<Rightarrow> bool" where
  "classes_kept a b \<longleftrightarrow> cTable b = cTable a \<and>
     (\<forall>p c. cinfos a p = Some c \<and> cresolved c \<longrightarrow> (\<exists>c'. cinfos b p = Some c' \<and> class_kept c c'))"

definition good :: "jdump \<Rightarrow> jdump \<Rightarrow> bool" where
  "good a b \<longleftrightarrow> classes_kept a b \<and>
     (\<forall>p h. hobjs a p = Some h \<longrightarrow> (\<exists>h'. hobjs b p = Some h' \<and> classId h' = classId h \<and> htype h' = htype h)) \<and>
     (heap_typed a \<longrightarrow> heap_typed b)"

lemma class_kept_trans: "class_kept a b \<Longrightarrow> class_kept b c \<Longrightarrow> class_kept a c"
  by (simp add: class_kept_def)

lemma classes_kept_trans: "classes_kept a b \<Longrightarrow> classes_kept b c \<Longrightarrow> classes_kept a c"
proof -
  assume ab: "classes_kept a b" and bc: "classes_kept b c"
  have "\<exists>z. cinfos c p = Some z \<and> class_kept x z" if x: "cinfos a p = Some x" "cresolved x" for p x
  proof -
    obtain y where y: "cinfos b p = Some y" "class_kept x y" using ab x unfolding classes_kept_def by blast
    then have "cresolved y" using x(2) by (simp add: class_kept_def)
    then obtain z where "cinfos c p = Some z" "class_kept y z" using bc y(1) unfolding classes_kept_def by blast
    then show ?thesis using class_kept_trans [OF y(2)] by blast
  qed
  then show ?thesis using ab bc by (simp add: classes_kept_def)
qed

lemma classes_kept_refl [simp]: "classes_kept a a"
  by (simp add: classes_kept_def class_kept_def)

lemma good_refl [simp]: "good a a"
  by (simp add: good_def)

lemma good_trans: "good a b \<Longrightarrow> good b c \<Longrightarrow> good a c"
proof -
  assume ab: "good a b" and bc: "good b c"
  have "\<exists>h''. hobjs c p = Some h'' \<and> classId h'' = classId h \<and> htype h'' = htype h" if h: "hobjs a p = Some h" for p h
  proof -
    obtain h' where h': "hobjs b p = Some h'" "classId h' = classId h" "htype h' = htype h" using ab h by (auto simp: good_def)
    then show ?thesis using bc unfolding good_def by metis
  qed
  then show ?thesis using ab bc classes_kept_trans by (simp add: good_def) blast
qed

lemma value_info_kept: "class_kept c c' \<Longrightarrow> value_info c' i = value_info c i"
proof -
  assume k: "class_kept c c'"
  have "deref_field c' r = deref_field c r" for r using k by (cases r) (simp_all add: class_kept_def)
  then show ?thesis using k by (simp add: value_info_def class_kept_def)
qed

lemma fields_typed_kept: "class_kept c c' \<Longrightarrow> fields_typed c' vs = fields_typed c vs"
proof -
  assume k: "class_kept c c'"
  have "slot_type c' = slot_type c" using value_info_kept [OF k] by (simp add: slot_type_def fun_eq_iff)
  moreover have "cresolved c' = cresolved c" "tfields c' = tfields c" using k by (simp_all add: class_kept_def)
  ultimately show ?thesis by (simp add: fields_typed_def)
qed

lemma object_typed_kept:
  assumes "classes_kept a b" "object_typed a h"
  shows "object_typed b h"
proof -
  have t: "cTable b = cTable a" using assms(1) by (simp add: classes_kept_def)
  have "\<exists>c'. cinfos b p = Some c' \<and> fields_typed c' vs" if c: "cinfos a p = Some c" "fields_typed c vs" for p c vs
  proof -
    have "cresolved c" using c(2) by (simp add: fields_typed_def)
    then obtain c' where "cinfos b p = Some c'" "class_kept c c'" using assms(1) c(1) unfolding classes_kept_def by blast
    then show ?thesis using c(2) fields_typed_kept by blast
  qed
  then show ?thesis using assms(2) by (fastforce simp: object_typed_def t split: option.splits hstore.splits if_splits)
qed

lemma good_classes: "classes_kept a b \<Longrightarrow> hobjs b = hobjs a \<Longrightarrow> good a b"
  by (auto simp: good_def heap_typed_def intro: object_typed_kept)

lemma good_same: "cinfos b = cinfos a \<Longrightarrow> cTable b = cTable a \<Longrightarrow> hobjs b = hobjs a \<Longrightarrow> good a b"
  by (rule good_classes) (simp_all add: classes_kept_def class_kept_def)

lemma good_same_right: "cinfos b = cinfos a \<Longrightarrow> cTable b = cTable a \<Longrightarrow> hobjs b = hobjs a \<Longrightarrow> good j b = good j a"
proof -
  assume s: "cinfos b = cinfos a" "cTable b = cTable a" "hobjs b = hobjs a"
  have "good a b" "good b a" using s by (auto intro: good_same)
  then show ?thesis using good_trans by blast
qed

lemma good_on_file: "on_file get a = (v, b) \<Longrightarrow> good a b"
  by (auto simp: on_file_def split: prod.splits intro: good_same)

lemma good_simps [simp]:
  "good j (a\<lparr>fin := f\<rparr>) = good j a" "good j (a\<lparr>arcs := l\<rparr>) = good j a" "good j (a\<lparr>arcs_max := m\<rparr>) = good j a"
  "good j (a\<lparr>next_ptr := p\<rparr>) = good j a" "good j (a\<lparr>arc_cells := g\<rparr>) = good j a" "good j (emit e a) = good j a"
  by (rule good_same_right; simp add: emit_def)+

lemma upd_ciE:
  assumes "upd_ci p f a = Some b"
  obtains c where "cinfos a p = Some c" "b = a\<lparr>cinfos := (cinfos a)(p \<mapsto> f c)\<rparr>"
  using assms by (auto simp: upd_ci_def upd_cell_eq_Some_iff elim!: bind_SomeE)

lemma upd_hoE:
  assumes "upd_ho p f a = Some b"
  obtains h where "hobjs a p = Some h" "b = a\<lparr>hobjs := (hobjs a)(p \<mapsto> f h)\<rparr>"
  using assms by (auto simp: upd_ho_def upd_cell_eq_Some_iff elim!: bind_SomeE)

lemma good_upd_ci:
  assumes "upd_ci p f a = Some b" and "\<And>c. class_kept c (f c)"
  shows "good a b"
proof -
  obtain c where "cinfos a p = Some c" "b = a\<lparr>cinfos := (cinfos a)(p \<mapsto> f c)\<rparr>" using upd_ciE [OF assms(1)] .
  then show ?thesis using assms(2) by (intro good_classes) (auto simp: classes_kept_def, simp add: class_kept_def)
qed

lemma good_upd_ho:
  assumes u: "upd_ho p f a = Some b" and k: "\<And>h. classId (f h) = classId h" "\<And>h. htype (f h) = htype h"
    and t: "\<And>h. hobjs a p = Some h \<Longrightarrow> object_typed a h \<Longrightarrow> object_typed a (f h)"
  shows "good a b"
proof -
  obtain h where h: "hobjs a p = Some h" "b = a\<lparr>hobjs := (hobjs a)(p \<mapsto> f h)\<rparr>" using upd_hoE [OF u] .
  have ob: "object_typed b = object_typed a" by (rule object_typed_same) (simp_all add: h(2))
  have "heap_typed b" if "heap_typed a"
  proof -
    have "object_typed b x" if x: "x \<in> ran (hobjs b)" for x
    proof -
      obtain q where "hobjs b q = Some x" using x unfolding ran_def by blast
      then show ?thesis
        using \<open>heap_typed a\<close> h t [OF h(1) heap_typedD [OF \<open>heap_typed a\<close> h(1)]]
        unfolding ob by (auto split: if_splits dest: heap_typedD)
    qed
    then show ?thesis by (simp add: heap_typed_def)
  qed
  then show ?thesis using h k by (auto simp: good_def classes_kept_def class_kept_def)
qed

text \<open>An update of the fields other than \<open>hvalues\<close>, and one of \<open>hvalues\<close>.\<close>

lemma good_upd_meta:
  assumes "upd_ho p f a = Some b" and "\<And>h. classId (f h) = classId h" "\<And>h. htype (f h) = htype h" "\<And>h. hvalues (f h) = hvalues h"
  shows "good a b"
proof -
  have "object_typed a (f h) = object_typed a h" for h by (unfold object_typed_def assms(2-4), rule refl)
  then show ?thesis using assms by (intro good_upd_ho [OF assms(1)]) simp_all
qed

section \<open>Classes\<close>

definition unresolved :: "jdump \<Rightarrow> ptr \<Rightarrow> bool" where
  "unresolved jf p \<longleftrightarrow> (\<forall>c. cinfos jf p = Some c \<longrightarrow> \<not> cresolved c)"

text \<open>
  \<open>resolveClassNode\<close> writes to a class only when it was not resolved at the start of the run.
\<close>

definition layout_only :: "jdump \<Rightarrow> jdump \<Rightarrow> bool" where
  "layout_only a b \<longleftrightarrow> classes_kept a b \<and> hobjs b = hobjs a"

lemma layout_only_refl: "layout_only a a"
  by (simp add: layout_only_def)

lemma layout_only_trans: "layout_only a b \<Longrightarrow> layout_only b c \<Longrightarrow> layout_only a c"
  unfolding layout_only_def by (auto intro: classes_kept_trans)

lemma kept_upd_ci: "upd_ci p f b = Some c \<Longrightarrow> unresolved a p \<Longrightarrow> layout_only a b \<Longrightarrow> layout_only a c"
  by (erule upd_ciE) (auto simp: layout_only_def classes_kept_def unresolved_def)

lemma kept_place_field:
  "place_field ci cc n idx slot b = Some (ft, c) \<Longrightarrow> unresolved a ci \<Longrightarrow> layout_only a b \<Longrightarrow> layout_only a c"
  unfolding place_field_def Let_def by (auto elim!: bind_SomeE split: if_splits dest: kept_upd_ci)

lemma kept_layout_loop:
  "layout_loop n ci tf cc target k idx b = Some (i, c) \<Longrightarrow> unresolved a ci \<Longrightarrow> layout_only a b \<Longrightarrow> layout_only a c"
proof (induction n arbitrary: cc target k idx b)
  case (Suc n)
  obtain cc' tg k' ft b' where "place_field ci cc' k' idx (nat (tg + int k')) b = Some (ft, b')"
    "layout_loop n ci tf cc' tg (Suc k') (idx + field_size (identsz b') ft) b' = Some (i, c)"
    using Suc.prems(1) by (auto simp: Let_def elim!: bind_SomeE split: if_splits)
  then show ?case using Suc.IH kept_place_field Suc.prems(2,3) by metis
qed simp

lemma kept_resolveClassNode: "resolveClassNode d a ci = Some b \<Longrightarrow> layout_only a b"
proof (induction d arbitrary: a ci b)
  case (Suc d)
  obtain c where c: "cinfos a ci = Some c" using Suc.prems by (auto elim!: bind_SomeE)
  show ?case
  proof (cases "cresolved c")
    case True
    then show ?thesis using Suc.prems c layout_only_refl by simp
  next
    case False
    then have u: "unresolved a ci" using c by (simp add: unresolved_def)
    note ext = kept_upd_ci [OF _ u] kept_layout_loop [OF _ u] Suc.IH [THEN layout_only_trans [rotated]]
    show ?thesis
      using Suc.prems c False
      by (auto elim!: bind_SomeE split: if_splits) ((erule ext)+, rule layout_only_refl)+
  qed
qed simp

lemma good_resolveClassNode: "resolveClassNode d a ci = Some b \<Longrightarrow> good a b"
  using kept_resolveClassNode good_classes by (simp add: layout_only_def)

lemma resolveClassNode_done: "resolveClassNode d a ci = Some b \<Longrightarrow> \<exists>c. cinfos b ci = Some c \<and> cresolved c"
  by (cases d) (auto elim!: bind_SomeE upd_ciE split: if_splits)


section \<open>Arcs and sizes\<close>

lemma good_arcs_push: "arcs_push p a = Some b \<Longrightarrow> good a b"
  unfolding arcs_push_def by (auto elim!: bind_SomeE split: if_splits)

lemma good_arc_lookup: "arc_lookup a par c = Some (p, b) \<Longrightarrow> good a b"
  unfolding arc_lookup_def by (auto elim!: bind_SomeE split: if_splits)

lemma good_upd_arc: "upd_arc p f a = Some b \<Longrightarrow> good a b"
  unfolding upd_arc_def by (auto elim!: bind_SomeE)

lemma good_upd_ends: "upd_ci p (\<lambda>x. x\<lparr>children := u\<rparr>) a = Some b \<Longrightarrow> good a b"
  "upd_ci p (\<lambda>x. x\<lparr>parents := u\<rparr>) a = Some b \<Longrightarrow> good a b"
  "upd_ci p (\<lambda>x. x\<lparr>cisize := w\<rparr>) a = Some b \<Longrightarrow> good a b"
  by (erule good_upd_ci; simp add: class_kept_def)+

lemmas good_upd_ho_meta = good_upd_meta [where f = "\<lambda>h. h\<lparr>osize := u\<rparr>" for u, simplified]
  good_upd_meta [where f = "\<lambda>h. h\<lparr>hresolved := u\<rparr>" for u, simplified]
  good_upd_meta [where f = "\<lambda>h. h\<lparr>xclassId := u\<rparr>" for u, simplified]
  good_upd_meta [where f = "\<lambda>h. h\<lparr>csize := csize h + u\<rparr>" for u, simplified]

lemmas good_ext = good_upd_ends [THEN good_trans [rotated]] good_upd_ho_meta [THEN good_trans [rotated]]
  good_upd_arc [THEN good_trans [rotated]] good_arcs_push [THEN good_trans [rotated]]
  good_arc_lookup [THEN good_trans [rotated]] good_on_file [THEN good_trans [rotated]]

lemma good_arc_add: "arc_add a hop hoc n = Some b \<Longrightarrow> good a b"
  unfolding arc_add_def Let_def
  by (auto elim!: bind_SomeE case_prod_eqE split: if_splits) ((erule good_ext | simp)+)

lemma good_set_sizes: "set_sizes ho ci sz a = Some b \<Longrightarrow> good a b"
  unfolding set_sizes_def by (auto elim!: bind_SomeE) ((erule good_ext)+, rule good_refl)


section \<open>Objects\<close>

definition of_kind :: "jdump \<Rightarrow> ptr \<Rightarrow> int \<Rightarrow> u64 \<Rightarrow> bool" where
  "of_kind jf p ht cid \<longleftrightarrow> (case hobjs jf p of None \<Rightarrow> False | Some h \<Rightarrow> htype h = ht \<and> classId h = cid)"

lemma of_kind_good: "of_kind a p ht cid \<Longrightarrow> good a b \<Longrightarrow> of_kind b p ht cid"
  unfolding of_kind_def good_def by (fastforce split: option.splits)

definition value_store :: "hstore option \<Rightarrow> bool" where
  "value_store v \<longleftrightarrow> (case v of Some (Vals vs) \<Rightarrow> (\<forall>v \<in> set vs. v = None) | _ \<Rightarrow> True)"

lemma good_put_value:
  assumes "upd_ho p (\<lambda>h. h\<lparr>hvalues := v\<rparr>) b = Some c" "good a b" "of_kind a p H_VARRAY cid" "value_store v"
  shows "good a c"
proof -
  have "of_kind b p H_VARRAY cid" using of_kind_good assms(2,3) by blast
  then have "good b c"
    using assms(4) by (intro good_upd_ho [OF assms(1)])
      (auto simp: of_kind_def object_typed_def value_store_def split: option.splits hstore.splits)
  then show ?thesis by (rule good_trans [OF assms(2)])
qed

lemma value_store_simps [simp]: "value_store None" "value_store (Some (Raw bs))" "value_store (Some (Vals (replicate n None)))"
  "value_store (Some (Vals []))"
  by (simp_all add: value_store_def)

lemma good_resolve_varray:
  assumes run: "resolve_varray ho ci a = Some (n, b)" and k: "of_kind a ho H_VARRAY cid"
  shows "good a b"
proof -
  note ext = good_ext good_set_sizes [THEN good_trans [rotated]] good_put_value [OF _ _ k]
  show ?thesis
    using run unfolding resolve_varray_def Let_def
    by (auto elim!: bind_SomeE case_prod_eqE split: if_splits option.splits bool.splits prod.split_asm)
       ((erule ext | simp)+)
qed

lemma good_follow_ref:
  assumes "follow_ref again ho v a = Some b" and again: "\<And>j p n j'. again j p = Some (n, j') \<Longrightarrow> good j j'"
  shows "good a b"
proof -
  note ext = good_ext good_arc_add [THEN good_trans [rotated]] again [THEN good_trans [rotated]]
  show ?thesis
    using assms(1) unfolding follow_ref_def Let_def
    by (auto elim!: bind_SomeE split: if_splits) ((erule ext)+, rule good_refl)
qed

lemma good_put_refs:
  assumes "upd_ho p (\<lambda>h. h\<lparr>hvalues := Some (Vals (map (map_option V_ident) vs))\<rparr>) b = Some c" "good a b" "of_kind a p H_OARRAY cid"
  shows "good a c"
proof -
  have "of_kind b p H_OARRAY cid" using of_kind_good assms(2,3) by blast
  then have "good b c"
    by (intro good_upd_ho [OF assms(1)])
      (auto simp: of_kind_def object_typed_def map_option_case split: option.splits)
  then show ?thesis by (rule good_trans [OF assms(2)])
qed

lemma good_for_each:
  assumes "for_each body xs s = Some s'" and "\<And>x t t'. body x t = Some t' \<Longrightarrow> good t t'"
  shows "good s s'"
  using assms(1)
  by (induction xs arbitrary: s) (auto elim!: bind_SomeE intro: good_trans dest!: assms(2))

lemma good_resolve_oarray:
  assumes run: "resolve_oarray again ho ci a = Some (n, b)" and k: "of_kind a ho H_OARRAY cid"
    and again: "\<And>j p n j'. again j p = Some (n, j') \<Longrightarrow> good j j'"
  shows "good a b"
proof -
  have each: "good j j'" if "for_each (\<lambda>v jf. v \<bind> (\<lambda>v. follow_ref again ho v jf)) vs j = Some j'" for j j' vs
    by (rule good_for_each [OF that]) (auto elim!: bind_SomeE intro: good_follow_ref [OF _ again])
  note ext = good_ext good_set_sizes [THEN good_trans [rotated]] good_put_refs [OF _ _ k] each [THEN good_trans [rotated]]
  show ?thesis
    using run unfolding resolve_oarray_def Let_def
    by (auto elim!: bind_SomeE case_prod_eqE split: if_splits) ((erule ext | simp)+)
qed

text \<open>The fields of an instance: the class is resolved, and \<open>values\<close> gives the type of each.\<close>

definition class_done :: "jdump \<Rightarrow> ptr \<Rightarrow> cinfo \<Rightarrow> bool" where
  "class_done jf ci c \<longleftrightarrow> (case cinfos jf ci of None \<Rightarrow> False | Some c' \<Rightarrow> class_kept c c' \<and> cresolved c')"

lemma class_done_good: "class_done a ci c \<Longrightarrow> good a b \<Longrightarrow> class_done b ci c"
proof -
  assume d: "class_done a ci c" and g: "good a b"
  obtain c' where c': "cinfos a ci = Some c'" "class_kept c c'" "cresolved c'"
    using d by (auto simp: class_done_def split: option.splits)
  obtain c'' where c'': "cinfos b ci = Some c''" "class_kept c' c''"
    using g c'(1,3) unfolding good_def classes_kept_def by blast
  then have "cresolved c''" using c'(3) by (simp add: class_kept_def)
  then show ?thesis using class_kept_trans [OF c'(2) c''(2)] c''(1) by (simp add: class_done_def)
qed

definition instance_at :: "jdump \<Rightarrow> ptr \<Rightarrow> ptr \<Rightarrow> cinfo \<Rightarrow> bool" where
  "instance_at jf p ci c \<longleftrightarrow> class_done jf ci c \<and> (\<exists>ht cid. of_kind jf p ht cid \<and> ht \<noteq> H_VARRAY \<and> ht \<noteq> H_OARRAY \<and>
     lookup32 (cTable jf) cid = ci)"

lemma instance_at_good: "instance_at a p ci c \<Longrightarrow> good a b \<Longrightarrow> instance_at b p ci c"
proof -
  assume i: "instance_at a p ci c" and g: "good a b"
  obtain ht cid where k: "of_kind a p ht cid" "ht \<noteq> H_VARRAY" "ht \<noteq> H_OARRAY" "lookup32 (cTable a) cid = ci"
    using i unfolding instance_at_def by blast
  have "class_done a ci c" using i unfolding instance_at_def by blast
  then have "class_done b ci c" by (rule class_done_good [OF _ g])
  moreover have "of_kind b p ht cid" by (rule of_kind_good [OF k(1) g])
  moreover have "cTable b = cTable a" using g by (simp add: good_def classes_kept_def)
  ultimately show ?thesis using k(2-4) unfolding instance_at_def by metis
qed

lemma instance_typed:
  assumes "instance_at jf p ci c" "hobjs jf p = Some h"
  shows "object_typed jf (h\<lparr>hvalues := v\<rparr>) \<longleftrightarrow> (case v of None \<Rightarrow> True | Some (Raw bs) \<Rightarrow> False | Some (Vals vs) \<Rightarrow> fields_typed c vs)"
proof -
  have h: "htype h \<noteq> H_VARRAY" "htype h \<noteq> H_OARRAY" "lookup32 (cTable jf) (classId h) = ci"
  proof -
    obtain ht cid where k: "of_kind jf p ht cid" "ht \<noteq> H_VARRAY" "ht \<noteq> H_OARRAY" "lookup32 (cTable jf) cid = ci"
      using assms(1) unfolding instance_at_def by blast
    then show "htype h \<noteq> H_VARRAY" "htype h \<noteq> H_OARRAY" "lookup32 (cTable jf) (classId h) = ci"
      using assms(2) by (simp_all add: of_kind_def)
  qed
  obtain c' where c': "cinfos jf ci = Some c'" "class_kept c c'"
    using assms(1) by (auto simp: instance_at_def class_done_def split: option.splits)
  show ?thesis using h c'(1) fields_typed_kept [OF c'(2)] by (simp add: object_typed_def split: option.split hstore.split)
qed


lemma value_typed_option [simp]:
  "value_typed ft (map_option V_ident x) \<longleftrightarrow> x = None \<or> ft = of_char (CHR ''['') \<or> ft = of_char (CHR ''L'')"
  "value_typed ft (map_option V_c y) \<longleftrightarrow> y = None \<or> ft = of_char (CHR ''S'') \<or> ft = of_char (CHR ''C'')"
  "value_typed ft (map_option V_i z) \<longleftrightarrow> z = None \<or> ft = of_char (CHR ''I'')"
  "value_typed ft (map_option V_j w) \<longleftrightarrow> w = None \<or> ft = of_char (CHR ''J'')"
  by ((cases x; simp), (cases y; simp), (cases z; simp), (cases w; simp))

lemma good_put_field:
  assumes u: "upd_ho p (\<lambda>h. h\<lparr>hvalues := set_val i v (hvalues h)\<rparr>) b = Some e" and g: "good a b"
    and i: "instance_at a p ci c" "value_info c i = Some f" and t: "value_typed (ftype f) v"
  shows "good a e"
proof -
  have at: "instance_at b p ci c" by (rule instance_at_good [OF i(1) g])
  have "object_typed b (h\<lparr>hvalues := set_val i v (hvalues h)\<rparr>)" if h: "hobjs b p = Some h" "object_typed b h" for h
  proof -
    have same: "h\<lparr>hvalues := hvalues h\<rparr> = h" by (cases h) simp
    have ty: "case hvalues h of None \<Rightarrow> True | Some (Raw bs) \<Rightarrow> False | Some (Vals vs) \<Rightarrow> fields_typed c vs"
      using instance_typed [OF at h(1), of "hvalues h"] h(2) by (simp only: same)
    have "fields_typed c (vs[i := v])" if "fields_typed c vs" for vs
      using that i(2) t by (cases "i < length vs") (auto simp: fields_typed_def slot_type_def nth_list_update)
    then have "case set_val i v (hvalues h) of None \<Rightarrow> True | Some (Raw bs) \<Rightarrow> False | Some (Vals vs) \<Rightarrow> fields_typed c vs"
      using ty by (cases "hvalues h"; cases "the (hvalues h)") auto
    then show ?thesis using instance_typed [OF at h(1)] by blast
  qed
  then have "good b e" by (intro good_upd_ho [OF u]) simp_all
  then show ?thesis by (rule good_trans [OF g])
qed

lemma good_resolve_field:
  assumes run: "resolve_field again ho ci i (sz, a) = Some (sz', b)" and at: "instance_at a ho ci c"
    and again: "\<And>j p n j'. again j p = Some (n, j') \<Longrightarrow> good j j'"
  shows "good a b"
proof -
  obtain c' f where c': "cinfos a ci = Some c'" "value_info c' i = Some f"
    using run unfolding resolve_field_def by (auto elim!: bind_SomeE)
  have "class_kept c c'" using at c'(1) by (simp add: instance_at_def class_done_def)
  then have vi: "value_info c i = Some f" using c'(2) value_info_kept by simp
  have ref: "good j j'" if "follow_ref again ho v j = Some j'" for j j' v
    by (rule good_follow_ref [OF that again])
  note ext = good_ext ref [THEN good_trans [rotated]] good_put_field [OF _ _ at vi]
  show ?thesis
    using run c' unfolding resolve_field_def Let_def
    by (auto elim!: bind_SomeE case_prod_eqE split: if_splits) ((erule ext | simp)+)
qed

lemma good_field_loop:
  assumes again: "\<And>j p n j'. again j p = Some (n, j') \<Longrightarrow> good j j'"
  shows "for_range i k (resolve_field again ho ci) (sz, a) = Some (sz', b) \<Longrightarrow> instance_at a ho ci c \<Longrightarrow> good a b"
proof (induction k arbitrary: i sz a)
  case (Suc k)
  obtain s1 j1 where j1: "resolve_field again ho ci i (sz, a) = Some (s1, j1)"
    "for_range (Suc i) k (resolve_field again ho ci) (s1, j1) = Some (sz', b)"
    using Suc.prems(1) by (auto elim!: bind_SomeE)
  have g: "good a j1" by (rule good_resolve_field [OF j1(1) Suc.prems(2) again])
  show ?case using good_trans [OF g Suc.IH [OF j1(2) instance_at_good [OF Suc.prems(2) g]]] .
qed simp

lemma good_start_fields:
  assumes u: "upd_ho p (\<lambda>h. h\<lparr>hvalues := Some (Vals (replicate (nat (tfields c)) None))\<rparr>) a = Some b"
    and at: "instance_at a p ci c" and r: "cresolved c"
  shows "good a b"
proof -
  have "object_typed a (h\<lparr>hvalues := Some (Vals (replicate (nat (tfields c)) None))\<rparr>)" if "hobjs a p = Some h" for h
    using instance_typed [OF at that] r by (simp add: fields_typed_def)
  then show ?thesis by (intro good_upd_ho [OF u]) simp_all
qed

lemma good_resolve_fields:
  assumes run: "resolve_fields again ho ci a = Some (n, b)" and c: "cinfos a ci = Some c" "cresolved c"
    and at: "instance_at a ho ci c" and again: "\<And>j p n j'. again j p = Some (n, j') \<Longrightarrow> good j j'"
  shows "good a b"
proof -
  obtain j1 sz j2 where
      1: "j1 = a \<or> upd_ho ho (\<lambda>h. h\<lparr>hvalues := Some (Vals (replicate (nat (tfields c)) None))\<rparr>) a = Some j1"
    and 2: "for_range 0 (nat (tfields c)) (resolve_field again ho ci) (0, j1) = Some (sz, j2)"
    and 3: "set_sizes ho ci sz j2 = Some b"
    using run c unfolding resolve_fields_def by (auto elim!: bind_SomeE split: if_splits)
  have g: "good a j1" using 1 good_start_fields [OF _ at c(2)] by auto
  have "good j1 j2" by (rule good_field_loop [OF again 2 instance_at_good [OF at g]])
  then show ?thesis using g good_set_sizes [OF 3] good_trans by blast
qed

section \<open>All objects\<close>

lemma good_resolveInstance: "resolveInstance d a p = Some (n, b) \<Longrightarrow> good a b"
proof (induction d arbitrary: a p n b)
  case (Suc d)
  let ?again = "\<lambda>jf p. resolveInstance d jf p"
  obtain h where h: "hobjs a p = Some h" using Suc.prems by (auto elim!: bind_SomeE)
  show ?case
  proof (cases "hresolved h")
    case True
    then show ?thesis using Suc.prems h by (auto elim!: bind_SomeE)
  next
    case False
    let ?ci = "lookup32 (cTable a) (classId h)"
    obtain a1 c0 j where
        1: "upd_ho p (\<lambda>h. h\<lparr>hresolved := True\<rparr>) a = Some a1" and c0: "cinfos a1 ?ci = Some c0"
      and 2: "(if cresolved c0 then Some a1 else resolveClassNode d a1 ?ci) = Some j"
      and 3: "(if htype h = H_VARRAY then resolve_varray p ?ci j
        else if htype h = H_OARRAY then resolve_oarray ?again p ?ci j
        else resolve_fields ?again p ?ci j) = Some (n, b)"
    proof -
      obtain a1 where u: "upd_ho p (\<lambda>h. h\<lparr>hresolved := True\<rparr>) a = Some a1"
        using Suc.prems h False by (auto elim!: bind_SomeE)
      let ?k = "lookup32 (cTable a1) (classId h)"
      obtain c0 j where "cinfos a1 ?k = Some c0" "(if cresolved c0 then Some a1 else resolveClassNode d a1 ?k) = Some j"
        "(if htype h = H_VARRAY then resolve_varray p ?k j else if htype h = H_OARRAY then resolve_oarray ?again p ?k j
          else resolve_fields ?again p ?k j) = Some (n, b)"
        using u Suc.prems h False by (auto simp: Let_def elim!: bind_SomeE simp del: if_split)
      moreover have "cTable a1 = cTable a" using u by (elim upd_hoE) simp
      ultimately show ?thesis using that [OF u] by (simp only:)
    qed
    have g1: "good a a1" using good_upd_ho_meta(2) [OF 1] .
    have "good a1 j" using 2 good_resolveClassNode by (cases "cresolved c0") auto
    then have g: "good a j" by (rule good_trans [OF g1])
    have k: "of_kind j p (htype h) (classId h)" using of_kind_good [OF _ g] h by (simp add: of_kind_def)
    have ct: "cTable j = cTable a" using g by (simp add: good_def classes_kept_def)
    have "good j b"
    proof -
      obtain c where c: "cinfos j ?ci = Some c" "cresolved c"
        using 2 c0 resolveClassNode_done [of d a1 ?ci j] by (cases "cresolved c0") auto
      have "instance_at j p ?ci c" if "htype h \<noteq> H_VARRAY" "htype h \<noteq> H_OARRAY"
        using that k c ct by (auto simp: instance_at_def class_done_def class_kept_def)
      then show ?thesis
        using 3 k good_resolve_varray good_resolve_oarray [OF _ _ Suc.IH] good_resolve_fields [OF _ c _ Suc.IH]
        by (auto split: if_splits)
    qed
    then show ?thesis by (rule good_trans [OF g])
  qed
qed simp

lemma good_resolveInstances: "resolveInstances d a t = Some b \<Longrightarrow> good a b"
proof (induction t arbitrary: a b)
  case (Node c l k p r)
  note ext = good_resolveInstance [THEN good_trans [rotated]] Node.IH [THEN good_trans [rotated]]
  from Node.prems show ?case by (auto elim!: bind_SomeE) ((erule ext)+, rule good_refl)
qed simp

text \<open>A heap in which no values have been read yet is typed.\<close>

lemma heap_typed_start: "(\<forall>h \<in> ran (hobjs jf). hvalues h = None) \<Longrightarrow> heap_typed jf"
  by (simp add: heap_typed_def object_typed_def)

theorem resolved_heap_typed:
  assumes "heap_typed jf" "resolveInstances d jf t = Some j"
  shows "heap_typed j"
  using good_resolveInstances [OF assms(2)] assms(1) by (simp add: good_def)

end
