(* ===== verification/Heap_Sample.thy ===== *)
theory Heap_Sample
  imports Heap_Resolved Heap_Types
begin

text \<open>
  A small dump after its records have been read: two classes, \<^verbatim>\<open>java/lang/Object\<close> and a subclass
  with a reference and an \<^verbatim>\<open>int\<close>, and two objects of the subclass, the first of which refers to the
  second. The theorems about resolving are applied to it.
\<close>

definition sample_field :: "u64 \<Rightarrow> byte \<Rightarrow> finfo" where
  "sample_field i ft = \<lparr>fident = Some i, fname = None, ftype = ft, fresolved = False, offset = None\<rparr>"

definition sample_class :: "u64 \<Rightarrow> u64 \<Rightarrow> finfo list \<Rightarrow> cinfo" where
  "sample_class i s fs = (new_cinfo i 0 (Some [65, 0]))\<lparr>superId := Some s, cstats := Some 0, cfields := Some (of_nat (length fs)),
     cfinfo := Some fs, parents := Some NULL, children := Some NULL\<rparr>"

definition sample_object :: "u64 \<Rightarrow> nat \<Rightarrow> hobject" where
  "sample_object i pos = (new_hobject H_INSTANCE i 2)\<lparr>hfpos := pos\<rparr>"

definition sample_dump :: jdump where
  "sample_dump = (new_jdump \<lparr>content = [0, 0, 0, 32, 0, 0, 0, 7, 0, 0, 0, 0, 0, 0, 0, 9], fpos = 0\<rparr> 3 4 None 0)
     \<lparr>cTable := insert32 2 2 (insert32 1 1 Leaf), hTable := insert32 32 4 (insert32 16 3 Leaf),
      cinfos := [1 \<mapsto> sample_class 1 0 [], 2 \<mapsto> sample_class 2 1 [sample_field 5 (of_char (CHR ''L'')), sample_field 6 (of_char (CHR ''I''))]],
      hobjs := [3 \<mapsto> sample_object 16 0, 4 \<mapsto> sample_object 32 8], next_ptr := 5\<rparr>"

lemma sample_simps [simp]:
  "identsz sample_dump = 4" "sbTable sample_dump = Leaf"
  "cinfos sample_dump = [1 \<mapsto> sample_class 1 0 [], 2 \<mapsto> sample_class 2 1 [sample_field 5 (of_char (CHR ''L'')), sample_field 6 (of_char (CHR ''I''))]]"
  "hobjs sample_dump = [3 \<mapsto> sample_object 16 0, 4 \<mapsto> sample_object 32 8]"
  "cTable sample_dump = insert32 2 2 (insert32 1 1 Leaf)" "hTable sample_dump = insert32 32 4 (insert32 16 3 Leaf)"
  "content (fin sample_dump) = [0, 0, 0, 32, 0, 0, 0, 7, 0, 0, 0, 0, 0, 0, 0, 9]"
  "arc_cells sample_dump = Map.empty" "arcs sample_dump = []" "arcs_max sample_dump = 0" "next_ptr sample_dump = 5"
  by (simp_all add: sample_dump_def new_jdump_def)


lemma table_of_two:
  "rbt_lookup (insert32 k d (insert32 k' d' Leaf)) = [ucast k' \<mapsto> d', ucast k \<mapsto> d]" "rbt_inv (insert32 k d (insert32 k' d' Leaf))"
  by (simp_all add: insert32_def rbt_table.look_ins rbt_table.inv_ins rbt_table.inv_empty rbt_table.look_empty fun_eq_iff)

lemma sample_tables:
  "rbt_inv (cTable sample_dump)" "rbt_inv (hTable sample_dump)"
  "lookup32 (cTable sample_dump) 0 = NULL" "lookup32 (cTable sample_dump) 1 = 1" "lookup32 (cTable sample_dump) 2 = 2"
  "lookup32 (hTable sample_dump) 0 = NULL" "lookup32 (hTable sample_dump) 32 = 4"
  "objs sample_dump = {3, 4}" "classes sample_dump = {1, 2}"
proof -
  show 1: "rbt_inv (cTable sample_dump)" "rbt_inv (hTable sample_dump)" by (simp_all add: table_of_two)
  show "lookup32 (cTable sample_dump) 0 = NULL" "lookup32 (cTable sample_dump) 1 = 1" "lookup32 (cTable sample_dump) 2 = 2"
    "lookup32 (hTable sample_dump) 0 = NULL" "lookup32 (hTable sample_dump) 32 = 4"
    by (simp_all add: lookup32_def table_of_two)
  have "objs sample_dump = ran (rbt_lookup (hTable sample_dump))"
    using rbt_table.ran_items [OF 1(2)] by (simp add: objs_def)
  then show "objs sample_dump = {3, 4}" by (auto simp: table_of_two)
  show "classes sample_dump = {1, 2}" by (auto simp: classes_def table_of_two)
qed

lemma sample_class_simps [simp]:
  "class_read (sample_class i s fs) \<longleftrightarrow> length fs < 2 ^ 16 \<and> (\<forall>f \<in> set fs. fident f \<noteq> None)"
  "superId (sample_class i s fs) = Some s" "own_fields (sample_class i s fs) = fs" "cresolved (sample_class i s fs) = False"
  "children (sample_class i s fs) = Some NULL" "parents (sample_class i s fs) = Some NULL" "fident (sample_field i ft) = Some i"
  "ftype (sample_field i ft) = ft"
  by (simp_all add: class_read_def sample_class_def new_cinfo_def own_fields_def sample_field_def)

lemma sample_chain: "super_chain sample_dump [2, 1]" "super_chain sample_dump [1]"
  using sample_tables(3-5) by (simp_all add: super_chain.simps)

lemma sample_chain_of: "chain_of 3 sample_dump 2 = [2, 1]"
  using chain_of_super_chain [of sample_dump 2 "[1]" 3] sample_chain(1) by simp

lemma sample_class_fields:
  "class_fields sample_dump [2, 1] = [field_at Leaf 0 (sample_field 5 (of_char (CHR ''L''))), field_at Leaf 4 (sample_field 6 (of_char (CHR ''I'')))]"
  by (simp add: class_fields_def fields_of_def field_size_def of_char_def)

lemma sample_class_ok: "class_ok 3 sample_dump 2"
  using sample_chain(1) by (simp add: class_ok_def sample_chain_of fits_def fields_of_def)

lemma sample_record: "class_ptr sample_dump (sample_object i p) = 2" "htype (sample_object i p) = H_INSTANCE" "hfpos (sample_object i p) = p"
  "\<not> hresolved (sample_object i p)" "csize (sample_object i p) = 0"
  using sample_tables(5) by (simp_all add: class_ptr_def sample_object_def new_hobject_def)

lemma sample_record_fields:
  "record_fields 3 sample_dump (sample_object i p) = [field_at Leaf 0 (sample_field 5 (of_char (CHR ''L''))), field_at Leaf 4 (sample_field 6 (of_char (CHR ''I'')))]"
  by (simp only: record_fields_def sample_record sample_chain_of sample_class_fields)

lemma sample_values:
  "record_refs 3 sample_dump (sample_object 16 0) = [32]" "record_refs 3 sample_dump (sample_object 32 8) = [0]"
  by (simp_all add: record_refs_def sample_record sample_record_fields field_value_def decode_value_def field_size_def of_char_def bytes_at_def ident_val_def be_word_def be_def)

lemma sample_arcs_ok: "arcs_ok sample_dump" "room_for_arcs sample_dump"
proof -
  have "class_arcs sample_dump p []" if "p \<in> {1, 2}" for p
    using that by (auto simp: class_arcs_def)
  then show "arcs_ok sample_dump" by (fastforce simp: arcs_ok_def sample_tables(9))
  show "room_for_arcs sample_dump" by (simp add: room_for_arcs_def sample_tables(9) MAX_TALLOC_SIZE_def)
qed

definition sample_rank :: "ptr \<Rightarrow> nat" where
  "sample_rank p = (if p = 3 then 1 else 0)"

lemma sample_ok: "dump_ok 3 sample_rank sample_dump"
proof -
  have "record_ok 3 sample_dump (sample_object i p)" if "p + 8 \<le> 16" for i p
    using that sample_class_ok
    by (simp add: record_ok_def sample_record sample_tables(9) sample_record_fields field_size_def of_char_def)
  moreover have "\<not> resolved_in sample_dump p" for p by (simp add: resolved_in_def)
  ultimately show ?thesis
    using sample_tables(1,2,6,7) sample_arcs_ok
    by (simp add: dump_ok_def sample_tables(8) sample_values sample_rank_def del: sample_simps(5,6))
qed

lemma sample_sizes: "record_size 3 sample_dump (sample_object i p) = 8"
  by (simp add: record_size_def sample_record sample_record_fields read_size_def field_size_def of_char_def)

lemma sample_bytes:
  "encodes 4 (of_char (CHR ''L'')) (Some (V_ident 32)) [0, 0, 0, 32]" "encodes 4 (of_char (CHR ''I'')) (Some (V_i 7)) [0, 0, 0, 7]"
proof -
  have "put_be 4 32 = [0, 0, 0, 32]" "put_be 4 7 = [0, 0, 0, 7]" by (simp_all add: eval_nat_numeral)
  then show "encodes 4 (of_char (CHR ''L'')) (Some (V_ident 32)) [0, 0, 0, 32]" "encodes 4 (of_char (CHR ''I'')) (Some (V_i 7)) [0, 0, 0, 7]"
    by (simp_all add: encodes_def value_bytes_def field_size_def of_char_def)
qed

lemma sample_laid_out:
  assumes "laid_out True sample_dump [2, 1] c"
  shows "tfields c = 2" "cisize c = Some 8" "value_info c 0 = Some (field_at Leaf 0 (sample_field 5 (of_char (CHR ''L''))))"
    "value_info c 1 = Some (field_at Leaf 4 (sample_field 6 (of_char (CHR ''I''))))"
  using assms unfolding laid_out_def sample_class_fields Let_def
  by (simp_all add: field_size_def of_char_def less_Suc_eq all_conj_distrib)

end
