(* ===== verification/Spec2Isabelle.thy ===== *)
theory Spec2Isabelle
  imports Rbtree_Arrays Header Class_Graph_Order Main_Program Talloc_Process Talloc_External Heap_Sample
begin

text \<open>
  \<^bold>\<open>phat\<close> reads a Java heap dump (the HPROF binary format), keeps its classes, strings and
  objects in red-black trees and prints summaries of them. The program has three layers, and
  the development follows them.

  \<^bold>\<open>The allocator\<close> (\<^verbatim>\<open>src/talloc.c\<close>). Theory \<open>Talloc\<close> models the chunk header
  (\<open>talloc_chunk\<close>), the allocator's state (\<open>talloc_heap\<close>: the live chunks by address, the
  reference handles, the null context, which \<open>malloc\<close> calls succeed, the next address) and,
  under the names of the source, allocation (\<open>__talloc\<close> is \<open>talloc_internal\<close>), naming,
  destructors, stealing, references, freeing and the queries. \<open>Talloc_Forest\<close> states the
  invariant (\<open>forest s K\<close>: \<open>K p\<close> lists the children of \<open>p\<close>; the doubly linked sibling lists
  in the heap are exactly these lists, only a first child points to its parent) and shows what
  each operation does to \<open>K\<close>. \<open>Talloc_Free\<close> shows that \<open>_talloc_free\<close> releases exactly a subtree
  and when a destructor prevents it. \<open>Talloc_Realloc\<close> models \<open>_talloc_realloc\<close> and shows that a moved
  block takes its place in the forest along (\<open>moved_heap\<close> renames one address in all links).
  \<open>Talloc_Text\<close> adds the bytes of the blocks (\<open>contents\<close>) for the string functions, from
  \<open>talloc_strdup\<close> to \<open>talloc_asprintf_append\<close>, and formatted names. \<open>Talloc_Report\<close> models the walk of
  the reports and shows that it and \<open>talloc_total_size\<close> see each block of a subtree once.
  \<open>Talloc_Process\<close> holds what reaches beyond the heap: reports to a stream, functions registered
  with \<open>atexit\<close>, the autofree context, \<open>_talloc_move\<close> and \<open>_talloc_set\<close>. \<open>Talloc_External\<close> adds
  the second allocator a client may bring along and its lock (record \<open>external_heap\<close>), for allocation, stealing
  and \<open>talloc_parent\<close>; it shows that the locks do nothing in a process without external blocks, which the other
  theories are about.

  \<^bold>\<open>The tables\<close> (\<^verbatim>\<open>src/rbtree.c\<close>, \<^verbatim>\<open>src/rbtree.h\<close>). \<open>Rbtree\<close> models nodes and trees as
  records in the same heap and translates the rotations, the five insertion cases, insertion
  (plain and with a callback) and lookup; \<open>Rbtree_Delete\<close> deletion with its six cases and the
  destructors of nodes and trees; \<open>Rbtree_Arrays\<close> the tables of tables under array keys and the
  traversals. \<open>Rbt_Spec\<close> and \<open>Rbt_Delete_Spec\<close> hold the specification: red-black trees
  as values with their invariants and map semantics. \<open>Rbtree_Refine\<close>, \<open>Rbtree_Insert\<close>,
  \<open>Rbtree_Delete_Refine\<close>, \<open>Rbtree_Delete_Node\<close> and \<open>Rbtree_Remove\<close> show
  that the pointer code computes the operations of the specification (\<open>tree_at\<close> relates heap
  and value), including who owns a node afterwards; \<open>Rbtree_Session\<close> and \<open>Rbtree_History\<close> compose
  calls. \<open>Rbt_Table\<close> states what a client of a table relies on as the locale \<open>lookup_table\<close> and
  interprets it on the trees, \<open>Rbt_Dictionary\<close> extends it by removal; the dump reader uses the
  tables through it.

  \<^bold>\<open>The dump reader\<close> (\<^verbatim>\<open>src/phat.c\<close>). \<open>Reader\<close>: the byte readers on a file with a
  position, \<open>readVersion\<close>, \<open>hideSpecials\<close>. \<open>Dump\<close>: the records of the program (\<open>jdump\<close>,
  \<open>cinfo\<close>, \<open>finfo\<close>, \<open>hobject\<close>, arcs, roots), \<open>readValue\<close>, \<open>readClass\<close>, \<open>readArray\<close>.
  \<open>Resolve\<close>: the field layout of classes, decoding of instances, arcs between classes.
  \<open>Printer\<close>: the class lists and the recursive instance printer. \<open>Heap_Dump\<close>: the record
  loops \<open>readHeap\<close> and \<open>readDump\<close> with every record handler. \<open>Main_Program\<close>: the options, \<open>main\<close> and its
  exit status. What the program prints is a list of events (\<open>out\<close>), one constructor per format string.

  \<open>Class_Graph\<close>: \<open>mg_assemble\<close> and all it calls (the state \<open>graph\<close> holds the classes, the arcs and the
  global variables): depth-first numbering, cycles, flags and sizes along the arcs, sorting and
  printing. The program has the call commented out. \<open>Class_Graph_Arcs\<close> shows that the two sorts of
  arcs sort (locale \<open>arc_link\<close>, one interpretation for each link), \<open>Class_Graph_Order\<close> what the numbering
  and the sizes are on graphs without cycles, and which loops never end.

  What resolving does has a specification of its own. \<open>Class_Layout\<close>: the fields of an instance record
  with their offsets (\<open>class_fields\<close>), and that \<open>resolveClassNode\<close> shows a class just so.
  \<open>Arc_Counts\<close>: the lists of arcs and what \<open>arc_add\<close> adds to them. \<open>Instance_Values\<close>: the values,
  references and size of a record in the bytes of the file, and when a dump can be resolved (\<open>dump_ok n rank\<close>:
  records within the file, chains of fewer than \<open>n\<close> classes, \<open>rank\<close> falling along the references, and, where
  there is a reference to a known object, lists of arcs that \<open>arc_init\<close> has initialised, which the program only does
  in the call that is commented out). \<open>Heap_Runs\<close>, \<open>Heap_Fields\<close>, \<open>Heap_Objects\<close> and \<open>Heap_All\<close> follow a
  run of \<open>resolveInstances\<close> (\<open>advances\<close> composes its steps; a stack of \<open>rank p + n\<close> calls is enough for the object \<open>p\<close>),
  \<open>Heap_Resolved\<close> states the result. \<open>Heap_Types\<close> shows, for every state and file, that the values stay of
  the types of their fields. \<open>Heap_Sample\<close> is a small dump to which the theorems are applied.

  The lemmas: \<open>Reader_Codec\<close> shows which encodings the readers invert (locale \<open>codec\<close>);
  \<open>Progress\<close> that every record moves the file position and the loops end, and counts the
  rounds at the end of a truncated file; \<open>Jdump_Inv\<close> that every operation keeps the state
  well-formed (\<open>wf_jdump\<close>: the tables are red-black search trees whose pointers are live);
  \<open>Header\<close> what header is accepted and with which code a bad one exits.

  \<^bold>\<open>Conventions.\<close> A computation returns \<open>None\<close> when the C code has no defined result: a bad
  pointer is followed, an indeterminate value is read, a buffer is overrun, or \<open>abort\<close> is
  called. Machine integers keep their width; \<open>hsize\<close> is a 32-bit word and wraps. Addresses
  are natural numbers that are never handed out twice. Recursion that follows data in the
  heap (\<open>resolveClassNode\<close>, \<open>resolveInstance\<close>, \<open>printInstance\<close>, \<open>talloc_free\<close>, \<open>mg_dfn\<close>) takes a bound
  on its depth, the size of the C stack: when it is exceeded the result is \<open>None\<close>, so a
  theorem that a call returns says how much depth is enough. Loops that may run on are
  \<open>partial_function\<close> or \<open>while_option\<close>; that they end is proved. \<open>crc32\<close> of zlib is a
  parameter. In the reader the tables are used as values (\<open>lookup32\<close>, \<open>insert32\<close>), which
  \<open>trbt_insert32\<close> and \<open>trbt_lookup32\<close> implement by the refinement theorems; objects, classes
  and arcs live in stores of their own. The model is of a run with \<open>debug\<close> 0 on a
  little-endian machine with 64-bit pointers, and \<open>malloc\<close> succeeding in the reader.

  What \<open>vsnprintf\<close> writes, the choice of \<open>realloc\<close> to move a block, and the options \<open>getopt\<close> finds are
  arguments of the functions that use them.

  \<^bold>\<open>Not modelled.\<close> Freeing and resizing an external block of \<open>talloc_add_external\<close> (the program makes
  none): \<open>Talloc_Free\<close> and \<open>Talloc_Realloc\<close> are about blocks from \<open>malloc\<close>. The typed macros of \<^verbatim>\<open>talloc.h\<close>, which add
  a \<open>sizeof\<close> and a name to a call, and the compatibility headers (\<^verbatim>\<open>compiler.h\<close>, \<^verbatim>\<open>config.h\<close>,
  \<^verbatim>\<open>typesafe_cb.h\<close>), which only hold macros.
\<close>

section \<open>Tables: rbtree.c on talloc.c\<close>

text \<open>
  A session with a table: on any well-formed heap where \<open>malloc\<close> succeeds, \<open>trbt_create\<close>
  followed by any sequence of \<open>trbt_insert32\<close> calls returns, leaves a red-black search tree
  in the heap, and \<open>trbt_lookup32\<close> then returns for every key the data inserted last, or
  NULL if there was none.
\<close>

theorem table_session:
  assumes "forest s K" "context_of memctx s = NULL \<or> context_of memctx s \<in> dom (chunks s)"
    and "snd ` set kds \<subseteq> dom (chunks s)" "\<forall>p. malloc_ok s p"
  shows "\<exists>tr s' t K'. session memctx flags kds s = Some (tr, s') \<and> trbt_wf s' tr t K' \<and> rbt_inv t \<and>
    (\<forall>key. trbt_lookup32 tr key s' = Some (case map_of (rev kds) key of None \<Rightarrow> NULL | Some d \<Rightarrow> d))"
  using session_correct [OF assms, of flags] by blast

theorem table_session_witness:
  "\<exists>tr s' t K'. session NULL 0 [(7, 1), (9, 2), (7, 2)] two_blocks = Some (tr, s') \<and> trbt_wf s' tr t K' \<and>
    rbt_inv t \<and> (\<forall>key. trbt_lookup32 tr key s' =
      Some (case map_of (rev [(7, 1), (9, 2), (7, 2)]) key of None \<Rightarrow> NULL | Some d \<Rightarrow> d))"
  using forest_two_blocks by (rule table_session) (simp_all add: context_of_def)


definition one_tree :: trbt_heap where
  "one_tree = two_blocks\<lparr>trees := [1 \<mapsto> \<lparr>t_root = NULL, t_flags = 0\<rparr>]\<rparr>"

lemma wf_one_tree: "trbt_wf one_tree 1 Leaf (\<lambda>_. [])"
  using forest_two_blocks by (simp add: trbt_wf_def one_tree_def zip_at_def)


text \<open>
  C8. The tables are balanced: after a session with entries for \<open>n\<close> different keys, the tree
  has height at most about \<open>2 log n\<close>, so a lookup follows at most that many pointers.
\<close>

theorem table_balanced:
  assumes "forest s K" "context_of memctx s = NULL \<or> context_of memctx s \<in> dom (chunks s)"
    and "snd ` set kds \<subseteq> dom (chunks s)" "\<forall>p. malloc_ok s p"
  shows "\<exists>tr s' t. session memctx flags kds s = Some (tr, s') \<and> tree_at s' tr t \<and>
    2 ^ (rheight t div 2) \<le> card (fst ` set kds) + 1"
proof -
  obtain tr s' t K' where *: "session memctx flags kds s = Some (tr, s')" "trbt_wf s' tr t K'" "rbt_inv t"
      "dom (rbt_lookup t) = fst ` set kds"
    using session_correct [OF assms, of flags] by blast
  with rheight_log [of t] data_of_dom [of t] show ?thesis by (auto simp: trbt_wf_def)
qed

theorem table_balanced_witness:
  "\<exists>tr s' t. session NULL 0 [(7, 1), (9, 2)] two_blocks = Some (tr, s') \<and> tree_at s' tr t \<and>
    2 ^ (rheight t div 2) \<le> card (fst ` set [(7 :: u32, 1 :: ptr), (9, 2)]) + 1"
  using forest_two_blocks by (rule table_balanced) (simp_all add: context_of_def)

text \<open>
  C1. A whole history of a table: \<open>trbt_create\<close> without \<open>TRBT_AUTOFREE\<close> followed by any sequence
  of \<open>trbt_insert32\<close> and \<open>trbt_delete32\<close> calls on any keys, present or not, returns. The tree in the
  heap is then the red-black tree the specification builds by the same operations, every node
  is owned by its data, and \<open>trbt_lookup32\<close> answers as the map built by the same operations.
\<close>

theorem table_history:
  assumes "forest s K" "context_of memctx s = NULL \<or> context_of memctx s \<in> dom (chunks s)"
    and "\<Union> (op_data ` set ops) \<subseteq> dom (chunks s)" "\<forall>p. malloc_ok s p"
    and "flags AND TRBT_AUTOFREE = 0" "2 \<le> n"
  shows "\<exists>tr s' t K'. history n memctx flags ops s = Some (tr, s') \<and> trbt_live s' tr t K' \<and>
    map_rbt snd t = fold op_tree ops Leaf \<and>
    (\<forall>key. trbt_lookup32 tr key s' = Some (case fold op_map ops Map.empty key of None \<Rightarrow> NULL | Some d \<Rightarrow> d))"
  using assms by (rule history_correct)

theorem table_history_witness:
  "\<exists>tr s' t K'. history 2 NULL 0 [Insert 7 1, Insert 9 2, Delete 7, Delete 4] two_blocks = Some (tr, s') \<and>
    trbt_live s' tr t K' \<and> map_rbt snd t = fold op_tree [Insert 7 1, Insert 9 2, Delete 7, Delete 4] Leaf \<and>
    (\<forall>key. trbt_lookup32 tr key s' = Some (case fold op_map [Insert 7 1, Insert 9 2, Delete 7, Delete 4] Map.empty key of
       None \<Rightarrow> NULL | Some d \<Rightarrow> d))"
  using forest_two_blocks by (rule table_history) (simp_all add: context_of_def)



text \<open>
  C9. Array keys: in a table of tables with \<open>n + 1\<close> words to a key, inserting under the key \<open>ks\<close>
  hands the callback what was stored there (NULL if nothing) and stores what it returns. A lookup of
  \<open>ks\<close> then finds that, and a lookup of any other key of that length finds what it found before.
  Subtables are created as needed; nodes and trees outside the table are untouched.
\<close>

theorem table_arrays:
  assumes "array_at n s tr m F" "forest s K" "F \<subseteq> dom (chunks s)" "\<forall>p. malloc_ok s p"
    and "length ks = Suc n" "f (m ks) \<in> dom (chunks s)"
  shows "\<exists>s'. trbt_insertarray32_callback ks tr (\<lambda>old s. Some (f old, s)) s = Some s' \<and>
    array_inserted n s tr (m(ks := f (m ks))) F s' \<and>
    (\<forall>ks'. length ks' = Suc n \<longrightarrow> trbt_lookuparray32 ks' tr s' = Some (if ks' = ks then f (m ks) else m ks'))"
proof -
  obtain s' where s': "trbt_insertarray32_callback ks tr (\<lambda>old s. Some (f old, s)) s = Some s'"
      "array_inserted n s tr (m(ks := f (m ks))) F s'"
    using trbt_insertarray32_correct [where f = f, OF assms] by blast
  then obtain F' where "array_at n s' tr (m(ks := f (m ks))) F'" unfolding array_inserted_def by blast
  from trbt_lookuparray32_correct [OF this] s' show ?thesis by auto
qed

theorem table_arrays_witness:
  "\<exists>s'. trbt_insertarray32_callback [3, 5, 8] 1 (\<lambda>old s. Some (2, s)) one_tree = Some s' \<and>
    trbt_lookuparray32 [3, 5, 8] 1 s' = Some 2 \<and> trbt_lookuparray32 [3, 5, 9] 1 s' = Some NULL"
proof -
  have w: "tree_at one_tree 1 Leaf" "forest one_tree (\<lambda>_. [])" using wf_one_tree by (simp_all add: trbt_wf_def)
  obtain s' where s': "trbt_insertarray32_callback [3, 5, 8] 1 (\<lambda>old s. Some (2, s)) one_tree = Some s'"
      "\<forall>ks'. length ks' = Suc 2 \<longrightarrow> trbt_lookuparray32 ks' 1 s' = Some (if ks' = [3, 5, 8] then 2 else NULL)"
    using table_arrays [OF array_fresh [OF w(1), of 2] w(2), of "[3, 5, 8]" "\<lambda>_. 2"]
    by (auto simp: one_tree_def)
  then show ?thesis using spec [OF s'(2), of "[3, 5, 8]"] spec [OF s'(2), of "[3, 5, 9]"]
    by (simp del: trbt_lookuparray32.simps trbt_insertarray32_callback.simps)
qed

text \<open>
  C10. Array traversal: \<open>trbt_traversearray32\<close> with the right number of words calls the callback
  exactly once for every entry of a table of tables, in the order of the keys' words, and
  \<open>trbt_findfirstarray32\<close> returns the data of the first of them.
\<close>

theorem table_traversal:
  assumes "array_list n s tr es" "tr \<noteq> NULL" "n < 2 ^ 32 - 1" "\<forall>d p. f d p s = Some (g d p, s)"
  shows "trbt_traversearray32 tr (of_nat (Suc n)) f p s = Some (fold g (map snd es) p, s) \<and>
    (es \<noteq> [] \<longrightarrow> trbt_findfirstarray32 tr (of_nat (Suc n)) s = Some (snd (hd es)))"
  using trbt_traversearray32_correct [where visit = f and g = g, OF assms(1,2,4,3)]
    trbt_findfirstarray32_correct [OF assms(1,2) _ assms(3)] by blast

theorem table_traversal_witness:
  "\<exists>tr s. history 2 NULL 0 [Insert 9 1, Insert 7 2] two_blocks = Some (tr, s) \<and>
    trbt_traversearray32 tr 1 (\<lambda>d p s. Some (p @ [d], s)) [] s = Some ([2, 1], s) \<and>
    trbt_findfirstarray32 tr 1 s = Some 2"
proof -
  let ?ops = "[Insert 9 1, Insert 7 2] :: (u32, ptr) table_op list"
  obtain tr s t K where h: "history 2 NULL 0 ?ops two_blocks = Some (tr, s)" "trbt_live s tr t K"
      "map_rbt snd t = fold op_tree ?ops Leaf"
    using history_correct [OF forest_two_blocks, of NULL ?ops 0 2] by (auto simp: context_of_def)
  have T: "trbt_wf s tr t K" "rbt_inv t" using trbt_liveD [OF h(2)] by blast+
  then have tr: "tr \<noteq> NULL" by (auto simp: trbt_wf_def intro!: gr0I dest: forest_NULL)
  let ?es = "map (\<lambda>(k, a, d). ([k], d)) (entries t)"
  have "entries (map_rbt snd t) = [(7, 2), (9, 1)]" by (simp add: h(3) rbt_insert_def)
  then have es: "map (\<lambda>(k, a, d). (k, d)) (entries t) = [(7, 2), (9, 1)]"
    by (simp add: entries_map_rbt case_prod_unfold apsnd_def map_prod_def)
  then have "map snd ?es = [2, 1]" by auto
  moreover have "array_list 0 s tr ?es" using T by (auto simp: trbt_wf_def)
  ultimately show ?thesis
    using table_traversal [of 0 s tr ?es "\<lambda>d p s. Some (p @ [d], s)" "\<lambda>d p. p @ [d]" "[]"] tr h(1)
    by (auto simp: hd_map)
qed

text \<open>
  C36. Insertion with a callback is the callback and a plain insertion: when the callback, called with the data
  stored for the key (NULL if none), leaves this table and the allocator well-formed,
  \<open>trbt_insert32_callback\<close> does what \<open>trbt_insert32\<close> does with the data the callback returns.
\<close>

theorem table_callback:
  assumes "tree_at s tr t" "cb (data_of t key) s = Some (d, s1)"
    and "trbt_wf s1 tr t K" "d \<in> dom (chunks s1)" "malloc_ok s1 (brk s1)"
  shows "trbt_insert32_callback tr key cb s = map_option snd (trbt_insert32 tr key d s1)"
  using insert32_callback_eq [where cb = cb and key = key, OF assms] .

theorem table_callback_witness:
  "trbt_insert32_callback 1 5 (\<lambda>old s. Some (2, s)) one_tree = map_option snd (trbt_insert32 1 5 2 one_tree)"
proof -
  have "tree_at one_tree 1 Leaf" using wf_one_tree by (simp add: trbt_wf_def)
  then show ?thesis
    by (rule table_callback [where cb = "\<lambda>old s. Some (2, s)" and key = 5, OF _ _ wf_one_tree]) (simp_all add: one_tree_def)
qed

section \<open>The allocator: talloc.c\<close>

text \<open>
  C16. Allocation: in a well-formed heap \<open>talloc_named_const\<close> of less than \<open>MAX_TALLOC_SIZE\<close>
  bytes returns the fresh address \<open>malloc\<close> gives, with the name, size and magic asked for
  and no destructor or references; the block becomes a child of the context (of the null
  context for NULL), every other block keeps its data, and the heap stays well-formed.
\<close>

theorem talloc_allocates:
  assumes "forest s K" "context_of ctx s = NULL \<or> context_of ctx s \<in> dom (chunks s)"
    and "sz < MAX_TALLOC_SIZE" "malloc_ok s (brk s)"
  shows "\<exists>s'. talloc_named_const ctx sz name s = Some (brk s, s') \<and>
    forest s' (alloc_under (context_of ctx s) (brk s) K) \<and>
    allocates (brk s) (NULL, D_null, name, sz, TALLOC_MAGIC) s s'"
  using assms by (rule talloc_named_const_forest)

theorem talloc_allocates_witness:
  "\<exists>s'. talloc_named_const 1 100 (Name ''x'') two_blocks = Some (brk two_blocks, s') \<and>
    forest s' (alloc_under (context_of 1 two_blocks) (brk two_blocks) (\<lambda>_. [])) \<and>
    allocates (brk two_blocks) (NULL, D_null, Name ''x'', 100, TALLOC_MAGIC) two_blocks s'"
  using forest_two_blocks by (rule talloc_allocates) (simp_all add: context_of_def MAX_TALLOC_SIZE_def)

text \<open>
  C18. Failure: a request of \<open>MAX_TALLOC_SIZE\<close> bytes or more, or one \<open>malloc\<close> refuses, makes
  \<open>__talloc\<close> return NULL and leaves every block and every list as it was.
\<close>

theorem talloc_fails_cleanly:
  assumes "forest s K" "context_of ctx s = NULL \<or> context_of ctx s \<in> dom (chunks s)"
    and "MAX_TALLOC_SIZE \<le> sz \<or> \<not> malloc_ok s (brk s)"
  shows "\<exists>s'. talloc_internal ctx sz s = Some (NULL, s') \<and> forest s' K \<and> chunks s' = chunks s"
  using talloc_internal_fails [OF assms] by blast

theorem talloc_fails_cleanly_witness:
  "\<exists>s'. talloc_internal 1 MAX_TALLOC_SIZE two_blocks = Some (NULL, s') \<and> forest s' (\<lambda>_. []) \<and>
    chunks s' = chunks two_blocks"
  using forest_two_blocks by (rule talloc_fails_cleanly) (simp_all add: context_of_def)

text \<open>
  C17. Stealing: \<open>talloc_steal\<close> moves a block, with everything below it, to the front of the
  children of the new context (or makes it parentless when there is none). It always
  returns the block, keeps the sibling lists of both parents well-formed, and changes no
  block's name, size, destructor or references.
\<close>

theorem talloc_steal_moves:
  assumes "forest s K" "x \<in> dom (chunks s)" "context_of new s = NULL \<or> context_of new s \<in> dom (chunks s)"
  shows "\<exists>s'. talloc_steal new x s = Some (x, s') \<and> forest s' (move_to (context_of new s) x K) \<and> same_blocks s s'"
  using assms by (rule talloc_steal_forest)

theorem talloc_steal_moves_witness:
  "\<exists>s'. talloc_steal 1 2 two_blocks = Some (2, s') \<and>
    forest s' (move_to (context_of 1 two_blocks) 2 (\<lambda>_. [])) \<and> same_blocks two_blocks s'"
  using forest_two_blocks by (rule talloc_steal_moves) (simp_all add: context_of_def)

text \<open>
  C19. The parent: although only the first child of a block points to its parent,
  \<open>talloc_parent\<close> finds it from every child, by following the sibling list; a block that is
  nobody's child has no parent.
\<close>

theorem talloc_parent_found:
  assumes "forest s K" "x \<in> dom (chunks s)"
  shows "\<exists>q. talloc_parent x s = Some q \<and> (if q = NULL then \<forall>p. x \<notin> set (K p) else x \<in> set (K q))"
proof (cases "\<exists>q. x \<in> set (K q)")
  case True
  then obtain q where q: "x \<in> set (K q)" by blast
  then have "q \<noteq> NULL" using forest_parent_dom [OF assms(1) q] forest_NULL [OF assms(1)] by (auto intro!: gr0I)
  with q parent_chunk_of_kid [OF assms(1) q] show ?thesis by (auto simp: talloc_parent_def)
next
  case False
  with parent_chunk_of_root [OF assms] show ?thesis by (auto simp: talloc_parent_def)
qed

theorem talloc_parent_found_witness:
  "\<exists>q. talloc_parent 2 two_blocks = Some q \<and> (if q = NULL then \<forall>p :: ptr. (2 :: ptr) \<notin> set [] else (2 :: ptr) \<in> set [])"
  using talloc_parent_found [OF forest_two_blocks, of 2] by simp

text \<open>
  C4. Freeing: \<open>talloc_free\<close> of a block whose subtree has no references, no destructors and no
  block in the middle of being freed returns 0. It releases exactly the blocks of that subtree, the blocks
  that are left keep their data and stay a forest with the subtree cut off, and nothing else of
  the heap changes. A stack of two frames per block is enough.
\<close>

theorem talloc_free_subtree:
  assumes "freeable {} s K (members T)" "holds K T" "2 * length (members T) \<le> n"
  shows "\<exists>s'. talloc_free D n (top T) s = Some (0, s') \<and> forest s' (prune (set (members T)) K) \<and>
    dom (chunks s') = dom (chunks s) - set (members T) \<and> freed (set (members T)) s s'"
proof -
  obtain s' where s': "talloc_free D n (top T) s = Some (0, s')" "forest s' (prune (set (members T)) K)"
      "freed (set (members T)) s s'"
    using talloc_free_tree [OF assms] by blast
  with freed_dom [OF s'(3)] show ?thesis by blast
qed

theorem talloc_free_subtree_witness:
  "\<exists>s s'. talloc_steal 1 2 two_blocks = Some (2, s) \<and> talloc_free (\<lambda>_ _ _ _. None) 4 1 s = Some (0, s') \<and>
    chunks s' = Map.empty"
proof -
  let ?T = "Blocks 1 [Blocks 2 []]"
  obtain s where s: "talloc_steal 1 2 two_blocks = Some (2, s)" "forest s (move_to 1 2 (\<lambda>_. []))" "same_blocks two_blocks s"
    using talloc_steal_forest [OF forest_two_blocks, of 2 1] by (auto simp: context_of_def)
  have b: "map_option block_data (chunks s p) = map_option block_data (chunks two_blocks p)" for p
    using s(3) by (simp add: same_blocks_def fun_eq_iff)
  have p: "plain s p" if "p \<in> {1, 2}" for p
  proof -
    have "chunks two_blocks p = Some loose_chunk" using that by (auto simp: two_blocks_def)
    with b [of p] obtain c where "chunks s p = Some c" "block_data c = block_data loose_chunk"
      by (cases "chunks s p") auto
    then show ?thesis by (simp add: plain_def block_data_def loose_chunk_def TALLOC_MAGIC_def TALLOC_FLAG_LOOP_def)
  qed
  have "null_context s = NULL" using s(3) by (simp add: same_blocks_def)
  with p have "freeable {} s (move_to 1 2 (\<lambda>_. [])) (members ?T)" using s(2) by (simp add: freeable_def)
  moreover have "holds (move_to 1 2 (\<lambda>_. [])) ?T" by (simp add: move_to_def detach_def attach_def)
  moreover have "dom (chunks s) = {1, 2}" using same_blocks_dom [OF s(3)] by simp
  ultimately show ?thesis
    using talloc_free_subtree [of s _ ?T 4 "\<lambda>_ _ _ _. None"] s(1) by (fastforce simp: dom_eq_empty_conv)
qed

text \<open>
  C29. Changing the size: \<open>_talloc_realloc\<close> of a block without references keeps the block or moves it to a
  fresh address, as the C library decides. In both cases the block takes its place in the forest along (every
  link that led to it leads to the new address), gets the new size and name, and no other block
  changes.
\<close>

theorem talloc_realloc_moves:
  assumes "forest s K" "chunks s p = Some c" "tc_refs c = NULL" "null_context s \<noteq> p"
    and "sz \<noteq> 0" "sz < MAX_TALLOC_SIZE" "malloc_ok s (brk s)" "q = (if stay then p else brk s)"
  shows "\<exists>s'. talloc_realloc D n stay context p sz name s = Some (q, s') \<and> forest s' (moved_forest p q K) \<and>
    s' = (moved_block p q s)\<lparr>chunks := (moved_heap p q (chunks s))(q \<mapsto> c\<lparr>tc_size := sz, tc_name := name\<rparr>)\<rparr>"
  using assms by (rule talloc_realloc_correct)

theorem talloc_realloc_moves_witness:
  "\<exists>s'. talloc_realloc (\<lambda>_ _ _ _. None) 0 False NULL 2 100 NoName two_blocks = Some (3, s') \<and> dom (chunks s') = {1, 3}"
proof -
  have c: "chunks two_blocks 2 = Some loose_chunk" by (simp add: two_blocks_def)
  have r: "tc_refs loose_chunk = NULL" "null_context two_blocks \<noteq> 2" "(100 :: u64) \<noteq> 0" "(100 :: u64) < MAX_TALLOC_SIZE"
      "malloc_ok two_blocks (brk two_blocks)" "3 = (if False then 2 else brk two_blocks)"
    by (simp_all add: loose_chunk_def MAX_TALLOC_SIZE_def)
  obtain s' where "talloc_realloc (\<lambda>_ _ _ _. None) 0 False NULL 2 100 NoName two_blocks = Some (3, s')"
      "s' = (moved_block 2 3 two_blocks)\<lparr>chunks := (moved_heap 2 3 (chunks two_blocks))(3 \<mapsto> loose_chunk\<lparr>tc_size := 100, tc_name := NoName\<rparr>)\<rparr>"
    using talloc_realloc_moves [OF forest_two_blocks c r, of "\<lambda>_ _ _ _. None" 0 NULL NoName] by blast
  moreover have "moved_heap 2 3 (chunks two_blocks) p \<noteq> None \<longleftrightarrow> p = 1 \<or> p = 3" for p
    by (simp add: moved_heap_def two_blocks_def)
  ultimately show ?thesis by (auto simp: dom_def)
qed

text \<open>
  C34. Arrays: when \<open>_talloc_array\<close> or \<open>_talloc_realloc_array\<close> gets past its guard, the 64-bit product of the element size
  and the number of elements is their product as numbers and below \<open>MAX_TALLOC_SIZE\<close>; otherwise NULL is
  returned and nothing changes.
\<close>

theorem array_sizes_exact:
  assumes "el_size \<noteq> 0"
  shows "if array_too_big el_size cnt
    then talloc_array ctx el_size cnt name s = Some (NULL, s) \<and>
      talloc_realloc_array D n stay ctx p el_size cnt name s = Some (NULL, s)
    else \<exists>sz. unat sz = unat el_size * unat cnt \<and> sz < MAX_TALLOC_SIZE \<and>
      talloc_array ctx el_size cnt name s = talloc_named_const ctx sz name s \<and>
      talloc_realloc_array D n stay ctx p el_size cnt name s = talloc_realloc D n stay ctx p sz name s"
  using assms array_size_exact [OF assms, of cnt] by (auto simp: talloc_array_def talloc_realloc_array_def)

theorem array_sizes_exact_witness:
  "\<exists>sz. unat sz = 800 \<and> talloc_array 1 8 100 NoName two_blocks = talloc_named_const 1 sz NoName two_blocks"
proof -
  have "\<not> array_too_big 8 100" by (simp add: array_too_big_def MAX_TALLOC_SIZE_def)
  with array_sizes_exact [of 8 100 1 NoName two_blocks "\<lambda>_ _ _ _. None" 0 True 0] show ?thesis by auto
qed

text \<open>
  C31. Strings: the block \<open>talloc_strdup\<close> returns holds the string; \<open>talloc_append_string\<close> then returns a block that
  holds both strings one after the other, wherever \<open>realloc\<close> puts it, and the text is also its name. The bytes of
  all other blocks are the same before and after.
\<close>

theorem strings_grow:
  assumes "forest s K" "context_of t s = NULL \<or> context_of t s \<in> dom (chunks s)"
    and "int (length a + length b) + 1 < 0x7FFFFFFF" "0 \<notin> set a" "0 \<notin> set b" "\<forall>p. malloc_ok s p"
  shows "\<exists>s1 q s2. talloc_strdup t (Some a) s = Some (brk s, s1) \<and> talloc_append_string D n stay (brk s) (Some b) s1 = Some (q, s2) \<and>
    string_at q s2 = Some (a @ b) \<and> talloc_get_name (text_at s2) q s2 = Some (map (\<lambda>b. char_of (unat b)) (a @ b)) \<and>
    texts_kept {} s s2"
  using assms by (rule strdup_append_correct)

text \<open>A heap with one block of 8 bytes that holds the string \<^verbatim>\<open>hi\<close>.\<close>

definition hi_heap :: text_heap where
  "hi_heap = \<lparr>chunks = [1 \<mapsto> loose_chunk], handles = Map.empty, null_context = NULL, malloc_ok = \<lambda>_. True, brk = 2,
     contents = [1 \<mapsto> terminated [104, 105] @ replicate 5 None]\<rparr>"

lemma forest_hi: "forest hi_heap (\<lambda>_. [])"
  by (auto simp: forest_but_def hi_heap_def loose_chunk_def links_def split: if_splits)

theorem strings_grow_witness:
  "\<exists>s1 q s2. talloc_strdup 1 (Some [97]) hi_heap = Some (2, s1) \<and>
    talloc_append_string (\<lambda>_ _ _ _. None) 0 False 2 (Some [98]) s1 = Some (q, s2) \<and> string_at q s2 = Some [97, 98]"
  using strings_grow [OF forest_hi, of 1 "[97]" "[98]" "\<lambda>_ _ _ _. None" 0 False] by (auto simp: context_of_def hi_heap_def)

text \<open>
  C35. \<open>talloc_asprintf_append\<close> appends at the end of the block, not at the end of the string: the new text is
  appended exactly when the block is as long as its string with the NUL; in a larger block it lands behind the NUL and
  the string stays what it was.
\<close>

theorem asprintf_append_place:
  assumes "forest s K" "chunks s p = Some c" "tc_refs c = NULL" "null_context s \<noteq> p" "sized p s"
    and "string_at p s = Some old" "0 \<notin> set str" "str \<noteq> []"
    and "unat (tc_size c) + length str < 0x7FFFFFFF" "malloc_ok s (brk s)" "q = (if stay then p else brk s)"
  shows "\<exists>s'. talloc_asprintf_append D n stay p (Some str) s = Some (q, s') \<and> forest s' (moved_forest p q K) \<and>
    string_at q s' = Some (if unat (tc_size c) = length old + 1 then old @ str else old) \<and>
    map_option tc_name (chunks s' q) = Some (NameAt q) \<and> texts_kept {p} s s'"
  using assms by (rule talloc_asprintf_append_correct)

theorem asprintf_append_place_witness:
  "\<exists>s'. talloc_asprintf_append (\<lambda>_ _ _ _. None) 0 True 1 (Some [33]) hi_heap = Some (1, s') \<and> string_at 1 s' = Some [104, 105]"
proof -
  have c: "chunks hi_heap 1 = Some loose_chunk" by (simp add: hi_heap_def)
  have s: "sized 1 hi_heap" by (simp add: sized_def hi_heap_def loose_chunk_def)
  have o: "string_at 1 hi_heap = Some [104, 105]" by (simp add: string_at_def block_bytes_def hi_heap_def terminated_def)
  show ?thesis
    using asprintf_append_place [OF forest_hi c _ _ s o, of "[33]" 1 True "\<lambda>_ _ _ _. None" 0]
    by (auto simp: hi_heap_def loose_chunk_def)
qed

text \<open>
  C30. A report: for a callback that only touches its private data, \<open>talloc_report_depth_cb\<close> calls it once for every
  block of the tree, a block before the blocks below it and siblings in the order of their list, with its depth; at the
  place of a reference handle it names the block referred to; below \<open>max_depth\<close> it reports nothing. The heap is as before.
\<close>

theorem report_lists_tree:
  assumes "only_tells callback f" "forest s K" "holds K T" "unmarked s T" "2 * length (members T) \<le> n"
    and "\<forall>p \<in> set (members T). is_handle s p \<longrightarrow> handles s p \<noteq> None"
  shows "talloc_report_depth_cb n (top T) d m callback s = Some (told f (listing s m d T) s)"
proof -
  have "top T \<in> dom (chunks s)" using assms(4) top_member [of T] by (auto simp: unmarked_def)
  then have "top T \<noteq> NULL" using forest_NULL [OF assms(2)] by (auto intro!: gr0I)
  with report_tree [OF assms, of d m "[]"] show ?thesis by (simp add: talloc_report_depth_cb_def)
qed

text \<open>
  C32. Totals: \<open>talloc_total_size\<close> is the sum of the sizes of the blocks of the tree and \<open>talloc_total_blocks\<close> their
  number, and both leave the heap as it was.
\<close>

theorem totals_correct:
  assumes "forest s K" "holds K T" "unmarked s T" "2 * length (members T) \<le> n"
  shows "talloc_total_size n (top T) s = Some (sum_list (map (\<lambda>p. tc_size (the (chunks s p))) (members T)), s) \<and>
    talloc_total_blocks n (top T) s = Some (of_nat (length (members T)), s)"
proof -
  have "top T \<in> dom (chunks s)" using assms(3) top_member [of T] by (auto simp: unmarked_def)
  then have "top T \<noteq> NULL" using forest_NULL [OF assms(1)] by (auto intro!: gr0I)
  then show ?thesis
    using talloc_total_tree [OF assms, of tc_size] talloc_total_tree [OF assms, of "\<lambda>_. 1"]
    by (simp add: talloc_total_size_def talloc_total_blocks_def Let_def sum_list_triv)
qed

text \<open>Block 1 with block 2 below it.\<close>

definition nested_blocks :: "nat talloc_heap_scheme" where
  "nested_blocks = \<lparr>chunks = [1 \<mapsto> loose_chunk\<lparr>tc_child := 2\<rparr>, 2 \<mapsto> loose_chunk\<lparr>tc_parent := 1\<rparr>], handles = Map.empty,
     null_context = NULL, malloc_ok = \<lambda>_. True, brk = 3, \<dots> = 0\<rparr>"

lemma nested_blocks_tree:
  "forest nested_blocks ((\<lambda>_. [])(1 := [2]))" "holds ((\<lambda>_. [])(1 := [2])) (Blocks 1 [Blocks 2 []])"
  "unmarked nested_blocks (Blocks 1 [Blocks 2 []])" "\<not> is_handle nested_blocks p"
  by (auto simp: forest_but_def nested_blocks_def loose_chunk_def links_def unmarked_def is_handle_def TALLOC_MAGIC_def
      TALLOC_FLAG_LOOP_def magic_ok_def TALLOC_FLAG_FREE_def split: if_splits)

theorem report_lists_tree_witness:
  "talloc_report_depth_cb 4 1 0 (-1) (\<lambda>p d m r s. Some (talloc_heap.more_update (\<lambda>x. 100 * x + 10 * p + nat d) s)) nested_blocks =
    Some (nested_blocks\<lparr>talloc_heap.more := 1021\<rparr>)"
proof -
  let ?cb = "\<lambda>p d m r s. Some (talloc_heap.more_update (\<lambda>x. 100 * x + 10 * p + nat d) s)"
  have cb: "only_tells ?cb (\<lambda>p d r x. 100 * x + 10 * p + nat d)" by (simp add: only_tells_def)
  show ?thesis
    using report_lists_tree [OF cb nested_blocks_tree(1-3), of 4 0 "-1"] nested_blocks_tree(4)
    by (simp add: told_def nested_blocks_def)
qed

theorem totals_correct_witness: "talloc_total_size 4 1 nested_blocks = Some (16, nested_blocks)"
  using totals_correct [OF nested_blocks_tree(1-3), of 4] by (simp add: nested_blocks_def loose_chunk_def)




text \<open>
  C28. External blocks: \<open>talloc_add_external\<close> makes a block with the client's allocator, as the first
  child of the context it is given. It does not take the null context for NULL, as every other allocation does. A block
  that \<open>talloc_named_const\<close> then makes below it comes from the same allocator and has the flag too, and the
  call takes the lock of the external block once and gives it back.
\<close>

theorem external_blocks:
  assumes "forest s K" "ctx = NULL \<or> ctx \<in> dom (chunks s)"
    and "tc_external_realloc s = 0 \<or> tc_external_realloc s = f" "f \<noteq> 0" "l \<noteq> 0" "u \<noteq> 0" "\<not> locked s"
    and "ext_ok s (brk s)" "ext_ok s (Suc (brk s))" "sz < MAX_TALLOC_SIZE"
  shows "\<exists>p s1 q s2. talloc_add_external ctx f l u s = Some (p, s1) \<and> forest s1 (alloc_under ctx p K) \<and>
    talloc_named_const_locked p sz name s1 = Some (q, s2) \<and> forest s2 (alloc_under p q (alloc_under ctx p K)) \<and>
    is_external p s2 \<and> is_external q s2 \<and> \<not> locked s2 \<and> lock_calls s2 = lock_calls s @ [Some p, None]"
  using assms by (rule external_children)

definition external_start :: external_heap where
  "external_start = talloc_heap.extend (talloc_heap.truncate two_blocks)
     \<lparr>tc_external_realloc = 0, ext_ok = \<lambda>_. True, tc_lock = 0, tc_unlock = 0, locked = False, lock_calls = []\<rparr>"

theorem external_blocks_witness:
  "\<exists>p s1 q s2. talloc_add_external 1 7 8 9 external_start = Some (p, s1) \<and>
    talloc_named_const_locked p 100 (Name ''x'') s1 = Some (q, s2) \<and> is_external q s2 \<and> lock_calls s2 = [Some p, None]"
proof -
  have f: "forest external_start (\<lambda>_. [])"
    using forest_two_blocks by (simp add: forest_but_def external_start_def talloc_heap.defs)
  have "1 \<in> dom (chunks external_start)" by (simp add: external_start_def talloc_heap.defs)
  then show ?thesis
    using external_blocks [OF f, of 1 7 8 9 100 "Name ''x''"]
    by (fastforce simp: external_start_def talloc_heap.defs MAX_TALLOC_SIZE_def)
qed

section \<open>Reading bytes: phat.c\<close>

text \<open>
  \<open>readUint\<close> reads four bytes as a big-endian number. With fewer than four bytes left
  it fails (-1), stores nothing and consumes what is left.
\<close>

theorem readUint_big_endian:
  "readUint f = (if 4 \<le> length (rest f)
     then (Some (be_word (take 4 (rest f))), f\<lparr>fpos := fpos f + 4\<rparr>)
     else (None, f\<lparr>fpos := fpos f + length (rest f)\<rparr>))"
  by (rule u32r.get_eq)

text \<open>
  C20. Identifiers round trip: a sequence of identifiers below 2^32, written big-endian with
  the identifier size of the dump (4 or 8), is read back exactly by successive \<open>readIdent\<close>
  calls.
\<close>

theorem idents_roundtrip:
  assumes "sz = 4 \<or> sz = 8" "list_all (\<lambda>v. v < 2 ^ 32) vs"
    and "rest f = concat (map (\<lambda>v. put_be (unat sz) (uint v)) vs) @ bs"
  shows "get_many (readIdent sz) (length vs) f = (map Some vs, f\<lparr>fpos := fpos f + unat sz * length vs\<rparr>)"
  using codec.get_many_encode [OF ident_codec [OF assms(1)] assms(3,2)] .

definition two_idents :: infile where
  "two_idents = \<lparr>content = concat (map (\<lambda>v. put_be 4 (uint v)) [258 :: u64, 7]) @ [9], fpos = 0\<rparr>"

theorem idents_roundtrip_witness:
  "get_many (readIdent 4) (length [258 :: u64, 7]) two_idents =
    (map Some [258, 7], two_idents\<lparr>fpos := fpos two_idents + unat (4 :: u32) * length [258 :: u64, 7]\<rparr>)"
  by (rule idents_roundtrip [where bs = "[9]"]) (simp_all add: rest_def two_idents_def)

text \<open>
  C21. \<open>readUlong\<close> is right exactly when the first four bytes are 0: the operator precedence
  of its second statement shifts the first half by 40 bits instead of 32. So 8-byte
  identifiers of 2^32 and more are misread.
\<close>

theorem readUlong_right_only_if_small:
  assumes "8 \<le> length (rest f)"
  shows "fst (readUlong f) = Some (be_word (take 8 (rest f))) \<longleftrightarrow> take 4 (rest f) = replicate 4 0"
  using assms by (rule readUlong_exact)

theorem readUlong_right_only_if_small_witness:
  "fst (readUlong \<lparr>content = [0, 0, 0, 1, 0, 0, 0, 2], fpos = 0\<rparr>) =
     Some (be_word (take 8 (rest \<lparr>content = [0, 0, 0, 1, 0, 0, 0, 2], fpos = 0\<rparr>))) \<longleftrightarrow>
   take 4 (rest \<lparr>content = [0, 0, 0, 1, 0, 0, 0, 2], fpos = 0\<rparr>) = replicate 4 0"
  by (rule readUlong_right_only_if_small) (simp add: rest_def)

text \<open>
  C22. \<open>readVersion\<close> on a NUL-terminated string of fewer than 39 bytes accepts exactly the
  three version strings of the format and consumes the string with its NUL.
\<close>

theorem readVersion_accepts:
  assumes "rest f = v @ 0 # bs" "0 \<notin> set v" "length v < 39"
  shows "readVersion f = Some (version_code v, f\<lparr>fpos := fpos f + length v + 1\<rparr>)"
  using assms by (rule readVersion_terminated)

theorem readVersion_accepts_witness:
  "readVersion \<lparr>content = [1, 2, 0, 5], fpos = 0\<rparr> =
    Some (version_code [1, 2], \<lparr>content = [1, 2, 0, 5], fpos = 0\<rparr>\<lparr>fpos := 0 + length [1 :: byte, 2] + 1\<rparr>)"
  using readVersion_accepts [of "\<lparr>content = [1, 2, 0, 5], fpos = 0\<rparr>" "[1, 2]" "[5]"] by (simp add: rest_def)

text \<open>
  C23. Without a NUL in the first 39 bytes \<open>readVersion\<close> stores past the end of its buffer
  of 40 bytes, which has no defined result.
\<close>

theorem readVersion_overruns:
  assumes "39 \<le> length (takeWhile (\<lambda>b. b \<noteq> 0) (rest f))"
  shows "readVersion f = None"
  using assms by (rule readVersion_overflow)

theorem readVersion_overruns_witness: "readVersion \<lparr>content = replicate 50 65, fpos = 0\<rparr> = None"
  by (rule readVersion_overruns) (simp add: rest_def takeWhile_replicate)

text \<open>
  C24. \<open>hideSpecials\<close> replaces every byte of a string that is not printable ASCII (0x20 to
  0x7f) by a dot and keeps the others; the buffer keeps its length, and applying it twice
  changes nothing more.
\<close>

theorem hideSpecials_cleans:
  "c_string (hideSpecials s) = map (\<lambda>b. if printable b then b else of_char (CHR ''.'')) (c_string s) \<and>
   length (hideSpecials s) = length s \<and> hideSpecials (hideSpecials s) = hideSpecials s"
proof -
  have "hideSpecials (hideSpecials s) = hideSpecials s"
  proof (induction s)
    case (Cons c s)
    show ?case
    proof (cases "c = 0")
      case False
      have "hideSpecials (c # s) = clean c # hideSpecials s"
        using False by (simp only: hideSpecials.simps hideSpecials_step) simp
      moreover have "hideSpecials (clean c # t) = clean c # hideSpecials t" for t
        using clean_nonzero [of c] clean_id [OF printable_clean [of c]]
        by (simp only: hideSpecials.simps hideSpecials_step) simp
      ultimately show ?thesis using Cons by simp
    qed simp
  qed simp
  then show ?thesis by (simp add: c_string_hideSpecials clean_def [abs_def])
qed

section \<open>Reading a dump: phat.c\<close>




text \<open>
  C13. The record loop of \<open>readHeap\<close> ends on every input: whatever the bytes, the length and
  the state, with identifiers of 4 or 8 bytes it leaves the loop (or hits an operation
  without defined result) after finitely many rounds.
\<close>

theorem readHeap_loop_ends:
  assumes "identsz jf = 4 \<or> identsz jf = 8"
  shows "\<exists>r. heap_loop crc (cs, hs, jf) = Some r"
  using assms by (rule heap_loop_ends)

definition small_jdump :: "byte list \<Rightarrow> jdump" where
  "small_jdump bs = new_jdump \<lparr>content = bs, fpos = 0\<rparr> 1 4 None 0"

theorem readHeap_loop_ends_witness:
  "\<exists>r. heap_loop (\<lambda>_ _. 0) (replicate 12 0, 77, small_jdump [1, 2, 3]) = Some r"
  by (rule readHeap_loop_ends) (simp add: small_jdump_def new_jdump_def)

text \<open>
  C15. A heap dump cut short: because end of file is stored in an \<open>unsigned char\<close>, the loop
  goes on at the end of the file and prints "heap root unknown" until \<open>hsize\<close>, counted down
  by \<open>1 + identsz\<close> modulo 2^32, is exactly 0: \<open>eof_rounds\<close> times. For one missing byte and
  4-byte identifiers that is 3435973837 lines.
\<close>

theorem readHeap_truncated:
  assumes "length (content (fin jf)) \<le> fpos (fin jf)" "identsz jf = 4 \<or> identsz jf = 8"
  shows "heap_loop crc (cs, hs, jf) =
    Some (Some (cs, 0, jf\<lparr>out := out jf @ replicate (eof_rounds (identsz jf) hs) Root_unknown\<rparr>)) \<and>
    eof_rounds 4 1 = 3435973837"
  using heap_loop_at_eof [OF assms] by (simp add: eof_rounds_def eof_inv_def)

theorem readHeap_truncated_witness:
  "heap_loop (\<lambda>_ _. 0) ([], 5, small_jdump []) =
    Some (Some ([], 0, (small_jdump [])\<lparr>out := out (small_jdump []) @
      replicate (eof_rounds (identsz (small_jdump [])) 5) Root_unknown\<rparr>)) \<and> eof_rounds 4 1 = 3435973837"
  by (rule readHeap_truncated) (simp_all add: small_jdump_def new_jdump_def)

text \<open>
  C14. Without \<open>-C\<close> and \<open>-a\<close> the record loop of \<open>readDump\<close> ends on every file, because every
  record moves the position forward.
\<close>

theorem readDump_loop_ends:
  assumes "readHeader None pl file = Some (Going jf)"
  shows "\<exists>r. dump_loop crc d jf = Some r"
  using readHeader_Going(3) [OF assms] by (rule dump_loop_ends)

theorem readDump_loop_ends_witness:
  "\<exists>r. dump_loop (\<lambda>_ _. 0) 9 (emit (Dump_created (5000 div 1000))
      (new_jdump \<lparr>content = header_bytes (bytes_of '' PROFILE 1.0'') 4 5000 @ [12, 0], fpos = length (bytes_of '' PROFILE 1.0'') + 17\<rparr>
        (version_code (bytes_of '' PROFILE 1.0'')) 4 None 0)) = Some r"
  by (rule readDump_loop_ends [where pl = 0], rule readHeader_ok)
     (simp_all add: version_code_def bytes_of_def)







section \<open>Resolving the heap: phat.c\<close>









section \<open>The class graph: phat.c\<close>

text \<open>
  C37. Depth-first numbering: on a graph of classes without cycles (some \<open>rank\<close> falls along every arc),
  \<open>mg_dfn\<close> returns when the C stack has room for \<open>rank\<close> calls and \<open>dfn_stack\<close> is not full. The class
  it is called on is numbered then, every numbered class has a larger number than the classes its
  arcs lead to, the numbers that were there are kept, and nothing else of a class or arc is written.
\<close>

theorem graph_numbering:
  assumes "ranked rank s" "numbered s" "ho \<in> dom (gclasses s)" "rank ho < d"
    and "\<forall>p. order_of s p = -1 \<longrightarrow> rank ho < rank p" "stack_room (Suc (rank ho)) s"
  shows "\<exists>s'. mg_dfn d ho s = Some s' \<and> dfs_step s s' \<and> numbered s' \<and> 0 < order_of s' ho"
  using assms by (rule mg_dfn_correct)

text \<open>A graph of two classes, 5 and 6, with the arc 3 between them.\<close>

definition a_class :: "ptr \<Rightarrow> ptr \<Rightarrow> ptr \<Rightarrow> int \<Rightarrow> gcinfo" where
  "a_class p par ch n = cinfo.extend ((new_cinfo 0 0 None)\<lparr>parents := Some par, children := Some ch, cisize := Some 8\<rparr>)
     \<lparr>cindex = 0, child_size = 0, cyc_num = 0, cyc_head = p, cyc_next = NULL, top_order = n, print_flag = 0\<rparr>"

definition two_classes :: "int \<Rightarrow> graph" where
  "two_classes n = (new_graph (new_jdump \<lparr>content = [], fpos = 0\<rparr> 2 4 None 0))\<lparr>dfn_counter := n,
     gclasses := [5 \<mapsto> a_class 5 NULL 3 n, 6 \<mapsto> a_class 6 3 NULL (if n = 0 then 0 else n - 1)],
     garcs := [3 \<mapsto> \<lparr>aparent = 5, achild = 6, next_parent = NULL, next_child = NULL, acount = 4,
       achild_size = 0, asize = Some 0\<rparr>]\<rparr>"

lemma a_class_simps [simp]:
  "children (a_class p par ch n) = Some ch" "parents (a_class p par ch n) = Some par" "cyc_head (a_class p par ch n) = p"
  "cyc_next (a_class p par ch n) = NULL" "top_order (a_class p par ch n) = n" "cisize (a_class p par ch n) = Some 8"
  "child_size (a_class p par ch n) = 0" "cyc_num (a_class p par ch n) = 0"
  by (simp_all add: a_class_def cinfo.defs)

lemma two_classes_simps [simp]:
  "gclasses (two_classes n) 5 = Some (a_class 5 NULL 3 n)" "dom (gclasses (two_classes n)) = {5, 6}"
  "garcs (two_classes n) 3 = Some \<lparr>aparent = 5, achild = 6, next_parent = NULL, next_child = NULL, acount = 4,
     achild_size = 0, asize = Some 0\<rparr>"
  "gclasses (two_classes n) 6 = Some (a_class 6 3 NULL (if n = 0 then 0 else n - 1))" "dfn_counter (two_classes n) = n"
  by (auto simp: two_classes_def)

lemma two_classes_ranked: "ranked (\<lambda>p. 6 - p) (two_classes n)"
  unfolding ranked_def
proof (intro allI impI)
  fix p c assume c: "gclasses (two_classes n) p = Some c"
  let ?R = "\<lambda>x. \<exists>a. garcs (two_classes n) x = Some a \<and> achild a \<in> dom (gclasses (two_classes n)) \<and> 6 - achild a < 6 - p"
  from c have "p \<in> {5, 6}" using two_classes_simps(2) [of n] by blast
  moreover have "\<exists>arc xs. children c = Some arc \<and> chain (garcs (two_classes n)) next_child arc xs \<and> (\<forall>x \<in> set xs. ?R x)"
    if "p = 5"
    using that c by (intro exI [of _ 3] exI [of _ "[3]"]) auto
  moreover have "\<exists>arc xs. children c = Some arc \<and> chain (garcs (two_classes n)) next_child arc xs \<and> (\<forall>x \<in> set xs. ?R x)"
    if "p = 6"
    using that c by (intro exI [of _ NULL] exI [of _ "[]"]) auto
  ultimately show "p \<noteq> NULL \<and> cyc_head c = p \<and> cyc_next c = NULL \<and> (\<exists>arc xs. children c = Some arc \<and>
      chain (garcs (two_classes n)) next_child arc xs \<and> (\<forall>x \<in> set xs. ?R x))"
    using c by auto
qed

lemma two_classes_numbered:
  assumes "n = 0 \<or> 1 < n"
  shows "numbered (two_classes n)"
proof -
  have o: "order_of (two_classes n) p = (if p = 5 then n else if p = 6 then (if n = 0 then 0 else n - 1) else 0)" for p
    by (simp add: order_of_def two_classes_def)
  have c: "chain (garcs (two_classes n)) next_child 3 [3]" "chain (garcs (two_classes n)) next_child NULL []" by simp_all
  have "q = 6" if q: "arc_between (two_classes n) 5 q" for q
  proof -
    obtain xs x a where "chain (garcs (two_classes n)) next_child 3 xs" "x \<in> set xs"
        "garcs (two_classes n) x = Some a" "achild a = q"
      using q unfolding arc_between_def by auto
    with chain_unique [OF _ c(1)] show ?thesis by fastforce
  qed
  moreover have "\<not> arc_between (two_classes n) 6 q" for q
  proof
    assume "arc_between (two_classes n) 6 q"
    then obtain xs x where "chain (garcs (two_classes n)) next_child NULL xs" "x \<in> set xs"
      unfolding arc_between_def by auto
    with chain_unique [OF _ c(2)] show False by fastforce
  qed
  ultimately show ?thesis using assms by (auto simp: numbered_def o)
qed

theorem graph_numbering_witness:
  "\<exists>s'. mg_dfn 2 5 (two_classes 0) = Some s' \<and> dfs_step (two_classes 0) s' \<and> numbered s' \<and> 0 < order_of s' 5"
  by (rule graph_numbering [OF two_classes_ranked two_classes_numbered])
    (simp_all add: order_of_def two_classes_def new_graph_def stack_room_def MAX_TALLOC_SIZE_def)

text \<open>
  C38. Sizes: in a numbered graph without cycles \<open>prop_size\<close> returns and adds to the \<open>child_size\<close> of the
  class, for each of its arcs that was followed at least once, the size and the \<open>child_size\<close> of the
  class the arc leads to. No other class changes.
\<close>

theorem graph_sizes:
  assumes "ranked rank s" "numbered s" "gclasses s ho = Some h" "0 < top_order h"
    and "children h = Some arc" "chain (garcs s) next_child arc xs" "distinct xs"
    and "\<forall>p c. gclasses s p = Some c \<longrightarrow> cisize c \<noteq> None" "cisize h \<noteq> Some 0"
  shows "\<exists>s'. prop_size ho s = Some s' \<and>
    gclasses s' = (gclasses s)(ho \<mapsto> h\<lparr>child_size := child_size h + sum_list (map (inherited s) xs)\<rparr>)"
  using assms by (rule prop_size_correct)

theorem graph_sizes_witness:
  "\<exists>s'. prop_size 5 (two_classes 2) = Some s' \<and>
    gclasses s' = (gclasses (two_classes 2))(5 \<mapsto> (a_class 5 NULL 3 2)\<lparr>child_size := 8\<rparr>)"
proof -
  have "cisize c \<noteq> None" if "gclasses (two_classes 2) p = Some c" for p c
    using that by (auto simp: two_classes_def split: if_splits)
  moreover have "inherited (two_classes 2) 3 = 8" by (simp add: inherited_def)
  ultimately show ?thesis
    using graph_sizes [OF two_classes_ranked two_classes_numbered, of 2 5 "a_class 5 NULL 3 2" 3 "[3]"] by auto
qed

text \<open>
  C39. Sorting the callers: \<open>sort_parents\<close> turns the list of arcs into a class into a permutation of it in
  which \<open>cmp_arc\<close> finds no arc before its successor greater, as long as no size or count is so
  large that a difference wraps around. Only the links of these arcs and the head of the list change.
\<close>

theorem callers_sorted:
  assumes "gclasses s ho = Some i" "parents i = Some arc" "chain (garcs s) next_parent arc xs" "distinct xs"
    and "\<forall>x \<in> set xs. small_arc s x"
  shows "\<exists>s' p ys. sort_parents ho s = Some s' \<and> gclasses s' = (gclasses s)(ho \<mapsto> i\<lparr>parents := Some p\<rparr>) \<and>
    chain (garcs s') next_parent p ys \<and> mset ys = mset xs \<and>
    successively (\<lambda>x y. the (cmp_arc s x y) \<le> 0) ys \<and> map_option arc_core \<circ> garcs s' = map_option arc_core \<circ> garcs s"
proof -
  let ?c = "\<lambda>x y. the (cmp_arc s x y)"
  have cmp: "\<forall>x \<in> set xs. \<forall>y \<in> set xs. cmp_arc s x y = Some (?c x y)"
    using cmp_arc_small [of s] assms(5) by (metis option.sel)
  have "\<forall>x \<in> set xs. \<forall>y \<in> set xs. x \<noteq> y \<longrightarrow> 0 \<ge> ?c x y \<or> 0 \<ge> ?c y x"
    using cmp_arc_small [of s] assms(5) by (metis linorder_not_le option.sel)
  from sorted_arcs_successively [OF assms(4), of "\<lambda>r. 0 \<ge> r", OF this]
    sort_parents_correct [OF assms(1-4) cmp] sorted_arcs_mset show ?thesis by blast
qed

text \<open>
  Sorting the arcs out of a class: the same of \<open>sort_children\<close>, in the opposite order, provided at most
  one of the arcs is from the class to itself.
\<close>

theorem callees_sorted:
  assumes "gclasses s ho = Some i" "children i = Some arc" "chain (garcs s) next_child arc xs" "distinct xs"
    and "\<forall>x \<in> set xs. small_arc s x" "\<forall>x \<in> set xs. \<forall>y \<in> set xs. self_arc s x \<and> self_arc s y \<longrightarrow> x = y"
  shows "\<exists>s' p ys. sort_children ho s = Some s' \<and> gclasses s' = (gclasses s)(ho \<mapsto> i\<lparr>children := Some p\<rparr>) \<and>
    chain (garcs s') next_child p ys \<and> mset ys = mset xs \<and>
    successively (\<lambda>x y. 0 \<le> the (cmp_arc s x y)) ys \<and> map_option arc_core \<circ> garcs s' = map_option arc_core \<circ> garcs s"
proof -
  let ?c = "\<lambda>x y. the (cmp_arc s x y)"
  have cmp: "\<forall>x \<in> set xs. \<forall>y \<in> set xs. cmp_arc s x y = Some (?c x y)"
    using cmp_arc_small [of s] assms(5) by (metis option.sel)
  have "\<forall>x \<in> set xs. \<forall>y \<in> set xs. x \<noteq> y \<longrightarrow> 0 \<le> ?c x y \<or> 0 \<le> ?c y x"
    using cmp_arc_small [of s] assms(5,6) by (metis linorder_not_le option.sel)
  from sorted_arcs_successively [OF assms(4), of "\<lambda>r. 0 \<le> r", OF this]
    sort_children_correct [OF assms(1-4) cmp] sorted_arcs_mset show ?thesis by blast
qed

text \<open>Class 5 with an arc to itself and an arc between 5 and 6.\<close>

definition two_arcs :: "ptr \<Rightarrow> ptr \<Rightarrow> graph" where
  "two_arcs p q = (two_classes 0)\<lparr>
     gclasses := [5 \<mapsto> a_class 5 3 3 0, 6 \<mapsto> a_class 6 NULL NULL 0],
     garcs := [3 \<mapsto> \<lparr>aparent = 5, achild = 5, next_parent = 4, next_child = 4, acount = 4, achild_size = 0, asize = Some 0\<rparr>,
               4 \<mapsto> \<lparr>aparent = p, achild = q, next_parent = NULL, next_child = NULL, acount = 7, achild_size = 0, asize = Some 0\<rparr>]\<rparr>"

lemma two_arcs_simps [simp]:
  "gclasses (two_arcs p q) = [5 \<mapsto> a_class 5 3 3 0, 6 \<mapsto> a_class 6 NULL NULL 0]"
  "garcs (two_arcs p q) = [3 \<mapsto> \<lparr>aparent = 5, achild = 5, next_parent = 4, next_child = 4, acount = 4, achild_size = 0, asize = Some 0\<rparr>,
     4 \<mapsto> \<lparr>aparent = p, achild = q, next_parent = NULL, next_child = NULL, acount = 7, achild_size = 0, asize = Some 0\<rparr>]"
  by (simp_all add: two_arcs_def)

lemma two_arcs_small:
  assumes "{p, q} \<subseteq> {5, 6}"
  shows "\<forall>x \<in> set [3, 4]. small_arc (two_arcs p q) x"
  using assms by (auto simp: small_arc_def)

theorem callers_sorted_witness:
  "\<exists>s' p ys. sort_parents 5 (two_arcs 6 5) = Some s' \<and> chain (garcs s') next_parent p ys \<and> mset ys = {#3, 4#}"
  using callers_sorted [of "two_arcs 6 5" 5 "a_class 5 3 3 0" 3 "[3, 4]"] two_arcs_small [of 6 5] by fastforce

theorem callees_sorted_witness:
  "\<exists>s' p ys. sort_children 5 (two_arcs 5 6) = Some s' \<and> chain (garcs s') next_child p ys \<and> mset ys = {#3, 4#}"
proof -
  have "\<forall>x \<in> set [3, 4]. \<forall>y \<in> set [3, 4]. self_arc (two_arcs 5 6) x \<and> self_arc (two_arcs 5 6) y \<longrightarrow> x = y"
    by (auto simp: self_arc_def)
  then show ?thesis
    using callees_sorted [of "two_arcs 5 6" 5 "a_class 5 3 3 0" 3 "[3, 4]"] two_arcs_small [of 5 6] by fastforce
qed

text \<open>
  Printing the arcs never ends: the step of the loops of \<open>print_parents\<close> and \<open>print_children\<close> does not
  assign to the loop variable, so both functions run forever for every class that has an arc, and
  \<open>cyc_iter\<close> does for every head of a cycle with a further member.
\<close>

theorem arcs_never_printed:
  assumes "gclasses s ho = Some c"
  shows "(parents c = Some arc \<and> arc \<noteq> NULL \<longrightarrow> print_parents ho s = None) \<and>
    (children c = Some arc \<and> arc \<noteq> NULL \<longrightarrow> print_children ho s = None) \<and>
    (cyc_head c = ho \<and> cyc_next c \<noteq> NULL \<and> ho \<noteq> NULL \<longrightarrow> cyc_iter crc cycobj ho (jf, s) = None)"
proof (intro conjI impI; elim conjE)
  show "print_parents ho s = None" if "parents c = Some arc" "arc \<noteq> NULL"
    using assms that by (rule print_parents_stuck)
  show "print_children ho s = None" if "children c = Some arc" "arc \<noteq> NULL"
    using assms that by (rule print_children_stuck)
  show "cyc_iter crc cycobj ho (jf, s) = None" if "cyc_head c = ho" "cyc_next c \<noteq> NULL" "ho \<noteq> NULL"
    using assms that by (rule cyc_iter_stuck)
qed

theorem arcs_never_printed_witness: "print_children 5 (two_classes 0) = None"
  using arcs_never_printed [of "two_classes 0" 5 "a_class 5 NULL 3 0" 3] by simp

text \<open>
  The members of a cycle are not numbered: after \<open>mg_postvisit\<close> of the head of a cycle only the head
  has the new number, for the loop over the members writes to the head each time.
\<close>

theorem cycle_members_unnumbered:
  assumes "gclasses s ho = Some c" "cyc_head c = ho" "chain (gclasses s) cyc_next ho (ho # ms)"
  shows "mg_postvisit ho s = Some (s\<lparr>dfn_counter := dfn_counter s + 1, dfn_depth := dfn_depth s - 1,
    gclasses := (gclasses s)(ho \<mapsto> c\<lparr>top_order := dfn_counter s + 1\<rparr>)\<rparr>)"
  using assms by (rule mg_postvisit_correct)

theorem cycle_members_unnumbered_witness:
  "\<exists>s'. mg_postvisit 5 ((two_classes 0)\<lparr>gclasses := [5 \<mapsto> (a_class 5 NULL 3 0)\<lparr>cyc_next := 6\<rparr>, 6 \<mapsto> a_class 6 3 NULL 0]\<rparr>) = Some s' \<and>
    order_of s' 5 = 1 \<and> order_of s' 6 = 0"
  using cycle_members_unnumbered [of "(two_classes 0)\<lparr>gclasses := [5 \<mapsto> (a_class 5 NULL 3 0)\<lparr>cyc_next := 6\<rparr>, 6 \<mapsto> a_class 6 3 NULL 0]\<rparr>"
    5 "(a_class 5 NULL 3 0)\<lparr>cyc_next := 6\<rparr>" "[6]"]
  by (simp add: order_of_def two_classes_def)

section \<open>The program: main\<close>



end
